(* ===== verification/Ngx_Prelude.thy ===== *)
theory Ngx_Prelude
  imports Main "HOL-Library.Word"
begin

unbundle bit_operations_syntax

text \<open>
  Shared vocabulary of the development: bytes and byte strings, the return codes of nginx, the
  buffer an nginx parser reads from, and the one loop shape that the streaming parsers of
  \<^verbatim>\<open>src/http/ngx_http_parse.c\<close> have in common

  \<^verbatim>\<open>for (p = b->pos; p < b->last; p++) { ch = *p; switch (state) { ... } }\<close>

  which is the function \<open>scan\<close>. Locales state what a parser built on that loop owes its
  callers: \<open>byte_scanner\<close> (a step never looks past the byte it is given, so that input may be
  delivered in pieces) and \<open>scan_invariant\<close> (an invariant of the step is an invariant of the
  loop). The parsers interpret both on their own steps.
\<close>

named_theorems step_defs "unfolding of the per-state steps of a parser"

section \<open>Bytes and byte strings\<close>

type_synonym byte = "8 word"

text \<open>A C character constant and a C string literal as bytes.\<close>

abbreviation B :: "char \<Rightarrow> byte" where
  "B c \<equiv> of_char c"

abbreviation bytes :: "string \<Rightarrow> byte list" where
  "bytes s \<equiv> map of_char s"

abbreviation CR :: byte where "CR \<equiv> 0x0d"
abbreviation LF :: byte where "LF \<equiv> 0x0a"
abbreviation SP :: byte where "SP \<equiv> 0x20"

text \<open>The numeric value of a C expression such as \<open>ch - '0'\<close>.\<close>

definition digit_val :: "byte \<Rightarrow> nat" where
  "digit_val ch = unat (ch - B CHR ''0'')"

definition is_digit :: "byte \<Rightarrow> bool" where
  "is_digit ch \<longleftrightarrow> B CHR ''0'' \<le> ch \<and> ch \<le> B CHR ''9''"

text \<open>A property of all bytes is a property of the 256 numerals, which the kernel can evaluate.\<close>

lemma byte_all: "(\<forall>x::byte. P x) \<longleftrightarrow> list_all (\<lambda>n. P (word_of_nat n)) [0..<256]"
proof
  assume *: "list_all (\<lambda>n. P (word_of_nat n)) [0..<256]"
  show "\<forall>x::byte. P x"
  proof
    fix x :: byte
    have "unat x < 2 ^ 8" by (rule order_less_le_trans [OF unsigned_less]) simp
    then have "unat x \<in> set [0..<256]" by simp
    with * have "P (word_of_nat (unat x))" unfolding list_all_iff by blast
    then show "P x" by simp
  qed
qed (simp add: list_all_iff)

lemma unat_byte_less [simp]: "unat (x :: byte) < 256"
  using unsigned_less [of x] by simp

lemma unat_minus_byte: "(y :: byte) \<le> x \<Longrightarrow> unat (x - y) = unat x - unat y"
  by (simp add: unat_sub)

lemma digit_val_eq: "is_digit ch \<Longrightarrow> digit_val ch = unat ch - 48"
  by (simp add: digit_val_def is_digit_def unat_minus_byte)

lemma digit_val_le [simp]: "is_digit ch \<Longrightarrow> digit_val ch \<le> 9"
  by (simp add: digit_val_eq) (auto simp: is_digit_def word_le_nat_alt)

lemma digit_val_pos: "\<not> ch < 49 \<Longrightarrow> \<not> 57 < ch \<Longrightarrow> 0 < digit_val ch"
proof -
  assume a: "\<not> ch < 49" "\<not> 57 < ch"
  then have "49 \<le> unat ch" "unat ch \<le> 57" by (simp_all add: word_less_nat_alt not_less)
  moreover from this have "is_digit ch" by (simp add: is_digit_def word_le_nat_alt)
  ultimately show ?thesis by (simp add: digit_val_eq)
qed

text \<open>The test \<open>c = (u_char) (ch | 0x20); if (c >= 'a' && c <= 'f')\<close>.\<close>

definition is_hex_alpha :: "byte \<Rightarrow> bool" where
  "is_hex_alpha ch \<longleftrightarrow> (let c = ch OR 0x20 in B CHR ''a'' \<le> c \<and> c \<le> B CHR ''f'')"

text \<open>The value \<open>c - 'a'\<close> for that \<open>c\<close>.\<close>

definition hex_alpha_val :: "byte \<Rightarrow> byte" where
  "hex_alpha_val ch = (ch OR 0x20) - B CHR ''a''"

lemma hex_digit_bounds:
  "is_digit ch \<Longrightarrow> unat (ch - 48) < 10"
  "is_hex_alpha ch \<Longrightarrow> unat (hex_alpha_val ch) < 6"
  by (auto simp: is_digit_def is_hex_alpha_def hex_alpha_val_def Let_def unat_minus_byte word_le_nat_alt)

section \<open>Return codes and buffers\<close>

text \<open>
  The values of \<open>ngx_int_t\<close> that the modelled functions return (\<^verbatim>\<open>src/core/ngx_core.h\<close>,
  \<^verbatim>\<open>src/http/ngx_http_request.h\<close>).
\<close>

datatype ngx_int =
    NGX_OK | NGX_ERROR | NGX_AGAIN | NGX_BUSY | NGX_DONE | NGX_DECLINED
  | NGX_HTTP_PARSE_HEADER_DONE
  | NGX_HTTP_PARSE_INVALID_METHOD
  | NGX_HTTP_PARSE_INVALID_REQUEST
  | NGX_HTTP_PARSE_INVALID_VERSION
  | NGX_HTTP_PARSE_INVALID_09_METHOD
  | NGX_HTTP_PARSE_INVALID_HEADER

text \<open>The maxima of the signed integer types on a 64-bit Linux.\<close>

definition NGX_MAX_INT_T_VALUE :: nat where "NGX_MAX_INT_T_VALUE = 9223372036854775807"
definition NGX_MAX_SIZE_T_VALUE :: nat where "NGX_MAX_SIZE_T_VALUE = 9223372036854775807"
definition NGX_MAX_OFF_T_VALUE :: nat where "NGX_MAX_OFF_T_VALUE = 9223372036854775807"
definition NGX_MAX_TIME_T_VALUE :: nat where "NGX_MAX_TIME_T_VALUE = 9223372036854775807"

text \<open>
  The part of \<open>ngx_buf_t\<close> a parser uses: \<open>data\<close> holds the bytes from the start of the buffer up
  to \<open>b->last\<close>, so \<open>b->last\<close> is \<open>length (data b)\<close>, and a pointer into the buffer is an offset.
\<close>

record ngx_buf =
  pos :: nat
  data :: "byte list"

text \<open>The bytes of the buffer from offset \<open>i\<close> up to offset \<open>j\<close>.\<close>

definition slice :: "byte list \<Rightarrow> nat \<Rightarrow> nat \<Rightarrow> byte list" where
  "slice buf i j = take (j - i) (drop i buf)"

lemma slice_Suc: "s \<le> p \<Longrightarrow> p < length buf \<Longrightarrow> slice buf s (Suc p) = slice buf s p @ [buf ! p]"
proof -
  assume a: "s \<le> p" "p < length buf"
  then have "take (Suc (p - s)) (drop s buf) = take (p - s) (drop s buf) @ [drop s buf ! (p - s)]"
    by (intro take_Suc_conv_app_nth) auto
  with a show ?thesis by (simp add: slice_def Suc_diff_le)
qed

lemma slice_self [simp]: "slice buf s s = []"
  by (simp add: slice_def)

lemma length_slice [simp]: "s \<le> p \<Longrightarrow> p \<le> length buf \<Longrightarrow> length (slice buf s p) = p - s"
  by (simp add: slice_def)

lemma slice_drop: "drop k (slice buf s lim) = slice buf (s + k) lim"
  by (simp add: slice_def drop_take add.commute)

lemma slice_middle: "slice (xs @ ys @ zs) (length xs) (length xs + length ys) = ys"
  by (simp add: slice_def)

text \<open>The pieces of a string between separators.\<close>

fun split_on :: "byte \<Rightarrow> byte list \<Rightarrow> byte list list" where
  "split_on c [] = [[]]"
| "split_on c (x # s) = (if x = c then [] # split_on c s else (x # hd (split_on c s)) # tl (split_on c s))"

lemma split_on_no: "c \<notin> set s \<Longrightarrow> split_on c s = [s]"
  by (induction s) auto

lemma split_on_append: "c \<notin> set s \<Longrightarrow> split_on c (s @ c # t) = s # split_on c t"
  by (induction s) auto

lemma find_append: "find P (xs @ ys) = (case find P xs of None \<Rightarrow> find P ys | Some x \<Rightarrow> Some x)"
  by (induction xs) auto

section \<open>The scanning loop\<close>

text \<open>
  What one round of the loop does: go on with the next byte (a \<open>break\<close> out of the \<open>switch\<close>), or
  leave the loop (a \<open>return\<close> or a \<open>goto\<close>).
\<close>

datatype ('s, 'r) ctl = Next 's | Exit 'r

text \<open>
  \<open>scan f p bs s\<close> runs the loop from offset \<open>p\<close> over the bytes \<open>bs\<close> that start there; the result
  is the value of \<open>p\<close> after the loop and how the loop was left.
\<close>

fun scan :: "(nat \<Rightarrow> byte \<Rightarrow> 's \<Rightarrow> ('s, 'r) ctl) \<Rightarrow> nat \<Rightarrow> byte list \<Rightarrow> 's \<Rightarrow> nat \<times> ('s, 'r) ctl" where
  "scan f p [] s = (p, Next s)"
| "scan f p (ch # bs) s =
     (case f p ch s of Next s' \<Rightarrow> scan f (Suc p) bs s' | Exit r \<Rightarrow> (p, Exit r))"

text \<open>The loop over all bytes of a buffer from \<open>b->pos\<close> on.\<close>

definition scan_buf :: "(byte list \<Rightarrow> nat \<Rightarrow> byte \<Rightarrow> 's \<Rightarrow> ('s, 'r) ctl) \<Rightarrow> ngx_buf \<Rightarrow> 's \<Rightarrow> nat \<times> ('s, 'r) ctl" where
  "scan_buf step b s = scan (step (data b)) (pos b) (drop (pos b) (data b)) s"

lemma scan_append:
  "scan f p (xs @ ys) s =
     (case scan f p xs s of (q, Next s') \<Rightarrow> scan f q ys s' | (q, Exit r) \<Rightarrow> (q, Exit r))"
  by (induction f p xs s rule: scan.induct) (auto split: ctl.splits)

lemma scan_Next_pos: "scan f p bs s = (q, Next s') \<Longrightarrow> q = p + length bs"
  by (induction f p bs s rule: scan.induct) (auto split: ctl.splits)

lemma scan_Exit_pos: "scan f p bs s = (q, Exit r) \<Longrightarrow> p \<le> q \<and> q < p + length bs"
proof (induction f p bs s rule: scan.induct)
  case (2 f p ch bs s)
  then show ?case by (cases "f p ch s") auto
qed simp

lemma scan_Exit_step: "scan f p bs s = (q, Exit r) \<Longrightarrow> \<exists>ch s'. f q ch s' = Exit r"
proof (induction f p bs s rule: scan.induct)
  case (2 f p ch bs s)
  then show ?case by (cases "f p ch s") auto
qed simp

lemma scan_cong:
  "(\<And>i s. i < length bs \<Longrightarrow> f (p + i) (bs ! i) s = g (p + i) (bs ! i) s) \<Longrightarrow>
     scan f p bs s = scan g p bs s"
proof (induction bs arbitrary: p s)
  case (Cons ch bs)
  have "f p ch s = g p ch s" using Cons.prems [of 0 s] by simp
  moreover have "scan f (Suc p) bs s' = scan g (Suc p) bs s'" for s'
    by (rule Cons.IH) (use Cons.prems [of "Suc _"] in auto)
  ultimately show ?case by (simp split: ctl.splits)
qed simp

text \<open>
  A change \<open>g\<close> of the loop's variables that the step does not look at can be made before or after
  the loop.
\<close>

lemma scan_map:
  assumes "\<And>p ch s. f p ch (g s) = map_ctl g h (f p ch s)"
  shows "scan f p bs (g s) = map_prod id (map_ctl g h) (scan f p bs s)"
  using assms by (induction bs arbitrary: p s) (auto split: ctl.splits)

section \<open>Streaming parsers\<close>

text \<open>
  The contract of a step with its buffer: at offset \<open>p\<close> it may read the bytes up to and including
  offset \<open>p\<close>, so bytes that arrive later make no difference.
\<close>

locale byte_scanner =
  fixes step :: "byte list \<Rightarrow> nat \<Rightarrow> byte \<Rightarrow> 's \<Rightarrow> ('s, 'r) ctl"
  assumes step_prefix: "p < length buf \<Longrightarrow> step (buf @ ys) p ch s = step buf p ch s"
begin

lemma scan_prefix:
  assumes "p + length bs \<le> length buf"
  shows "scan (step (buf @ ys)) p bs s = scan (step buf) p bs s"
  using assms by (intro scan_cong step_prefix) simp

text \<open>
  A loop that ran out of input and is entered again with more of it does what one loop over the
  whole input does; a loop that was left early ignores what comes after.
\<close>

lemma scan_buf_resume:
  assumes "pos b \<le> length (data b)" "scan_buf step b s = (q, Next s')"
  shows "q = length (data b)"
    and "scan_buf step \<lparr>pos = pos b, data = data b @ ys\<rparr> s =
         scan_buf step \<lparr>pos = q, data = data b @ ys\<rparr> s'"
proof -
  from assms show q: "q = length (data b)"
    by (auto simp: scan_buf_def dest: scan_Next_pos)
  have "scan (step (data b @ ys)) (pos b) (drop (pos b) (data b)) s = (q, Next s')"
    using assms by (simp add: scan_buf_def scan_prefix)
  then show "scan_buf step \<lparr>pos = pos b, data = data b @ ys\<rparr> s =
         scan_buf step \<lparr>pos = q, data = data b @ ys\<rparr> s'"
    using assms(1) q by (simp add: scan_buf_def scan_append)
qed

lemma scan_buf_exit:
  assumes "pos b \<le> length (data b)" "scan_buf step b s = (q, Exit r)"
  shows "scan_buf step \<lparr>pos = pos b, data = data b @ ys\<rparr> s = (q, Exit r)"
proof -
  have "scan (step (data b @ ys)) (pos b) (drop (pos b) (data b)) s = (q, Exit r)"
    using assms by (simp add: scan_buf_def scan_prefix)
  then show ?thesis
    using assms(1) by (simp add: scan_buf_def scan_append)
qed

end

text \<open>
  A parser stores its loop variables in the request when it runs out of input. The step must not
  look at these copies: \<open>g x\<close> overwrites them with \<open>x\<close>, and doing so before a step is doing so
  after it. Then a parser entered again continues as if it had never stopped.
\<close>

locale resumable_scanner = byte_scanner step
  for step :: "byte list \<Rightarrow> nat \<Rightarrow> byte \<Rightarrow> 's \<Rightarrow> ('s, 'r) ctl" +
  fixes g :: "'x \<Rightarrow> 's \<Rightarrow> 's" and h :: "'x \<Rightarrow> 'r \<Rightarrow> 'r"
  assumes step_frame: "step buf p ch (g x s) = map_ctl (g x) (h x) (step buf p ch s)"
begin

lemma scan_buf_frame: "scan_buf step b (g x s) = map_prod id (map_ctl (g x) (h x)) (scan_buf step b s)"
  unfolding scan_buf_def by (rule scan_map) (rule step_frame)

lemma scan_buf_continue:
  assumes "pos b \<le> length (data b)" "scan_buf step b s = (q, Next s')"
  shows "scan_buf step \<lparr>pos = q, data = data b @ ys\<rparr> (g x s') =
         map_prod id (map_ctl (g x) (h x)) (scan_buf step \<lparr>pos = pos b, data = data b @ ys\<rparr> s)"
  using scan_buf_resume(2) [OF assms] by (simp add: scan_buf_frame)

end

text \<open>
  Invariants: \<open>inv\<close> relates the buffer, the offset of the next byte and the parser's variables;
  \<open>post\<close> is what holds when the loop is left at offset \<open>p\<close>.
\<close>

locale scan_invariant =
  fixes step :: "byte list \<Rightarrow> nat \<Rightarrow> byte \<Rightarrow> 's \<Rightarrow> ('s, 'r) ctl"
    and inv :: "byte list \<Rightarrow> nat \<Rightarrow> 's \<Rightarrow> bool"
    and post :: "byte list \<Rightarrow> nat \<Rightarrow> 'r \<Rightarrow> bool"
  assumes step_Next: "p < length buf \<Longrightarrow> inv buf p s \<Longrightarrow> step buf p (buf ! p) s = Next s' \<Longrightarrow> inv buf (Suc p) s'"
    and step_Exit: "p < length buf \<Longrightarrow> inv buf p s \<Longrightarrow> step buf p (buf ! p) s = Exit r \<Longrightarrow> post buf p r"
begin

lemma scan_drop:
  assumes "p \<le> length buf" "inv buf p s" "scan (step buf) p (drop p buf) s = (q, c)"
  shows "p \<le> q \<and> q \<le> length buf \<and>
         (case c of Next s' \<Rightarrow> q = length buf \<and> inv buf q s' | Exit r \<Rightarrow> q < length buf \<and> post buf q r)"
  using assms
proof (induction "length buf - p" arbitrary: p s)
  case 0
  then show ?case by auto
next
  case (Suc n)
  then have p: "p < length buf" by simp
  have d: "drop p buf = buf ! p # drop (Suc p) buf" using p by (simp add: Cons_nth_drop_Suc)
  show ?case
  proof (cases "step buf p (buf ! p) s")
    case (Next s')
    moreover from Next have "inv buf (Suc p) s'" using step_Next p Suc.prems(2) by blast
    moreover have "scan (step buf) (Suc p) (drop (Suc p) buf) s' = (q, c)"
      using Suc.prems(3) d Next by simp
    ultimately have "Suc p \<le> q \<and> q \<le> length buf \<and>
        (case c of Next s' \<Rightarrow> q = length buf \<and> inv buf q s' | Exit r \<Rightarrow> q < length buf \<and> post buf q r)"
      using Suc.hyps p by (intro Suc.hyps(1)) auto
    then show ?thesis by simp
  next
    case (Exit r)
    then have "post buf p r" using step_Exit p Suc.prems(2) by blast
    moreover have "q = p" "c = Exit r" using Suc.prems(3) d Exit by auto
    ultimately show ?thesis using p by simp
  qed
qed

lemma scan_buf_inv:
  assumes "pos b \<le> length (data b)" "inv (data b) (pos b) s" "scan_buf step b s = (q, c)"
  shows "pos b \<le> q \<and> q \<le> length (data b) \<and>
         (case c of Next s' \<Rightarrow> q = length (data b) \<and> inv (data b) q s'
                  | Exit r \<Rightarrow> q < length (data b) \<and> post (data b) q r)"
  using scan_drop [OF assms(1,2)] assms(3) unfolding scan_buf_def by blast

end

end
