(* ===== verification/Ngx_Http_Request_Line.thy ===== *)
theory Ngx_Http_Request_Line
  imports Ngx_Prelude
begin

text \<open>
  The request line parser \<^verbatim>\<open>ngx_http_parse_request_line\<close> of \<^verbatim>\<open>src/http/ngx_http_parse.c\<close>, one
  definition per \<open>case\<close> of its \<open>switch (state)\<close>. Pointers are offsets into the buffer; those that
  the code compares with \<open>NULL\<close> are of type \<open>nat option\<close>. The lemmas show that the parser may be
  fed in pieces, that the offsets it stores are ordered and stay inside the buffer, that scheme, host,
  port and protocol stand where the request says, that the version it accepts is bounded, and that it accepts every well-formed HTTP/1.x request line with
  the intended result.
\<close>

section \<open>Data\<close>

text \<open>The \<open>enum\<close> of parser states.\<close>

datatype rl_state =
    sw_start | sw_method | sw_spaces_before_uri | sw_schema | sw_schema_slash
  | sw_schema_slash_slash | sw_host_start | sw_host | sw_host_end | sw_host_ip_literal
  | sw_port | sw_after_slash_in_uri | sw_check_uri | sw_uri | sw_http_09
  | sw_http_H | sw_http_HT | sw_http_HTT | sw_http_HTTP
  | sw_first_major_digit | sw_major_digit | sw_first_minor_digit | sw_minor_digit
  | sw_spaces_after_digit | sw_almost_done

datatype ngx_http_method =
    NGX_HTTP_UNKNOWN | NGX_HTTP_GET | NGX_HTTP_HEAD | NGX_HTTP_POST | NGX_HTTP_PUT
  | NGX_HTTP_DELETE | NGX_HTTP_MKCOL | NGX_HTTP_COPY | NGX_HTTP_MOVE | NGX_HTTP_OPTIONS
  | NGX_HTTP_PROPFIND | NGX_HTTP_PROPPATCH | NGX_HTTP_LOCK | NGX_HTTP_UNLOCK
  | NGX_HTTP_PATCH | NGX_HTTP_TRACE | NGX_HTTP_CONNECT

text \<open>The fields of \<open>ngx_http_request_t\<close> that the request line and URI parsers use.\<close>

record ngx_http_request =
  state :: rl_state
  request_start :: nat
  request_end :: "nat option"
  "method" :: ngx_http_method
  method_end :: nat
  schema_start :: nat
  schema_end :: nat
  host_start :: "nat option"
  host_end :: "nat option"
  uri_start :: nat
  uri_end :: nat
  uri_ext :: "nat option"
  args_start :: "nat option"
  complex_uri :: bool
  quoted_uri :: bool
  plus_in_uri :: bool
  empty_path_in_uri :: bool
  http_protocol_data :: nat
  http_major :: nat
  http_minor :: nat
  http_version :: nat

text \<open>How a \<open>case\<close> leaves the loop: with \<open>return rc\<close>, or with \<open>goto done\<close>.\<close>

datatype 'a jump = Return ngx_int 'a | Done 'a

type_synonym rl_ctl = "(rl_state \<times> ngx_http_request, ngx_http_request jump) ctl"

text \<open>The bitmap of characters that need no attention inside a URI.\<close>

definition usual_tab :: "32 word list" where
  "usual_tab = [0x00000000, 0x7fff37d6, 0xffffffff, 0x7fffffff,
                0xffffffff, 0xffffffff, 0xffffffff, 0xffffffff]"

text \<open>The test \<open>usual[ch >> 5] & (1U << (ch & 0x1f))\<close>.\<close>

definition usual :: "byte \<Rightarrow> bool" where
  "usual ch \<longleftrightarrow> usual_tab ! unat (drop_bit 5 ch) AND push_bit (unat (ch AND 0x1f)) 1 \<noteq> 0"

text \<open>The macros \<open>ngx_str3_cmp\<close> to \<open>ngx_str9cmp\<close>: the bytes at \<open>m\<close> are the given characters.\<close>

definition ngx_str_cmp :: "byte list \<Rightarrow> nat \<Rightarrow> string \<Rightarrow> bool" where
  "ngx_str_cmp buf m cs \<longleftrightarrow> take (length cs) (drop m buf) = bytes cs"

section \<open>The cases of the switch\<close>

definition invalid_request :: "ngx_http_request \<Rightarrow> rl_ctl" where
  "invalid_request r = Exit (Return NGX_HTTP_PARSE_INVALID_REQUEST r)"

text \<open>The character test of the method name, \<open>(ch < 'A' || ch > 'Z') && ch != '_' && ch != '-'\<close>.\<close>

definition not_method_char :: "byte \<Rightarrow> bool" where
  "not_method_char ch \<longleftrightarrow>
     (ch < B CHR ''A'' \<or> B CHR ''Z'' < ch) \<and> ch \<noteq> B CHR ''_'' \<and> ch \<noteq> B CHR ''-''"

definition rl_sw_start :: "nat \<Rightarrow> byte \<Rightarrow> ngx_http_request \<Rightarrow> rl_ctl" where
  [step_defs]: "rl_sw_start p ch r0 =
     (let r = r0\<lparr>request_start := p\<rparr> in
      if ch = CR \<or> ch = LF then Next (sw_start, r)
      else if not_method_char ch then Exit (Return NGX_HTTP_PARSE_INVALID_METHOD r)
      else Next (sw_method, r))"

text \<open>The inner \<open>switch (p - m)\<close> that recognises the known methods.\<close>

definition rl_method :: "byte list \<Rightarrow> nat \<Rightarrow> nat \<Rightarrow> ngx_http_method \<Rightarrow> ngx_http_method" where
  "rl_method buf m n old =
     (if n = 3 then
        (if ngx_str_cmp buf m ''GET '' then NGX_HTTP_GET
         else if ngx_str_cmp buf m ''PUT '' then NGX_HTTP_PUT
         else old)
      else if n = 4 then
        (if buf ! (m + 1) = B CHR ''O'' then
           (if ngx_str_cmp buf m ''POST'' then NGX_HTTP_POST
            else if ngx_str_cmp buf m ''COPY'' then NGX_HTTP_COPY
            else if ngx_str_cmp buf m ''MOVE'' then NGX_HTTP_MOVE
            else if ngx_str_cmp buf m ''LOCK'' then NGX_HTTP_LOCK
            else old)
         else if ngx_str_cmp buf m ''HEAD'' then NGX_HTTP_HEAD
         else old)
      else if n = 5 then
        (if ngx_str_cmp buf m ''MKCOL'' then NGX_HTTP_MKCOL
         else if ngx_str_cmp buf m ''PATCH'' then NGX_HTTP_PATCH
         else if ngx_str_cmp buf m ''TRACE'' then NGX_HTTP_TRACE
         else old)
      else if n = 6 then
        (if ngx_str_cmp buf m ''DELETE'' then NGX_HTTP_DELETE
         else if ngx_str_cmp buf m ''UNLOCK'' then NGX_HTTP_UNLOCK
         else old)
      else if n = 7 then
        (if ngx_str_cmp buf m ''OPTIONS '' then NGX_HTTP_OPTIONS
         else if ngx_str_cmp buf m ''CONNECT '' then NGX_HTTP_CONNECT
         else old)
      else if n = 8 then
        (if ngx_str_cmp buf m ''PROPFIND'' then NGX_HTTP_PROPFIND else old)
      else if n = 9 then
        (if ngx_str_cmp buf m ''PROPPATCH'' then NGX_HTTP_PROPPATCH else old)
      else old)"

definition rl_sw_method :: "byte list \<Rightarrow> nat \<Rightarrow> byte \<Rightarrow> ngx_http_request \<Rightarrow> rl_ctl" where
  [step_defs]: "rl_sw_method buf p ch r =
     (if ch = SP then
        Next (sw_spaces_before_uri,
              r\<lparr>method_end := p - 1,
                method := rl_method buf (request_start r) (p - request_start r) (method r)\<rparr>)
      else if not_method_char ch then Exit (Return NGX_HTTP_PARSE_INVALID_METHOD r)
      else Next (sw_method, r))"

text \<open>The test \<open>c = (u_char) (ch | 0x20); if (c >= 'a' && c <= 'z')\<close>.\<close>

definition is_alpha :: "byte \<Rightarrow> bool" where
  "is_alpha ch \<longleftrightarrow> (let c = ch OR 0x20 in B CHR ''a'' \<le> c \<and> c \<le> B CHR ''z'')"

definition rl_sw_spaces_before_uri :: "nat \<Rightarrow> byte \<Rightarrow> ngx_http_request \<Rightarrow> rl_ctl" where
  [step_defs]: "rl_sw_spaces_before_uri p ch r =
     (if ch = B CHR ''/'' then Next (sw_after_slash_in_uri, r\<lparr>uri_start := p\<rparr>)
      else if is_alpha ch then Next (sw_schema, r\<lparr>schema_start := p\<rparr>)
      else if ch = SP then Next (sw_spaces_before_uri, r)
      else invalid_request r)"

definition rl_sw_schema :: "nat \<Rightarrow> byte \<Rightarrow> ngx_http_request \<Rightarrow> rl_ctl" where
  [step_defs]: "rl_sw_schema p ch r =
     (if is_alpha ch then Next (sw_schema, r)
      else if is_digit ch \<or> ch = B CHR ''+'' \<or> ch = B CHR ''-'' \<or> ch = B CHR ''.''
      then Next (sw_schema, r)
      else if ch = B CHR '':'' then Next (sw_schema_slash, r\<lparr>schema_end := p\<rparr>)
      else invalid_request r)"

definition rl_sw_schema_slash :: "byte \<Rightarrow> ngx_http_request \<Rightarrow> rl_ctl" where
  [step_defs]: "rl_sw_schema_slash ch r =
     (if ch = B CHR ''/'' then Next (sw_schema_slash_slash, r) else invalid_request r)"

definition rl_sw_schema_slash_slash :: "byte \<Rightarrow> ngx_http_request \<Rightarrow> rl_ctl" where
  [step_defs]: "rl_sw_schema_slash_slash ch r =
     (if ch = B CHR ''/'' then Next (sw_host_start, r) else invalid_request r)"

definition rl_sw_host_end :: "nat \<Rightarrow> byte \<Rightarrow> ngx_http_request \<Rightarrow> rl_ctl" where
  [step_defs]: "rl_sw_host_end p ch r0 =
     (let r = r0\<lparr>host_end := Some p\<rparr> in
      if ch = B CHR '':'' then Next (sw_port, r)
      else if ch = B CHR ''/'' then Next (sw_after_slash_in_uri, r\<lparr>uri_start := p\<rparr>)
      else if ch = B CHR ''?'' then
        Next (sw_uri, r\<lparr>uri_start := p, args_start := Some (p + 1), empty_path_in_uri := True\<rparr>)
      else if ch = SP then
        Next (sw_http_09, r\<lparr>uri_start := schema_end r + 1, uri_end := schema_end r + 2\<rparr>)
      else invalid_request r)"

definition rl_sw_host :: "nat \<Rightarrow> byte \<Rightarrow> ngx_http_request \<Rightarrow> rl_ctl" where
  [step_defs]: "rl_sw_host p ch r =
     (if is_alpha ch then Next (sw_host, r)
      else if is_digit ch \<or> ch = B CHR ''.'' \<or> ch = B CHR ''-'' then Next (sw_host, r)
      else rl_sw_host_end p ch r)"

definition rl_sw_host_start :: "nat \<Rightarrow> byte \<Rightarrow> ngx_http_request \<Rightarrow> rl_ctl" where
  [step_defs]: "rl_sw_host_start p ch r0 =
     (let r = r0\<lparr>host_start := Some p\<rparr> in
      if ch = B CHR ''['' then Next (sw_host_ip_literal, r)
      else rl_sw_host p ch r)"

definition rl_sw_host_ip_literal :: "byte \<Rightarrow> ngx_http_request \<Rightarrow> rl_ctl" where
  [step_defs]: "rl_sw_host_ip_literal ch r =
     (if is_digit ch then Next (sw_host_ip_literal, r)
      else if is_alpha ch then Next (sw_host_ip_literal, r)
      else if ch = B CHR '':'' then Next (sw_host_ip_literal, r)
      else if ch = B CHR '']'' then Next (sw_host_end, r)
      else if ch \<in> set (bytes ''-._~'') then Next (sw_host_ip_literal, r)
      else if ch \<in> set (bytes ''!$&'' @ [0x27] @ bytes ''()*+,;='') then Next (sw_host_ip_literal, r)
      else invalid_request r)"

definition rl_sw_port :: "nat \<Rightarrow> byte \<Rightarrow> ngx_http_request \<Rightarrow> rl_ctl" where
  [step_defs]: "rl_sw_port p ch r =
     (if is_digit ch then Next (sw_port, r)
      else if ch = B CHR ''/'' then Next (sw_after_slash_in_uri, r\<lparr>uri_start := p\<rparr>)
      else if ch = B CHR ''?'' then
        Next (sw_uri, r\<lparr>uri_start := p, args_start := Some (p + 1), empty_path_in_uri := True\<rparr>)
      else if ch = SP then
        Next (sw_http_09, r\<lparr>uri_start := schema_end r + 1, uri_end := schema_end r + 2\<rparr>)
      else invalid_request r)"

definition rl_sw_after_slash_in_uri :: "nat \<Rightarrow> byte \<Rightarrow> ngx_http_request \<Rightarrow> rl_ctl" where
  [step_defs]: "rl_sw_after_slash_in_uri p ch r =
     (if usual ch then Next (sw_check_uri, r)
      else if ch = SP then Next (sw_http_09, r\<lparr>uri_end := p\<rparr>)
      else if ch = CR then Next (sw_almost_done, r\<lparr>uri_end := p, http_minor := 9\<rparr>)
      else if ch = LF then Exit (Done (r\<lparr>uri_end := p, http_minor := 9\<rparr>))
      else if ch = B CHR ''.'' then Next (sw_uri, r\<lparr>complex_uri := True\<rparr>)
      else if ch = B CHR ''%'' then Next (sw_uri, r\<lparr>quoted_uri := True\<rparr>)
      else if ch = B CHR ''/'' then Next (sw_uri, r\<lparr>complex_uri := True\<rparr>)
      else if ch = B CHR ''?'' then Next (sw_uri, r\<lparr>args_start := Some (p + 1)\<rparr>)
      else if ch = B CHR ''#'' then Next (sw_uri, r\<lparr>complex_uri := True\<rparr>)
      else if ch = B CHR ''+'' then Next (sw_after_slash_in_uri, r\<lparr>plus_in_uri := True\<rparr>)
      else if ch < 0x20 \<or> ch = 0x7f then invalid_request r
      else Next (sw_check_uri, r))"

definition rl_sw_check_uri :: "nat \<Rightarrow> byte \<Rightarrow> ngx_http_request \<Rightarrow> rl_ctl" where
  [step_defs]: "rl_sw_check_uri p ch r =
     (if usual ch then Next (sw_check_uri, r)
      else if ch = B CHR ''/'' then Next (sw_after_slash_in_uri, r\<lparr>uri_ext := None\<rparr>)
      else if ch = B CHR ''.'' then Next (sw_check_uri, r\<lparr>uri_ext := Some (p + 1)\<rparr>)
      else if ch = SP then Next (sw_http_09, r\<lparr>uri_end := p\<rparr>)
      else if ch = CR then Next (sw_almost_done, r\<lparr>uri_end := p, http_minor := 9\<rparr>)
      else if ch = LF then Exit (Done (r\<lparr>uri_end := p, http_minor := 9\<rparr>))
      else if ch = B CHR ''%'' then Next (sw_uri, r\<lparr>quoted_uri := True\<rparr>)
      else if ch = B CHR ''?'' then Next (sw_uri, r\<lparr>args_start := Some (p + 1)\<rparr>)
      else if ch = B CHR ''#'' then Next (sw_uri, r\<lparr>complex_uri := True\<rparr>)
      else if ch = B CHR ''+'' then Next (sw_check_uri, r\<lparr>plus_in_uri := True\<rparr>)
      else if ch < 0x20 \<or> ch = 0x7f then invalid_request r
      else Next (sw_check_uri, r))"

definition rl_sw_uri :: "nat \<Rightarrow> byte \<Rightarrow> ngx_http_request \<Rightarrow> rl_ctl" where
  [step_defs]: "rl_sw_uri p ch r =
     (if usual ch then Next (sw_uri, r)
      else if ch = SP then Next (sw_http_09, r\<lparr>uri_end := p\<rparr>)
      else if ch = CR then Next (sw_almost_done, r\<lparr>uri_end := p, http_minor := 9\<rparr>)
      else if ch = LF then Exit (Done (r\<lparr>uri_end := p, http_minor := 9\<rparr>))
      else if ch = B CHR ''#'' then Next (sw_uri, r\<lparr>complex_uri := True\<rparr>)
      else if ch < 0x20 \<or> ch = 0x7f then invalid_request r
      else Next (sw_uri, r))"

definition rl_sw_http_09 :: "nat \<Rightarrow> byte \<Rightarrow> ngx_http_request \<Rightarrow> rl_ctl" where
  [step_defs]: "rl_sw_http_09 p ch r =
     (if ch = SP then Next (sw_http_09, r)
      else if ch = CR then Next (sw_almost_done, r\<lparr>http_minor := 9\<rparr>)
      else if ch = LF then Exit (Done (r\<lparr>http_minor := 9\<rparr>))
      else if ch = B CHR ''H'' then Next (sw_http_H, r\<lparr>http_protocol_data := p\<rparr>)
      else invalid_request r)"

definition rl_sw_http_H :: "byte \<Rightarrow> ngx_http_request \<Rightarrow> rl_ctl" where
  [step_defs]: "rl_sw_http_H ch r =
     (if ch = B CHR ''T'' then Next (sw_http_HT, r) else invalid_request r)"

definition rl_sw_http_HT :: "byte \<Rightarrow> ngx_http_request \<Rightarrow> rl_ctl" where
  [step_defs]: "rl_sw_http_HT ch r =
     (if ch = B CHR ''T'' then Next (sw_http_HTT, r) else invalid_request r)"

definition rl_sw_http_HTT :: "byte \<Rightarrow> ngx_http_request \<Rightarrow> rl_ctl" where
  [step_defs]: "rl_sw_http_HTT ch r =
     (if ch = B CHR ''P'' then Next (sw_http_HTTP, r) else invalid_request r)"

definition rl_sw_http_HTTP :: "byte \<Rightarrow> ngx_http_request \<Rightarrow> rl_ctl" where
  [step_defs]: "rl_sw_http_HTTP ch r =
     (if ch = B CHR ''/'' then Next (sw_first_major_digit, r) else invalid_request r)"

definition rl_sw_first_major_digit :: "byte \<Rightarrow> ngx_http_request \<Rightarrow> rl_ctl" where
  [step_defs]: "rl_sw_first_major_digit ch r0 =
     (if ch < B CHR ''1'' \<or> B CHR ''9'' < ch then invalid_request r0
      else let r = r0\<lparr>http_major := digit_val ch\<rparr> in
        if 1 < http_major r then Exit (Return NGX_HTTP_PARSE_INVALID_VERSION r)
        else Next (sw_major_digit, r))"

definition rl_sw_major_digit :: "byte \<Rightarrow> ngx_http_request \<Rightarrow> rl_ctl" where
  [step_defs]: "rl_sw_major_digit ch r0 =
     (if ch = B CHR ''.'' then Next (sw_first_minor_digit, r0)
      else if \<not> is_digit ch then invalid_request r0
      else let r = r0\<lparr>http_major := http_major r0 * 10 + digit_val ch\<rparr> in
        if 1 < http_major r then Exit (Return NGX_HTTP_PARSE_INVALID_VERSION r)
        else Next (sw_major_digit, r))"

definition rl_sw_first_minor_digit :: "byte \<Rightarrow> ngx_http_request \<Rightarrow> rl_ctl" where
  [step_defs]: "rl_sw_first_minor_digit ch r =
     (if \<not> is_digit ch then invalid_request r
      else Next (sw_minor_digit, r\<lparr>http_minor := digit_val ch\<rparr>))"

definition rl_sw_minor_digit :: "byte \<Rightarrow> ngx_http_request \<Rightarrow> rl_ctl" where
  [step_defs]: "rl_sw_minor_digit ch r =
     (if ch = CR then Next (sw_almost_done, r)
      else if ch = LF then Exit (Done r)
      else if ch = SP then Next (sw_spaces_after_digit, r)
      else if \<not> is_digit ch then invalid_request r
      else if 99 < http_minor r then invalid_request r
      else Next (sw_minor_digit, r\<lparr>http_minor := http_minor r * 10 + digit_val ch\<rparr>))"

definition rl_sw_spaces_after_digit :: "byte \<Rightarrow> ngx_http_request \<Rightarrow> rl_ctl" where
  [step_defs]: "rl_sw_spaces_after_digit ch r =
     (if ch = SP then Next (sw_spaces_after_digit, r)
      else if ch = CR then Next (sw_almost_done, r)
      else if ch = LF then Exit (Done r)
      else invalid_request r)"

definition rl_sw_almost_done :: "nat \<Rightarrow> byte \<Rightarrow> ngx_http_request \<Rightarrow> rl_ctl" where
  [step_defs]: "rl_sw_almost_done p ch r0 =
     (let r = r0\<lparr>request_end := Some (p - 1)\<rparr> in
      if ch = LF then Exit (Done r) else invalid_request r)"

section \<open>The parser\<close>

text \<open>\<open>switch (state)\<close>.\<close>

fun rl_step :: "byte list \<Rightarrow> nat \<Rightarrow> byte \<Rightarrow> rl_state \<times> ngx_http_request \<Rightarrow> rl_ctl" where
  "rl_step buf p ch (st, r) =
     (case st of
        sw_start \<Rightarrow> rl_sw_start p ch r
      | sw_method \<Rightarrow> rl_sw_method buf p ch r
      | sw_spaces_before_uri \<Rightarrow> rl_sw_spaces_before_uri p ch r
      | sw_schema \<Rightarrow> rl_sw_schema p ch r
      | sw_schema_slash \<Rightarrow> rl_sw_schema_slash ch r
      | sw_schema_slash_slash \<Rightarrow> rl_sw_schema_slash_slash ch r
      | sw_host_start \<Rightarrow> rl_sw_host_start p ch r
      | sw_host \<Rightarrow> rl_sw_host p ch r
      | sw_host_end \<Rightarrow> rl_sw_host_end p ch r
      | sw_host_ip_literal \<Rightarrow> rl_sw_host_ip_literal ch r
      | sw_port \<Rightarrow> rl_sw_port p ch r
      | sw_after_slash_in_uri \<Rightarrow> rl_sw_after_slash_in_uri p ch r
      | sw_check_uri \<Rightarrow> rl_sw_check_uri p ch r
      | sw_uri \<Rightarrow> rl_sw_uri p ch r
      | sw_http_09 \<Rightarrow> rl_sw_http_09 p ch r
      | sw_http_H \<Rightarrow> rl_sw_http_H ch r
      | sw_http_HT \<Rightarrow> rl_sw_http_HT ch r
      | sw_http_HTT \<Rightarrow> rl_sw_http_HTT ch r
      | sw_http_HTTP \<Rightarrow> rl_sw_http_HTTP ch r
      | sw_first_major_digit \<Rightarrow> rl_sw_first_major_digit ch r
      | sw_major_digit \<Rightarrow> rl_sw_major_digit ch r
      | sw_first_minor_digit \<Rightarrow> rl_sw_first_minor_digit ch r
      | sw_minor_digit \<Rightarrow> rl_sw_minor_digit ch r
      | sw_spaces_after_digit \<Rightarrow> rl_sw_spaces_after_digit ch r
      | sw_almost_done \<Rightarrow> rl_sw_almost_done p ch r)"

declare rl_step.simps [simp del, step_defs]

text \<open>The code after the label \<open>done\<close>; \<open>p\<close> is the offset of the line feed.\<close>

definition rl_done :: "nat \<Rightarrow> ngx_http_request \<Rightarrow> ngx_buf \<Rightarrow> ngx_int \<times> ngx_http_request \<times> ngx_buf" where
  "rl_done p r0 b =
     (let r1 = (if request_end r0 = None then r0\<lparr>request_end := Some p\<rparr> else r0);
          r = r1\<lparr>http_version := http_major r1 * 1000 + http_minor r1, state := sw_start\<rparr>
      in (if http_version r = 9 \<and> method r \<noteq> NGX_HTTP_GET then NGX_HTTP_PARSE_INVALID_09_METHOD
          else NGX_OK,
          r, b\<lparr>pos := p + 1\<rparr>))"

definition ngx_http_parse_request_line ::
    "ngx_http_request \<Rightarrow> ngx_buf \<Rightarrow> ngx_int \<times> ngx_http_request \<times> ngx_buf" where
  "ngx_http_parse_request_line r0 b =
     (case scan_buf rl_step b (state r0, r0) of
        (p, Next (st, r)) \<Rightarrow> (NGX_AGAIN, r\<lparr>state := st\<rparr>, b\<lparr>pos := p\<rparr>)
      | (p, Exit (Return rc r)) \<Rightarrow> (rc, r, b)
      | (p, Exit (Done r)) \<Rightarrow> rl_done p r b)"


section \<open>Feeding the parser in pieces\<close>

lemma ngx_str_cmp_prefix:
  "m + length cs \<le> length buf \<Longrightarrow> ngx_str_cmp (buf @ ys) m cs = ngx_str_cmp buf m cs"
  by (simp add: ngx_str_cmp_def)

lemma rl_step_state:
  "rl_step buf p ch (st, r\<lparr>state := x\<rparr>) =
     map_ctl (map_prod id (state_update (\<lambda>_. x))) (map_jump (state_update (\<lambda>_. x)))
       (rl_step buf p ch (st, r))"
  by (cases st) (auto simp: step_defs invalid_request_def Let_def)

lemma rl_method_prefix:
  assumes "m + n < length buf"
  shows "rl_method (buf @ ys) m n old = rl_method buf m n old"
  using assms by (simp add: rl_method_def ngx_str_cmp_prefix nth_append)

lemma rl_method_0 [simp]: "rl_method buf m 0 old = old"
  by (simp add: rl_method_def)

lemma rl_step_prefix: "p < length buf \<Longrightarrow> rl_step (buf @ ys) p ch s = rl_step buf p ch s"
proof -
  assume p: "p < length buf"
  have "rl_method (buf @ ys) m (p - m) old = rl_method buf m (p - m) old" for m old
    by (cases "m \<le> p") (use p in \<open>auto simp: rl_method_prefix\<close>)
  then show ?thesis
    by (cases s) (simp add: rl_step.simps rl_sw_method_def split: rl_state.split)
qed

interpretation rl: byte_scanner rl_step
  by unfold_locales (rule rl_step_prefix)

text \<open>
  Two results of the parser agree as far as its callers can tell: on success and on
  \<open>NGX_AGAIN\<close> they are equal; on an error the code is the same and the request differs at most in
  the saved state, which the code does not write on these paths.
\<close>

definition rl_same :: "ngx_int \<times> ngx_http_request \<times> ngx_buf \<Rightarrow> ngx_int \<times> ngx_http_request \<times> ngx_buf \<Rightarrow> bool" where
  "rl_same = (\<lambda>(rc, r, b) (rc', r', b').
     rc = rc' \<and> r\<lparr>state := sw_start\<rparr> = r'\<lparr>state := sw_start\<rparr> \<and>
     (rc \<in> {NGX_OK, NGX_AGAIN, NGX_HTTP_PARSE_INVALID_09_METHOD} \<longrightarrow> r = r' \<and> b = b'))"

lemma rl_step_return:
  "rl_step buf p ch s = Exit (Return rc r) \<Longrightarrow>
     rc \<in> {NGX_HTTP_PARSE_INVALID_METHOD, NGX_HTTP_PARSE_INVALID_REQUEST, NGX_HTTP_PARSE_INVALID_VERSION}"
  by (cases s, cases "fst s")
     (auto simp: step_defs invalid_request_def Let_def split: if_splits)

lemma rl_done_same:
  "rl_same (rl_done p r b) (rl_done p (r\<lparr>state := x\<rparr>) (b\<lparr>pos := q\<rparr>))"
  by (simp add: rl_same_def rl_done_def Let_def)

lemma rl_scan_state:
  "scan_buf rl_step b (st, r\<lparr>state := x\<rparr>) =
     map_prod id (map_ctl (map_prod id (state_update (\<lambda>_. x))) (map_jump (state_update (\<lambda>_. x))))
       (scan_buf rl_step b (st, r))"
  using scan_map [of "rl_step (data b)" "map_prod id (state_update (\<lambda>_. x))"
      "map_jump (state_update (\<lambda>_. x))" "pos b" "drop (pos b) (data b)" "(st, r)"]
  by (auto simp: scan_buf_def rl_step_state)

lemma rl_scan_return:
  "scan_buf rl_step b s = (q, Exit (Return rc r)) \<Longrightarrow>
     rc \<in> {NGX_HTTP_PARSE_INVALID_METHOD, NGX_HTTP_PARSE_INVALID_REQUEST, NGX_HTTP_PARSE_INVALID_VERSION}"
  by (auto simp: scan_buf_def dest!: scan_Exit_step rl_step_return)

lemma rl_again_iff:
  "ngx_http_parse_request_line r b = (NGX_AGAIN, r', b') \<longleftrightarrow>
     (\<exists>st r1 q. scan_buf rl_step b (state r, r) = (q, Next (st, r1)) \<and> r' = r1\<lparr>state := st\<rparr> \<and> b' = b\<lparr>pos := q\<rparr>)"
  by (auto simp: ngx_http_parse_request_line_def rl_done_def Let_def
           split: prod.splits ctl.splits jump.splits if_splits dest: rl_scan_return)

text \<open>The request as \<open>ngx_http_alloc_request\<close> hands it out: zeroed memory and two fields set.\<close>

definition init_request :: ngx_http_request where
  "init_request =
     \<lparr>state = sw_start, request_start = 0, request_end = None, method = NGX_HTTP_UNKNOWN,
      method_end = 0, schema_start = 0, schema_end = 0, host_start = None, host_end = None,
      uri_start = 0, uri_end = 0, uri_ext = None, args_start = None, complex_uri = False,
      quoted_uri = False, plus_in_uri = False, empty_path_in_uri = False,
      http_protocol_data = 0, http_major = 0, http_minor = 0, http_version = 1000\<rparr>"

text \<open>
  C6. Delivering a request line in pieces does not change how it is parsed: after \<open>NGX_AGAIN\<close>,
  calling the parser again once more bytes have been appended to the buffer gives the result of one
  call on the whole input.
\<close>

theorem request_line_resume:
  assumes "pos b \<le> length (data b)"
    and "ngx_http_parse_request_line r b = (NGX_AGAIN, r', b')"
  shows "rl_same (ngx_http_parse_request_line r (b\<lparr>data := data b @ ys\<rparr>))
                 (ngx_http_parse_request_line r' (b'\<lparr>data := data b @ ys\<rparr>))"
proof -
  from assms(2) obtain st r1 q where s: "scan_buf rl_step b (state r, r) = (q, Next (st, r1))"
    and r': "r' = r1\<lparr>state := st\<rparr>" and b': "b' = b\<lparr>pos := q\<rparr>"
    by (auto simp: rl_again_iff)
  let ?B = "\<lparr>pos = q, data = data b @ ys\<rparr>"
  have whole: "scan_buf rl_step (b\<lparr>data := data b @ ys\<rparr>) (state r, r) = scan_buf rl_step ?B (st, r1)"
    using rl.scan_buf_resume(2) [OF assms(1) s, of ys] by (cases b) simp
  have bb: "b'\<lparr>data := data b @ ys\<rparr> = ?B" using b' by (cases b) simp
  obtain p c where "scan_buf rl_step ?B (st, r1) = (p, c)" by force
  then show ?thesis
    unfolding ngx_http_parse_request_line_def whole bb r'
    by (auto simp: rl_scan_state rl_same_def rl_done_def Let_def
             split: ctl.splits jump.splits dest: rl_scan_return)
qed

theorem request_line_resume_witness:
  "let b = \<lparr>pos = 0, data = bytes ''GET /a HT''\<rparr>;
       rest = bytes ''TP/1.1'' @ [CR, LF];
       (rc, r', b') = ngx_http_parse_request_line init_request b
   in rc = NGX_AGAIN \<and>
      rl_same (ngx_http_parse_request_line init_request (b\<lparr>data := data b @ rest\<rparr>))
              (ngx_http_parse_request_line r' (b'\<lparr>data := data b @ rest\<rparr>))"
proof -
  obtain rc r' b' where e: "ngx_http_parse_request_line init_request \<lparr>pos = 0, data = bytes ''GET /a HT''\<rparr> = (rc, r', b')"
    by (metis prod_cases3)
  have "fst (ngx_http_parse_request_line init_request \<lparr>pos = 0, data = bytes ''GET /a HT''\<rparr>) = NGX_AGAIN"
    by code_simp
  with e have "rc = NGX_AGAIN" by simp
  with request_line_resume [of "\<lparr>pos = 0, data = bytes ''GET /a HT''\<rparr>" init_request r' b'] e
  show ?thesis by (simp add: Let_def)
qed

section \<open>The offsets the parser stores\<close>

text \<open>
  The bytes from offset \<open>i\<close> to \<open>j\<close> are visible characters, as \<open>rl_sw_uri\<close> and its neighbours
  demand of a URI, or characters of a method name.
\<close>

definition uri_bytes :: "byte list \<Rightarrow> nat \<Rightarrow> nat \<Rightarrow> bool" where
  "uri_bytes buf i j \<longleftrightarrow> (\<forall>k. i \<le> k \<and> k < j \<longrightarrow> 0x20 < buf ! k \<and> buf ! k \<noteq> 0x7f)"

definition method_bytes :: "byte list \<Rightarrow> nat \<Rightarrow> nat \<Rightarrow> bool" where
  "method_bytes buf i j \<longleftrightarrow> (\<forall>k. i \<le> k \<and> k < j \<longrightarrow> \<not> not_method_char (buf ! k))"

lemma uri_bytes_Suc [simp]:
  "uri_bytes buf i (Suc j) \<longleftrightarrow> uri_bytes buf i j \<and> (i \<le> j \<longrightarrow> 0x20 < buf ! j \<and> buf ! j \<noteq> 0x7f)"
  by (auto simp: uri_bytes_def less_Suc_eq)

lemma uri_bytes_self [simp]: "uri_bytes buf i i"
  by (auto simp: uri_bytes_def)

lemma method_bytes_Suc [simp]:
  "method_bytes buf i (Suc j) \<longleftrightarrow> method_bytes buf i j \<and> (i \<le> j \<longrightarrow> \<not> not_method_char (buf ! j))"
  by (auto simp: method_bytes_def less_Suc_eq)

lemma method_bytes_self [simp]: "method_bytes buf i i"
  by (auto simp: method_bytes_def)

text \<open>\<open>rl_head p r\<close>: the method has been read and ends before offset \<open>p - 1\<close>.\<close>

definition rl_head :: "byte list \<Rightarrow> nat \<Rightarrow> ngx_http_request \<Rightarrow> bool" where
  "rl_head buf p r \<longleftrightarrow> request_start r \<le> method_end r \<and> method_end r + 2 \<le> p \<and>
     method_bytes buf (request_start r) (method_end r + 1)"

text \<open>\<open>rl_uri e r\<close>: the URI starts after the method and its bytes up to offset \<open>e\<close> are sound.\<close>

definition rl_uri :: "byte list \<Rightarrow> nat \<Rightarrow> ngx_http_request \<Rightarrow> bool" where
  "rl_uri buf e r \<longleftrightarrow> method_end r + 2 \<le> uri_start r \<and> uri_start r < e \<and> uri_bytes buf (uri_start r) e \<and>
     (\<forall>a. args_start r = Some a \<longrightarrow> uri_start r < a \<and> a \<le> e \<and> buf ! (a - 1) = B CHR ''?'') \<and>
     (\<forall>x. uri_ext r = Some x \<longrightarrow> uri_start r < x \<and> x \<le> e) \<and>
     buf ! uri_start r = (if empty_path_in_uri r then B CHR ''?'' else B CHR ''/'')"

definition rl_no_uri :: "ngx_http_request \<Rightarrow> bool" where
  "rl_no_uri r \<longleftrightarrow> args_start r = None \<and> uri_ext r = None \<and> \<not> empty_path_in_uri r"

definition rl_tail :: "byte list \<Rightarrow> nat \<Rightarrow> ngx_http_request \<Rightarrow> bool" where
  "rl_tail buf p r \<longleftrightarrow> rl_head buf p r \<and> rl_uri buf (uri_end r) r \<and> uri_end r < p"

definition rl_schema :: "byte list \<Rightarrow> nat \<Rightarrow> nat \<Rightarrow> ngx_http_request \<Rightarrow> bool" where
  "rl_schema buf n p r \<longleftrightarrow> rl_head buf p r \<and> rl_no_uri r \<and> method_end r + 2 \<le> schema_start r \<and>
     schema_start r < schema_end r \<and> schema_end r + n \<le> p \<and> (n < 3 \<longrightarrow> p = schema_end r + n) \<and>
     (2 \<le> n \<longrightarrow> buf ! (schema_end r + 1) = B CHR ''/'')"

text \<open>HTTP/0.9 is major version 0, minor version 9; anything else accepted has major version 1.\<close>

definition rl_version :: "ngx_http_request \<Rightarrow> bool" where
  "rl_version r \<longleftrightarrow> http_major r = 0 \<and> http_minor r = 9 \<or> http_major r = 1 \<and> http_minor r \<le> 999"

fun rl_inv :: "byte list \<Rightarrow> nat \<Rightarrow> rl_state \<times> ngx_http_request \<Rightarrow> bool" where
  "rl_inv buf p (st, r) \<longleftrightarrow>
     request_end r = None \<and>
     (case st of
        sw_major_digit \<Rightarrow> http_major r = 1
      | sw_first_minor_digit \<Rightarrow> http_major r = 1
      | sw_minor_digit \<Rightarrow> http_major r = 1 \<and> http_minor r \<le> 999
      | sw_spaces_after_digit \<Rightarrow> http_major r = 1 \<and> http_minor r \<le> 999
      | sw_almost_done \<Rightarrow> rl_version r
      | _ \<Rightarrow> http_major r = 0) \<and>
     (case st of
        sw_start \<Rightarrow> rl_no_uri r
      | sw_method \<Rightarrow> rl_no_uri r \<and> request_start r < p \<and> method_bytes buf (request_start r) p
      | sw_spaces_before_uri \<Rightarrow> rl_no_uri r \<and> rl_head buf p r
      | sw_schema \<Rightarrow> rl_no_uri r \<and> rl_head buf p r \<and> method_end r + 2 \<le> schema_start r \<and> schema_start r < p
      | sw_schema_slash \<Rightarrow> rl_schema buf 1 p r
      | sw_schema_slash_slash \<Rightarrow> rl_schema buf 2 p r
      | sw_host_start \<Rightarrow> rl_schema buf 3 p r
      | sw_host \<Rightarrow> rl_schema buf 3 p r
      | sw_host_end \<Rightarrow> rl_schema buf 3 p r
      | sw_host_ip_literal \<Rightarrow> rl_schema buf 3 p r
      | sw_port \<Rightarrow> rl_schema buf 3 p r
      | sw_after_slash_in_uri \<Rightarrow> rl_head buf p r \<and> rl_uri buf p r
      | sw_check_uri \<Rightarrow> rl_head buf p r \<and> rl_uri buf p r
      | sw_uri \<Rightarrow> rl_head buf p r \<and> rl_uri buf p r
      | _ \<Rightarrow> rl_tail buf p r)"

text \<open>What holds at \<open>goto done\<close>: \<open>p\<close> is the offset of the line feed.\<close>

fun rl_post :: "byte list \<Rightarrow> nat \<Rightarrow> ngx_http_request jump \<Rightarrow> bool" where
  "rl_post buf p (Return rc r) = True"
| "rl_post buf p (Done r) \<longleftrightarrow>
     buf ! p = LF \<and> rl_version r \<and>
     rl_head buf p r \<and> rl_uri buf (uri_end r) r \<and>
     (request_end r = None \<and> uri_end r \<le> p \<or> request_end r = Some (p - 1) \<and> uri_end r < p)"

lemmas rl_inv_defs = rl_version_def rl_head_def rl_uri_def rl_no_uri_def rl_tail_def rl_schema_def

lemma usual_gt: "usual ch \<Longrightarrow> 0x20 < ch \<and> ch \<noteq> 0x7f"
proof -
  assume u: "usual ch"
  have "\<not> ch < 0x20"
  proof
    assume "ch < 0x20"
    then have "drop_bit 5 ch = 0"
      by (simp add: drop_bit_eq_div word_less_nat_alt div_word_less flip: word_unat_eq_iff)
    with u show False by (simp add: usual_def usual_tab_def)
  qed
  moreover have "ch \<noteq> 0x20" "ch \<noteq> 0x7f" using u by (auto simp: usual_def usual_tab_def)
  ultimately show ?thesis by auto
qed

definition rl_ok :: "byte list \<Rightarrow> nat \<Rightarrow> rl_ctl \<Rightarrow> bool" where
  "rl_ok buf p c \<longleftrightarrow> (case c of Next s \<Rightarrow> rl_inv buf (Suc p) s | Exit j \<Rightarrow> rl_post buf p j)"

lemma rl_ok_simps [simp]:
  "rl_ok buf p (Next (st, r)) = rl_inv buf (Suc p) (st, r)"
  "rl_ok buf p (Exit (Return rc r))"
  "rl_ok buf p (Exit (Done r)) = rl_post buf p (Done r)"
  "rl_ok buf p (invalid_request r)"
  by (simp_all add: rl_ok_def invalid_request_def)

text \<open>Every case of the \<open>switch\<close> keeps the invariant, in groups of neighbouring states.\<close>

lemma rl_ok_method_states:
  shows "rl_inv buf p (sw_start, r) \<Longrightarrow> rl_ok buf p (rl_sw_start p (buf ! p) r)"
    and "rl_inv buf p (sw_method, r) \<Longrightarrow> rl_ok buf p (rl_sw_method buf p (buf ! p) r)"
    and "rl_inv buf p (sw_spaces_before_uri, r) \<Longrightarrow> rl_ok buf p (rl_sw_spaces_before_uri p (buf ! p) r)"
  by (auto simp: rl_sw_start_def rl_sw_method_def rl_sw_spaces_before_uri_def rl_inv_defs Let_def)

lemma rl_ok_schema_states:
  shows "rl_inv buf p (sw_schema, r) \<Longrightarrow> rl_ok buf p (rl_sw_schema p (buf ! p) r)"
    and "rl_inv buf p (sw_schema_slash, r) \<Longrightarrow> rl_ok buf p (rl_sw_schema_slash (buf ! p) r)"
    and "rl_inv buf p (sw_schema_slash_slash, r) \<Longrightarrow> rl_ok buf p (rl_sw_schema_slash_slash (buf ! p) r)"
  by (auto simp: rl_sw_schema_def rl_sw_schema_slash_def rl_sw_schema_slash_slash_def rl_inv_defs)

lemma rl_ok_host_states:
  shows "rl_inv buf p (sw_host_end, r) \<Longrightarrow> rl_ok buf p (rl_sw_host_end p (buf ! p) r)"
    and "rl_inv buf p (sw_host, r) \<Longrightarrow> rl_ok buf p (rl_sw_host p (buf ! p) r)"
    and "rl_inv buf p (sw_host_start, r) \<Longrightarrow> rl_ok buf p (rl_sw_host_start p (buf ! p) r)"
    and "rl_inv buf p (sw_host_ip_literal, r) \<Longrightarrow> rl_ok buf p (rl_sw_host_ip_literal (buf ! p) r)"
    and "rl_inv buf p (sw_port, r) \<Longrightarrow> rl_ok buf p (rl_sw_port p (buf ! p) r)"
  by (auto simp: rl_sw_host_end_def rl_sw_host_def rl_sw_host_start_def rl_sw_host_ip_literal_def
                 rl_sw_port_def rl_inv_defs Let_def)

lemma rl_ok_uri_states:
  shows "rl_inv buf p (sw_after_slash_in_uri, r) \<Longrightarrow> rl_ok buf p (rl_sw_after_slash_in_uri p (buf ! p) r)"
    and "rl_inv buf p (sw_check_uri, r) \<Longrightarrow> rl_ok buf p (rl_sw_check_uri p (buf ! p) r)"
    and "rl_inv buf p (sw_uri, r) \<Longrightarrow> rl_ok buf p (rl_sw_uri p (buf ! p) r)"
  by (auto simp: rl_sw_after_slash_in_uri_def rl_sw_check_uri_def rl_sw_uri_def rl_inv_defs
           dest: usual_gt)

lemma rl_ok_protocol_states:
  shows "rl_inv buf p (sw_http_09, r) \<Longrightarrow> rl_ok buf p (rl_sw_http_09 p (buf ! p) r)"
    and "rl_inv buf p (sw_http_H, r) \<Longrightarrow> rl_ok buf p (rl_sw_http_H (buf ! p) r)"
    and "rl_inv buf p (sw_http_HT, r) \<Longrightarrow> rl_ok buf p (rl_sw_http_HT (buf ! p) r)"
    and "rl_inv buf p (sw_http_HTT, r) \<Longrightarrow> rl_ok buf p (rl_sw_http_HTT (buf ! p) r)"
    and "rl_inv buf p (sw_http_HTTP, r) \<Longrightarrow> rl_ok buf p (rl_sw_http_HTTP (buf ! p) r)"
    and "rl_inv buf p (sw_spaces_after_digit, r) \<Longrightarrow> rl_ok buf p (rl_sw_spaces_after_digit (buf ! p) r)"
    and "rl_inv buf p (sw_almost_done, r) \<Longrightarrow> rl_ok buf p (rl_sw_almost_done p (buf ! p) r)"
  by (auto simp: rl_sw_http_09_def rl_sw_http_H_def rl_sw_http_HT_def rl_sw_http_HTT_def
                 rl_sw_http_HTTP_def rl_sw_spaces_after_digit_def rl_sw_almost_done_def
                 rl_inv_defs Let_def)

lemma rl_ok_version_states:
  shows "rl_inv buf p (sw_first_major_digit, r) \<Longrightarrow> rl_ok buf p (rl_sw_first_major_digit (buf ! p) r)"
    and "rl_inv buf p (sw_major_digit, r) \<Longrightarrow> rl_ok buf p (rl_sw_major_digit (buf ! p) r)"
    and "rl_inv buf p (sw_first_minor_digit, r) \<Longrightarrow> rl_ok buf p (rl_sw_first_minor_digit (buf ! p) r)"
    and "rl_inv buf p (sw_minor_digit, r) \<Longrightarrow> rl_ok buf p (rl_sw_minor_digit (buf ! p) r)"
  by (auto simp: rl_sw_first_major_digit_def rl_sw_major_digit_def rl_sw_first_minor_digit_def
                 rl_sw_minor_digit_def rl_tail_def rl_head_def rl_uri_def rl_version_def Let_def
           dest: digit_val_le dest!: digit_val_pos)

lemmas rl_ok_states = rl_ok_method_states rl_ok_schema_states rl_ok_host_states
  rl_ok_uri_states rl_ok_protocol_states rl_ok_version_states

lemma rl_step_ok: "rl_inv buf p (st, r) \<Longrightarrow> rl_ok buf p (rl_step buf p (buf ! p) (st, r))"
  by (cases st) (simp_all only: rl_step.simps rl_state.case rl_ok_states)

interpretation rl_inv: scan_invariant rl_step rl_inv rl_post
proof unfold_locales
  fix p buf s s'
  assume "rl_inv buf p s" "rl_step buf p (buf ! p) s = Next s'"
  then show "rl_inv buf (Suc p) s'"
    using rl_step_ok [of buf p "fst s" "snd s"] by (simp add: rl_ok_def)
next
  fix p buf s r
  assume "rl_inv buf p s" "rl_step buf p (buf ! p) s = Exit r"
  then show "rl_post buf p r"
    using rl_step_ok [of buf p "fst s" "snd s"] by (simp add: rl_ok_def)
qed

lemma rl_done_OK:
  assumes "rl_done p r0 b = (NGX_OK, r, b')"
  shows "r = r0\<lparr>request_end := Some (case request_end r0 of None \<Rightarrow> p | Some e \<Rightarrow> e),
               http_version := http_major r0 * 1000 + http_minor r0, state := sw_start\<rparr>"
    and "http_version r = 9 \<Longrightarrow> method r = NGX_HTTP_GET"
    and "b' = b\<lparr>pos := p + 1\<rparr>"
  using assms by (auto simp: rl_done_def Let_def split: if_splits option.splits)

lemma rl_inv_init: "rl_inv buf p (state init_request, init_request)"
  by (simp add: init_request_def rl_no_uri_def)

section \<open>The form of the request target and the protocol\<close>

text \<open>
  \<open>span P buf i j\<close>: the bytes from offset \<open>i\<close> up to \<open>j\<close> are in the class \<open>P\<close>. The classes of scheme, host name and IP
  literal are those of the comments in the code.
\<close>

definition span :: "(byte \<Rightarrow> bool) \<Rightarrow> byte list \<Rightarrow> nat \<Rightarrow> nat \<Rightarrow> bool" where
  "span P buf i j \<longleftrightarrow> (\<forall>k. i \<le> k \<and> k < j \<longrightarrow> P (buf ! k))"

definition schema_char :: "byte \<Rightarrow> bool" where
  "schema_char c \<longleftrightarrow> is_alpha c \<or> is_digit c \<or> c \<in> set (bytes ''+-.'')"

definition host_char :: "byte \<Rightarrow> bool" where
  "host_char c \<longleftrightarrow> is_alpha c \<or> is_digit c \<or> c \<in> set (bytes ''.-'')"

definition literal_char :: "byte \<Rightarrow> bool" where
  "literal_char c \<longleftrightarrow> is_alpha c \<or> is_digit c \<or> c \<in> set (bytes '':-._~!$&'' @ [0x27] @ bytes ''()*+,;='')"

text \<open>The scheme, up to the colon at \<open>schema_end\<close>, behind spaces.\<close>

definition scheme :: "byte list \<Rightarrow> ngx_http_request \<Rightarrow> bool" where
  "scheme buf r \<longleftrightarrow> method_end r + 2 \<le> schema_start r \<and> span (\<lambda>c. c = SP) buf (method_end r + 1) (schema_start r) \<and>
     schema_start r < schema_end r \<and> is_alpha (buf ! schema_start r) \<and> span schema_char buf (schema_start r) (schema_end r) \<and>
     buf ! schema_end r = B CHR '':''"

text \<open>The host from \<open>h\<close> up to \<open>e\<close>: a name, perhaps empty, or an IP literal in brackets.\<close>

definition host_span :: "byte list \<Rightarrow> nat \<Rightarrow> nat \<Rightarrow> bool" where
  "host_span buf h e \<longleftrightarrow> h \<le> e \<and> (span host_char buf h e \<or>
     h + 2 \<le> e \<and> buf ! h = B CHR ''['' \<and> span literal_char buf (h + 1) (e - 1) \<and> buf ! (e - 1) = B CHR '']'')"

definition slashes :: "byte list \<Rightarrow> ngx_http_request \<Rightarrow> bool" where
  "slashes buf r \<longleftrightarrow> buf ! (schema_end r + 1) = B CHR ''/'' \<and> buf ! (schema_end r + 2) = B CHR ''/''"

text \<open>Scheme, host and port, all up to \<open>a\<close>.\<close>

definition authority :: "byte list \<Rightarrow> ngx_http_request \<Rightarrow> nat \<Rightarrow> bool" where
  "authority buf r a \<longleftrightarrow> scheme buf r \<and> slashes buf r \<and>
     (\<exists>e. host_start r = Some (schema_end r + 3) \<and> host_end r = Some e \<and> host_span buf (schema_end r + 3) e \<and>
        (a = e \<or> e < a \<and> buf ! e = B CHR '':'' \<and> span is_digit buf (e + 1) a))"

definition no_scheme :: "ngx_http_request \<Rightarrow> bool" where
  "no_scheme r \<longleftrightarrow> schema_start r = 0 \<and> schema_end r = 0 \<and> host_start r = None \<and> host_end r = None"

definition origin_form :: "byte list \<Rightarrow> ngx_http_request \<Rightarrow> bool" where
  "origin_form buf r \<longleftrightarrow> no_scheme r \<and> span (\<lambda>c. c = SP) buf (method_end r + 1) (uri_start r)"

text \<open>
  The absolute form: the URI starts where the authority ends; or the authority ends with a space, and then the URI is the
  first of the two slashes behind the scheme.
\<close>

definition absolute_form :: "byte list \<Rightarrow> nat \<Rightarrow> ngx_http_request \<Rightarrow> bool" where
  "absolute_form buf p r \<longleftrightarrow> (\<exists>a < p. authority buf r a \<and>
     (uri_start r = a \<or> buf ! a = SP \<and> uri_start r = schema_end r + 1 \<and> uri_end r = schema_end r + 2))"

definition target_form :: "byte list \<Rightarrow> nat \<Rightarrow> ngx_http_request \<Rightarrow> bool" where
  "target_form buf p r \<longleftrightarrow> origin_form buf r \<or> absolute_form buf p r"

definition target_start :: "byte list \<Rightarrow> nat \<Rightarrow> ngx_http_request \<Rightarrow> bool" where
  "target_start buf p r \<longleftrightarrow> origin_form buf r \<or> uri_start r < p \<and> authority buf r (uri_start r)"

text \<open>The first \<open>n\<close> characters of the protocol have been read, behind a space.\<close>

definition protocol :: "byte list \<Rightarrow> nat \<Rightarrow> ngx_http_request \<Rightarrow> bool" where
  "protocol buf n r \<longleftrightarrow> uri_end r < http_protocol_data r \<and> buf ! (http_protocol_data r - 1) = SP \<and>
     (\<forall>i < n. buf ! (http_protocol_data r + i) = bytes ''HTTP/1.'' ! i)"

definition rl_protocol :: "byte list \<Rightarrow> nat \<Rightarrow> nat \<Rightarrow> ngx_http_request \<Rightarrow> bool" where
  "rl_protocol buf n p r \<longleftrightarrow> target_form buf p r \<and> protocol buf n r \<and> p = http_protocol_data r + n"

fun rl_form :: "byte list \<Rightarrow> nat \<Rightarrow> rl_state \<times> ngx_http_request \<Rightarrow> bool" where
  "rl_form buf p (st, r) \<longleftrightarrow>
     (case st of
        sw_start \<Rightarrow> no_scheme r
      | sw_method \<Rightarrow> no_scheme r
      | sw_spaces_before_uri \<Rightarrow> no_scheme r \<and> span (\<lambda>c. c = SP) buf (method_end r + 1) p
      | sw_schema \<Rightarrow> host_end r = None \<and> span (\<lambda>c. c = SP) buf (method_end r + 1) (schema_start r) \<and>
          is_alpha (buf ! schema_start r) \<and> span schema_char buf (schema_start r) p
      | sw_schema_slash \<Rightarrow> scheme buf r
      | sw_schema_slash_slash \<Rightarrow> scheme buf r
      | sw_host_start \<Rightarrow> scheme buf r \<and> slashes buf r \<and> p = schema_end r + 3
      | sw_host \<Rightarrow> scheme buf r \<and> slashes buf r \<and> host_start r = Some (schema_end r + 3) \<and> span host_char buf (schema_end r + 3) p
      | sw_host_ip_literal \<Rightarrow> scheme buf r \<and> slashes buf r \<and> host_start r = Some (schema_end r + 3) \<and> schema_end r + 4 \<le> p \<and>
          buf ! (schema_end r + 3) = B CHR ''['' \<and> span literal_char buf (schema_end r + 4) p
      | sw_host_end \<Rightarrow> scheme buf r \<and> slashes buf r \<and> host_start r = Some (schema_end r + 3) \<and> host_span buf (schema_end r + 3) p
      | sw_port \<Rightarrow> authority buf r p \<and> host_end r \<noteq> Some p
      | sw_after_slash_in_uri \<Rightarrow> target_start buf p r
      | sw_check_uri \<Rightarrow> target_start buf p r
      | sw_uri \<Rightarrow> target_start buf p r
      | sw_http_09 \<Rightarrow> target_form buf p r \<and> buf ! (p - 1) = SP
      | sw_http_H \<Rightarrow> rl_protocol buf 1 p r
      | sw_http_HT \<Rightarrow> rl_protocol buf 2 p r
      | sw_http_HTT \<Rightarrow> rl_protocol buf 3 p r
      | sw_http_HTTP \<Rightarrow> rl_protocol buf 4 p r
      | sw_first_major_digit \<Rightarrow> rl_protocol buf 5 p r
      | sw_major_digit \<Rightarrow> rl_protocol buf 6 p r
      | sw_first_minor_digit \<Rightarrow> rl_protocol buf 7 p r
      | sw_minor_digit \<Rightarrow> target_form buf p r \<and> protocol buf 7 r \<and> http_protocol_data r + 8 \<le> p
      | sw_spaces_after_digit \<Rightarrow> target_form buf p r \<and> protocol buf 7 r \<and> http_protocol_data r + 8 \<le> p
      | sw_almost_done \<Rightarrow> target_form buf p r \<and> (http_major r = 1 \<longrightarrow> protocol buf 7 r \<and> http_protocol_data r + 9 \<le> p))"

fun rl_form_post :: "byte list \<Rightarrow> nat \<Rightarrow> ngx_http_request jump \<Rightarrow> bool" where
  "rl_form_post buf p (Return rc r) = True"
| "rl_form_post buf p (Done r) \<longleftrightarrow> target_form buf p r \<and> (http_major r = 1 \<longrightarrow>
     protocol buf 7 r \<and> http_protocol_data r + 8 \<le> (case request_end r of None \<Rightarrow> p | Some e \<Rightarrow> e))"

lemma span_simps [simp]:
  "span P buf i (Suc j) \<longleftrightarrow> span P buf i j \<and> (i \<le> j \<longrightarrow> P (buf ! j))" "j \<le> i \<Longrightarrow> span P buf i j"
  by (auto simp: span_def less_Suc_eq)

definition rl_form_ok :: "byte list \<Rightarrow> nat \<Rightarrow> rl_ctl \<Rightarrow> bool" where
  "rl_form_ok buf p c \<longleftrightarrow> (case c of Next s \<Rightarrow> rl_form buf (Suc p) s | Exit j \<Rightarrow> rl_form_post buf p j)"

lemma rl_form_ok_simps [simp]:
  "rl_form_ok buf p (Next (st, r)) = rl_form buf (Suc p) (st, r)"
  "rl_form_ok buf p (Exit (Return rc r))"
  "rl_form_ok buf p (Exit (Done r)) = rl_form_post buf p (Done r)"
  "rl_form_ok buf p (invalid_request r)"
  by (simp_all add: rl_form_ok_def invalid_request_def)

lemmas class_defs = schema_char_def host_char_def literal_char_def

lemma rl_form_method_states:
  shows "rl_inv buf p (sw_start, r) \<Longrightarrow> rl_form buf p (sw_start, r) \<Longrightarrow> rl_form_ok buf p (rl_sw_start p (buf ! p) r)"
    and "rl_inv buf p (sw_method, r) \<Longrightarrow> rl_form buf p (sw_method, r) \<Longrightarrow> rl_form_ok buf p (rl_sw_method buf p (buf ! p) r)"
    and "rl_inv buf p (sw_spaces_before_uri, r) \<Longrightarrow> rl_form buf p (sw_spaces_before_uri, r) \<Longrightarrow>
      rl_form_ok buf p (rl_sw_spaces_before_uri p (buf ! p) r)"
  by (auto simp: rl_sw_start_def rl_sw_method_def rl_sw_spaces_before_uri_def no_scheme_def target_start_def origin_form_def
      class_defs rl_head_def Let_def)

lemma rl_form_schema_states:
  shows "rl_inv buf p (sw_schema, r) \<Longrightarrow> rl_form buf p (sw_schema, r) \<Longrightarrow> rl_form_ok buf p (rl_sw_schema p (buf ! p) r)"
    and "rl_inv buf p (sw_schema_slash, r) \<Longrightarrow> rl_form buf p (sw_schema_slash, r) \<Longrightarrow> rl_form_ok buf p (rl_sw_schema_slash (buf ! p) r)"
    and "rl_inv buf p (sw_schema_slash_slash, r) \<Longrightarrow> rl_form buf p (sw_schema_slash_slash, r) \<Longrightarrow>
      rl_form_ok buf p (rl_sw_schema_slash_slash (buf ! p) r)"
  by (auto simp: rl_sw_schema_def rl_sw_schema_slash_def rl_sw_schema_slash_slash_def scheme_def slashes_def class_defs rl_schema_def)

text \<open>The end of the authority.\<close>

lemma rl_form_authority:
  assumes "authority buf r p"
  shows "target_start buf (Suc p) (r\<lparr>uri_start := p\<rparr>)"
    and "target_start buf (Suc p) (r\<lparr>uri_start := p, args_start := x, empty_path_in_uri := y\<rparr>)"
    and "buf ! p = SP \<Longrightarrow> target_form buf (Suc p) (r\<lparr>uri_start := schema_end r + 1, uri_end := schema_end r + 2\<rparr>)"
  using assms by (auto simp: target_start_def target_form_def absolute_form_def authority_def scheme_def slashes_def)

lemma rl_form_host_end:
  assumes "scheme buf r" "slashes buf r" "host_start r = Some (schema_end r + 3)" "host_span buf (schema_end r + 3) p"
  shows "rl_form_ok buf p (rl_sw_host_end p (buf ! p) r)"
proof -
  have "authority buf (r\<lparr>host_end := Some p\<rparr>) p" using assms by (simp add: authority_def scheme_def slashes_def)
  moreover have "buf ! p = B CHR '':'' \<Longrightarrow> authority buf (r\<lparr>host_end := Some p\<rparr>) (Suc p)"
    using assms by (simp add: authority_def scheme_def slashes_def)
  ultimately show ?thesis using rl_form_authority [of buf "r\<lparr>host_end := Some p\<rparr>" p]
    by (simp add: rl_sw_host_end_def Let_def)
qed

lemma rl_form_host:
  assumes "scheme buf r" "slashes buf r" "host_start r = Some (schema_end r + 3)" "span host_char buf (schema_end r + 3) p" "schema_end r + 3 \<le> p"
  shows "rl_form_ok buf p (rl_sw_host p (buf ! p) r)"
proof -
  have "host_span buf (schema_end r + 3) p" using assms(4,5) by (simp add: host_span_def)
  from rl_form_host_end [OF assms(1-3) this] show ?thesis
    using assms by (simp add: rl_sw_host_def host_char_def)
qed

lemma rl_form_host_states:
  shows "rl_inv buf p (sw_host_end, r) \<Longrightarrow> rl_form buf p (sw_host_end, r) \<Longrightarrow> rl_form_ok buf p (rl_sw_host_end p (buf ! p) r)"
    and "rl_inv buf p (sw_host, r) \<Longrightarrow> rl_form buf p (sw_host, r) \<Longrightarrow> rl_form_ok buf p (rl_sw_host p (buf ! p) r)"
    and "rl_inv buf p (sw_host_start, r) \<Longrightarrow> rl_form buf p (sw_host_start, r) \<Longrightarrow> rl_form_ok buf p (rl_sw_host_start p (buf ! p) r)"
    and "rl_inv buf p (sw_host_ip_literal, r) \<Longrightarrow> rl_form buf p (sw_host_ip_literal, r) \<Longrightarrow>
      rl_form_ok buf p (rl_sw_host_ip_literal (buf ! p) r)"
    and "rl_inv buf p (sw_port, r) \<Longrightarrow> rl_form buf p (sw_port, r) \<Longrightarrow> rl_form_ok buf p (rl_sw_port p (buf ! p) r)"
proof -
  show "rl_form buf p (sw_host_end, r) \<Longrightarrow> rl_form_ok buf p (rl_sw_host_end p (buf ! p) r)"
    by (simp add: rl_form_host_end)
  show "rl_inv buf p (sw_host, r) \<Longrightarrow> rl_form buf p (sw_host, r) \<Longrightarrow> rl_form_ok buf p (rl_sw_host p (buf ! p) r)"
    by (simp add: rl_form_host rl_schema_def)
  show "rl_form_ok buf p (rl_sw_host_start p (buf ! p) r)" if "rl_inv buf p (sw_host_start, r)" "rl_form buf p (sw_host_start, r)"
  proof -
    have "scheme buf (r\<lparr>host_start := Some p\<rparr>)" "slashes buf (r\<lparr>host_start := Some p\<rparr>)" "p = schema_end r + 3"
      using that by (simp_all add: scheme_def slashes_def)
    then show ?thesis
      using rl_form_host [of buf "r\<lparr>host_start := Some p\<rparr>" p] by (simp add: rl_sw_host_start_def Let_def)
  qed
  show "rl_form_ok buf p (rl_sw_host_ip_literal (buf ! p) r)" if "rl_form buf p (sw_host_ip_literal, r)"
    using that by (auto simp: rl_sw_host_ip_literal_def class_defs host_span_def add.commute [of 4])
  show "rl_form_ok buf p (rl_sw_port p (buf ! p) r)" if "rl_form buf p (sw_port, r)"
    using that rl_form_authority [of buf r p] by (auto simp: rl_sw_port_def authority_def)
qed

lemma authority_fields [simp]:
  "authority buf (r\<lparr>http_protocol_data := x\<rparr>) a = authority buf r a" "authority buf (r\<lparr>http_major := x\<rparr>) a = authority buf r a"
  "authority buf (r\<lparr>http_minor := x\<rparr>) a = authority buf r a" "authority buf (r\<lparr>request_end := e\<rparr>) a = authority buf r a"
  "authority buf (r\<lparr>args_start := e\<rparr>) a = authority buf r a" "authority buf (r\<lparr>uri_ext := e\<rparr>) a = authority buf r a"
  "authority buf (r\<lparr>complex_uri := c\<rparr>) a = authority buf r a" "authority buf (r\<lparr>quoted_uri := c\<rparr>) a = authority buf r a"
  "authority buf (r\<lparr>state := t\<rparr>) a = authority buf r a" "authority buf (r\<lparr>http_version := x\<rparr>) a = authority buf r a"
  "authority buf (r\<lparr>plus_in_uri := c\<rparr>) a = authority buf r a" "authority buf (r\<lparr>uri_end := x\<rparr>) a = authority buf r a"
  by (simp_all add: authority_def scheme_def slashes_def)

lemma origin_form_fields [simp]:
  "origin_form buf (r\<lparr>http_protocol_data := x\<rparr>) = origin_form buf r" "origin_form buf (r\<lparr>http_major := x\<rparr>) = origin_form buf r"
  "origin_form buf (r\<lparr>http_minor := x\<rparr>) = origin_form buf r" "origin_form buf (r\<lparr>request_end := e\<rparr>) = origin_form buf r"
  "origin_form buf (r\<lparr>args_start := e\<rparr>) = origin_form buf r" "origin_form buf (r\<lparr>uri_ext := e\<rparr>) = origin_form buf r"
  "origin_form buf (r\<lparr>complex_uri := c\<rparr>) = origin_form buf r" "origin_form buf (r\<lparr>quoted_uri := c\<rparr>) = origin_form buf r"
  "origin_form buf (r\<lparr>state := t\<rparr>) = origin_form buf r" "origin_form buf (r\<lparr>http_version := x\<rparr>) = origin_form buf r"
  "origin_form buf (r\<lparr>plus_in_uri := c\<rparr>) = origin_form buf r" "origin_form buf (r\<lparr>uri_end := x\<rparr>) = origin_form buf r"
  by (simp_all add: origin_form_def no_scheme_def)

lemma target_form_fields [simp]:
  "target_form buf p (r\<lparr>http_protocol_data := x\<rparr>) = target_form buf p r" "target_form buf p (r\<lparr>http_major := x\<rparr>) = target_form buf p r"
  "target_form buf p (r\<lparr>http_minor := x\<rparr>) = target_form buf p r" "target_form buf p (r\<lparr>request_end := e\<rparr>) = target_form buf p r"
  "target_start buf p (r\<lparr>args_start := e\<rparr>) = target_start buf p r" "target_start buf p (r\<lparr>uri_ext := e\<rparr>) = target_start buf p r"
  "target_start buf p (r\<lparr>complex_uri := c\<rparr>) = target_start buf p r" "target_start buf p (r\<lparr>quoted_uri := c\<rparr>) = target_start buf p r"
  "target_start buf p (r\<lparr>plus_in_uri := c\<rparr>) = target_start buf p r" "target_form buf p (r\<lparr>state := t\<rparr>) = target_form buf p r"
  "target_form buf p (r\<lparr>http_version := x\<rparr>) = target_form buf p r"
  by (simp_all add: target_form_def target_start_def absolute_form_def)

lemma target_form_Suc: "target_form buf p r \<Longrightarrow> target_form buf (Suc p) r"
  unfolding target_form_def absolute_form_def using less_SucI by blast

lemma target_start_step:
  assumes "target_start buf p r"
  shows "target_start buf (Suc p) r" "target_form buf (Suc p) (r\<lparr>uri_end := p\<rparr>)" "target_form buf p (r\<lparr>uri_end := p\<rparr>)"
    "target_form buf (Suc p) (r\<lparr>uri_end := p, http_minor := 9\<rparr>)" "target_form buf p (r\<lparr>uri_end := p, http_minor := 9\<rparr>)"
proof -
  show "target_start buf (Suc p) r" using assms by (auto simp: target_start_def)
  show t: "target_form buf p (r\<lparr>uri_end := p\<rparr>)"
    using assms unfolding target_start_def target_form_def absolute_form_def by auto
  then show "target_form buf (Suc p) (r\<lparr>uri_end := p\<rparr>)" by (rule target_form_Suc)
  with t show "target_form buf (Suc p) (r\<lparr>uri_end := p, http_minor := 9\<rparr>)" "target_form buf p (r\<lparr>uri_end := p, http_minor := 9\<rparr>)"
    using target_form_fields(3) [where r = "r\<lparr>uri_end := p\<rparr>"] by simp_all
qed

lemma rl_form_uri_states:
  shows "rl_inv buf p (sw_after_slash_in_uri, r) \<Longrightarrow> rl_form buf p (sw_after_slash_in_uri, r) \<Longrightarrow>
      rl_form_ok buf p (rl_sw_after_slash_in_uri p (buf ! p) r)"
    and "rl_inv buf p (sw_check_uri, r) \<Longrightarrow> rl_form buf p (sw_check_uri, r) \<Longrightarrow> rl_form_ok buf p (rl_sw_check_uri p (buf ! p) r)"
    and "rl_inv buf p (sw_uri, r) \<Longrightarrow> rl_form buf p (sw_uri, r) \<Longrightarrow> rl_form_ok buf p (rl_sw_uri p (buf ! p) r)"
proof -
  assume "rl_inv buf p (sw_after_slash_in_uri, r)" "rl_form buf p (sw_after_slash_in_uri, r)"
  then have m: "http_major r = 0" and t: "target_start buf p r" by auto
  show "rl_form_ok buf p (rl_sw_after_slash_in_uri p (buf ! p) r)"
    using m target_start_step [OF t] by (simp add: rl_sw_after_slash_in_uri_def)
next
  assume "rl_inv buf p (sw_check_uri, r)" "rl_form buf p (sw_check_uri, r)"
  then have m: "http_major r = 0" and t: "target_start buf p r" by auto
  show "rl_form_ok buf p (rl_sw_check_uri p (buf ! p) r)"
    using m target_start_step [OF t] by (simp add: rl_sw_check_uri_def)
next
  assume "rl_inv buf p (sw_uri, r)" "rl_form buf p (sw_uri, r)"
  then have m: "http_major r = 0" and t: "target_start buf p r" by auto
  show "rl_form_ok buf p (rl_sw_uri p (buf ! p) r)"
    using m target_start_step [OF t] by (simp add: rl_sw_uri_def)
qed

lemma protocol_step:
  "rl_protocol buf n p r \<Longrightarrow> buf ! p = bytes ''HTTP/1.'' ! n \<Longrightarrow> rl_protocol buf (Suc n) (Suc p) r"
  by (auto simp: rl_protocol_def protocol_def less_Suc_eq intro: target_form_Suc)

lemma protocol_major: "rl_protocol buf n p (r\<lparr>http_major := m\<rparr>) = rl_protocol buf n p r"
  by (simp add: rl_protocol_def protocol_def)

lemma rl_form_http_09:
  assumes "rl_inv buf p (sw_http_09, r)" "rl_form buf p (sw_http_09, r)"
  shows "rl_form_ok buf p (rl_sw_http_09 p (buf ! p) r)"
proof -
  have "rl_protocol buf 1 (Suc p) (r\<lparr>http_protocol_data := p\<rparr>)" if "buf ! p = B CHR ''H''"
    using that assms by (simp add: rl_protocol_def protocol_def rl_tail_def target_form_Suc)
  then show ?thesis using assms by (simp add: rl_sw_http_09_def target_form_Suc)
qed

lemma rl_form_protocol_states:
  shows "rl_form buf p (sw_http_H, r) \<Longrightarrow> rl_form_ok buf p (rl_sw_http_H (buf ! p) r)"
    and "rl_form buf p (sw_http_HT, r) \<Longrightarrow> rl_form_ok buf p (rl_sw_http_HT (buf ! p) r)"
    and "rl_form buf p (sw_http_HTT, r) \<Longrightarrow> rl_form_ok buf p (rl_sw_http_HTT (buf ! p) r)"
    and "rl_form buf p (sw_http_HTTP, r) \<Longrightarrow> rl_form_ok buf p (rl_sw_http_HTTP (buf ! p) r)"
  using protocol_step [of buf 1 p r] protocol_step [of buf 2 p r] protocol_step [of buf 3 p r] protocol_step [of buf 4 p r]
  by (simp_all add: rl_sw_http_H_def rl_sw_http_HT_def rl_sw_http_HTT_def rl_sw_http_HTTP_def eval_nat_numeral)

lemma rl_form_end_states:
  shows "rl_inv buf p (sw_spaces_after_digit, r) \<Longrightarrow> rl_form buf p (sw_spaces_after_digit, r) \<Longrightarrow>
      rl_form_ok buf p (rl_sw_spaces_after_digit (buf ! p) r)"
    and "rl_inv buf p (sw_almost_done, r) \<Longrightarrow> rl_form buf p (sw_almost_done, r) \<Longrightarrow> rl_form_ok buf p (rl_sw_almost_done p (buf ! p) r)"
    and "rl_inv buf p (sw_minor_digit, r) \<Longrightarrow> rl_form buf p (sw_minor_digit, r) \<Longrightarrow> rl_form_ok buf p (rl_sw_minor_digit (buf ! p) r)"
  by (auto simp: rl_sw_spaces_after_digit_def rl_sw_almost_done_def rl_sw_minor_digit_def protocol_def Let_def intro: target_form_Suc)

lemma first_major_one: "\<not> ch < B CHR ''1'' \<Longrightarrow> \<not> 1 < digit_val ch \<Longrightarrow> ch = B CHR ''1''"
  by (simp add: digit_val_def word_less_nat_alt unat_sub_if' word_unat_eq_iff split: if_splits)

lemma rl_form_version_states:
  shows "rl_form buf p (sw_first_major_digit, r) \<Longrightarrow> rl_form_ok buf p (rl_sw_first_major_digit (buf ! p) r)"
    and "rl_inv buf p (sw_major_digit, r) \<Longrightarrow> rl_form buf p (sw_major_digit, r) \<Longrightarrow> rl_form_ok buf p (rl_sw_major_digit (buf ! p) r)"
    and "rl_form buf p (sw_first_minor_digit, r) \<Longrightarrow> rl_form_ok buf p (rl_sw_first_minor_digit (buf ! p) r)"
proof -
  show "rl_form_ok buf p (rl_sw_first_major_digit (buf ! p) r)" if "rl_form buf p (sw_first_major_digit, r)"
    using that protocol_step [of buf 5 p r] first_major_one [of "buf ! p"]
    by (auto simp: rl_sw_first_major_digit_def protocol_major Let_def)
  show "rl_form_ok buf p (rl_sw_major_digit (buf ! p) r)" if "rl_inv buf p (sw_major_digit, r)" "rl_form buf p (sw_major_digit, r)"
    using that protocol_step [of buf 6 p r] by (auto simp: rl_sw_major_digit_def Let_def)
  show "rl_form_ok buf p (rl_sw_first_minor_digit (buf ! p) r)" if "rl_form buf p (sw_first_minor_digit, r)"
    using that target_form_Suc [of buf p r] by (auto simp: rl_sw_first_minor_digit_def rl_protocol_def protocol_def)
qed

lemmas rl_form_states = rl_form_method_states rl_form_schema_states rl_form_host_states
  rl_form_uri_states rl_form_http_09 rl_form_protocol_states rl_form_version_states rl_form_end_states

lemma rl_step_form: "rl_inv buf p (st, r) \<Longrightarrow> rl_form buf p (st, r) \<Longrightarrow> rl_form_ok buf p (rl_step buf p (buf ! p) (st, r))"
  by (cases st) (simp_all only: rl_step.simps rl_state.case rl_form_states)

interpretation rl_form: scan_invariant rl_step "\<lambda>buf p s. rl_inv buf p s \<and> rl_form buf p s" rl_form_post
proof unfold_locales
  fix p buf s s'
  assume p: "p < length buf" and i: "rl_inv buf p s \<and> rl_form buf p s" and st: "rl_step buf p (buf ! p) s = Next s'"
  show "rl_inv buf (Suc p) s' \<and> rl_form buf (Suc p) s'"
    using rl_inv.step_Next [OF p _ st] rl_step_form [of buf p "fst s" "snd s"] i st by (simp add: rl_form_ok_def)
next
  fix p buf s r
  assume "p < length buf" "rl_inv buf p s \<and> rl_form buf p s" "rl_step buf p (buf ! p) s = Exit r"
  then show "rl_form_post buf p r"
    using rl_step_form [of buf p "fst s" "snd s"] by (simp add: rl_form_ok_def)
qed

lemma rl_form_init: "rl_form buf p (state init_request, init_request)"
  by (simp add: init_request_def no_scheme_def)

text \<open>
  C22. Whenever a fresh request line is accepted, the offsets left in the request are in order and
  inside the consumed part of the buffer, which ends with the line feed: method, URI, arguments and
  extension, end of line. The method consists of method characters, the URI of visible ones and
  starts with a slash (or with the question mark when the path is empty), and the version is 0.9 or
  lies between 1.0 and 1.999, so the 16-bit fields of the C structure hold it. Either the target is in origin form, with
  no scheme and no host stored and only spaces between method and URI, or it is in absolute form: scheme, host and port
  stand where \<open>schema_start\<close>, \<open>schema_end\<close>, \<open>host_start\<close> and \<open>host_end\<close> say, of the admitted characters, behind
  spaces and before the URI. From version 1.0 on, \<open>http_protocol\<close> is the offset of an \<open>HTTP/1.\<close> behind a space that
  follows the URI, with at least one character before the end of the line.
\<close>

theorem request_line_ok_offsets:
  assumes "pos b \<le> length (data b)"
    and "ngx_http_parse_request_line init_request b = (NGX_OK, r, b')"
  shows "request_start r \<le> method_end r \<and> method_end r + 2 \<le> uri_start r \<and> uri_start r < uri_end r \<and>
     (\<exists>e. request_end r = Some e \<and> uri_end r \<le> e \<and> e < pos b') \<and> pos b' \<le> length (data b) \<and>
     data b ! (pos b' - 1) = LF \<and>
     (\<forall>i\<in>{request_start r..method_end r}. \<not> not_method_char (data b ! i)) \<and>
     (\<forall>i\<in>{uri_start r..<uri_end r}. 0x20 < data b ! i \<and> data b ! i \<noteq> 0x7f) \<and>
     data b ! uri_start r = (if empty_path_in_uri r then B CHR ''?'' else B CHR ''/'') \<and>
     (\<forall>a. args_start r = Some a \<longrightarrow> uri_start r < a \<and> a \<le> uri_end r \<and> data b ! (a - 1) = B CHR ''?'') \<and>
     (\<forall>x. uri_ext r = Some x \<longrightarrow> uri_start r < x \<and> x \<le> uri_end r) \<and>
     (http_version r = 9 \<and> method r = NGX_HTTP_GET \<or> 1000 \<le> http_version r \<and> http_version r \<le> 1999) \<and>
     (origin_form (data b) r \<or> absolute_form (data b) (pos b') r) \<and>
     (http_version r \<noteq> 9 \<longrightarrow> protocol (data b) 7 r \<and> (\<exists>e. request_end r = Some e \<and> http_protocol_data r + 8 \<le> e))"
proof -
  obtain p c where pc: "scan_buf rl_step b (state init_request, init_request) = (p, c)" by force
  from assms(2) pc obtain r0 where c: "c = Exit (Done r0)" and d: "rl_done p r0 b = (NGX_OK, r, b')"
    by (auto simp: ngx_http_parse_request_line_def split: ctl.splits jump.splits dest: rl_scan_return)
  have "p < length (data b) \<and> rl_post (data b) p (Done r0)"
    using rl_inv.scan_buf_inv [OF assms(1) rl_inv_init pc] c by simp
  then have p: "p < length (data b)" "data b ! p = LF"
    and h: "rl_head (data b) p r" and u: "rl_uri (data b) (uri_end r) r" and v: "rl_version r"
    and e: "\<exists>e. request_end r = Some e \<and> uri_end r \<le> e \<and> e < p + 1"
    using rl_done_OK(1) [OF d] by (auto simp: rl_head_def rl_uri_def rl_version_def)
  have ver: "http_version r = 9 \<and> method r = NGX_HTTP_GET \<or> 1000 \<le> http_version r \<and> http_version r \<le> 1999"
    using v rl_done_OK [OF d] by (auto simp: rl_version_def)
  have "rl_form_post (data b) p (Done r0)"
    using rl_form.scan_buf_inv [OF assms(1) conjI [OF rl_inv_init rl_form_init] pc] c by simp
  then have f: "target_form (data b) p r0" and m: "http_major r0 = 1 \<longrightarrow>
      protocol (data b) 7 r0 \<and> http_protocol_data r0 + 8 \<le> (case request_end r0 of None \<Rightarrow> p | Some e \<Rightarrow> e)" by auto
  have "target_form (data b) (pos b') r"
    using target_form_Suc [OF f] rl_done_OK(3) [OF d] unfolding rl_done_OK(1) [OF d] by simp
  moreover have "http_version r \<noteq> 9 \<longrightarrow> protocol (data b) 7 r \<and> (\<exists>e. request_end r = Some e \<and> http_protocol_data r + 8 \<le> e)"
  proof
    assume "http_version r \<noteq> 9"
    then have "http_major r0 = 1" using v rl_done_OK(1) [OF d] by (auto simp: rl_version_def)
    then show "protocol (data b) 7 r \<and> (\<exists>e. request_end r = Some e \<and> http_protocol_data r + 8 \<le> e)"
      using m unfolding rl_done_OK(1) [OF d] by (simp add: protocol_def)
  qed
  ultimately show ?thesis
    using p h u e ver rl_done_OK(3) [OF d]
    by (simp add: rl_head_def rl_uri_def uri_bytes_def method_bytes_def target_form_def)
qed

theorem request_line_ok_offsets_witness:
  "\<exists>r b'. ngx_http_parse_request_line init_request \<lparr>pos = 0, data = bytes ''GET http://ab:80/a?x HTTP/1.0'' @ [CR, LF]\<rparr> =
       (NGX_OK, r, b') \<and> host_start r = Some 11 \<and> host_end r = Some 13 \<and>
     uri_start r < uri_end r \<and> pos b' \<le> 31 \<and> absolute_form (bytes ''GET http://ab:80/a?x HTTP/1.0'' @ [CR, LF]) (pos b') r \<and>
     (\<forall>a. args_start r = Some a \<longrightarrow> uri_start r < a \<and> a \<le> uri_end r)"
proof -
  let ?b = "\<lparr>pos = 0, data = bytes ''GET http://ab:80/a?x HTTP/1.0'' @ [CR, LF]\<rparr>"
  have "(case ngx_http_parse_request_line init_request ?b of (rc, r, b') \<Rightarrow> rc = NGX_OK \<and> host_start r = Some 11 \<and> host_end r = Some 13)"
    by code_simp
  then obtain r b' where e: "ngx_http_parse_request_line init_request ?b = (NGX_OK, r, b')" and h: "host_start r = Some 11" "host_end r = Some 13"
    by auto
  have "pos ?b \<le> length (data ?b)" by simp
  from request_line_ok_offsets [OF this e] have "uri_start r < uri_end r" "pos b' \<le> length (data ?b)"
    "\<forall>a. args_start r = Some a \<longrightarrow> uri_start r < a \<and> a \<le> uri_end r" "origin_form (data ?b) r \<or> absolute_form (data ?b) (pos b') r" by blast+
  moreover have "\<not> origin_form (data ?b) r" using h by (simp add: origin_form_def no_scheme_def)
  ultimately show ?thesis using e h by (intro exI [of _ r] exI [of _ b']) simp
qed

section \<open>Well-formed request lines\<close>

text \<open>The methods nginx knows, as a table: the specification of \<open>rl_method\<close>.\<close>

definition known_methods :: "(byte list \<times> ngx_http_method) list" where
  "known_methods =
     [(bytes ''GET'', NGX_HTTP_GET), (bytes ''PUT'', NGX_HTTP_PUT), (bytes ''POST'', NGX_HTTP_POST),
      (bytes ''COPY'', NGX_HTTP_COPY), (bytes ''MOVE'', NGX_HTTP_MOVE), (bytes ''LOCK'', NGX_HTTP_LOCK),
      (bytes ''HEAD'', NGX_HTTP_HEAD), (bytes ''MKCOL'', NGX_HTTP_MKCOL), (bytes ''PATCH'', NGX_HTTP_PATCH),
      (bytes ''TRACE'', NGX_HTTP_TRACE), (bytes ''DELETE'', NGX_HTTP_DELETE),
      (bytes ''UNLOCK'', NGX_HTTP_UNLOCK), (bytes ''OPTIONS'', NGX_HTTP_OPTIONS),
      (bytes ''CONNECT'', NGX_HTTP_CONNECT), (bytes ''PROPFIND'', NGX_HTTP_PROPFIND),
      (bytes ''PROPPATCH'', NGX_HTTP_PROPPATCH)]"

lemma ngx_str_cmp_whole:
  "length m = length cs \<Longrightarrow> ngx_str_cmp (m @ SP # w) 0 cs \<longleftrightarrow> m = bytes cs"
  "length m = length cs \<Longrightarrow> ngx_str_cmp (m @ SP # w) 0 (cs @ '' '') \<longleftrightarrow> m = bytes cs"
  by (simp_all add: ngx_str_cmp_def)

lemma rl_method_unknown:
  assumes "m \<notin> fst ` set known_methods"
  shows "rl_method (m @ SP # w) 0 (length m) old = old"
proof -
  have n: "m \<noteq> bytes cs" if "cs \<in> {''GET'', ''PUT'', ''POST'', ''COPY'', ''MOVE'', ''LOCK'', ''HEAD'', ''MKCOL'',
      ''PATCH'', ''TRACE'', ''DELETE'', ''UNLOCK'', ''OPTIONS'', ''CONNECT'', ''PROPFIND'', ''PROPPATCH''}" for cs
    using assms that unfolding known_methods_def by (simp del: list.map of_char_Char) blast
  show ?thesis
    using ngx_str_cmp_whole(2) [of m "''GET''" w] ngx_str_cmp_whole(2) [of m "''PUT''" w]
      ngx_str_cmp_whole(2) [of m "''OPTIONS''" w] ngx_str_cmp_whole(2) [of m "''CONNECT''" w]
    by (simp add: rl_method_def ngx_str_cmp_whole(1) n del: list.map of_char_Char)
qed

lemma rl_method_known:
  "rl_method (m @ SP # w) 0 (length m) old = (case map_of known_methods m of None \<Rightarrow> old | Some k \<Rightarrow> k)"
proof (cases "map_of known_methods m")
  case None
  then have "m \<notin> fst ` set known_methods" by (simp add: map_of_eq_None_iff)
  from rl_method_unknown [OF this] show ?thesis by (simp only: None option.case)
next
  case (Some k)
  then have "(m, k) \<in> set known_methods" by (rule map_of_SomeD)
  then have "rl_method (m @ SP # w) 0 (length m) old = k"
    unfolding known_methods_def set_simps insert_iff empty_iff prod.inject
    by (elim disjE conjE) (simp_all add: rl_method_def ngx_str_cmp_def)
  with Some show ?thesis by simp
qed

lemma scan_method_chars:
  "\<forall>ch\<in>set ms. \<not> not_method_char ch \<Longrightarrow>
     scan (rl_step buf) p ms (sw_method, r) = (p + length ms, Next (sw_method, r))"
proof (induction ms arbitrary: p)
  case (Cons ch ms)
  then have "\<not> not_method_char ch" "ch \<noteq> SP" by (auto simp: not_method_char_def)
  with Cons show ?case by (simp add: rl_step.simps rl_sw_method_def)
qed simp

text \<open>What the URI states leave alone.\<close>

definition rl_frame :: "ngx_http_request \<Rightarrow> ngx_http_request" where
  "rl_frame r = r\<lparr>uri_ext := None, args_start := None, complex_uri := False, quoted_uri := False,
                  plus_in_uri := False\<rparr>"

lemma rl_frame_simps [simp]:
  "rl_frame (r\<lparr>uri_ext := a\<rparr>) = rl_frame r" "rl_frame (r\<lparr>args_start := b\<rparr>) = rl_frame r"
  "rl_frame (r\<lparr>complex_uri := c\<rparr>) = rl_frame r" "rl_frame (r\<lparr>quoted_uri := c\<rparr>) = rl_frame r"
  "rl_frame (r\<lparr>plus_in_uri := c\<rparr>) = rl_frame r"
  by (simp_all add: rl_frame_def)

lemma rl_step_visible:
  assumes "st \<in> {sw_after_slash_in_uri, sw_check_uri, sw_uri}" "0x20 < ch" "ch \<noteq> 0x7f"
  shows "\<exists>st' r'. rl_step buf p ch (st, r) = Next (st', r') \<and>
           st' \<in> {sw_after_slash_in_uri, sw_check_uri, sw_uri} \<and> rl_frame r' = rl_frame r"
proof -
  from assms(2) have "ch \<noteq> SP" "ch \<noteq> CR" "ch \<noteq> LF" "\<not> ch < 0x20" by auto
  with assms(1,3) show ?thesis
    by (auto simp: rl_step.simps rl_sw_after_slash_in_uri_def rl_sw_check_uri_def rl_sw_uri_def)
qed

lemma scan_uri_chars:
  "st \<in> {sw_after_slash_in_uri, sw_check_uri, sw_uri} \<Longrightarrow> \<forall>ch\<in>set us. 0x20 < ch \<and> ch \<noteq> 0x7f \<Longrightarrow>
     \<exists>st' r'. scan (rl_step buf) p us (st, r) = (p + length us, Next (st', r')) \<and>
       st' \<in> {sw_after_slash_in_uri, sw_check_uri, sw_uri} \<and> rl_frame r' = rl_frame r"
proof (induction us arbitrary: p st r)
  case (Cons ch us)
  then obtain st1 r1 where "rl_step buf p ch (st, r) = Next (st1, r1)" "rl_frame r1 = rl_frame r"
    and "st1 \<in> {sw_after_slash_in_uri, sw_check_uri, sw_uri}"
    using rl_step_visible [of st ch buf p r] by auto
  with Cons.IH [of st1 "Suc p" r1] Cons.prems(2) show ?case by auto
qed simp

lemma rl_step_uri_space:
  "st \<in> {sw_after_slash_in_uri, sw_check_uri, sw_uri} \<Longrightarrow>
     rl_step buf p SP (st, r) = Next (sw_http_09, r\<lparr>uri_end := p\<rparr>)"
proof -
  have "\<not> usual SP" by (simp add: usual_def usual_tab_def)
  then show "st \<in> {sw_after_slash_in_uri, sw_check_uri, sw_uri} \<Longrightarrow> ?thesis"
    by (auto simp: rl_step.simps rl_sw_after_slash_in_uri_def rl_sw_check_uri_def rl_sw_uri_def)
qed

lemma scan_protocol:
  assumes "is_digit d"
  shows "scan (rl_step buf) p (bytes ''HTTP/1.'' @ [d, CR, LF] @ rest) (sw_http_09, r) =
     (p + 9, Exit (Done (r\<lparr>http_protocol_data := p, http_major := 1, http_minor := digit_val d,
                           request_end := Some (p + 8)\<rparr>)))"
  using assms
  by (simp add: rl_step.simps rl_sw_http_09_def rl_sw_http_H_def rl_sw_http_HT_def rl_sw_http_HTT_def
        rl_sw_http_HTTP_def rl_sw_first_major_digit_def rl_sw_major_digit_def
        rl_sw_first_minor_digit_def rl_sw_minor_digit_def rl_sw_almost_done_def digit_val_def Let_def)

text \<open>
  C23. Every request line of the form \<open>METHOD SP /target SP HTTP/1.d CR LF\<close> is accepted, whatever
  follows it: the method is the one the table assigns, the offsets delimit method, target and line
  exactly, and nothing after the line feed is consumed.
\<close>

theorem request_line_accepts:
  assumes m: "m \<noteq> []" "\<forall>ch\<in>set m. \<not> not_method_char ch"
    and u: "\<forall>ch\<in>set u. 0x20 < ch \<and> ch \<noteq> 0x7f"
    and d: "is_digit d"
    and b: "b = \<lparr>pos = 0, data = m @ [SP] @ B CHR ''/'' # u @ [SP] @ bytes ''HTTP/1.'' @ [d, CR, LF] @ rest\<rparr>"
  shows "\<exists>r. ngx_http_parse_request_line init_request b =
           (NGX_OK, r, b\<lparr>pos := length m + length u + 13\<rparr>) \<and>
         request_start r = 0 \<and> method_end r = length m - 1 \<and>
         method r = (case map_of known_methods m of None \<Rightarrow> NGX_HTTP_UNKNOWN | Some k \<Rightarrow> k) \<and>
         uri_start r = length m + 1 \<and> uri_end r = length m + length u + 2 \<and>
         request_end r = Some (length m + length u + 11) \<and>
         http_version r = 1000 + digit_val d"
proof -
  obtain c ms where mc: "m = c # ms" using m(1) by (cases m) auto
  let ?u = "u @ [SP] @ bytes ''HTTP/1.'' @ [d, CR, LF] @ rest"
  let ?buf = "m @ [SP] @ B CHR ''/'' # ?u"
  let ?r0 = "init_request\<lparr>request_start := 0\<rparr>"
  let ?r1 = "?r0\<lparr>method_end := length m - 1, method := rl_method ?buf 0 (length m) NGX_HTTP_UNKNOWN\<rparr>"
  let ?r2 = "?r1\<lparr>uri_start := length m + 1\<rparr>"
  have s1: "rl_step ?buf 0 c (sw_start, init_request) = Next (sw_method, ?r0)"
  proof -
    have "\<not> not_method_char c" using m(2) mc by simp
    moreover from this have "c \<noteq> CR" "c \<noteq> LF" by (auto simp: not_method_char_def)
    ultimately show ?thesis by (simp add: rl_step.simps rl_sw_start_def Let_def)
  qed
  have s2: "scan (rl_step ?buf) 1 ms (sw_method, ?r0) = (length m, Next (sw_method, ?r0))"
    using scan_method_chars m(2) mc by simp
  have s3: "rl_step ?buf (length m) SP (sw_method, ?r0) = Next (sw_spaces_before_uri, ?r1)"
    by (simp add: rl_step.simps rl_sw_method_def init_request_def)
  have s4: "rl_step ?buf (Suc (length m)) (B CHR ''/'') (sw_spaces_before_uri, ?r1) = Next (sw_after_slash_in_uri, ?r2)"
    by (simp add: rl_step.simps rl_sw_spaces_before_uri_def)
  let ?p = "Suc (Suc (length m))"
  obtain st r3 where s5: "scan (rl_step ?buf) ?p u (sw_after_slash_in_uri, ?r2) = (?p + length u, Next (st, r3))"
    and st: "st \<in> {sw_after_slash_in_uri, sw_check_uri, sw_uri}" and fr: "rl_frame r3 = rl_frame ?r2"
    using scan_uri_chars [of sw_after_slash_in_uri u ?buf ?p ?r2] u by auto
  let ?q = "?p + length u"
  let ?r4 = "r3\<lparr>uri_end := ?q, http_protocol_data := Suc ?q, http_major := 1, http_minor := digit_val d,
                request_end := Some (Suc ?q + 8)\<rparr>"
  have "scan (rl_step ?buf) 0 ?buf (sw_start, init_request) = (Suc ?q + 9, Exit (Done ?r4))"
    using s1 s2 s3 s4 s5 rl_step_uri_space [OF st, of ?buf ?q r3] scan_protocol [OF d, of ?buf "Suc ?q" rest]
    by (simp add: mc scan_append)
  then have "scan_buf rl_step b (state init_request, init_request) = (Suc ?q + 9, Exit (Done ?r4))"
    by (simp add: scan_buf_def b init_request_def)
  then have "ngx_http_parse_request_line init_request b = rl_done (Suc ?q + 9) ?r4 b"
    by (simp add: ngx_http_parse_request_line_def)
  moreover have "method r3 = method ?r1" "method_end r3 = length m - 1" "uri_start r3 = length m + 1"
    "request_start r3 = 0"
    using arg_cong [OF fr, of "method"] arg_cong [OF fr, of method_end]
      arg_cong [OF fr, of uri_start] arg_cong [OF fr, of request_start] by (simp_all add: rl_frame_def)
  moreover have "method ?r1 = (case map_of known_methods m of None \<Rightarrow> NGX_HTTP_UNKNOWN | Some k \<Rightarrow> k)"
    by (simp only: append_Cons append_Nil rl_method_known) simp
  ultimately show ?thesis
    by (simp add: rl_done_def Let_def)
qed

theorem request_line_accepts_witness:
  "\<exists>r. ngx_http_parse_request_line init_request
         \<lparr>pos = 0, data = bytes ''GET /i.html HTTP/1.1'' @ [CR, LF] @ bytes ''Host:''\<rparr> =
       (NGX_OK, r, \<lparr>pos = 22, data = bytes ''GET /i.html HTTP/1.1'' @ [CR, LF] @ bytes ''Host:''\<rparr>) \<and>
     method r = NGX_HTTP_GET \<and> uri_start r = 4 \<and> uri_end r = 11 \<and> http_version r = 1001"
proof -
  have m: "bytes ''GET'' \<noteq> []" "\<forall>ch\<in>set (bytes ''GET''). \<not> not_method_char ch"
    and u: "\<forall>ch\<in>set (bytes ''i.html''). 0x20 < ch \<and> ch \<noteq> 0x7f" and d: "is_digit (B CHR ''1'')"
    by (simp_all add: not_method_char_def is_digit_def)
  show ?thesis
    using request_line_accepts [OF m u d refl, of "bytes ''Host:''"]
    by (auto simp: known_methods_def digit_val_def)
qed

end
