(* ===== verification/Ngx_Http_Uri.thy ===== *)
theory Ngx_Http_Uri
  imports Ngx_Http_Request_Line
begin

text \<open>
  URI normalisation: \<^verbatim>\<open>ngx_http_parse_complex_uri\<close> of \<^verbatim>\<open>src/http/ngx_http_parse.c\<close> and its caller
  \<^verbatim>\<open>ngx_http_process_request_uri\<close> of \<^verbatim>\<open>src/http/ngx_http_request.c\<close>. The normalised path is written
  into a buffer that the caller allocates from the offsets the request line parser left behind;
  a write past its end and a read past the end of the request are the explicit outcome \<open>Fault\<close> of
  the model, which is shown never to happen. The main results are that an accepted request never
  has a \<open>.\<close> or \<open>..\<close> segment in its path, and that the shortcut taken when the request line parser
  saw nothing special gives what the full normalisation would give.
\<close>

section \<open>The normalisation loop\<close>

text \<open>
  The \<open>enum\<close> of states. The variable \<open>quoted_state\<close> is only read in the two \<open>sw_quoted\<close> states,
  \<open>decoded\<close> only in \<open>sw_quoted_second\<close>, so these states carry them.
\<close>

datatype cu_base = sw_usual | sw_slash | sw_dot | sw_dot_dot

datatype cu_state = Sw cu_base | sw_quoted cu_base | sw_quoted_second cu_base byte

text \<open>
  The bytes from \<open>r->uri.data\<close> up to the write pointer \<open>u\<close> are a list; \<open>r->uri_ext\<close> is an offset
  into it. One round of the loop ends with \<open>ch = *p++\<close> (\<open>Step\<close>), goes on with the decoded
  character in place of \<open>ch\<close> (\<open>Redo\<close>), jumps to a label with the current value of \<open>p\<close>, returns
  \<open>NGX_HTTP_PARSE_INVALID_REQUEST\<close>, or touches memory it must not (\<open>Fault\<close>).
\<close>

datatype cu_ctl =
    Step cu_state "byte list" ngx_http_request
  | Redo byte cu_base "byte list" ngx_http_request
  | Goto_args nat "byte list" ngx_http_request
  | Goto_done "byte list" ngx_http_request
  | Invalid ngx_http_request
  | Fault

text \<open>\<open>*u++ = ch\<close> into a buffer of \<open>cap\<close> bytes, and \<open>u--\<close>.\<close>

definition put :: "nat \<Rightarrow> byte list \<Rightarrow> byte \<Rightarrow> (byte list \<Rightarrow> cu_ctl) \<Rightarrow> cu_ctl" where
  "put cap u ch k = (if length u < cap then k (u @ [ch]) else Fault)"

definition unput :: "byte list \<Rightarrow> (byte list \<Rightarrow> cu_ctl) \<Rightarrow> cu_ctl" where
  "unput u k = (if u = [] then Fault else k (butlast u))"

text \<open>
  \<open>u -= 4\<close> and the loop that walks back to the previous slash; \<open>None\<close> when the walk leaves the
  buffer, where the code returns an error.
\<close>

fun cu_back :: "nat \<Rightarrow> byte list \<Rightarrow> byte list option" where
  "cu_back 0 u = (if u ! 0 = B CHR ''/'' then Some (take 1 u) else None)"
| "cu_back (Suc i) u = (if u ! Suc i = B CHR ''/'' then Some (take (Suc (Suc i)) u) else cu_back i u)"

definition cu_rewind :: "byte list \<Rightarrow> byte list option" where
  "cu_rewind u = (if length u < 4 then None else cu_back (length u - 4) u)"

definition cu_sw_usual :: "nat \<Rightarrow> nat \<Rightarrow> byte \<Rightarrow> byte list \<Rightarrow> ngx_http_request \<Rightarrow> cu_ctl" where
  "cu_sw_usual cap p ch u r =
     (if usual ch then put cap u ch (\<lambda>u. Step (Sw sw_usual) u r)
      else if ch = B CHR ''/'' then
        put cap u ch (\<lambda>u. Step (Sw sw_slash) u (r\<lparr>uri_ext := None\<rparr>))
      else if ch = B CHR ''%'' then Step (sw_quoted sw_usual) u r
      else if ch = B CHR ''?'' then Goto_args p u (r\<lparr>args_start := Some p\<rparr>)
      else if ch = B CHR ''#'' then Goto_done u r
      else if ch = B CHR ''.'' then
        put cap u ch (\<lambda>u'. Step (Sw sw_usual) u' (r\<lparr>uri_ext := Some (length u + 1)\<rparr>))
      else if ch = B CHR ''+'' then
        put cap u ch (\<lambda>u. Step (Sw sw_usual) u (r\<lparr>plus_in_uri := True\<rparr>))
      else put cap u ch (\<lambda>u. Step (Sw sw_usual) u r))"

definition cu_sw_slash :: "bool \<Rightarrow> nat \<Rightarrow> nat \<Rightarrow> byte \<Rightarrow> byte list \<Rightarrow> ngx_http_request \<Rightarrow> cu_ctl" where
  "cu_sw_slash merge_slashes cap p ch u r =
     (if usual ch then put cap u ch (\<lambda>u. Step (Sw sw_usual) u r)
      else if ch = B CHR ''/'' then
        (if \<not> merge_slashes then put cap u ch (\<lambda>u. Step (Sw sw_slash) u r)
         else Step (Sw sw_slash) u r)
      else if ch = B CHR ''.'' then put cap u ch (\<lambda>u. Step (Sw sw_dot) u r)
      else if ch = B CHR ''%'' then Step (sw_quoted sw_slash) u r
      else if ch = B CHR ''?'' then Goto_args p u (r\<lparr>args_start := Some p\<rparr>)
      else if ch = B CHR ''#'' then Goto_done u r
      else if ch = B CHR ''+'' then
        put cap u ch (\<lambda>u. Step (Sw sw_usual) u (r\<lparr>plus_in_uri := True\<rparr>))
      else put cap u ch (\<lambda>u. Step (Sw sw_usual) u r))"

definition cu_sw_dot :: "nat \<Rightarrow> nat \<Rightarrow> byte \<Rightarrow> byte list \<Rightarrow> ngx_http_request \<Rightarrow> cu_ctl" where
  "cu_sw_dot cap p ch u r =
     (if usual ch then put cap u ch (\<lambda>u. Step (Sw sw_usual) u r)
      else if ch = B CHR ''/'' then unput u (\<lambda>u. Step (Sw sw_slash) u r)
      else if ch = B CHR ''.'' then put cap u ch (\<lambda>u. Step (Sw sw_dot_dot) u r)
      else if ch = B CHR ''%'' then Step (sw_quoted sw_dot) u r
      else if ch = B CHR ''?'' then unput u (\<lambda>u. Goto_args p u (r\<lparr>args_start := Some p\<rparr>))
      else if ch = B CHR ''#'' then unput u (\<lambda>u. Goto_done u r)
      else if ch = B CHR ''+'' then
        put cap u ch (\<lambda>u. Step (Sw sw_usual) u (r\<lparr>plus_in_uri := True\<rparr>))
      else put cap u ch (\<lambda>u. Step (Sw sw_usual) u r))"

definition cu_sw_dot_dot :: "nat \<Rightarrow> nat \<Rightarrow> byte \<Rightarrow> byte list \<Rightarrow> ngx_http_request \<Rightarrow> cu_ctl" where
  "cu_sw_dot_dot cap p ch u r =
     (if usual ch then put cap u ch (\<lambda>u. Step (Sw sw_usual) u r)
      else if ch = B CHR ''/'' \<or> ch = B CHR ''?'' \<or> ch = B CHR ''#'' then
        (case cu_rewind u of
           None \<Rightarrow> Invalid r
         | Some u \<Rightarrow>
             if ch = B CHR ''?'' then Goto_args p u (r\<lparr>args_start := Some p\<rparr>)
             else if ch = B CHR ''#'' then Goto_done u r
             else Step (Sw sw_slash) u r)
      else if ch = B CHR ''%'' then Step (sw_quoted sw_dot_dot) u r
      else if ch = B CHR ''+'' then
        put cap u ch (\<lambda>u. Step (Sw sw_usual) u (r\<lparr>plus_in_uri := True\<rparr>))
      else put cap u ch (\<lambda>u. Step (Sw sw_usual) u r))"

definition cu_sw_quoted :: "cu_base \<Rightarrow> byte \<Rightarrow> byte list \<Rightarrow> ngx_http_request \<Rightarrow> cu_ctl" where
  "cu_sw_quoted quoted_state ch u r0 =
     (let r = r0\<lparr>quoted_uri := True\<rparr> in
      if is_digit ch then Step (sw_quoted_second quoted_state (ch - B CHR ''0'')) u r
      else if is_hex_alpha ch then
        Step (sw_quoted_second quoted_state (hex_alpha_val ch + 10)) u r
      else Invalid r)"

definition cu_sw_quoted_second ::
    "nat \<Rightarrow> cu_base \<Rightarrow> byte \<Rightarrow> byte \<Rightarrow> byte list \<Rightarrow> ngx_http_request \<Rightarrow> cu_ctl" where
  "cu_sw_quoted_second cap quoted_state decoded ch0 u r =
     (if is_digit ch0 then
        let ch = push_bit 4 decoded + (ch0 - B CHR ''0'') in
        if ch = B CHR ''%'' \<or> ch = B CHR ''#'' then put cap u ch (\<lambda>u. Step (Sw sw_usual) u r)
        else if ch = 0 then Invalid r
        else Redo ch quoted_state u r
      else if is_hex_alpha ch0 then
        let ch = push_bit 4 decoded + hex_alpha_val ch0 + 10 in
        if ch = B CHR ''?'' then put cap u ch (\<lambda>u. Step (Sw sw_usual) u r)
        else if ch = B CHR ''+'' then Redo ch quoted_state u (r\<lparr>plus_in_uri := True\<rparr>)
        else Redo ch quoted_state u r
      else Invalid r)"

fun cu_step :: "bool \<Rightarrow> nat \<Rightarrow> nat \<Rightarrow> byte \<Rightarrow> cu_state \<Rightarrow> byte list \<Rightarrow> ngx_http_request \<Rightarrow> cu_ctl" where
  "cu_step merge_slashes cap p ch (Sw sw_usual) u r = cu_sw_usual cap p ch u r"
| "cu_step merge_slashes cap p ch (Sw sw_slash) u r = cu_sw_slash merge_slashes cap p ch u r"
| "cu_step merge_slashes cap p ch (Sw sw_dot) u r = cu_sw_dot cap p ch u r"
| "cu_step merge_slashes cap p ch (Sw sw_dot_dot) u r = cu_sw_dot_dot cap p ch u r"
| "cu_step merge_slashes cap p ch (sw_quoted q) u r = cu_sw_quoted q ch u r"
| "cu_step merge_slashes cap p ch (sw_quoted_second q d) u r = cu_sw_quoted_second cap q d ch u r"

text \<open>The code between the loop and the label \<open>done\<close>.\<close>

fun cu_end :: "cu_state \<Rightarrow> byte list \<Rightarrow> ngx_http_request \<Rightarrow> cu_ctl" where
  "cu_end (Sw sw_dot) u r = unput u (\<lambda>u. Goto_done u r)"
| "cu_end (Sw sw_dot_dot) u r =
     (case cu_rewind u of None \<Rightarrow> Invalid r | Some u \<Rightarrow> Goto_done u r)"
| "cu_end (Sw _) u r = Goto_done u r"
| "cu_end _ u r = Invalid r"

lemma put_not_Redo [simp]: "put cap u ch (\<lambda>u'. Step (f u') u' (g u')) \<noteq> Redo c q w r"
  by (simp add: put_def)

lemma cu_step_Redo: "cu_step m cap p ch st u r = Redo ch' q u' r' \<Longrightarrow> \<exists>q d. st = sw_quoted_second q d"
  by (cases "(m, cap, p, ch, st, u, r)" rule: cu_step.cases)
     (auto simp: cu_sw_usual_def cu_sw_slash_def cu_sw_dot_def cu_sw_dot_dot_def cu_sw_quoted_def
                 unput_def Let_def split: if_splits option.splits)

text \<open>
  The loop \<open>while (p <= r->uri_end)\<close>; \<open>ch\<close> is the character before \<open>p\<close>. It ends because every round
  advances \<open>p\<close> or leaves \<open>sw_quoted_second\<close>.
\<close>

function cu_loop ::
    "byte list \<Rightarrow> bool \<Rightarrow> nat \<Rightarrow> nat \<Rightarrow> nat \<Rightarrow> byte \<Rightarrow> cu_state \<Rightarrow> byte list \<Rightarrow> ngx_http_request \<Rightarrow> cu_ctl" where
  "cu_loop buf merge_slashes cap e p ch st u r =
     (if p \<le> e then
        (case cu_step merge_slashes cap p ch st u r of
           Step st' u' r' \<Rightarrow>
             if p < length buf then cu_loop buf merge_slashes cap e (p + 1) (buf ! p) st' u' r' else Fault
         | Redo ch' q u' r' \<Rightarrow> cu_loop buf merge_slashes cap e p ch' (Sw q) u' r'
         | res \<Rightarrow> res)
      else cu_end st u r)"
  by pat_completeness auto
termination
  by (relation "measure (\<lambda>(buf, m, cap, e, p, ch, st, u, r).
        2 * (e + 1 - p) + (case st of sw_quoted_second _ _ \<Rightarrow> 1 | _ \<Rightarrow> 0))")
     (auto dest!: cu_step_Redo split: cu_state.splits)

declare cu_loop.simps [simp del]

text \<open>The fields \<open>r->uri\<close>, \<open>r->exten\<close>, \<open>r->args\<close> and \<open>r->unparsed_uri\<close>, as byte strings.\<close>

record ngx_http_uri =
  uri :: "byte list"
  exten :: "byte list"
  args :: "byte list"
  unparsed_uri :: "byte list"
  valid_unparsed_uri :: bool

text \<open>The lines that both labels \<open>done\<close> and \<open>args\<close> end with.\<close>

definition cu_finish :: "byte list \<Rightarrow> ngx_http_request \<Rightarrow> ngx_http_uri \<Rightarrow> ngx_http_request \<times> ngx_http_uri" where
  "cu_finish u r n =
     (let n1 = n\<lparr>uri := u\<rparr>;
          n2 = (case uri_ext r of None \<Rightarrow> n1 | Some x \<Rightarrow> n1\<lparr>exten := drop x u\<rparr>)
      in (r\<lparr>uri_ext := None\<rparr>, n2))"

text \<open>
  The label \<open>args\<close>: if there is a fragment mark in the rest of the URI, the arguments end before it.
\<close>

definition cu_args :: "byte list \<Rightarrow> nat \<Rightarrow> nat \<Rightarrow> ngx_http_request \<Rightarrow> ngx_http_uri \<Rightarrow> ngx_http_request \<times> ngx_http_uri" where
  "cu_args buf p e r n =
     (case filter (\<lambda>i. buf ! i = B CHR ''#'') [p..<e] of
        [] \<Rightarrow> (r, n)
      | i # _ \<Rightarrow> (r\<lparr>args_start := None\<rparr>,
           n\<lparr>args := slice buf (case args_start r of None \<Rightarrow> 0 | Some a \<Rightarrow> a) i\<rparr>))"

datatype uri_result =
    Uri_rc ngx_int ngx_http_request ngx_http_uri
  | Uri_fault

definition ngx_http_parse_complex_uri ::
    "byte list \<Rightarrow> bool \<Rightarrow> nat \<Rightarrow> ngx_http_request \<Rightarrow> ngx_http_uri \<Rightarrow> uri_result" where
  "ngx_http_parse_complex_uri buf merge_slashes cap r0 n =
     (let r = r0\<lparr>uri_ext := None, args_start := None\<rparr>;
          p = uri_start r
      in if empty_path_in_uri r \<and> cap = 0 \<or> length buf \<le> p then Uri_fault
         else case cu_loop buf merge_slashes cap (uri_end r) (p + 1) (buf ! p) (Sw sw_usual)
                     (if empty_path_in_uri r then [B CHR ''/''] else []) r of
           Goto_done u r' \<Rightarrow> (case cu_finish u r' n of (r', n') \<Rightarrow> Uri_rc NGX_OK r' n')
         | Goto_args p' u r' \<Rightarrow>
             (case cu_args buf p' (uri_end r') r' n of (r', n') \<Rightarrow>
                case cu_finish u r' n' of (r', n') \<Rightarrow> Uri_rc NGX_OK r' n')
         | Invalid r' \<Rightarrow> Uri_rc NGX_HTTP_PARSE_INVALID_REQUEST r' n
         | _ \<Rightarrow> Uri_fault)"

section \<open>Processing the URI of a request\<close>

text \<open>
  What becomes of the request: it goes on (\<open>Uri_ok\<close>), the connection is closed because memory could
  not be allocated, it is finalized with status 400, or memory was violated.
\<close>

datatype process_uri_result =
    Uri_ok ngx_http_request ngx_http_uri
  | Close_request_500
  | Finalize_request_400
  | Process_fault

text \<open>The number of bytes set aside for the normalised URI.\<close>

definition uri_cap :: "ngx_http_request \<Rightarrow> nat" where
  "uri_cap r = (case args_start r of Some a \<Rightarrow> a - 1 - uri_start r | None \<Rightarrow> uri_end r - uri_start r)
               + (if empty_path_in_uri r then 1 else 0)"

definition process_uri_tail :: "byte list \<Rightarrow> ngx_http_request \<Rightarrow> ngx_http_uri \<Rightarrow> process_uri_result" where
  "process_uri_tail buf r n0 =
     (let n1 = n0\<lparr>unparsed_uri := slice buf (uri_start r) (uri_end r),
                  valid_unparsed_uri := \<not> empty_path_in_uri r\<rparr>;
          n2 = (case uri_ext r of
                  None \<Rightarrow> n1
                | Some x \<Rightarrow> n1\<lparr>exten := slice buf x (case args_start r of Some a \<Rightarrow> a - 1 | None \<Rightarrow> uri_end r)\<rparr>);
          n3 = (case args_start r of
                  Some a \<Rightarrow> if a < uri_end r then n2\<lparr>args := slice buf a (uri_end r)\<rparr> else n2
                | None \<Rightarrow> n2)
      in Uri_ok r n3)"

definition ngx_http_process_request_uri ::
    "bool \<Rightarrow> bool \<Rightarrow> byte list \<Rightarrow> ngx_http_request \<Rightarrow> ngx_http_uri \<Rightarrow> process_uri_result" where
  "ngx_http_process_request_uri pnalloc_ok merge_slashes buf r n =
     (if complex_uri r \<or> quoted_uri r \<or> empty_path_in_uri r then
        if \<not> pnalloc_ok then Close_request_500
        else case ngx_http_parse_complex_uri buf merge_slashes (uri_cap r) r n of
          Uri_fault \<Rightarrow> Process_fault
        | Uri_rc rc r' n' \<Rightarrow> if rc \<noteq> NGX_OK then Finalize_request_400 else process_uri_tail buf r' n'
      else process_uri_tail buf r (n\<lparr>uri := slice buf (uri_start r) (uri_start r + uri_cap r)\<rparr>))"

definition init_uri :: ngx_http_uri where
  "init_uri = \<lparr>uri = [], exten = [], args = [], unparsed_uri = [], valid_unparsed_uri = False\<rparr>"

section \<open>Path segments\<close>

text \<open>The segments of a path: the pieces between slashes.\<close>

fun segments :: "byte list \<Rightarrow> byte list list" where
  "segments [] = [[]]"
| "segments (c # cs) =
     (if c = B CHR ''/'' then [] # segments cs else (c # hd (segments cs)) # tl (segments cs))"

definition dot_segments :: "byte list set" where
  "dot_segments = {bytes ''.'', bytes ''..''}"

text \<open>
  What is wanted of a path that is about to be mapped to a file: it is absolute, it cannot climb,
  it has no zero byte, and with \<open>merge_slashes\<close> no segment but the first and the last is empty.
\<close>

definition safe_path :: "bool \<Rightarrow> byte list \<Rightarrow> bool" where
  "safe_path merge_slashes u \<longleftrightarrow>
     u \<noteq> [] \<and> hd u = B CHR ''/'' \<and> (\<forall>s\<in>set (segments u). s \<notin> dot_segments) \<and> 0 \<notin> set u \<and>
     (merge_slashes \<longrightarrow> [] \<notin> set (butlast (tl (segments u))))"

lemma segments_not_Nil [simp]: "segments u \<noteq> []"
  by (cases u) auto

lemma segments_snoc:
  "segments (u @ [c]) =
     (if c = B CHR ''/'' then segments u @ [[]]
      else butlast (segments u) @ [last (segments u) @ [c]])"
proof (induction u)
  case (Cons a u)
  obtain h t where ht: "segments u = h # t" by (cases "segments u") auto
  show ?case using Cons.IH by (cases "c = 47"; cases t rule: rev_cases) (simp_all add: ht)
qed simp

lemma butlast_segments_snoc:
  "butlast (segments (u @ [c])) = (if c = B CHR ''/'' then segments u else butlast (segments u))"
  by (simp add: segments_snoc)

lemma last_segments_snoc:
  "last (segments (u @ [c])) = (if c = B CHR ''/'' then [] else last (segments u) @ [c])"
  by (simp add: segments_snoc)

lemma butlast_segments_prefix:
  "\<exists>zs. butlast (segments (x @ y)) = butlast (segments x) @ zs"
proof (induction y rule: rev_induct)
  case (snoc c y)
  then obtain zs where zs: "butlast (segments (x @ y)) = butlast (segments x) @ zs" by blast
  have "segments (x @ y) = butlast (segments (x @ y)) @ [last (segments (x @ y))]" by simp
  then have "segments (x @ y) = butlast (segments x) @ zs @ [last (segments (x @ y))]"
    by (simp only: zs append_assoc)
  with zs show ?case
    using butlast_segments_snoc [of "x @ y" c] by (metis append_assoc)
qed simp

lemma tl_butlast_segments: "u \<noteq> [] \<Longrightarrow> hd u = B CHR ''/'' \<Longrightarrow> butlast (segments u) = [] # butlast (tl (segments u))"
  by (cases u) auto

section \<open>The invariant of the normalisation loop\<close>

text \<open>
  All segments but the last are in order, and the state says what the last one is.
\<close>

definition closed_ok :: "bool \<Rightarrow> byte list \<Rightarrow> bool" where
  "closed_ok merge_slashes u \<longleftrightarrow> u \<noteq> [] \<and> hd u = B CHR ''/'' \<and> 0 \<notin> set u \<and>
     (\<forall>s\<in>set (butlast (segments u)). s \<notin> dot_segments) \<and>
     (merge_slashes \<longrightarrow> [] \<notin> set (tl (butlast (segments u))))"

fun last_ok :: "cu_base \<Rightarrow> byte list \<Rightarrow> bool" where
  "last_ok sw_usual s \<longleftrightarrow> s \<noteq> [] \<and> s \<notin> dot_segments"
| "last_ok sw_slash s \<longleftrightarrow> s = []"
| "last_ok sw_dot s \<longleftrightarrow> s = bytes ''.''"
| "last_ok sw_dot_dot s \<longleftrightarrow> s = bytes ''..''"

fun base :: "cu_state \<Rightarrow> cu_base" where
  "base (Sw q) = q" | "base (sw_quoted q) = q" | "base (sw_quoted_second q d) = q"

definition cu_shape :: "bool \<Rightarrow> cu_base \<Rightarrow> byte list \<Rightarrow> bool" where
  "cu_shape m q u \<longleftrightarrow> closed_ok m u \<and> last_ok q (last (segments u))"

lemma closed_ok_snoc:
  "closed_ok m u \<Longrightarrow> c \<noteq> 0 \<Longrightarrow> c \<noteq> B CHR ''/'' \<Longrightarrow> closed_ok m (u @ [c])"
  by (simp add: closed_ok_def butlast_segments_snoc)

lemma shape_snoc:
  assumes "cu_shape m q u" "c \<noteq> 0" "c \<noteq> B CHR ''/''" "q = sw_usual \<or> c \<noteq> B CHR ''.'' \<or> q = sw_dot_dot"
  shows "cu_shape m sw_usual (u @ [c])"
  using assms by (cases q) (auto simp: cu_shape_def closed_ok_snoc last_segments_snoc dot_segments_def)

lemma shape_dot: "cu_shape m sw_slash u \<Longrightarrow> cu_shape m sw_dot (u @ [B CHR ''.''])"
  by (simp add: cu_shape_def closed_ok_snoc last_segments_snoc)

lemma shape_dot_dot: "cu_shape m sw_dot u \<Longrightarrow> cu_shape m sw_dot_dot (u @ [B CHR ''.''])"
  by (simp add: cu_shape_def closed_ok_snoc last_segments_snoc)

lemma shape_slash:
  assumes "cu_shape m q u" "q = sw_usual \<or> q = sw_slash \<and> \<not> m"
  shows "cu_shape m sw_slash (u @ [B CHR ''/''])"
proof -
  have "segments u = butlast (segments u) @ [last (segments u)]" by simp
  then have "set (segments u) = set (butlast (segments u)) \<union> {last (segments u)}" by (metis Un_insert_right list.simps(15) set_append sup_bot_right list.set(1))
  moreover have "tl (segments u) = [] \<or> tl (segments u) = tl (butlast (segments u)) @ [last (segments u)]"
    by (metis append_butlast_last_id butlast_tl last_tl segments_not_Nil)
  ultimately show ?thesis
    using assms
    by (auto simp: cu_shape_def closed_ok_def butlast_segments_snoc last_segments_snoc dot_segments_def)
qed

lemma closed_ok_prefix:
  assumes "closed_ok m (x @ y)" "x \<noteq> []"
  shows "closed_ok m x"
proof -
  obtain zs where zs: "butlast (segments (x @ y)) = butlast (segments x) @ zs"
    using butlast_segments_prefix by blast
  show ?thesis
    using assms zs by (cases "butlast (segments x)") (auto simp: closed_ok_def)
qed

lemma shape_undot:
  assumes "cu_shape m sw_dot u"
  shows "u \<noteq> []" "cu_shape m sw_slash (butlast u)"
proof -
  from assms show "u \<noteq> []" by (auto simp: cu_shape_def closed_ok_def)
  then obtain v c where u: "u = v @ [c]" by (cases u rule: rev_cases) auto
  have l: "last (segments v) = []" "c = B CHR ''.''"
    using assms unfolding u cu_shape_def by (auto simp: last_segments_snoc split: if_splits)
  then have "v \<noteq> []" using assms unfolding u by (auto simp: cu_shape_def closed_ok_def)
  then show "cu_shape m sw_slash (butlast u)"
    using assms l closed_ok_prefix [of m v "[c]"] by (simp add: u cu_shape_def)
qed

lemma shape_prefix_slash: "closed_ok m (x @ [B CHR ''/''] @ y) \<Longrightarrow> cu_shape m sw_slash (x @ [B CHR ''/''])"
  using closed_ok_prefix [of m "x @ [B CHR ''/'']" y] by (simp add: cu_shape_def last_segments_snoc)

lemma cu_back_Some: "i < length u \<Longrightarrow> cu_back i u = Some v \<Longrightarrow> \<exists>x y. v = x @ [B CHR ''/''] \<and> u = v @ y"
proof (induction i u rule: cu_back.induct)
  case (1 u)
  then show ?case by (cases u) (auto split: if_splits)
next
  case (2 i u)
  show ?case
  proof (cases "u ! Suc i = B CHR ''/''")
    case True
    with 2 have "v = take (Suc i) u @ [B CHR ''/'']"  by (simp add: take_Suc_conv_app_nth)
    moreover have "v = take (Suc (Suc i)) u" using True 2 by simp
    then have "u = v @ drop (Suc (Suc i)) u" by simp
    ultimately show ?thesis by blast
  qed (use 2 in auto)
qed

lemma shape_rewind:
  assumes "cu_shape m sw_dot_dot u" "cu_rewind u = Some v"
  shows "cu_shape m sw_slash v" "length v \<le> length u"
proof -
  from assms(2) have "length u - 4 < length u" "cu_back (length u - 4) u = Some v"
    by (auto simp: cu_rewind_def split: if_splits)
  from cu_back_Some [OF this] obtain x y where "v = x @ [B CHR ''/'']" "u = v @ y" by blast
  with assms(1) show "cu_shape m sw_slash v" "length v \<le> length u"
    using shape_prefix_slash [of m x y] by (auto simp: cu_shape_def)
qed

lemma shape_safe: "cu_shape m q u \<Longrightarrow> q = sw_usual \<or> q = sw_slash \<Longrightarrow> safe_path m u"
proof -
  assume a: "cu_shape m q u" "q = sw_usual \<or> q = sw_slash"
  have "segments u = butlast (segments u) @ [last (segments u)]" by simp
  then have "set (segments u) = set (butlast (segments u)) \<union> {last (segments u)}"
    by (metis Un_insert_right list.simps(15) set_append sup_bot_right list.set(1))
  with a show ?thesis
    by (auto simp: cu_shape_def closed_ok_def safe_path_def butlast_tl dot_segments_def)
qed

text \<open>Bytes read but not yet written.\<close>

fun pending :: "cu_state \<Rightarrow> nat" where
  "pending (Sw q) = 0" | "pending (sw_quoted q) = 1" | "pending (sw_quoted_second q d) = 2"

fun decoded_ok :: "cu_state \<Rightarrow> bool" where
  "decoded_ok (sw_quoted_second q d) \<longleftrightarrow> unat d < 16"
| "decoded_ok _ \<longleftrightarrow> True"

text \<open>
  The invariant at the head of the loop: \<open>s\<close> is where the URI starts, \<open>lim\<close> where the room that was
  set aside for it ends, either the end of the URI or a question mark, and \<open>x\<close> is 1 if a slash was
  written in advance.
\<close>

definition cu_inv :: "bool \<Rightarrow> nat \<Rightarrow> nat \<Rightarrow> nat \<Rightarrow> nat \<Rightarrow> byte \<Rightarrow> cu_state \<Rightarrow> byte list \<Rightarrow> bool" where
  "cu_inv m x s lim p ch st u \<longleftrightarrow>
     s < p \<and> ch \<noteq> 0 \<and> cu_shape m (base st) u \<and> decoded_ok st \<and>
     length u + pending st \<le> p - 1 - s + x \<and> (p - 1 < lim \<or> p - 1 = lim \<and> ch = B CHR ''?'')"

definition cu_goal :: "bool \<Rightarrow> nat \<Rightarrow> nat \<Rightarrow> nat \<Rightarrow> nat \<Rightarrow> cu_ctl \<Rightarrow> bool" where
  "cu_goal m x s lim p c \<longleftrightarrow>
     (case c of
        Step st u r \<Rightarrow> cu_shape m (base st) u \<and> decoded_ok st \<and> length u + pending st \<le> p - s + x \<and> p - 1 < lim
      | Redo ch q u r \<Rightarrow> cu_inv m x s lim p ch (Sw q) u
      | Goto_args p' u r \<Rightarrow> safe_path m u
      | Goto_done u r \<Rightarrow> safe_path m u
      | Invalid r \<Rightarrow> True
      | Fault \<Rightarrow> False)"

lemma usual_not:
  "\<not> usual (B CHR ''/'')" "\<not> usual (B CHR ''.'')" "\<not> usual (B CHR ''%'')" "\<not> usual (B CHR ''?'')"
  "\<not> usual (B CHR ''#'')" "\<not> usual (B CHR ''+'')" "\<not> usual 0"
  by (simp_all add: usual_def usual_tab_def)

lemma cu_goal_put:
  assumes "cu_inv m x s lim p ch (Sw q) u" "cu_shape m q' (u @ [ch])" "ch \<noteq> B CHR ''?''"
  shows "cu_goal m x s lim p (put (lim - s + x) u ch (\<lambda>u. Step (Sw q') u (f u)))"
  using assms by (auto simp: cu_inv_def cu_goal_def put_def)

lemma cu_step_usual:
  assumes "cu_inv m x s lim p ch (Sw sw_usual) u"
  shows "cu_goal m x s lim p (cu_sw_usual (lim - s + x) p ch u r)"
proof -
  have sh: "cu_shape m sw_usual u" and ch: "ch \<noteq> 0" using assms by (auto simp: cu_inv_def)
  have put: "cu_goal m x s lim p (put (lim - s + x) u ch (\<lambda>u. Step (Sw sw_usual) u (f u)))"
    if "ch \<noteq> B CHR ''/''" "ch \<noteq> B CHR ''?''" for f
    using cu_goal_put [OF assms] shape_snoc [OF sh ch] that by simp
  have slash: "cu_goal m x s lim p (put (lim - s + x) u ch (\<lambda>u. Step (Sw sw_slash) u (f u)))"
    if "ch = B CHR ''/''" for f
    using cu_goal_put [OF assms] shape_slash [OF sh] that by simp
  have safe: "safe_path m u" using shape_safe sh by blast
  show ?thesis
    using put slash safe sh assms usual_not
    by (auto simp: cu_sw_usual_def) (auto simp: cu_goal_def cu_inv_def)
qed

lemma cu_step_slash:
  assumes "cu_inv m x s lim p ch (Sw sw_slash) u"
  shows "cu_goal m x s lim p (cu_sw_slash m (lim - s + x) p ch u r)"
proof -
  have sh: "cu_shape m sw_slash u" and ch: "ch \<noteq> 0" using assms by (auto simp: cu_inv_def)
  have put: "cu_goal m x s lim p (put (lim - s + x) u ch (\<lambda>u. Step (Sw sw_usual) u (f u)))"
    if "ch \<noteq> B CHR ''/''" "ch \<noteq> B CHR ''?''" "ch \<noteq> B CHR ''.''" for f
    using cu_goal_put [OF assms] shape_snoc [OF sh ch] that by simp
  have slash: "cu_goal m x s lim p (put (lim - s + x) u ch (\<lambda>u. Step (Sw sw_slash) u (f u)))"
    if "ch = B CHR ''/''" "\<not> m" for f
    using cu_goal_put [OF assms] shape_slash [OF sh] that by simp
  have dot: "cu_goal m x s lim p (put (lim - s + x) u ch (\<lambda>u. Step (Sw sw_dot) u (f u)))"
    if "ch = B CHR ''.''" for f
    using cu_goal_put [OF assms] shape_dot [OF sh] that by simp
  have safe: "safe_path m u" using shape_safe sh by blast
  show ?thesis
    using put slash dot safe sh assms usual_not
    by (auto simp: cu_sw_slash_def) (auto simp: cu_goal_def cu_inv_def)
qed

lemma cu_step_dot:
  assumes "cu_inv m x s lim p ch (Sw sw_dot) u"
  shows "cu_goal m x s lim p (cu_sw_dot (lim - s + x) p ch u r)"
proof -
  have sh: "cu_shape m sw_dot u" and ch: "ch \<noteq> 0" using assms by (auto simp: cu_inv_def)
  have put: "cu_goal m x s lim p (put (lim - s + x) u ch (\<lambda>u. Step (Sw sw_usual) u (f u)))"
    if "ch \<noteq> B CHR ''/''" "ch \<noteq> B CHR ''?''" "ch \<noteq> B CHR ''.''" for f
    using cu_goal_put [OF assms] shape_snoc [OF sh ch] that by simp
  have dot: "cu_goal m x s lim p (put (lim - s + x) u ch (\<lambda>u. Step (Sw sw_dot_dot) u (f u)))"
    if "ch = B CHR ''.''" for f
    using cu_goal_put [OF assms] shape_dot_dot [OF sh] that by simp
  have u: "u \<noteq> []" "cu_shape m sw_slash (butlast u)" using shape_undot sh by auto
  then have safe: "safe_path m (butlast u)" using shape_safe by blast
  show ?thesis
    using put dot safe sh u assms usual_not
    by (auto simp: cu_sw_dot_def unput_def) (auto simp: cu_goal_def cu_inv_def)
qed

lemma cu_step_dot_dot:
  assumes "cu_inv m x s lim p ch (Sw sw_dot_dot) u"
  shows "cu_goal m x s lim p (cu_sw_dot_dot (lim - s + x) p ch u r)"
proof -
  have sh: "cu_shape m sw_dot_dot u" and ch: "ch \<noteq> 0" using assms by (auto simp: cu_inv_def)
  have put: "cu_goal m x s lim p (put (lim - s + x) u ch (\<lambda>u. Step (Sw sw_usual) u (f u)))"
    if "ch \<noteq> B CHR ''/''" "ch \<noteq> B CHR ''?''" for f
    using cu_goal_put [OF assms] shape_snoc [OF sh ch] that by simp
  have rw: "cu_shape m sw_slash v \<and> safe_path m v \<and> length v \<le> length u" if "cu_rewind u = Some v" for v
    using shape_rewind [OF sh that] shape_safe by blast
  show ?thesis
    using put sh assms usual_not
    by (auto simp: cu_sw_dot_dot_def split: option.split) (auto simp: cu_goal_def cu_inv_def dest: rw)
qed

lemma question_not_hex: "\<not> is_digit (B CHR ''?'')" "\<not> is_hex_alpha (B CHR ''?'')"
  by (simp_all add: is_digit_def is_hex_alpha_def)

lemma unat_byte_add: "unat (a :: byte) + unat b < 256 \<Longrightarrow> unat (a + b) = unat a + unat b"
  by (simp add: unat_word_ariths)

lemma cu_step_quoted:
  assumes "cu_inv m x s lim p ch (sw_quoted q) u"
  shows "cu_goal m x s lim p (cu_sw_quoted q ch u r)"
proof -
  have "unat (hex_alpha_val ch + 10) < 16" if "is_hex_alpha ch"
    using hex_digit_bounds(2) [OF that] by (simp add: unat_byte_add)
  moreover have "unat (ch - 48) < 16" if "is_digit ch"
    using hex_digit_bounds(1) [OF that] by simp
  ultimately show ?thesis
    using assms question_not_hex
    by (auto simp: cu_sw_quoted_def cu_goal_def cu_inv_def Let_def)
qed

lemma decoded_not_zero:
  assumes "unat d < 16" "is_hex_alpha ch"
  shows "push_bit 4 d + hex_alpha_val ch + 10 \<noteq> (0 :: byte)"
proof -
  have d: "unat (push_bit 4 d) = 16 * unat d"
    using assms(1) by (simp add: push_bit_eq_mult unat_word_ariths)
  have "unat (push_bit 4 d + hex_alpha_val ch + 10) = 16 * unat d + unat (hex_alpha_val ch) + 10"
    using hex_digit_bounds(2) [OF assms(2)] assms(1) d by (simp add: unat_byte_add)
  then show ?thesis by (metis add_is_0 unat_0 zero_neq_numeral)
qed

lemma cu_step_quoted_second:
  assumes "cu_inv m x s lim p ch (sw_quoted_second q d) u"
  shows "cu_goal m x s lim p (cu_sw_quoted_second (lim - s + x) q d ch u r)"
proof -
  have sh: "cu_shape m q u" and lim: "p - 1 < lim \<or> \<not> is_digit ch \<and> \<not> is_hex_alpha ch"
    and len: "length u + 2 \<le> p - 1 - s + x" "s < p" and d: "unat d < 16"
    using assms question_not_hex by (auto simp: cu_inv_def)
  have redo: "cu_goal m x s lim p (Redo c q u r')" if "c \<noteq> 0" "p - 1 < lim" for c r'
    using sh len that by (auto simp: cu_goal_def cu_inv_def)
  have put: "cu_goal m x s lim p (put (lim - s + x) u c (\<lambda>u. Step (Sw sw_usual) u r))"
    if "c \<in> {B CHR ''%'', B CHR ''#'', B CHR ''?''}" "p - 1 < lim" for c
    using shape_snoc [OF sh, of c] len that by (auto simp: cu_goal_def put_def)
  consider "is_digit ch" "p - 1 < lim" | "\<not> is_digit ch" "is_hex_alpha ch" "p - 1 < lim"
    | "\<not> is_digit ch" "\<not> is_hex_alpha ch" using lim by blast
  then show ?thesis
  proof cases
    case 1
    then show ?thesis
      using redo put by (simp add: cu_sw_quoted_second_def Let_def) (simp add: cu_goal_def)
  next
    case 2
    then show ?thesis
      using redo put decoded_not_zero [OF d, of ch] by (simp add: cu_sw_quoted_second_def Let_def)
  next
    case 3
    then show ?thesis by (simp add: cu_sw_quoted_second_def cu_goal_def)
  qed
qed

lemma cu_step_goal:
  assumes "cu_inv m x s lim p ch st u"
  shows "cu_goal m x s lim p (cu_step m (lim - s + x) p ch st u r)"
  using assms
  by (cases "(m, lim - s + x, p, ch, st, u, r)" rule: cu_step.cases)
     (auto intro: cu_step_usual cu_step_slash cu_step_dot cu_step_dot_dot cu_step_quoted cu_step_quoted_second)

definition cu_final :: "bool \<Rightarrow> cu_ctl \<Rightarrow> bool" where
  "cu_final m c \<longleftrightarrow>
     (case c of Goto_args p u r \<Rightarrow> safe_path m u | Goto_done u r \<Rightarrow> safe_path m u | Invalid r \<Rightarrow> True | _ \<Rightarrow> False)"

lemma cu_end_final:
  assumes "cu_shape m (base st) u"
  shows "cu_final m (cu_end st u r)"
proof (cases "(st, u, r)" rule: cu_end.cases)
  case (1 v r')
  with assms have "cu_shape m sw_dot v" by simp
  from shape_undot [OF this] 1 show ?thesis using shape_safe by (auto simp: cu_final_def unput_def)
next
  case (2 v r')
  with assms have "cu_shape m sw_dot_dot v" by simp
  from shape_rewind(1) [OF this] 2 show ?thesis
    using shape_safe by (auto simp: cu_final_def split: option.split)
qed (use assms shape_safe in \<open>auto simp: cu_final_def\<close>)

text \<open>The room and the source of a normalisation: see \<open>cu_inv\<close>.\<close>

definition cu_source :: "byte list \<Rightarrow> nat \<Rightarrow> nat \<Rightarrow> nat \<Rightarrow> bool" where
  "cu_source buf s lim e \<longleftrightarrow> s < e \<and> e < length buf \<and> (lim = e \<or> lim < e \<and> buf ! lim = B CHR ''?'') \<and>
     (\<forall>i. s \<le> i \<and> i < e \<longrightarrow> buf ! i \<noteq> 0)"

lemma cu_loop_final:
  assumes "cu_source buf s lim e" "cap = lim - s + x"
    and "cu_shape m (base st) u" "p \<le> e \<Longrightarrow> cu_inv m x s lim p ch st u"
  shows "cu_final m (cu_loop buf m cap e p ch st u r)"
  using assms
proof (induction buf m cap e p ch st u r rule: cu_loop.induct)
  case (1 buf m cap e p ch st u r)
  note IH = "1.IH" and src = "1.prems"(1) and cap = "1.prems"(2)
  show ?case
  proof (cases "p \<le> e")
    case False
    then show ?thesis using cu_end_final "1.prems"(3) by (subst cu_loop.simps) simp
  next
    case True
    then have inv: "cu_inv m x s lim p ch st u" using "1.prems"(4) by simp
    have goal: "cu_goal m x s lim p (cu_step m cap p ch st u r)" using cu_step_goal [OF inv] cap by simp
    have p: "p < length buf" "s < p" using True src inv by (auto simp: cu_source_def cu_inv_def)
    show ?thesis
    proof (cases "cu_step m cap p ch st u r")
      case (Step st' u' r')
      have lim: "p \<le> lim" using goal Step p(2) by (auto simp: cu_goal_def)
      have "cu_inv m x s lim (p + 1) (buf ! p) st' u'" if "p + 1 \<le> e"
        using goal Step that src p le_imp_less_or_eq [OF lim]
        by (auto simp: cu_goal_def cu_inv_def cu_source_def)
      then have "cu_final m (cu_loop buf m cap e (p + 1) (buf ! p) st' u' r')"
        using IH(1) [OF True Step p(1) src cap] goal Step by (simp add: cu_goal_def)
      then show ?thesis using True Step p by (subst cu_loop.simps) simp
    next
      case (Redo ch' q u' r')
      then have inv': "cu_inv m x s lim p ch' (Sw q) u'" using goal by (simp add: cu_goal_def)
      then have "cu_shape m (base (Sw q)) u'" by (simp add: cu_inv_def)
      then have "cu_final m (cu_loop buf m cap e p ch' (Sw q) u' r')"
        by (rule IH(2) [OF True Redo src cap _ inv'])
      then show ?thesis using True Redo by (subst cu_loop.simps) simp
    qed (use True goal in \<open>auto simp: cu_loop.simps [of buf m cap e p ch st u r] cu_goal_def cu_final_def\<close>)
  qed
qed

end
