(* ===== verification/Ngx_Http_Uri_Props.thy ===== *)
theory Ngx_Http_Uri_Props
  imports Ngx_Http_Uri
begin

text \<open>
  From the request line to the path that is mapped to a file. A second invariant of the request
  line parser says what is known of a URI for which it sets none of the flags that ask for
  normalisation; with the invariant of the normalisation loop this gives the properties of
  \<^verbatim>\<open>ngx_http_process_request_uri\<close>: no memory error, a safe path, and a sound shortcut.
\<close>

section \<open>Request lines that need no normalisation\<close>

text \<open>
  The offset just after the last dot of the last segment, as both parsers compute it: a dot moves
  it, a slash forgets it.
\<close>

fun ext_pos :: "nat \<Rightarrow> byte list \<Rightarrow> nat option \<Rightarrow> nat option" where
  "ext_pos i [] x = x"
| "ext_pos i (c # cs) x =
     ext_pos (Suc i) cs (if c = B CHR ''/'' then None else if c = B CHR ''.'' then Some (Suc i) else x)"

lemma ext_pos_snoc:
  "ext_pos i (cs @ [c]) x =
     (if c = B CHR ''/'' then None else if c = B CHR ''.'' then Some (Suc (i + length cs)) else ext_pos i cs x)"
  by (induction i cs x rule: ext_pos.induct) auto

lemma ext_pos_shift: "ext_pos (i + k) cs (map_option ((+) k) x) = map_option ((+) k) (ext_pos i cs x)"
proof (induction i cs x rule: ext_pos.induct)
  case (2 i c cs x)
  from 2 [symmetric] show ?case by (cases "c = 47"; cases "c = 46") (simp_all add: add.commute)
qed simp

text \<open>No escapes, no marks and no empty or dotted segment beginnings between two offsets.\<close>

definition plain :: "byte list \<Rightarrow> nat \<Rightarrow> nat \<Rightarrow> bool" where
  "plain buf s e \<longleftrightarrow>
     (\<forall>i. s \<le> i \<and> i < e \<longrightarrow> buf ! i \<notin> {0, B CHR ''%'', B CHR ''#'', B CHR ''?''} \<and>
        (s < i \<and> buf ! (i - 1) = B CHR ''/'' \<longrightarrow> buf ! i \<notin> {B CHR ''/'', B CHR ''.''}))"

definition no_mark :: "byte list \<Rightarrow> nat \<Rightarrow> nat \<Rightarrow> bool" where
  "no_mark buf s e \<longleftrightarrow> (\<forall>i. s \<le> i \<and> i < e \<longrightarrow> buf ! i \<noteq> B CHR ''#'')"

lemma plain_self [simp]: "plain buf s s" "no_mark buf s s"
  by (auto simp: plain_def no_mark_def)

lemma plain_Suc:
  "s \<le> p \<Longrightarrow> plain buf s (Suc p) \<longleftrightarrow> plain buf s p \<and>
     buf ! p \<notin> {0, B CHR ''%'', B CHR ''#'', B CHR ''?''} \<and>
     (s < p \<and> buf ! (p - 1) = B CHR ''/'' \<longrightarrow> buf ! p \<notin> {B CHR ''/'', B CHR ''.''})"
  by (auto simp: plain_def less_Suc_eq)

lemma no_mark_Suc: "s \<le> p \<Longrightarrow> no_mark buf s (Suc p) \<longleftrightarrow> no_mark buf s p \<and> buf ! p \<noteq> B CHR ''#''"
  by (auto simp: no_mark_def less_Suc_eq)

definition special_uri :: "ngx_http_request \<Rightarrow> bool" where
  "special_uri r \<longleftrightarrow> complex_uri r \<or> quoted_uri r \<or> empty_path_in_uri r"

text \<open>The end of the path: the question mark, or the end \<open>e\<close> of what has been read.\<close>

definition path_end :: "nat \<Rightarrow> ngx_http_request \<Rightarrow> nat" where
  "path_end e r = (case args_start r of Some a \<Rightarrow> a - 1 | None \<Rightarrow> e)"

text \<open>What the request line parser knows of a URI when it has set none of the three flags.\<close>

definition rl_plain :: "byte list \<Rightarrow> nat \<Rightarrow> ngx_http_request \<Rightarrow> bool" where
  "rl_plain buf e r \<longleftrightarrow> special_uri r \<or>
     uri_start r < path_end e r \<and> path_end e r \<le> e \<and>
     plain buf (uri_start r) (path_end e r) \<and> no_mark buf (path_end e r) e \<and>
     uri_ext r = ext_pos (uri_start r) (slice buf (uri_start r) (path_end e r)) None"

fun rl_simple :: "byte list \<Rightarrow> nat \<Rightarrow> rl_state \<times> ngx_http_request \<Rightarrow> bool" where
  "rl_simple buf p (st, r) \<longleftrightarrow>
     (if st \<in> {sw_after_slash_in_uri, sw_check_uri, sw_uri} then
        rl_plain buf p r \<and>
        (special_uri r \<or>
          (if st = sw_uri then args_start r \<noteq> None
           else args_start r = None \<and> (st = sw_check_uri \<longrightarrow> buf ! (p - 1) \<noteq> B CHR ''/'')))
      else if st \<in> {sw_start, sw_method, sw_spaces_before_uri, sw_schema, sw_schema_slash,
          sw_schema_slash_slash, sw_host_start, sw_host, sw_host_end, sw_host_ip_literal, sw_port}
      then True
      else rl_plain buf (uri_end r) r)"

fun rl_simple_post :: "byte list \<Rightarrow> nat \<Rightarrow> ngx_http_request jump \<Rightarrow> bool" where
  "rl_simple_post buf p (Return rc r) = True"
| "rl_simple_post buf p (Done r) \<longleftrightarrow> rl_plain buf (uri_end r) r"

definition rl_sok :: "byte list \<Rightarrow> nat \<Rightarrow> rl_ctl \<Rightarrow> bool" where
  "rl_sok buf p c \<longleftrightarrow> (case c of Next s \<Rightarrow> rl_simple buf (Suc p) s | Exit j \<Rightarrow> rl_simple_post buf p j)"

lemma rl_sok_simps [simp]:
  "rl_sok buf p (Next (st, r)) = rl_simple buf (Suc p) (st, r)"
  "rl_sok buf p (Exit (Return rc r))"
  "rl_sok buf p (Exit (Done r)) = rl_simple_post buf p (Done r)"
  "rl_sok buf p (invalid_request r)"
  by (simp_all add: rl_sok_def invalid_request_def)

lemma rl_plain_special [simp]: "special_uri r \<Longrightarrow> rl_plain buf e r"
  by (simp add: rl_plain_def)

lemma special_uri_simps [simp]:
  "special_uri (r\<lparr>complex_uri := True\<rparr>)" "special_uri (r\<lparr>quoted_uri := True\<rparr>)"
  "special_uri (r\<lparr>uri_ext := a\<rparr>) = special_uri r" "special_uri (r\<lparr>args_start := b\<rparr>) = special_uri r"
  "special_uri (r\<lparr>plus_in_uri := c\<rparr>) = special_uri r" "special_uri (r\<lparr>uri_end := e\<rparr>) = special_uri r"
  "special_uri (r\<lparr>http_minor := n\<rparr>) = special_uri r" "special_uri (r\<lparr>empty_path_in_uri := True\<rparr>)"
  by (simp_all add: special_uri_def)

text \<open>Only the URI's own fields matter.\<close>

lemma rl_plain_frame [simp]:
  "rl_plain buf e (r\<lparr>plus_in_uri := c\<rparr>) = rl_plain buf e r"
  "rl_plain buf e (r\<lparr>uri_end := i\<rparr>) = rl_plain buf e r"
  "rl_plain buf e (r\<lparr>http_minor := n\<rparr>) = rl_plain buf e r"
  "rl_plain buf e (r\<lparr>http_major := n\<rparr>) = rl_plain buf e r"
  "rl_plain buf e (r\<lparr>http_protocol_data := i\<rparr>) = rl_plain buf e r"
  "rl_plain buf e (r\<lparr>request_end := x\<rparr>) = rl_plain buf e r"
  by (simp_all add: rl_plain_def path_end_def special_uri_def)

lemma rl_plain_start:
  "p < length buf \<Longrightarrow> buf ! p = B CHR ''/'' \<Longrightarrow> args_start r = None \<Longrightarrow> uri_ext r = None \<Longrightarrow>
     rl_plain buf (Suc p) (r\<lparr>uri_start := p\<rparr>)"
  by (simp add: rl_plain_def path_end_def plain_Suc slice_Suc no_mark_def)

lemma usual_plain: "usual c \<Longrightarrow> \<not> c < 0x20 \<and> c \<notin> {0, 32, 13, 10, 47, 46, 37, 63, 35, 43}"
  using usual_not usual_gt [of c] by auto

text \<open>One more byte of the path, of the arguments, and the question mark between them.\<close>

lemma rl_plain_path:
  assumes "rl_plain buf p r" "p < length buf" "args_start r = None"
    and "buf ! p \<notin> {0, 37, 35, 63}" "buf ! (p - 1) = 47 \<Longrightarrow> buf ! p \<notin> {47, 46}"
    and "x = (if buf ! p = 47 then None else if buf ! p = 46 then Some (Suc p) else uri_ext r)"
  shows "rl_plain buf (Suc p) (r\<lparr>uri_ext := x\<rparr>)"
  using assms by (auto simp: rl_plain_def path_end_def plain_Suc slice_Suc ext_pos_snoc)

lemma rl_plain_args:
  "rl_plain buf p r \<Longrightarrow> args_start r \<noteq> None \<Longrightarrow> buf ! p \<noteq> 35 \<Longrightarrow> rl_plain buf (Suc p) r"
  by (auto simp: rl_plain_def path_end_def no_mark_Suc)

lemma rl_plain_question:
  "rl_plain buf p r \<Longrightarrow> args_start r = None \<Longrightarrow> buf ! p = 63 \<Longrightarrow>
     rl_plain buf (Suc p) (r\<lparr>args_start := Some (Suc p)\<rparr>)"
  by (auto simp: rl_plain_def path_end_def no_mark_Suc)

lemma rl_sok_uri:
  assumes "p < length buf" "rl_simple buf p (sw_uri, r)"
  shows "rl_sok buf p (rl_sw_uri p (buf ! p) r)"
  using assms rl_plain_args [of buf p r]
  by (auto simp: rl_sw_uri_def dest: usual_plain)

lemma rl_sok_after_slash:
  assumes "p < length buf" "rl_simple buf p (sw_after_slash_in_uri, r)"
  shows "rl_sok buf p (rl_sw_after_slash_in_uri p (buf ! p) r)"
proof (cases "special_uri r")
  case True
  then show ?thesis by (auto simp: rl_sw_after_slash_in_uri_def special_uri_def)
next
  case False
  with assms have r: "rl_plain buf p r" "args_start r = None" by auto
  have "rl_plain buf (Suc p) r" if "\<not> buf ! p < 0x20" "buf ! p \<notin> {37, 35, 63, 47, 46}"
    using rl_plain_path [OF r(1) assms(1) r(2), of "uri_ext r"] that by (cases "buf ! p = 0") auto
  with rl_plain_question [OF r] r show ?thesis
    by (auto simp: rl_sw_after_slash_in_uri_def dest: usual_plain)
qed

lemma rl_sok_check_uri:
  assumes "p < length buf" "rl_simple buf p (sw_check_uri, r)"
  shows "rl_sok buf p (rl_sw_check_uri p (buf ! p) r)"
proof (cases "special_uri r")
  case True
  then show ?thesis by (auto simp: rl_sw_check_uri_def special_uri_def)
next
  case False
  with assms have r: "rl_plain buf p r" "args_start r = None" "buf ! (p - 1) \<noteq> 47" by auto
  note path = rl_plain_path [OF r(1) assms(1) r(2)]
  have "rl_plain buf (Suc p) r" if "\<not> buf ! p < 0x20" "buf ! p \<notin> {37, 35, 63, 47, 46}"
    using path [of "uri_ext r"] that by (cases "buf ! p = 0") auto
  moreover have "rl_plain buf (Suc p) (r\<lparr>uri_ext := None\<rparr>)" if "buf ! p = 47"
    using path [of None] that r(3) by simp
  moreover have "rl_plain buf (Suc p) (r\<lparr>uri_ext := Some (Suc p)\<rparr>)" if "buf ! p = 46"
    using path [of "Some (Suc p)"] that r(3) by simp
  ultimately show ?thesis
    using rl_plain_question [OF r(1,2)] r
    by (auto simp: rl_sw_check_uri_def dest: usual_plain)
qed

text \<open>The states before the URI, which may start it, and those after it, which leave it alone.\<close>

lemma rl_plain_absolute:
  assumes "rl_schema buf 3 p r" "p < length buf"
  shows "rl_plain buf (schema_end r + 2) (r\<lparr>host_end := h, uri_start := schema_end r + 1, uri_end := e\<rparr>)"
    and "rl_plain buf (schema_end r + 2) (r\<lparr>host_start := h', host_end := h, uri_start := schema_end r + 1, uri_end := e\<rparr>)"
    and "rl_plain buf (schema_end r + 2) (r\<lparr>uri_start := schema_end r + 1, uri_end := e\<rparr>)"
  using assms rl_plain_start [of "Suc (schema_end r)" buf]
  by (auto simp: rl_schema_def rl_no_uri_def)

lemma rl_sok_before:
  assumes "p < length buf" "rl_inv buf p (st, r)"
    and "st \<in> {sw_start, sw_method, sw_spaces_before_uri, sw_schema, sw_schema_slash, sw_schema_slash_slash}"
  shows "rl_sok buf p (rl_step buf p (buf ! p) (st, r))"
  using assms rl_plain_start
  by (auto simp: rl_step.simps rl_sw_start_def rl_sw_method_def rl_sw_spaces_before_uri_def
        rl_sw_schema_def rl_sw_schema_slash_def rl_sw_schema_slash_slash_def rl_no_uri_def Let_def)

lemma rl_sok_host:
  assumes "p < length buf" "rl_inv buf p (st, r)"
    and "st \<in> {sw_host_start, sw_host, sw_host_end, sw_host_ip_literal, sw_port}"
  shows "rl_sok buf p (rl_step buf p (buf ! p) (st, r))"
proof -
  have s: "rl_schema buf 3 p r" "args_start r = None" "uri_ext r = None"
    using assms(2,3) by (auto simp: rl_schema_def rl_no_uri_def)
  show ?thesis
    using assms(1,3) s(2,3) rl_plain_start rl_plain_absolute [OF s(1) assms(1)]
    by (auto simp: rl_step.simps rl_sw_host_start_def rl_sw_host_def rl_sw_host_end_def
          rl_sw_host_ip_literal_def rl_sw_port_def Let_def)
qed

lemma rl_sok_after:
  assumes "p < length buf" "rl_simple buf p (st, r)"
    and "st \<in> {sw_http_09, sw_http_H, sw_http_HT, sw_http_HTT, sw_http_HTTP, sw_first_major_digit,
       sw_major_digit, sw_first_minor_digit, sw_minor_digit, sw_spaces_after_digit, sw_almost_done}"
  shows "rl_sok buf p (rl_step buf p (buf ! p) (st, r))"
  using assms
  by (auto simp: rl_step.simps rl_sw_http_09_def rl_sw_http_H_def rl_sw_http_HT_def rl_sw_http_HTT_def
        rl_sw_http_HTTP_def rl_sw_first_major_digit_def rl_sw_major_digit_def rl_sw_first_minor_digit_def
        rl_sw_minor_digit_def rl_sw_spaces_after_digit_def rl_sw_almost_done_def Let_def)

lemma rl_step_sok:
  assumes "p < length buf" "rl_inv buf p (st, r)" "rl_simple buf p (st, r)"
  shows "rl_sok buf p (rl_step buf p (buf ! p) (st, r))"
  using rl_sok_before [OF assms(1,2)] rl_sok_host [OF assms(1,2)] rl_sok_after [OF assms(1,3)]
    rl_sok_uri [OF assms(1), of r] rl_sok_check_uri [OF assms(1), of r]
    rl_sok_after_slash [OF assms(1), of r] assms(3)
  by (cases st) (simp_all add: rl_step.simps del: rl_simple.simps)

interpretation rl_simple: scan_invariant rl_step
  "\<lambda>buf p s. rl_inv buf p s \<and> rl_simple buf p s"
  "\<lambda>buf p j. rl_post buf p j \<and> rl_simple_post buf p j"
proof unfold_locales
  fix p buf s s'
  assume "p < length buf" "rl_inv buf p s \<and> rl_simple buf p s" "rl_step buf p (buf ! p) s = Next s'"
  then show "rl_inv buf (Suc p) s' \<and> rl_simple buf (Suc p) s'"
    using rl_step_ok [of buf p "fst s" "snd s"] rl_step_sok [of p buf "fst s" "snd s"]
    by (simp add: rl_ok_def rl_sok_def)
next
  fix p buf s r
  assume "p < length buf" "rl_inv buf p s \<and> rl_simple buf p s" "rl_step buf p (buf ! p) s = Exit r"
  then show "rl_post buf p r \<and> rl_simple_post buf p r"
    using rl_step_ok [of buf p "fst s" "snd s"] rl_step_sok [of p buf "fst s" "snd s"]
    by (simp add: rl_ok_def rl_sok_def)
qed

lemma request_line_ok:
  assumes "pos b \<le> length (data b)" "ngx_http_parse_request_line init_request b = (NGX_OK, r, b')"
  shows "rl_uri (data b) (uri_end r) r" "uri_end r < length (data b)" "rl_plain (data b) (uri_end r) r"
proof -
  obtain p c where pc: "scan_buf rl_step b (state init_request, init_request) = (p, c)" by force
  from assms(2) pc obtain r0 where c: "c = Exit (Done r0)" and d: "rl_done p r0 b = (NGX_OK, r, b')"
    by (auto simp: ngx_http_parse_request_line_def split: ctl.splits jump.splits dest: rl_scan_return)
  have "rl_simple (data b) (pos b) (state init_request, init_request)" by (simp add: init_request_def)
  then have "p < length (data b) \<and> rl_post (data b) p (Done r0) \<and> rl_plain (data b) (uri_end r0) r0"
    using rl_simple.scan_buf_inv [OF assms(1) _ pc] rl_inv_init c by simp
  then show "rl_uri (data b) (uri_end r) r" "uri_end r < length (data b)" "rl_plain (data b) (uri_end r) r"
    using rl_done_OK(1) [OF d] by (auto simp: rl_uri_def rl_plain_def path_end_def special_uri_def)
qed

section \<open>Normalisation and the shortcut\<close>

lemma cu_loop_Step:
  "p \<le> e \<Longrightarrow> p < length buf \<Longrightarrow> cu_step m cap p ch st u r = Step st' u' r' \<Longrightarrow>
     cu_loop buf m cap e p ch st u r = cu_loop buf m cap e (Suc p) (buf ! p) st' u' r'"
  by (subst cu_loop.simps) simp

text \<open>The state of the normalisation loop inside a plain path.\<close>

definition plain_state :: "byte \<Rightarrow> cu_base" where
  "plain_state c = (if c = B CHR ''/'' then sw_slash else sw_usual)"

definition plain_update :: "byte \<Rightarrow> byte list \<Rightarrow> ngx_http_request \<Rightarrow> ngx_http_request" where
  "plain_update ch u r = r\<lparr>plus_in_uri := plus_in_uri r \<or> ch = B CHR ''+'',
     uri_ext := ext_pos (length u) [ch] (uri_ext r)\<rparr>"

lemma cu_step_plain:
  assumes "ch \<notin> {0, 37, 35, 63}" "c = 47 \<Longrightarrow> ch \<notin> {47, 46}" "length u < cap"
    "c \<noteq> 47 \<or> uri_ext r = None"
  shows "cu_step m cap p ch (Sw (plain_state c)) u r =
           Step (Sw (plain_state ch)) (u @ [ch]) (plain_update ch u r)"
proof (cases "usual ch")
  case True
  with usual_plain [OF True] assms show ?thesis
    by (cases r) (simp add: plain_state_def cu_sw_slash_def cu_sw_usual_def put_def plain_update_def)
next
  case False
  with assms show ?thesis
    by (cases "c = 47"; cases r) (simp_all add: plain_state_def cu_sw_slash_def cu_sw_usual_def put_def plain_update_def)
qed


lemma cu_loop_plain:
  assumes "plain buf s lim" "lim \<le> e" "e < length buf" "s \<le> i" "i \<le> lim"
    and "c = 47 \<Longrightarrow> s < i \<and> buf ! (i - 1) = 47" "uri_ext r = ext_pos 0 (slice buf s i) None"
  shows "\<exists>x c'. cu_loop buf m (lim - s) e (Suc i) (buf ! i) (Sw (plain_state c)) (slice buf s i) r =
           cu_loop buf m (lim - s) e (Suc lim) (buf ! lim) (Sw (plain_state c')) (slice buf s lim)
             (r\<lparr>plus_in_uri := x, uri_ext := ext_pos 0 (slice buf s lim) None\<rparr>)"
  using assms(4-)
proof (induction "lim - i" arbitrary: i c r)
  case 0
  then have "i = lim" by simp
  moreover from this 0 have "r = r\<lparr>plus_in_uri := plus_in_uri r, uri_ext := ext_pos 0 (slice buf s lim) None\<rparr>"
    by simp
  ultimately show ?case by metis
next
  case (Suc n)
  let ?u = "slice buf s i" and ?ch = "buf ! i"
  have i: "i < lim" "i < e" "Suc i < length buf" using Suc.hyps(2) assms(2,3) by auto
  have ch: "?ch \<notin> {0, 37, 35, 63}" "c = 47 \<Longrightarrow> ?ch \<notin> {47, 46}"
    using assms(1) i Suc.prems(1,3) unfolding plain_def by auto
  have u: "length ?u < lim - s" using Suc.prems(1) i by simp
  have x: "c \<noteq> 47 \<or> uri_ext r = None"
  proof (cases "c = 47")
    case True
    with Suc.prems(3) obtain j where "i = Suc j" "s \<le> j" "buf ! j = 47" by (cases i) auto
    then show ?thesis using Suc.prems(4) i by (simp add: slice_Suc ext_pos_snoc)
  qed simp
  have u': "?u @ [?ch] = slice buf s (Suc i)" using Suc.prems(1) i by (simp add: slice_Suc)
  have r': "uri_ext (plain_update ?ch ?u r) = ext_pos 0 (slice buf s (Suc i)) None"
    using Suc.prems(4) u' [symmetric] by (simp add: plain_update_def ext_pos_snoc)
  have "cu_loop buf m (lim - s) e (Suc i) ?ch (Sw (plain_state c)) ?u r =
        cu_loop buf m (lim - s) e (Suc (Suc i)) (buf ! Suc i) (Sw (plain_state ?ch)) (slice buf s (Suc i))
          (plain_update ?ch ?u r)"
    using cu_loop_Step [OF _ i(3) cu_step_plain [OF ch u x]] i u' by simp
  moreover obtain x c' where "cu_loop buf m (lim - s) e (Suc (Suc i)) (buf ! Suc i) (Sw (plain_state ?ch))
        (slice buf s (Suc i)) (plain_update ?ch ?u r) =
      cu_loop buf m (lim - s) e (Suc lim) (buf ! lim) (Sw (plain_state c')) (slice buf s lim)
        ((plain_update ?ch ?u r)\<lparr>plus_in_uri := x, uri_ext := ext_pos 0 (slice buf s lim) None\<rparr>)"
    using Suc.hyps(1) [of "Suc i" ?ch "plain_update ?ch ?u r"] Suc.hyps(2) Suc.prems(1) i r' by force
  ultimately show ?case by (auto simp: plain_update_def)
qed

lemma cu_loop_plain_exit:
  assumes "plain buf s lim" "lim \<le> e" "e < length buf" "s < lim" "lim < e \<Longrightarrow> buf ! lim = 63" "uri_ext r = None"
  shows "\<exists>x. cu_loop buf m (lim - s) e (Suc s) (buf ! s) (Sw sw_usual) [] r =
    (let r' = r\<lparr>plus_in_uri := x, uri_ext := ext_pos 0 (slice buf s lim) None\<rparr>;
         u = slice buf s lim
     in if lim < e then Goto_args (Suc lim) u (r'\<lparr>args_start := Some (Suc lim)\<rparr>) else Goto_done u r')"
proof -
  have st: "plain_state 0 = sw_usual" by (simp add: plain_state_def)
  obtain x c' where l: "cu_loop buf m (lim - s) e (Suc s) (buf ! s) (Sw sw_usual) [] r =
      cu_loop buf m (lim - s) e (Suc lim) (buf ! lim) (Sw (plain_state c')) (slice buf s lim)
        (r\<lparr>plus_in_uri := x, uri_ext := ext_pos 0 (slice buf s lim) None\<rparr>)"
    using cu_loop_plain [OF assms(1-3), of s 0 r m] assms(4,6) st by auto
  have "\<not> usual 63" using usual_not by simp
  then show ?thesis
    using l assms(2,5)
    by (intro exI [of _ x], cases "lim < e"; cases "c' = 47")
       (simp_all add: cu_loop.simps [of _ _ _ _ "Suc lim"] cu_loop.simps [of _ _ _ e "Suc e"] plain_state_def cu_sw_slash_def cu_sw_usual_def)
qed

lemma filter_no_mark: "no_mark buf s e \<Longrightarrow> s \<le> p \<Longrightarrow> filter (\<lambda>i. buf ! i = B CHR ''#'') [p..<e] = []"
  by (auto simp: no_mark_def filter_empty_conv)


text \<open>The URI offsets of an accepted request are a source for the normalisation loop.\<close>

lemma request_line_source:
  assumes "rl_uri buf (uri_end r) r" "uri_end r < length buf"
  shows "cu_source buf (uri_start r) (path_end (uri_end r) r) (uri_end r)"
    and "uri_cap r = path_end (uri_end r) r - uri_start r + (if empty_path_in_uri r then 1 else 0)"
    and "\<not> empty_path_in_uri r \<Longrightarrow> uri_start r < path_end (uri_end r) r"
proof -
  have nz: "buf ! i \<noteq> 0" if "uri_start r \<le> i" "i < uri_end r" for i
    using assms(1) that unfolding rl_uri_def uri_bytes_def by fastforce
  with assms show "cu_source buf (uri_start r) (path_end (uri_end r) r) (uri_end r)"
    by (auto simp: cu_source_def rl_uri_def path_end_def split: option.splits)
  show "uri_cap r = path_end (uri_end r) r - uri_start r + (if empty_path_in_uri r then 1 else 0)"
    by (simp add: uri_cap_def path_end_def split: option.splits)
  assume "\<not> empty_path_in_uri r"
  with assms(1) have "buf ! uri_start r = B CHR ''/''" "uri_start r < uri_end r"
    and "\<forall>a. args_start r = Some a \<longrightarrow> uri_start r < a \<and> buf ! (a - 1) = B CHR ''?''"
    by (auto simp: rl_uri_def)
  then show "uri_start r < path_end (uri_end r) r"
    by (cases "args_start r") (auto simp: path_end_def intro: le_neq_implies_less)
qed

lemma uri_cap_complex [simp]: "uri_cap (r\<lparr>complex_uri := c\<rparr>) = uri_cap r"
  by (simp add: uri_cap_def split: option.split)

lemma shape_root: "cu_shape m sw_slash [B CHR ''/'']"
  by (simp add: cu_shape_def closed_ok_def dot_segments_def)

lemma cu_loop_request:
  assumes "rl_uri buf (uri_end r) r" "uri_end r < length buf" "uri_ext q = None" "s = uri_start r"
  shows "cu_final m (cu_loop buf m (uri_cap r) (uri_end r) (s + 1) (buf ! s) (Sw sw_usual)
           (if empty_path_in_uri r then [B CHR ''/''] else []) q)"
proof -
  let ?lim = "path_end (uri_end r) r"
  have s: "s < uri_end r" "buf ! s = (if empty_path_in_uri r then B CHR ''?'' else B CHR ''/'')"
    using assms(1,4) by (auto simp: rl_uri_def)
  note src = request_line_source [OF assms(1,2), folded assms(4)]
  show ?thesis
  proof (cases "empty_path_in_uri r")
    case True
    then show ?thesis
      using s usual_not shape_safe [OF shape_root, of m]
      by (subst cu_loop.simps) (simp add: cu_sw_usual_def cu_final_def)
  next
    case False
    then have slash: "buf ! s = B CHR ''/''" and lim: "s < ?lim" and cap: "uri_cap r = ?lim - s"
      using s src by auto
    have "cu_step m (uri_cap r) (s + 1) (buf ! s) (Sw sw_usual) [] q =
            Step (Sw sw_slash) [B CHR ''/''] q"
      using lim cap assms(3) usual_not by (cases q) (simp add: slash cu_sw_usual_def put_def)
    then have "cu_loop buf m (uri_cap r) (uri_end r) (s + 1) (buf ! s) (Sw sw_usual) [] q =
        cu_loop buf m (uri_cap r) (uri_end r) (s + 2) (buf ! (s + 1)) (Sw sw_slash) [B CHR ''/''] q"
      using s assms(2) cu_loop_Step [of "s + 1"] by simp
    moreover have "cu_inv m 0 s ?lim (s + 2) (buf ! (s + 1)) (Sw sw_slash) [B CHR ''/'']" if "s + 2 \<le> uri_end r"
      using src(1) Suc_leI [OF lim, unfolded le_less] that shape_root [of m]
      by (auto simp: cu_inv_def cu_source_def)
    ultimately show ?thesis
      using False cu_loop_final [OF src(1), of "uri_cap r" 0 m "Sw sw_slash" "[B CHR ''/'']" "s + 2"] cap shape_root
      by simp
  qed
qed

lemma cu_finish_uri: "cu_finish u r n = (r', n') \<Longrightarrow> uri n' = u"
  by (auto simp: cu_finish_def Let_def split: option.splits)

lemma complex_uri_final:
  assumes "rl_uri buf (uri_end r) r" "uri_end r < length buf"
  shows "\<exists>rc r' n'. ngx_http_parse_complex_uri buf m (uri_cap r) r n = Uri_rc rc r' n' \<and>
           (rc = NGX_OK \<longrightarrow> safe_path m (uri n'))"
proof -
  let ?q = "r\<lparr>uri_ext := None, args_start := None\<rparr>"
  let ?l = "cu_loop buf m (uri_cap r) (uri_end r) (uri_start r + 1) (buf ! uri_start r) (Sw sw_usual)
           (if empty_path_in_uri r then [B CHR ''/''] else []) ?q"
  have cap: "\<not> (empty_path_in_uri r \<and> uri_cap r = 0 \<or> length buf \<le> uri_start r)"
    using assms by (auto simp: uri_cap_def rl_uri_def split: option.splits)
  have fin: "cu_final m ?l" using cu_loop_request [OF assms, of ?q "uri_start r" m] by simp
  have eq: "ngx_http_parse_complex_uri buf m (uri_cap r) r n =
     (case ?l of
        Goto_done u r' \<Rightarrow> (case cu_finish u r' n of (r', n') \<Rightarrow> Uri_rc NGX_OK r' n')
      | Goto_args p' u r' \<Rightarrow>
          (case cu_args buf p' (uri_end r') r' n of (r', n') \<Rightarrow>
             case cu_finish u r' n' of (r', n') \<Rightarrow> Uri_rc NGX_OK r' n')
      | Invalid r' \<Rightarrow> Uri_rc NGX_HTTP_PARSE_INVALID_REQUEST r' n
      | _ \<Rightarrow> Uri_fault)"
    using cap by (auto simp: ngx_http_parse_complex_uri_def Let_def)
  show ?thesis
    unfolding eq using fin
    by (cases ?l) (auto simp: cu_final_def dest: cu_finish_uri split: prod.split)
qed

text \<open>
  C21. For every accepted request line the URI is processed without a memory error: the buffer that
  is allocated from the offsets of the request line has room for every byte that the normalisation
  writes, the walk back over a \<open>..\<close> segment stays inside it, and no byte past the received data is
  read.
\<close>

theorem process_request_uri_no_fault:
  assumes "pos b \<le> length (data b)"
    and "ngx_http_parse_request_line init_request b = (NGX_OK, r, b')"
  shows "ngx_http_process_request_uri pnalloc_ok merge_slashes (data b) r n \<noteq> Process_fault"
proof -
  obtain rc r' n' where "ngx_http_parse_complex_uri (data b) merge_slashes (uri_cap r) r n = Uri_rc rc r' n'"
    using complex_uri_final [OF request_line_ok(1,2) [OF assms]] by blast
  then show ?thesis
    by (auto simp: ngx_http_process_request_uri_def process_uri_tail_def Let_def)
qed

theorem process_request_uri_no_fault_witness:
  "\<exists>r b'. ngx_http_parse_request_line init_request \<lparr>pos = 0, data = bytes ''GET /a/../%2e/b HTTP/1.0'' @ [CR, LF]\<rparr>
            = (NGX_OK, r, b') \<and>
     ngx_http_process_request_uri True True (bytes ''GET /a/../%2e/b HTTP/1.0'' @ [CR, LF]) r init_uri \<noteq> Process_fault"
proof -
  let ?b = "\<lparr>pos = 0, data = bytes ''GET /a/../%2e/b HTTP/1.0'' @ [CR, LF]\<rparr>"
  have "fst (ngx_http_parse_request_line init_request ?b) = NGX_OK" by code_simp
  then obtain r b' where e: "ngx_http_parse_request_line init_request ?b = (NGX_OK, r, b')"
    by (metis prod.collapse)
  have "pos ?b \<le> length (data ?b)" by simp
  from process_request_uri_no_fault [OF this e, of True True init_uri] e show ?thesis by auto
qed

text \<open>What the normalisation does to a plain URI: nothing.\<close>

lemma complex_uri_plain:
  assumes "rl_uri buf (uri_end r) r" "uri_end r < length buf" "rl_plain buf (uri_end r) r" "\<not> special_uri r"
    and "u = slice buf (uri_start r) (path_end (uri_end r) r)"
  shows "\<exists>x. ngx_http_parse_complex_uri buf m (uri_cap r) (r\<lparr>complex_uri := True\<rparr>) n =
     Uri_rc NGX_OK (r\<lparr>complex_uri := True, plus_in_uri := x, uri_ext := None\<rparr>)
       (case ext_pos 0 u None of None \<Rightarrow> n\<lparr>uri := u\<rparr> | Some k \<Rightarrow> n\<lparr>uri := u, exten := drop k u\<rparr>)"
proof -
  let ?lim = "path_end (uri_end r) r" and ?s = "uri_start r"
  let ?q = "r\<lparr>complex_uri := True, uri_ext := None, args_start := None\<rparr>"
  have e: "\<not> empty_path_in_uri r" and p: "plain buf ?s ?lim" "?s < ?lim" "?lim \<le> uri_end r"
    and m: "no_mark buf ?lim (uri_end r)"
    using assms(3,4) by (auto simp: rl_plain_def special_uri_def)
  have a: "args_start r = (if ?lim < uri_end r then Some (Suc ?lim) else None)"
    and q: "?lim < uri_end r \<Longrightarrow> buf ! ?lim = 63"
    using assms(1) by (auto simp: path_end_def rl_uri_def split: option.splits)
  have cap: "uri_cap r = ?lim - ?s" using request_line_source(2) [OF assms(1,2)] e by simp
  obtain x where x: "cu_loop buf m (?lim - ?s) (uri_end r) (Suc ?s) (buf ! ?s) (Sw sw_usual) [] ?q =
    (let r' = ?q\<lparr>plus_in_uri := x, uri_ext := ext_pos 0 u None\<rparr>
     in if ?lim < uri_end r then Goto_args (Suc ?lim) u (r'\<lparr>args_start := Some (Suc ?lim)\<rparr>) else Goto_done u r')"
    using cu_loop_plain_exit [OF p(1,3) assms(2) p(2) q, of ?q m] assms(5) unfolding Let_def by auto
  have f: "cu_finish u (?q\<lparr>plus_in_uri := x, uri_ext := ext_pos 0 u None, args_start := args_start r\<rparr>) n =
    (r\<lparr>complex_uri := True, plus_in_uri := x, uri_ext := None\<rparr>,
       case ext_pos 0 u None of None \<Rightarrow> n\<lparr>uri := u\<rparr> | Some k \<Rightarrow> n\<lparr>uri := u, exten := drop k u\<rparr>)"
    by (cases r) (simp add: cu_finish_def split: option.split)
  have f': "cu_finish u (?q\<lparr>plus_in_uri := x, uri_ext := ext_pos 0 u None\<rparr>) n =
    cu_finish u (?q\<lparr>plus_in_uri := x, uri_ext := ext_pos 0 u None, args_start := None\<rparr>) n"
    by (cases r) simp
  show ?thesis
    using x f f' a cap e p(2,3) assms(2) filter_no_mark [OF m, of "Suc ?lim"]
    by (intro exI [of _ x], cases "?lim < uri_end r")
       (simp_all add: ngx_http_parse_complex_uri_def cu_args_def Let_def)
qed

text \<open>
  C1. The path of every request that is accepted and whose URI is processed is safe to map to the
  file system: it begins with a slash, no segment is \<open>.\<close> or \<open>..\<close>, it has no zero byte, and when
  slashes are merged no inner segment is empty. This holds for the escapes \<open>%2e\<close>, \<open>%2f\<close> and so on
  too, and also for the shortcut that stores the path as it was received.
\<close>

theorem request_uri_safe_path:
  assumes "pos b \<le> length (data b)"
    and "ngx_http_parse_request_line init_request b = (NGX_OK, r, b')"
    and "ngx_http_process_request_uri pnalloc_ok merge_slashes (data b) r n = Uri_ok r' n'"
  shows "safe_path merge_slashes (uri n')"
proof -
  note ok = request_line_ok [OF assms(1,2)]
  have tail: "uri n2 = uri n1" if "process_uri_tail (data b) r1 n1 = Uri_ok r2 n2" for r1 n1 r2 n2
    using that by (auto simp: process_uri_tail_def Let_def split: option.splits if_splits)
  show ?thesis
  proof (cases "special_uri r")
    case True
    then show ?thesis
      using assms(3) complex_uri_final [OF ok(1,2), of merge_slashes n]
      by (auto simp: ngx_http_process_request_uri_def special_uri_def dest: tail split: if_splits)
  next
    case False
    let ?r = "r\<lparr>complex_uri := True\<rparr>"
    have "uri_cap ?r = uri_cap r" by simp
    moreover have "rl_uri (data b) (uri_end ?r) ?r" using ok(1) by (simp add: rl_uri_def)
    ultimately have "safe_path merge_slashes (slice (data b) (uri_start r) (path_end (uri_end r) r))"
      using complex_uri_final [of "data b" ?r merge_slashes n] ok(2)
        complex_uri_plain [OF ok False refl, of merge_slashes n]
      by (auto split: option.splits)
    moreover have "uri_start r + uri_cap r = path_end (uri_end r) r"
      using ok False request_line_source [OF ok(1,2)] by (simp add: special_uri_def)
    ultimately show ?thesis
      using assms(3) False by (auto simp: ngx_http_process_request_uri_def special_uri_def dest: tail)
  qed
qed

theorem request_uri_safe_path_witness:
  "\<exists>r b' r' n'. ngx_http_parse_request_line init_request
       \<lparr>pos = 0, data = bytes ''GET /a/../%2e/b HTTP/1.0'' @ [CR, LF]\<rparr> = (NGX_OK, r, b') \<and>
     ngx_http_process_request_uri True True (bytes ''GET /a/../%2e/b HTTP/1.0'' @ [CR, LF]) r init_uri = Uri_ok r' n' \<and>
     uri n' = bytes ''/b'' \<and> safe_path True (uri n')"
proof -
  let ?d = "bytes ''GET /a/../%2e/b HTTP/1.0'' @ [CR, LF]"
  let ?b = "\<lparr>pos = 0, data = ?d\<rparr>"
  have "case ngx_http_parse_request_line init_request ?b of (rc, r, b') \<Rightarrow> rc = NGX_OK \<and>
      (case ngx_http_process_request_uri True True ?d r init_uri of Uri_ok r' n' \<Rightarrow> uri n' = bytes ''/b'' | _ \<Rightarrow> False)"
    by code_simp
  then obtain r b' r' n' where e: "ngx_http_parse_request_line init_request ?b = (NGX_OK, r, b')"
    "ngx_http_process_request_uri True True (data ?b) r init_uri = Uri_ok r' n'" "uri n' = bytes ''/b''"
    by (auto split: prod.splits process_uri_result.splits)
  have "pos ?b \<le> length (data ?b)" by simp
  from request_uri_safe_path [OF this e(1,2)] e show ?thesis by auto
qed

text \<open>
  The shortcut is an optimisation only: when the request line parser has set none of the flags
  \<open>complex_uri\<close>, \<open>quoted_uri\<close> and \<open>empty_path_in_uri\<close>, going through the full normalisation would
  give the same path, extension, arguments and unparsed URI.
\<close>

theorem plain_uri_shortcut:
  assumes "pos b \<le> length (data b)"
    and "ngx_http_parse_request_line init_request b = (NGX_OK, r, b')"
    and "\<not> complex_uri r" "\<not> quoted_uri r" "\<not> empty_path_in_uri r"
  shows "\<exists>r1 r2 n'. ngx_http_process_request_uri True merge_slashes (data b) r n = Uri_ok r1 n' \<and>
     ngx_http_process_request_uri True merge_slashes (data b) (r\<lparr>complex_uri := True\<rparr>) n = Uri_ok r2 n' \<and>
     args_start r1 = args_start r2"
proof -
  note ok = request_line_ok [OF assms(1,2)]
  let ?u = "slice (data b) (uri_start r) (path_end (uri_end r) r)"
  have sp: "\<not> special_uri r" using assms by (simp add: special_uri_def)
  obtain x where x: "ngx_http_parse_complex_uri (data b) merge_slashes (uri_cap r) (r\<lparr>complex_uri := True\<rparr>) n =
     Uri_rc NGX_OK (r\<lparr>complex_uri := True, plus_in_uri := x, uri_ext := None\<rparr>)
       (case ext_pos 0 ?u None of None \<Rightarrow> n\<lparr>uri := ?u\<rparr> | Some k \<Rightarrow> n\<lparr>uri := ?u, exten := drop k ?u\<rparr>)"
    using complex_uri_plain [OF ok sp refl] by blast
  have ext: "uri_ext r = map_option ((+) (uri_start r)) (ext_pos 0 ?u None)"
    using ok(3) sp ext_pos_shift [of 0 "uri_start r" ?u None] by (simp add: rl_plain_def)
  have cap: "uri_start r + uri_cap r = path_end (uri_end r) r"
    using request_line_source [OF ok(1,2)] assms(5) by simp
  show ?thesis
    using assms(3-5) x
    by (cases "ext_pos 0 ?u None"; cases "args_start r")
       (simp_all add: ngx_http_process_request_uri_def process_uri_tail_def ext cap slice_drop path_end_def Let_def)
qed

theorem plain_uri_shortcut_witness:
  "\<exists>r b' r1 r2 n'. ngx_http_parse_request_line init_request
       \<lparr>pos = 0, data = bytes ''GET /a/b.c?d HTTP/1.0'' @ [CR, LF]\<rparr> = (NGX_OK, r, b') \<and> \<not> complex_uri r \<and>
     ngx_http_process_request_uri True True (bytes ''GET /a/b.c?d HTTP/1.0'' @ [CR, LF]) r init_uri = Uri_ok r1 n' \<and>
     ngx_http_process_request_uri True True (bytes ''GET /a/b.c?d HTTP/1.0'' @ [CR, LF])
       (r\<lparr>complex_uri := True\<rparr>) init_uri = Uri_ok r2 n'"
proof -
  let ?d = "bytes ''GET /a/b.c?d HTTP/1.0'' @ [CR, LF]"
  let ?b = "\<lparr>pos = 0, data = ?d\<rparr>"
  have "case ngx_http_parse_request_line init_request ?b of (rc, r, b') \<Rightarrow>
      rc = NGX_OK \<and> \<not> complex_uri r \<and> \<not> quoted_uri r \<and> \<not> empty_path_in_uri r"
    by code_simp
  then obtain r b' where e: "ngx_http_parse_request_line init_request ?b = (NGX_OK, r, b')"
    "\<not> complex_uri r" "\<not> quoted_uri r" "\<not> empty_path_in_uri r" by (auto split: prod.splits)
  have "pos ?b \<le> length (data ?b)" by simp
  from plain_uri_shortcut [OF this e, of True init_uri] e show ?thesis by auto
qed

end
