(* ===== verification/Ngx_Http_Header_Line.thy ===== *)
theory Ngx_Http_Header_Line
  imports Ngx_Prelude
begin

text \<open>
  The header line parser \<^verbatim>\<open>ngx_http_parse_header_line\<close> of \<^verbatim>\<open>src/http/ngx_http_parse.c\<close>, one
  definition per \<open>case\<close>. It is used for request headers, for upstream responses and for trailers.
  Besides the offsets of name and value it computes the hash of the lowercased name and keeps the
  lowercased name in a ring of 32 bytes; a write outside that ring is the explicit outcome
  \<open>Fault\<close>. The lemmas show that the parser may be fed in pieces, what name, value, hash and ring
  are when a line is accepted, and that every well-formed line is accepted.
\<close>

section \<open>Data\<close>

datatype hl_state =
    sw_start | sw_name | sw_space_before_value | sw_value | sw_space_after_value
  | sw_ignore_line | sw_almost_done | sw_header_almost_done

text \<open>The fields of \<open>ngx_http_request_t\<close> that the header parser uses.\<close>

record ngx_http_header_in =
  state :: hl_state
  header_hash :: "64 word"
  lowcase_index :: nat
  lowcase_header :: "byte list"
  header_name_start :: nat
  header_name_end :: nat
  header_start :: nat
  header_end :: nat
  invalid_header :: bool
  upstream :: bool

definition NGX_HTTP_LC_HEADER_LEN :: nat where
  "NGX_HTTP_LC_HEADER_LEN = 32"

text \<open>The table \<open>lowcase\<close>: the lower case of a letter, digits and the minus sign, and 0 otherwise.\<close>

definition lowcase_tab :: "byte list" where
  "lowcase_tab =
     replicate 32 0 @
     replicate 13 0 @ bytes ''-'' @ replicate 2 0 @ bytes ''0123456789'' @ replicate 6 0 @
     [0] @ bytes ''abcdefghijklmnopqrstuvwxyz'' @ replicate 5 0 @
     [0] @ bytes ''abcdefghijklmnopqrstuvwxyz'' @ replicate 5 0 @
     replicate 32 0 @ replicate 32 0 @ replicate 32 0 @ replicate 32 0"

definition lowcase :: "byte \<Rightarrow> byte" where
  "lowcase ch = lowcase_tab ! unat ch"

text \<open>The macro \<open>ngx_hash\<close>, in the 64 bits of \<open>ngx_uint_t\<close>.\<close>

definition ngx_hash :: "64 word \<Rightarrow> byte \<Rightarrow> 64 word" where
  "ngx_hash key c = key * 31 + ucast c"

text \<open>
  How the loop is left: a \<open>return\<close>, the labels \<open>done\<close> and \<open>header_done\<close> with the local variables
  \<open>hash\<close> and \<open>i\<close> where they are used, or a write outside \<open>lowcase_header\<close>.
\<close>

datatype 'r hl_jump =
    Return ngx_int 'r
  | Done "64 word" nat 'r
  | Header_done 'r
  | Fault

type_synonym hl_vars = "hl_state \<times> 64 word \<times> nat \<times> ngx_http_header_in"
type_synonym hl_ctl = "(hl_vars, ngx_http_header_in hl_jump) ctl"

section \<open>The cases of the switch\<close>

text \<open>\<open>r->lowcase_header[i] = c\<close>.\<close>

definition put_lowcase :: "nat \<Rightarrow> byte \<Rightarrow> ngx_http_header_in \<Rightarrow> (ngx_http_header_in \<Rightarrow> hl_ctl) \<Rightarrow> hl_ctl" where
  "put_lowcase i c r k =
     (if i < length (lowcase_header r) then k (r\<lparr>lowcase_header := (lowcase_header r)[i := c]\<rparr>)
      else Exit Fault)"

definition hl_invalid :: "nat \<Rightarrow> ngx_http_header_in \<Rightarrow> hl_ctl" where
  "hl_invalid p r = Exit (Return NGX_HTTP_PARSE_INVALID_HEADER (r\<lparr>header_end := p\<rparr>))"

definition hl_sw_start :: "bool \<Rightarrow> nat \<Rightarrow> byte \<Rightarrow> 64 word \<Rightarrow> nat \<Rightarrow> ngx_http_header_in \<Rightarrow> hl_ctl" where
  [step_defs]: "hl_sw_start allow_underscores p ch hash i r0 =
     (let r = r0\<lparr>header_name_start := p, invalid_header := False\<rparr> in
      if ch = CR then Next (sw_header_almost_done, hash, i, r\<lparr>header_end := p\<rparr>)
      else if ch = LF then Exit (Header_done (r\<lparr>header_end := p\<rparr>))
      else let c = lowcase ch in
        if c \<noteq> 0 then put_lowcase 0 c r (\<lambda>r. Next (sw_name, ngx_hash 0 c, 1, r))
        else if ch = B CHR ''_'' then
          (if allow_underscores then put_lowcase 0 ch r (\<lambda>r. Next (sw_name, ngx_hash 0 ch, 1, r))
           else Next (sw_name, 0, 0, r\<lparr>invalid_header := True\<rparr>))
        else if ch \<le> 0x20 \<or> ch = 0x7f \<or> ch = B CHR '':'' then hl_invalid p r
        else Next (sw_name, 0, 0, r\<lparr>invalid_header := True\<rparr>))"

text \<open>The test for the duplicate status line that IIS may send.\<close>

definition iis_status_line :: "byte list \<Rightarrow> nat \<Rightarrow> byte \<Rightarrow> ngx_http_header_in \<Rightarrow> bool" where
  "iis_status_line buf p ch r \<longleftrightarrow>
     ch = B CHR ''/'' \<and> upstream r \<and> p = header_name_start r + 4 \<and>
     take 4 (drop (header_name_start r) buf) = bytes ''HTTP''"

definition hl_sw_name :: "bool \<Rightarrow> byte list \<Rightarrow> nat \<Rightarrow> byte \<Rightarrow> 64 word \<Rightarrow> nat \<Rightarrow> ngx_http_header_in \<Rightarrow> hl_ctl" where
  [step_defs]: "hl_sw_name allow_underscores buf p ch hash i r =
     (let c = lowcase ch in
      if c \<noteq> 0 then
        put_lowcase i c r (\<lambda>r. Next (sw_name, ngx_hash hash c, (i + 1) AND (NGX_HTTP_LC_HEADER_LEN - 1), r))
      else if ch = B CHR ''_'' then
        (if allow_underscores then
           put_lowcase i ch r (\<lambda>r. Next (sw_name, ngx_hash hash ch, (i + 1) AND (NGX_HTTP_LC_HEADER_LEN - 1), r))
         else Next (sw_name, hash, i, r\<lparr>invalid_header := True\<rparr>))
      else if ch = B CHR '':'' then Next (sw_space_before_value, hash, i, r\<lparr>header_name_end := p\<rparr>)
      else if ch = CR then
        Next (sw_almost_done, hash, i, r\<lparr>header_name_end := p, header_start := p, header_end := p\<rparr>)
      else if ch = LF then
        Exit (Done hash i (r\<lparr>header_name_end := p, header_start := p, header_end := p\<rparr>))
      else if iis_status_line buf p ch r then Next (sw_ignore_line, hash, i, r)
      else if ch \<le> 0x20 \<or> ch = 0x7f then hl_invalid p r
      else Next (sw_name, hash, i, r\<lparr>invalid_header := True\<rparr>))"

definition hl_sw_space_before_value :: "nat \<Rightarrow> byte \<Rightarrow> 64 word \<Rightarrow> nat \<Rightarrow> ngx_http_header_in \<Rightarrow> hl_ctl" where
  [step_defs]: "hl_sw_space_before_value p ch hash i r =
     (if ch = SP then Next (sw_space_before_value, hash, i, r)
      else if ch = CR then Next (sw_almost_done, hash, i, r\<lparr>header_start := p, header_end := p\<rparr>)
      else if ch = LF then Exit (Done hash i (r\<lparr>header_start := p, header_end := p\<rparr>))
      else if ch = 0 then hl_invalid p r
      else Next (sw_value, hash, i, r\<lparr>header_start := p\<rparr>))"

definition hl_sw_value :: "nat \<Rightarrow> byte \<Rightarrow> 64 word \<Rightarrow> nat \<Rightarrow> ngx_http_header_in \<Rightarrow> hl_ctl" where
  [step_defs]: "hl_sw_value p ch hash i r =
     (if ch = SP then Next (sw_space_after_value, hash, i, r\<lparr>header_end := p\<rparr>)
      else if ch = CR then Next (sw_almost_done, hash, i, r\<lparr>header_end := p\<rparr>)
      else if ch = LF then Exit (Done hash i (r\<lparr>header_end := p\<rparr>))
      else if ch = 0 then hl_invalid p r
      else Next (sw_value, hash, i, r))"

definition hl_sw_space_after_value :: "nat \<Rightarrow> byte \<Rightarrow> 64 word \<Rightarrow> nat \<Rightarrow> ngx_http_header_in \<Rightarrow> hl_ctl" where
  [step_defs]: "hl_sw_space_after_value p ch hash i r =
     (if ch = SP then Next (sw_space_after_value, hash, i, r)
      else if ch = CR then Next (sw_almost_done, hash, i, r)
      else if ch = LF then Exit (Done hash i r)
      else if ch = 0 then hl_invalid p r
      else Next (sw_value, hash, i, r))"

definition hl_sw_ignore_line :: "byte \<Rightarrow> 64 word \<Rightarrow> nat \<Rightarrow> ngx_http_header_in \<Rightarrow> hl_ctl" where
  [step_defs]: "hl_sw_ignore_line ch hash i r =
     (if ch = LF then Next (sw_start, hash, i, r) else Next (sw_ignore_line, hash, i, r))"

definition hl_sw_almost_done :: "byte \<Rightarrow> 64 word \<Rightarrow> nat \<Rightarrow> ngx_http_header_in \<Rightarrow> hl_ctl" where
  [step_defs]: "hl_sw_almost_done ch hash i r =
     (if ch = LF then Exit (Done hash i r)
      else if ch = CR then Next (sw_almost_done, hash, i, r)
      else Exit (Return NGX_HTTP_PARSE_INVALID_HEADER r))"

definition hl_sw_header_almost_done :: "byte \<Rightarrow> ngx_http_header_in \<Rightarrow> hl_ctl" where
  [step_defs]: "hl_sw_header_almost_done ch r =
     (if ch = LF then Exit (Header_done r) else Exit (Return NGX_HTTP_PARSE_INVALID_HEADER r))"

fun hl_step :: "bool \<Rightarrow> byte list \<Rightarrow> nat \<Rightarrow> byte \<Rightarrow> hl_vars \<Rightarrow> hl_ctl" where
  "hl_step allow_underscores buf p ch (st, hash, i, r) =
     (case st of
        sw_start \<Rightarrow> hl_sw_start allow_underscores p ch hash i r
      | sw_name \<Rightarrow> hl_sw_name allow_underscores buf p ch hash i r
      | sw_space_before_value \<Rightarrow> hl_sw_space_before_value p ch hash i r
      | sw_value \<Rightarrow> hl_sw_value p ch hash i r
      | sw_space_after_value \<Rightarrow> hl_sw_space_after_value p ch hash i r
      | sw_ignore_line \<Rightarrow> hl_sw_ignore_line ch hash i r
      | sw_almost_done \<Rightarrow> hl_sw_almost_done ch hash i r
      | sw_header_almost_done \<Rightarrow> hl_sw_header_almost_done ch r)"

declare hl_step.simps [simp del, step_defs]

text \<open>\<open>None\<close> is the write outside the ring.\<close>

definition ngx_http_parse_header_line ::
    "bool \<Rightarrow> ngx_http_header_in \<Rightarrow> ngx_buf \<Rightarrow> (ngx_int \<times> ngx_http_header_in \<times> ngx_buf) option" where
  "ngx_http_parse_header_line allow_underscores r0 b =
     (case scan_buf (hl_step allow_underscores) b (state r0, header_hash r0, lowcase_index r0, r0) of
        (p, Next (st, hash, i, r)) \<Rightarrow>
          Some (NGX_AGAIN, r\<lparr>state := st, header_hash := hash, lowcase_index := i\<rparr>, b\<lparr>pos := p\<rparr>)
      | (p, Exit (Return rc r)) \<Rightarrow> Some (rc, r, b)
      | (p, Exit (Done hash i r)) \<Rightarrow>
          Some (NGX_OK, r\<lparr>state := sw_start, header_hash := hash, lowcase_index := i\<rparr>, b\<lparr>pos := p + 1\<rparr>)
      | (p, Exit (Header_done r)) \<Rightarrow>
          Some (NGX_HTTP_PARSE_HEADER_DONE, r\<lparr>state := sw_start\<rparr>, b\<lparr>pos := p + 1\<rparr>)
      | (p, Exit Fault) \<Rightarrow> None)"

section \<open>Feeding the parser in pieces\<close>

definition hl_save :: "hl_state \<times> 64 word \<times> nat \<Rightarrow> ngx_http_header_in \<Rightarrow> ngx_http_header_in" where
  "hl_save = (\<lambda>(st, hash, i) r. r\<lparr>state := st, header_hash := hash, lowcase_index := i\<rparr>)"

definition hl_save_vars :: "hl_state \<times> 64 word \<times> nat \<Rightarrow> hl_vars \<Rightarrow> hl_vars" where
  "hl_save_vars x = map_prod id (map_prod id (map_prod id (hl_save x)))"

lemma hl_save_simps [simp]:
  "lowcase_header (hl_save x r) = lowcase_header r" "header_name_start (hl_save x r) = header_name_start r"
  "upstream (hl_save x r) = upstream r"
  "(hl_save x r)\<lparr>lowcase_header := l\<rparr> = hl_save x (r\<lparr>lowcase_header := l\<rparr>)"
  "(hl_save x r)\<lparr>header_name_start := n\<rparr> = hl_save x (r\<lparr>header_name_start := n\<rparr>)"
  "(hl_save x r)\<lparr>header_name_end := n\<rparr> = hl_save x (r\<lparr>header_name_end := n\<rparr>)"
  "(hl_save x r)\<lparr>header_start := n\<rparr> = hl_save x (r\<lparr>header_start := n\<rparr>)"
  "(hl_save x r)\<lparr>header_end := n\<rparr> = hl_save x (r\<lparr>header_end := n\<rparr>)"
  "(hl_save x r)\<lparr>invalid_header := v\<rparr> = hl_save x (r\<lparr>invalid_header := v\<rparr>)"
  by (cases x; cases r; simp add: hl_save_def)+

lemma hl_save_vars_simp [simp]: "hl_save_vars x (st, hash, i, r) = (st, hash, i, hl_save x r)"
  by (simp add: hl_save_vars_def)

lemma hl_step_frame:
  "hl_step a buf p ch (hl_save_vars x s) =
     map_ctl (hl_save_vars x) (map_hl_jump (hl_save x)) (hl_step a buf p ch s)"
proof (cases s)
  case (fields st hash i r)
  show ?thesis
    unfolding fields
    by (cases st) (simp_all add: step_defs hl_invalid_def put_lowcase_def iis_status_line_def Let_def)
qed

lemma hl_step_prefix: "p < length buf \<Longrightarrow> hl_step a (buf @ ys) p ch s = hl_step a buf p ch s"
proof (cases s)
  case (fields st hash i r)
  assume "p < length buf"
  then have "iis_status_line (buf @ ys) p ch r = iis_status_line buf p ch r"
    by (auto simp: iis_status_line_def)
  then show ?thesis
    by (cases st) (simp_all only: fields hl_step.simps hl_sw_name_def hl_state.case)
qed

interpretation hl: resumable_scanner "hl_step a" hl_save_vars "\<lambda>x. map_hl_jump (hl_save x)" for a
  by unfold_locales (auto simp: hl_step_prefix hl_step_frame)

text \<open>
  Two results agree as far as callers can tell: \<open>NGX_OK\<close> and \<open>NGX_AGAIN\<close> are equal; on the end of
  the header and on an error only the copies of the loop variables may differ, which the code does
  not write on these paths.
\<close>

definition hl_same :: "(ngx_int \<times> ngx_http_header_in \<times> ngx_buf) option \<Rightarrow> (ngx_int \<times> ngx_http_header_in \<times> ngx_buf) option \<Rightarrow> bool" where
  "hl_same a b \<longleftrightarrow>
     (case (a, b) of
        (None, None) \<Rightarrow> True
      | (Some (rc, r, b), Some (rc', r', b')) \<Rightarrow>
          rc = rc' \<and> hl_save (sw_start, 0, 0) r = hl_save (sw_start, 0, 0) r' \<and>
          (rc \<in> {NGX_OK, NGX_AGAIN} \<longrightarrow> r = r') \<and>
          (rc \<in> {NGX_OK, NGX_AGAIN, NGX_HTTP_PARSE_HEADER_DONE} \<longrightarrow> b = b')
      | _ \<Rightarrow> False)"

lemma hl_step_return: "hl_step a buf p ch s = Exit (Return rc r) \<Longrightarrow> rc = NGX_HTTP_PARSE_INVALID_HEADER"
  by (cases s, cases "fst s")
     (auto simp: step_defs hl_invalid_def put_lowcase_def Let_def split: if_splits)

lemma hl_scan_return:
  "scan_buf (hl_step a) b s = (q, Exit (Return rc r)) \<Longrightarrow> rc = NGX_HTTP_PARSE_INVALID_HEADER"
  by (auto simp: scan_buf_def dest!: scan_Exit_step hl_step_return)

lemma hl_again_iff:
  "ngx_http_parse_header_line a r b = Some (NGX_AGAIN, r', b') \<longleftrightarrow>
     (\<exists>st hash i r1 q. scan_buf (hl_step a) b (state r, header_hash r, lowcase_index r, r) = (q, Next (st, hash, i, r1)) \<and>
        r' = hl_save (st, hash, i) r1 \<and> b' = b\<lparr>pos := q\<rparr>)"
  by (auto simp: ngx_http_parse_header_line_def hl_save_def
           split: prod.splits ctl.splits hl_jump.splits dest: hl_scan_return)

text \<open>
  Delivering a header line in pieces does not change how it is parsed: after \<open>NGX_AGAIN\<close>,
  calling the parser again once more bytes have been appended to the buffer gives the result of one
  call on the whole input, hash and lowercased name included.
\<close>

theorem header_line_resume:
  assumes "pos b \<le> length (data b)"
    and "ngx_http_parse_header_line a r b = Some (NGX_AGAIN, r', b')"
  shows "hl_same (ngx_http_parse_header_line a r (b\<lparr>data := data b @ ys\<rparr>))
                 (ngx_http_parse_header_line a r' (b'\<lparr>data := data b @ ys\<rparr>))"
proof -
  from assms(2) obtain st hash i r1 q
    where s: "scan_buf (hl_step a) b (state r, header_hash r, lowcase_index r, r) = (q, Next (st, hash, i, r1))"
      and r': "r' = hl_save (st, hash, i) r1" and b': "b' = b\<lparr>pos := q\<rparr>"
    by (auto simp: hl_again_iff)
  let ?B = "\<lparr>pos = pos b, data = data b @ ys\<rparr>"
  have bb: "b\<lparr>data := data b @ ys\<rparr> = ?B" "b'\<lparr>data := data b @ ys\<rparr> = \<lparr>pos = q, data = data b @ ys\<rparr>"
    using b' by (cases b; simp)+
  have vars: "(state r', header_hash r', lowcase_index r', r') = hl_save_vars (st, hash, i) (st, hash, i, r1)"
    by (simp add: r' hl_save_def)
  obtain p c where pc: "scan_buf (hl_step a) ?B (state r, header_hash r, lowcase_index r, r) = (p, c)" by force
  have "scan_buf (hl_step a) \<lparr>pos = q, data = data b @ ys\<rparr> (state r', header_hash r', lowcase_index r', r') =
      (p, map_ctl (hl_save_vars (st, hash, i)) (map_hl_jump (hl_save (st, hash, i))) c)"
    unfolding vars using hl.scan_buf_continue [OF assms(1) s, of ys "(st, hash, i)"] pc by simp
  with pc show ?thesis
    unfolding ngx_http_parse_header_line_def bb
    by (auto simp: hl_same_def hl_save_def split: ctl.split hl_jump.split dest: hl_scan_return)
qed


text \<open>The header fields of a fresh request.\<close>

definition init_header_in :: ngx_http_header_in where
  "init_header_in =
     \<lparr>state = sw_start, header_hash = 0, lowcase_index = 0, lowcase_header = replicate NGX_HTTP_LC_HEADER_LEN 0,
      header_name_start = 0, header_name_end = 0, header_start = 0, header_end = 0,
      invalid_header = False, upstream = False\<rparr>"

theorem header_line_resume_witness:
  "\<exists>r' b'. ngx_http_parse_header_line False init_header_in \<lparr>pos = 0, data = bytes ''Ho''\<rparr> = Some (NGX_AGAIN, r', b') \<and>
     hl_same (ngx_http_parse_header_line False init_header_in \<lparr>pos = 0, data = bytes ''Ho'' @ bytes ''st: a'' @ [CR, LF]\<rparr>)
             (ngx_http_parse_header_line False r' (b'\<lparr>data := bytes ''Ho'' @ bytes ''st: a'' @ [CR, LF]\<rparr>))"
proof -
  let ?b = "\<lparr>pos = 0, data = bytes ''Ho''\<rparr>"
  have "case ngx_http_parse_header_line False init_header_in ?b of Some (rc, r', b') \<Rightarrow> rc = NGX_AGAIN | None \<Rightarrow> False"
    by code_simp
  then obtain r' b' where e: "ngx_http_parse_header_line False init_header_in ?b = Some (NGX_AGAIN, r', b')"
    by (auto split: option.splits prod.splits)
  have "pos ?b \<le> length (data ?b)" by simp
  from header_line_resume [OF this e, of "bytes ''st: a'' @ [CR, LF]"] e show ?thesis by auto
qed

section \<open>Names, values and hashes\<close>

text \<open>The macro \<open>ngx_tolower\<close>, and the specification of the table.\<close>

definition ngx_tolower :: "byte \<Rightarrow> byte" where
  "ngx_tolower c = (if B CHR ''A'' \<le> c \<and> c \<le> B CHR ''Z'' then c OR 0x20 else c)"

definition name_char :: "byte \<Rightarrow> bool" where
  "name_char c \<longleftrightarrow> is_digit c \<or> B CHR ''A'' \<le> c \<and> c \<le> B CHR ''Z'' \<or> B CHR ''a'' \<le> c \<and> c \<le> B CHR ''z'' \<or> c = B CHR ''-''"

lemma lowcase_table: "\<forall>c. lowcase c = (if name_char c then ngx_tolower c else 0)"
  unfolding byte_all by code_simp

lemma lowcase_spec: "lowcase c = (if name_char c then ngx_tolower c else 0)"
  using lowcase_table by blast

lemma tolower_nonzero: "\<forall>c. name_char c \<longrightarrow> ngx_tolower c \<noteq> 0 \<and> 0x20 < c \<and> c \<noteq> 0x7f \<and> c \<noteq> B CHR '':''"
  unfolding byte_all by code_simp

lemma lowcase_iff: "lowcase c \<noteq> 0 \<longleftrightarrow> name_char c"
  using tolower_nonzero by (simp add: lowcase_spec)

text \<open>What a byte of the name adds to hash and ring.\<close>

definition lc :: "bool \<Rightarrow> byte \<Rightarrow> byte list" where
  "lc a ch = (if lowcase ch \<noteq> 0 then [lowcase ch] else if ch = B CHR ''_'' \<and> a then [ch] else [])"

definition hash_key :: "byte list \<Rightarrow> 64 word" where
  "hash_key bs = foldl ngx_hash 0 bs"

text \<open>
  \<open>ngx_hash_key_lc\<close> of \<^verbatim>\<open>src/core/ngx_hash.c\<close>, with which the tables of known headers are built.
\<close>

fun ngx_hash_key_lc_from :: "64 word \<Rightarrow> byte list \<Rightarrow> 64 word" where
  "ngx_hash_key_lc_from key [] = key"
| "ngx_hash_key_lc_from key (c # cs) = ngx_hash_key_lc_from (ngx_hash key (ngx_tolower c)) cs"

definition ngx_hash_key_lc :: "byte list \<Rightarrow> 64 word" where
  "ngx_hash_key_lc bs = ngx_hash_key_lc_from 0 bs"

lemma hash_key_lc: "hash_key (map ngx_tolower bs) = ngx_hash_key_lc bs"
proof -
  have "foldl ngx_hash k (map ngx_tolower bs) = ngx_hash_key_lc_from k bs" for k
    by (induction k bs rule: ngx_hash_key_lc_from.induct) simp_all
  then show ?thesis by (simp add: hash_key_def ngx_hash_key_lc_def)
qed


text \<open>The bytes of the name that count, in lower case.\<close>

definition lc_name :: "bool \<Rightarrow> byte list \<Rightarrow> byte list" where
  "lc_name a bs = concat (map (lc a) bs)"

definition ring_ok :: "byte list \<Rightarrow> nat \<Rightarrow> byte list \<Rightarrow> bool" where
  "ring_ok ring i l \<longleftrightarrow> length ring = 32 \<and> i = length l mod 32 \<and> (length l \<le> 32 \<longrightarrow> take (length l) ring = l)"

lemma and_31: "(n :: nat) AND 31 = n mod 32"
  using take_bit_eq_mask [of 5 n] by (simp add: take_bit_eq_mod mask_eq_exp_minus_1)

lemma ring_ok_put:
  assumes "ring_ok ring i l"
  shows "ring_ok (ring[i := c]) (Suc i mod 32) (l @ [c])" "i < length ring"
proof -
  show "i < length ring" using assms by (simp add: ring_ok_def)
  show "ring_ok (ring[i := c]) (Suc i mod 32) (l @ [c])"
  proof (cases "length l < 32")
    case True
    then have "i = length l" "take (length l) ring = l" "length ring = 32"
      using assms by (auto simp: ring_ok_def)
    with True show ?thesis by (simp add: ring_ok_def take_Suc_conv_app_nth)
  next
    case False
    then show ?thesis using assms by (auto simp: ring_ok_def mod_Suc_eq)
  qed
qed

lemma ring_ok_first: "length ring = 32 \<Longrightarrow> ring_ok (ring[0 := c]) 1 [c]" "length ring = 32 \<Longrightarrow> ring_ok ring 0 []"
  by (cases ring; simp add: ring_ok_def)+

definition bytes_ok :: "(byte \<Rightarrow> bool) \<Rightarrow> byte list \<Rightarrow> nat \<Rightarrow> nat \<Rightarrow> bool" where
  "bytes_ok P buf i j \<longleftrightarrow> (\<forall>k. i \<le> k \<and> k < j \<longrightarrow> P (buf ! k))"

lemma bytes_ok_self [simp]: "bytes_ok P buf i i"
  by (auto simp: bytes_ok_def)

lemma bytes_ok_Suc [simp]: "bytes_ok P buf i (Suc j) \<longleftrightarrow> bytes_ok P buf i j \<and> (i \<le> j \<longrightarrow> P (buf ! j))"
  by (auto simp: bytes_ok_def less_Suc_eq)

definition token_char :: "byte \<Rightarrow> bool" where
  "token_char c \<longleftrightarrow> 0x20 < c \<and> c \<noteq> 0x7f \<and> c \<noteq> B CHR '':''"

definition value_char :: "byte \<Rightarrow> bool" where
  "value_char c \<longleftrightarrow> c \<noteq> 0 \<and> c \<noteq> CR \<and> c \<noteq> LF"

text \<open>The name from \<open>header_name_start\<close> up to offset \<open>e\<close>, its hash and its lowercased copy.\<close>

definition hl_name :: "bool \<Rightarrow> byte list \<Rightarrow> nat \<Rightarrow> 64 word \<Rightarrow> nat \<Rightarrow> ngx_http_header_in \<Rightarrow> bool" where
  "hl_name a buf e hash i r \<longleftrightarrow>
     header_name_start r < e \<and>
     hash = hash_key (lc_name a (slice buf (header_name_start r) e)) \<and>
     ring_ok (lowcase_header r) i (lc_name a (slice buf (header_name_start r) e)) \<and>
     bytes_ok token_char buf (header_name_start r) e \<and>
     (invalid_header r \<or> bytes_ok (\<lambda>c. lc a c \<noteq> []) buf (header_name_start r) e)"

lemma hl_name_first:
  assumes "length (lowcase_header r) = 32" "p < length buf" "token_char (buf ! p)"
    and "header_name_start r = p"
  shows "lc a (buf ! p) = [c] \<Longrightarrow> hl_name a buf (Suc p) (ngx_hash 0 c) 1 (r\<lparr>lowcase_header := (lowcase_header r)[0 := c]\<rparr>)"
    and "lc a (buf ! p) = [] \<Longrightarrow> hl_name a buf (Suc p) 0 0 (r\<lparr>invalid_header := True\<rparr>)"
  using assms ring_ok_first [of "lowcase_header r"]
  by (simp_all add: hl_name_def slice_Suc lc_name_def hash_key_def)

lemma hl_name_next:
  assumes "hl_name a buf p hash i r" "p < length buf" "token_char (buf ! p)"
  shows "lc a (buf ! p) = [c] \<Longrightarrow>
      hl_name a buf (Suc p) (ngx_hash hash c) (Suc i mod 32) (r\<lparr>lowcase_header := (lowcase_header r)[i := c]\<rparr>)"
    and "lc a (buf ! p) = [] \<Longrightarrow> hl_name a buf (Suc p) hash i (r\<lparr>invalid_header := True\<rparr>)"
  using assms ring_ok_put [of "lowcase_header r" i]
  by (auto simp: hl_name_def slice_Suc lc_name_def hash_key_def)

definition hl_value :: "byte list \<Rightarrow> nat \<Rightarrow> nat \<Rightarrow> bool" where
  "hl_value buf i j \<longleftrightarrow> i \<le> j \<and> bytes_ok value_char buf i j \<and> (i < j \<longrightarrow> buf ! i \<noteq> SP \<and> buf ! (j - 1) \<noteq> SP)"

fun hl_inv :: "bool \<Rightarrow> byte list \<Rightarrow> nat \<Rightarrow> hl_vars \<Rightarrow> bool" where
  "hl_inv a buf p (st, hash, i, r) \<longleftrightarrow>
     length (lowcase_header r) = 32 \<and>
     (case st of
        sw_start \<Rightarrow> True
      | sw_ignore_line \<Rightarrow> True
      | sw_header_almost_done \<Rightarrow> True
      | sw_name \<Rightarrow> hl_name a buf p hash i r
      | _ \<Rightarrow> hl_name a buf (header_name_end r) hash i r \<and> header_name_end r < p \<and>
        (case st of
           sw_value \<Rightarrow> header_name_end r \<le> header_start r \<and> header_start r < p \<and> hl_value buf (header_start r) p
         | sw_space_after_value \<Rightarrow> header_name_end r \<le> header_start r \<and>
             header_start r < header_end r \<and> header_end r < p \<and>
             hl_value buf (header_start r) (header_end r) \<and> bytes_ok value_char buf (header_start r) p
         | sw_almost_done \<Rightarrow> header_name_end r \<le> header_start r \<and>
             hl_value buf (header_start r) (header_end r) \<and> header_end r < p
         | _ \<Rightarrow> True))"

fun hl_post :: "bool \<Rightarrow> byte list \<Rightarrow> nat \<Rightarrow> ngx_http_header_in hl_jump \<Rightarrow> bool" where
  "hl_post a buf p (Return rc r) = True"
| "hl_post a buf p (Header_done r) \<longleftrightarrow> buf ! p = LF"
| "hl_post a buf p (Done hash i r) \<longleftrightarrow>
     buf ! p = LF \<and> hl_name a buf (header_name_end r) hash i r \<and> header_name_end r \<le> header_start r \<and>
     hl_value buf (header_start r) (header_end r) \<and> header_end r \<le> p"
| "hl_post a buf p Fault = False"

definition hl_ok :: "bool \<Rightarrow> byte list \<Rightarrow> nat \<Rightarrow> hl_ctl \<Rightarrow> bool" where
  "hl_ok a buf p c \<longleftrightarrow> (case c of Next s \<Rightarrow> hl_inv a buf (Suc p) s | Exit j \<Rightarrow> hl_post a buf p j)"

lemma hl_ok_simps [simp]:
  "hl_ok a buf p (Next s) = hl_inv a buf (Suc p) s"
  "hl_ok a buf p (Exit j) = hl_post a buf p j"
  "hl_ok a buf p (hl_invalid q r)"
  by (simp_all add: hl_ok_def hl_invalid_def)

lemma hl_name_frame [simp]:
  "hl_name a buf e hash i (r\<lparr>header_name_end := x\<rparr>) = hl_name a buf e hash i r"
  "hl_name a buf e hash i (r\<lparr>header_start := x\<rparr>) = hl_name a buf e hash i r"
  "hl_name a buf e hash i (r\<lparr>header_end := x\<rparr>) = hl_name a buf e hash i r"
  by (simp_all add: hl_name_def)

text \<open>The two states that read the name.\<close>

lemma lc_cases:
  obtains "lowcase ch \<noteq> 0" "lc a ch = [lowcase ch]" "token_char ch"
  | "lowcase ch = 0" "ch = B CHR ''_''" "a" "lc a ch = [ch]" "token_char ch"
  | "lowcase ch = 0" "ch \<noteq> B CHR ''_'' \<or> \<not> a" "lc a ch = []"
  using tolower_nonzero by (cases "lowcase ch = 0"; cases "ch = B CHR ''_''"; cases a)
    (auto simp: lc_def lowcase_iff token_char_def)

lemma hl_ok_start:
  assumes "p < length buf" "length (lowcase_header r) = 32"
  shows "hl_ok a buf p (hl_sw_start a p (buf ! p) hash i r)"
proof -
  let ?r = "r\<lparr>header_name_start := p, invalid_header := False\<rparr>"
  have "length (lowcase_header ?r) = 32" using assms(2) by simp
  note first = hl_name_first [OF this assms(1), of a]
  show ?thesis
    by (cases a "buf ! p" rule: lc_cases; cases "buf ! p = CR"; cases "buf ! p = LF")
       (use first assms(2) in \<open>auto simp: hl_sw_start_def put_lowcase_def Let_def token_char_def\<close>)
qed


lemma hl_ok_name:
  assumes "p < length buf" "hl_inv a buf p (sw_name, hash, i, r)"
  shows "hl_ok a buf p (hl_sw_name a buf p (buf ! p) hash i r)"
proof -
  have n: "hl_name a buf p hash i r" and len: "length (lowcase_header r) = 32" using assms by auto
  then have "i < length (lowcase_header r)" by (auto simp: hl_name_def ring_ok_def)
  note next' = hl_name_next [OF n assms(1)]
  show ?thesis
  proof (cases a "buf ! p" rule: lc_cases)
    case 1
    then show ?thesis
      using next' len \<open>i < _\<close> by (simp add: hl_sw_name_def put_lowcase_def NGX_HTTP_LC_HEADER_LEN_def and_31 Let_def)
  next
    case 2
    then show ?thesis
      using next' len \<open>i < _\<close> by (simp add: hl_sw_name_def put_lowcase_def NGX_HTTP_LC_HEADER_LEN_def and_31 Let_def)
  next
    case 3
    then have "hl_ok a buf p (Next (sw_name, hash, i, r\<lparr>invalid_header := True\<rparr>))" if "token_char (buf ! p)"
      using next'(2) len that by simp
    with 3 n len show ?thesis
      by (auto simp: hl_sw_name_def hl_value_def token_char_def)
  qed
qed

lemma hl_ok_value_states:
  shows "hl_inv a buf p (sw_space_before_value, hash, i, r) \<Longrightarrow> hl_ok a buf p (hl_sw_space_before_value p (buf ! p) hash i r)"
    and "hl_inv a buf p (sw_value, hash, i, r) \<Longrightarrow> hl_ok a buf p (hl_sw_value p (buf ! p) hash i r)"
    and "hl_inv a buf p (sw_space_after_value, hash, i, r) \<Longrightarrow> hl_ok a buf p (hl_sw_space_after_value p (buf ! p) hash i r)"
  by (auto simp: hl_sw_space_before_value_def hl_sw_value_def hl_sw_space_after_value_def hl_value_def value_char_def)

lemma hl_ok_end_states:
  shows "hl_inv a buf p (sw_ignore_line, hash, i, r) \<Longrightarrow> hl_ok a buf p (hl_sw_ignore_line (buf ! p) hash i r)"
    and "hl_inv a buf p (sw_almost_done, hash, i, r) \<Longrightarrow> hl_ok a buf p (hl_sw_almost_done (buf ! p) hash i r)"
    and "hl_inv a buf p (sw_header_almost_done, hash, i, r) \<Longrightarrow> hl_ok a buf p (hl_sw_header_almost_done (buf ! p) r)"
  by (auto simp: hl_sw_ignore_line_def hl_sw_almost_done_def hl_sw_header_almost_done_def)

lemma hl_step_ok:
  assumes "p < length buf" "hl_inv a buf p s"
  shows "hl_ok a buf p (hl_step a buf p (buf ! p) s)"
proof (cases s)
  case (fields st hash i r)
  show ?thesis
    using hl_ok_start [OF assms(1), of r a hash i] hl_ok_name [OF assms(1)] hl_ok_value_states hl_ok_end_states assms(2)
    by (cases st) (simp_all add: fields hl_step.simps del: hl_ok_simps)
qed

interpretation hl_inv: scan_invariant "hl_step a" "hl_inv a" "hl_post a" for a
proof unfold_locales
  fix p buf s s'
  assume "p < length buf" "hl_inv a buf p s" "hl_step a buf p (buf ! p) s = Next s'"
  then show "hl_inv a buf (Suc p) s'" using hl_step_ok [of p buf a s] by simp
next
  fix p buf s r
  assume "p < length buf" "hl_inv a buf p s" "hl_step a buf p (buf ! p) s = Exit r"
  then show "hl_post a buf p r" using hl_step_ok [of p buf a s] by simp
qed

lemma header_line_cases:
  assumes "pos b \<le> length (data b)" "state r = sw_start" "length (lowcase_header r) = NGX_HTTP_LC_HEADER_LEN"
  obtains rc r' b' where "ngx_http_parse_header_line a r b = Some (rc, r', b')"
    "rc = NGX_OK \<Longrightarrow> b' = b\<lparr>pos := pos b'\<rparr> \<and> pos b < pos b' \<and> pos b' \<le> length (data b) \<and>
       hl_post a (data b) (pos b' - 1) (Done (header_hash r') (lowcase_index r') r')"
proof -
  obtain p c where pc: "scan_buf (hl_step a) b (state r, header_hash r, lowcase_index r, r) = (p, c)" by force
  have "hl_inv a (data b) (pos b) (state r, header_hash r, lowcase_index r, r)"
    using assms by (simp add: NGX_HTTP_LC_HEADER_LEN_def)
  from hl_inv.scan_buf_inv [OF assms(1) this pc]
  have i: "pos b \<le> p" "p \<le> length (data b)" "case c of Next s' \<Rightarrow> p = length (data b) \<and> hl_inv a (data b) p s'
     | Exit j \<Rightarrow> p < length (data b) \<and> hl_post a (data b) p j" by blast+
  show ?thesis
    by (rule that [of "fst (the (ngx_http_parse_header_line a r b))" "fst (snd (the (ngx_http_parse_header_line a r b)))"
          "snd (snd (the (ngx_http_parse_header_line a r b)))"])
       (use i pc in \<open>auto simp: ngx_http_parse_header_line_def hl_name_def split: ctl.splits hl_jump.splits prod.splits
          dest: hl_scan_return\<close>)
qed

text \<open>
  C24. Parsing a header line from the start never writes outside the 32-byte ring, and when a line is
  accepted the stored offsets delimit, in this order and inside the consumed bytes, a non-empty name
  without blanks, control characters and colons, and a value without zero byte, carriage return and
  line feed that neither begins nor ends with a space. The consumed bytes end with the line feed.
\<close>

theorem header_line_ok_offsets:
  assumes "pos b \<le> length (data b)" "state r = sw_start"
    and "length (lowcase_header r) = NGX_HTTP_LC_HEADER_LEN"
  shows "\<exists>rc r' b'. ngx_http_parse_header_line a r b = Some (rc, r', b') \<and>
     (rc = NGX_OK \<longrightarrow>
        header_name_start r' < header_name_end r' \<and> header_name_end r' \<le> header_start r' \<and>
        header_start r' \<le> header_end r' \<and> header_end r' < pos b' \<and> pos b' \<le> length (data b) \<and>
        data b ! (pos b' - 1) = LF \<and>
        (\<forall>i\<in>{header_name_start r'..<header_name_end r'}. token_char (data b ! i)) \<and>
        (\<forall>i\<in>{header_start r'..<header_end r'}. value_char (data b ! i)) \<and>
        (header_start r' < header_end r' \<longrightarrow>
           data b ! header_start r' \<noteq> SP \<and> data b ! (header_end r' - 1) \<noteq> SP))"
proof -
  obtain rc r' b' where "ngx_http_parse_header_line a r b = Some (rc, r', b')"
    "rc = NGX_OK \<Longrightarrow> b' = b\<lparr>pos := pos b'\<rparr> \<and> pos b < pos b' \<and> pos b' \<le> length (data b) \<and>
       hl_post a (data b) (pos b' - 1) (Done (header_hash r') (lowcase_index r') r')"
    using header_line_cases [OF assms] by metis
  then show ?thesis
    by (intro exI [of _ rc] exI [of _ r'] exI [of _ b'])
       (auto simp: hl_name_def hl_value_def bytes_ok_def)
qed

theorem header_line_ok_offsets_witness:
  "\<exists>r' b'. ngx_http_parse_header_line False init_header_in \<lparr>pos = 0, data = bytes ''Host:  a '' @ [CR, LF]\<rparr> =
       Some (NGX_OK, r', b') \<and>
     header_name_start r' < header_name_end r' \<and> header_start r' \<le> header_end r' \<and> header_end r' < pos b'"
proof -
  let ?b = "\<lparr>pos = 0, data = bytes ''Host:  a '' @ [CR, LF]\<rparr>"
  have "case ngx_http_parse_header_line False init_header_in ?b of Some (rc, r', b') \<Rightarrow> rc = NGX_OK | None \<Rightarrow> False"
    by code_simp
  then obtain r' b' where e: "ngx_http_parse_header_line False init_header_in ?b = Some (NGX_OK, r', b')"
    by (auto split: option.splits prod.splits)
  have "pos ?b \<le> length (data ?b)" "state init_header_in = sw_start"
    "length (lowcase_header init_header_in) = NGX_HTTP_LC_HEADER_LEN"
    by (simp_all add: init_header_in_def)
  from header_line_ok_offsets [OF this, of False] e show ?thesis by auto
qed

lemma lc_tolower: "lc a c \<noteq> [] \<Longrightarrow> lc a c = [ngx_tolower c]"
  by (auto simp: lc_def lowcase_spec ngx_tolower_def split: if_splits)

lemma lc_name_tolower: "\<forall>c\<in>set bs. lc a c \<noteq> [] \<Longrightarrow> lc_name a bs = map ngx_tolower bs"
  by (induction bs) (auto simp: lc_name_def dest: lc_tolower)

lemma slice_set: "j \<le> length buf \<Longrightarrow> c \<in> set (slice buf i j) \<Longrightarrow> \<exists>k. i \<le> k \<and> k < j \<and> c = buf ! k"
  by (auto simp: slice_def in_set_conv_nth) (metis le_add1 less_diff_conv add.commute)

lemma slice_bytes_ok: "j \<le> length buf \<Longrightarrow> bytes_ok P buf i j \<Longrightarrow> \<forall>c\<in>set (slice buf i j). P c"
  using slice_set by (fastforce simp: bytes_ok_def)

text \<open>
  When an accepted header name is valid, the hash computed on the fly is the hash of the whole
  lowercased name with which the tables of known headers are searched, whatever its length; and when
  the ring index equals the length of the name, which is when callers copy the ring instead of
  lowering the name again, the ring holds the lowercased name. Names of less than 32 bytes always
  satisfy that condition.
\<close>

theorem header_line_key:
  assumes "pos b \<le> length (data b)" "state r = sw_start"
    and "length (lowcase_header r) = NGX_HTTP_LC_HEADER_LEN"
    and "ngx_http_parse_header_line a r b = Some (NGX_OK, r', b')" "\<not> invalid_header r'"
    and "name = slice (data b) (header_name_start r') (header_name_end r')"
  shows "header_hash r' = ngx_hash_key_lc name \<and>
     (lowcase_index r' = length name \<longrightarrow> take (length name) (lowcase_header r') = map ngx_tolower name) \<and>
     (length name < 32 \<longrightarrow> lowcase_index r' = length name)"
proof -
  obtain rc r1 b1 where "ngx_http_parse_header_line a r b = Some (rc, r1, b1)"
    "rc = NGX_OK \<Longrightarrow> b1 = b\<lparr>pos := pos b1\<rparr> \<and> pos b < pos b1 \<and> pos b1 \<le> length (data b) \<and>
       hl_post a (data b) (pos b1 - 1) (Done (header_hash r1) (lowcase_index r1) r1)"
    using header_line_cases [OF assms(1-3)] by metis
  with assms(4) have "pos b' \<le> length (data b)"
    "hl_post a (data b) (pos b' - 1) (Done (header_hash r') (lowcase_index r') r')" by auto
  then have "header_name_end r' \<le> length (data b) \<and> hl_name a (data b) (header_name_end r') (header_hash r') (lowcase_index r') r'"
    by (auto simp: hl_value_def)
  then have ok: "bytes_ok (\<lambda>c. lc a c \<noteq> []) (data b) (header_name_start r') (header_name_end r')"
    and le: "header_name_end r' \<le> length (data b)" and h: "header_hash r' = hash_key (lc_name a name)"
    and ring: "ring_ok (lowcase_header r') (lowcase_index r') (lc_name a name)"
    using assms(5,6) by (auto simp: hl_name_def)
  have n: "\<forall>c\<in>set name. lc a c \<noteq> []" using slice_bytes_ok [OF le ok] assms(6) by simp
  from h ring show ?thesis
    using lc_name_tolower [OF n] by (auto simp: hash_key_lc ring_ok_def)
qed

theorem header_line_key_witness:
  "\<exists>r' b'. ngx_http_parse_header_line False init_header_in \<lparr>pos = 0, data = bytes ''Host: a'' @ [CR, LF]\<rparr> =
       Some (NGX_OK, r', b') \<and>
     header_hash r' = ngx_hash_key_lc (bytes ''Host'') \<and> take (length (bytes ''host'')) (lowcase_header r') = bytes ''host''"
proof -
  let ?b = "\<lparr>pos = 0, data = bytes ''Host: a'' @ [CR, LF]\<rparr>"
  have "case ngx_http_parse_header_line False init_header_in ?b of
      Some (rc, r', b') \<Rightarrow> rc = NGX_OK \<and> \<not> invalid_header r' \<and> header_name_start r' = 0 \<and> header_name_end r' = 4
    | None \<Rightarrow> False"
    by code_simp
  then obtain r' b' where e: "ngx_http_parse_header_line False init_header_in ?b = Some (NGX_OK, r', b')"
    "\<not> invalid_header r'" "header_name_start r' = 0" "header_name_end r' = 4"
    by (auto split: option.splits prod.splits)
  have "pos ?b \<le> length (data ?b)" "state init_header_in = sw_start"
    "length (lowcase_header init_header_in) = NGX_HTTP_LC_HEADER_LEN"
    by (simp_all add: init_header_in_def)
  from header_line_key [OF this e(1,2) refl] e show ?thesis by (auto simp: slice_def ngx_tolower_def)
qed

section \<open>Well-formed header lines\<close>

lemma scan_name_chars:
  assumes "\<forall>c\<in>set ns. lc a c \<noteq> []" "ring_ok (lowcase_header r) i l"
  shows "\<exists>i' ring. scan (hl_step a buf) p ns (sw_name, hash, i, r) =
           (p + length ns, Next (sw_name, foldl ngx_hash hash (lc_name a ns), i', r\<lparr>lowcase_header := ring\<rparr>)) \<and>
         ring_ok ring i' (l @ lc_name a ns)"
  using assms
proof (induction ns arbitrary: p hash i r l)
  case Nil
  then show ?case by (auto simp: lc_name_def intro: exI [of _ "lowcase_header r"])
next
  case (Cons ch ns)
  obtain c where c: "lc a ch = [c]" using Cons.prems(1) lc_tolower by fastforce
  let ?r = "r\<lparr>lowcase_header := (lowcase_header r)[i := c]\<rparr>"
  have ring: "ring_ok (lowcase_header ?r) (Suc i mod 32) (l @ [c])" "i < length (lowcase_header r)"
    using ring_ok_put [OF Cons.prems(2)] by simp_all
  have "hl_step a buf p ch (sw_name, hash, i, r) = Next (sw_name, ngx_hash hash c, Suc i mod 32, ?r)"
    using c ring(2)
    by (auto simp: hl_step.simps hl_sw_name_def put_lowcase_def lc_def NGX_HTTP_LC_HEADER_LEN_def and_31 Let_def
          split: if_splits)
  moreover have "lc_name a (ch # ns) = c # lc_name a ns" using c by (simp add: lc_name_def)
  ultimately show ?case
    using Cons.IH [OF _ ring(1), of "Suc p" "ngx_hash hash c"] Cons.prems(1) by auto
qed

lemma scan_value_chars:
  assumes "\<forall>c\<in>set vs. value_char c" "st \<in> {sw_value, sw_space_after_value}"
  shows "\<exists>st' e. scan (hl_step a buf) p vs (st, hash, i, r) = (p + length vs, Next (st', hash, i, r\<lparr>header_end := e\<rparr>)) \<and>
           (if vs = [] then st' = st \<and> e = header_end r
            else if last vs = SP then st' = sw_space_after_value else st' = sw_value)"
  using assms
proof (induction vs arbitrary: p st r)
  case (Cons ch vs)
  obtain st1 e1 where s1: "hl_step a buf p ch (st, hash, i, r) = Next (st1, hash, i, r\<lparr>header_end := e1\<rparr>)"
    "st1 = (if ch = SP then sw_space_after_value else sw_value)"
  proof (cases "ch = SP \<and> st = sw_value")
    case True
    then show ?thesis using that [of sw_space_after_value p] by (simp add: hl_step.simps hl_sw_value_def)
  next
    case False
    then show ?thesis
      using that [of "if ch = SP then sw_space_after_value else sw_value" "header_end r"] Cons.prems
      by (auto simp: hl_step.simps hl_sw_value_def hl_sw_space_after_value_def value_char_def)
  qed
  obtain st' e where "scan (hl_step a buf) (Suc p) vs (st1, hash, i, r\<lparr>header_end := e1\<rparr>) =
      (Suc p + length vs, Next (st', hash, i, r\<lparr>header_end := e1\<rparr>\<lparr>header_end := e\<rparr>))"
    "if vs = [] then st' = st1 \<and> e = e1 else if last vs = SP then st' = sw_space_after_value else st' = sw_value"
    using Cons.IH [of st1 "Suc p" "r\<lparr>header_end := e1\<rparr>"] Cons.prems s1(2) by force
  then show ?case using s1 by auto
qed auto


lemma lowcase_delims [simp]:
  "lowcase (B CHR '':'') = 0" "lowcase SP = 0"
  by (simp_all add: lowcase_spec name_char_def is_digit_def)

lemma scan_header_name:
  assumes "name \<noteq> []" "\<forall>c\<in>set name. lc a c \<noteq> []" "length (lowcase_header r) = 32"
  shows "\<exists>i ring. scan (hl_step a buf) p name (sw_start, hash, j, r) =
     (p + length name, Next (sw_name, ngx_hash_key_lc name, i,
        r\<lparr>header_name_start := p, invalid_header := False, lowcase_header := ring\<rparr>))"
proof -
  obtain ch ns where name: "name = ch # ns" using assms(1) by (cases name) auto
  let ?r = "r\<lparr>header_name_start := p, invalid_header := False\<rparr>"
  obtain c where c: "lc a ch = [c]" using assms(2) name lc_tolower by fastforce
  let ?r1 = "?r\<lparr>lowcase_header := (lowcase_header r)[0 := c]\<rparr>"
  have "ch \<noteq> CR" "ch \<noteq> LF" using c by (auto simp: lc_def lowcase_spec name_char_def is_digit_def)
  then have "hl_step a buf p ch (sw_start, hash, j, r) = Next (sw_name, ngx_hash 0 c, 1, ?r1)"
    using c assms(3) by (auto simp: hl_step.simps hl_sw_start_def put_lowcase_def lc_def Let_def split: if_splits)
  moreover obtain i ring where "scan (hl_step a buf) (Suc p) ns (sw_name, ngx_hash 0 c, 1, ?r1) =
      (Suc p + length ns, Next (sw_name, foldl ngx_hash (ngx_hash 0 c) (lc_name a ns), i, ?r1\<lparr>lowcase_header := ring\<rparr>))"
    using scan_name_chars [of ns a ?r1 1 "[c]" buf "Suc p" "ngx_hash 0 c"] assms(2,3) name
      ring_ok_first(1) [of "lowcase_header r" c] by auto
  moreover have "foldl ngx_hash (ngx_hash 0 c) (lc_name a ns) = ngx_hash_key_lc name"
    using lc_name_tolower [OF assms(2)] c by (simp add: name lc_name_def hash_key_def flip: hash_key_lc)
  ultimately show ?thesis by (auto simp: name)
qed

lemma scan_header_value:
  assumes "v \<noteq> []" "\<forall>c\<in>set v. value_char c" "hd v \<noteq> SP" "last v \<noteq> SP"
  shows "scan (hl_step a buf) p (bytes '': '' @ v @ [CR, LF] @ rest) (sw_name, hash, i, r) =
     (Suc (Suc (Suc p)) + length v,
      Exit (Done hash i (r\<lparr>header_name_end := p, header_start := Suc (Suc p), header_end := Suc (Suc p) + length v\<rparr>)))"
proof -
  obtain d ds where v: "v = d # ds" using assms(1) by (cases v) auto
  let ?p = "Suc (Suc p)"
  let ?r = "r\<lparr>header_name_end := p, header_start := ?p\<rparr>"
  have "lowcase 58 = 0" using lowcase_delims by simp
  then have s: "hl_step a buf p 58 (sw_name, hash, i, r) = Next (sw_space_before_value, hash, i, r\<lparr>header_name_end := p\<rparr>)"
    "hl_step a buf (Suc p) SP (sw_space_before_value, hash, i, r\<lparr>header_name_end := p\<rparr>) =
       Next (sw_space_before_value, hash, i, r\<lparr>header_name_end := p\<rparr>)"
    "hl_step a buf ?p d (sw_space_before_value, hash, i, r\<lparr>header_name_end := p\<rparr>) = Next (sw_value, hash, i, ?r)"
    using assms(2,3) by (simp_all add: v hl_step.simps hl_sw_name_def hl_sw_space_before_value_def value_char_def)
  obtain st e where "scan (hl_step a buf) (Suc ?p) ds (sw_value, hash, i, ?r) =
      (Suc ?p + length ds, Next (st, hash, i, ?r\<lparr>header_end := e\<rparr>))"
    "if ds = [] then st = sw_value \<and> e = header_end ?r
     else if last ds = SP then st = sw_space_after_value else st = sw_value"
    using scan_value_chars [of ds sw_value a buf "Suc ?p" hash i ?r] assms(2) v by auto
  moreover from this have "st = sw_value" using assms(4) v by (auto split: if_splits)
  ultimately show ?thesis
    using s by (simp add: v scan_append) (simp add: hl_step.simps hl_sw_value_def hl_sw_almost_done_def)
qed

text \<open>
  Every header line \<open>Name: value CR LF\<close> with a valid name and a value that is trimmed and free
  of zero bytes, carriage returns and line feeds is accepted wherever it stands in the buffer and
  whatever follows it. The stored offsets delimit exactly that name and that value, the hash is that
  of the lowercased name, and nothing after the line feed is consumed.
\<close>

theorem header_line_accepts:
  assumes "name \<noteq> []" "\<forall>c\<in>set name. name_char c \<or> c = B CHR ''_'' \<and> a"
    and "v \<noteq> []" "\<forall>c\<in>set v. value_char c" "hd v \<noteq> SP" "last v \<noteq> SP"
    and "state r = sw_start" "length (lowcase_header r) = NGX_HTTP_LC_HEADER_LEN"
    and "b = \<lparr>pos = length pre, data = pre @ name @ bytes '': '' @ v @ [CR, LF] @ rest\<rparr>"
  shows "\<exists>r'. ngx_http_parse_header_line a r b =
           Some (NGX_OK, r', b\<lparr>pos := length pre + length name + length v + 4\<rparr>) \<and>
         slice (data b) (header_name_start r') (header_name_end r') = name \<and>
         slice (data b) (header_start r') (header_end r') = v \<and>
         \<not> invalid_header r' \<and> header_hash r' = ngx_hash_key_lc name"
proof -
  have lc: "\<forall>c\<in>set name. lc a c \<noteq> []" using assms(2) by (auto simp: lc_def lowcase_iff)
  let ?p = "length pre" and ?n = "length pre + length name"
  obtain i ring where n: "scan (hl_step a (data b)) ?p name (sw_start, header_hash r, lowcase_index r, r) =
     (?n, Next (sw_name, ngx_hash_key_lc name, i,
        r\<lparr>header_name_start := ?p, invalid_header := False, lowcase_header := ring\<rparr>))"
    using scan_header_name [OF assms(1) lc, of r "data b" ?p "header_hash r" "lowcase_index r"] assms(8)
    by (auto simp: NGX_HTTP_LC_HEADER_LEN_def)
  let ?r = "r\<lparr>header_name_start := ?p, invalid_header := False, lowcase_header := ring,
    header_name_end := ?n, header_start := Suc (Suc ?n), header_end := Suc (Suc ?n) + length v\<rparr>"
  have "scan_buf (hl_step a) b (state r, header_hash r, lowcase_index r, r) =
      (Suc (Suc (Suc ?n)) + length v, Exit (Done (ngx_hash_key_lc name) i ?r))"
    using n scan_header_value [OF assms(3-6), of a "data b" ?n rest]
    by (simp add: scan_buf_def assms(7,9) scan_append)
  moreover have "slice (data b) ?p ?n = name" "slice (data b) (Suc (Suc ?n)) (Suc (Suc ?n) + length v) = v"
    using slice_middle [of pre name] slice_middle [of "pre @ name @ bytes '': ''" v "[CR, LF] @ rest"]
    by (simp_all add: assms(9) add.assoc)
  ultimately show ?thesis
    by (simp add: ngx_http_parse_header_line_def)
qed

theorem header_line_accepts_witness:
  "\<exists>r'. ngx_http_parse_header_line False init_header_in
          \<lparr>pos = 0, data = bytes ''Host: a b'' @ [CR, LF] @ bytes ''X''\<rparr> =
       Some (NGX_OK, r', \<lparr>pos = 11, data = bytes ''Host: a b'' @ [CR, LF] @ bytes ''X''\<rparr>) \<and>
     slice (bytes ''Host: a b'' @ [CR, LF] @ bytes ''X'') (header_start r') (header_end r') = bytes ''a b''"
proof -
  have 1: "bytes ''Host'' \<noteq> []" "\<forall>c\<in>set (bytes ''Host''). name_char c \<or> c = B CHR ''_'' \<and> False"
    and 2: "bytes ''a b'' \<noteq> []" "\<forall>c\<in>set (bytes ''a b''). value_char c" "hd (bytes ''a b'') \<noteq> SP" "last (bytes ''a b'') \<noteq> SP"
    and 3: "state init_header_in = sw_start" "length (lowcase_header init_header_in) = NGX_HTTP_LC_HEADER_LEN"
    by (simp_all add: name_char_def value_char_def init_header_in_def)
  from header_line_accepts [OF 1 2 3 refl, of "[]" "bytes ''X''"] show ?thesis by auto
qed

end
