(* ===== verification/Ngx_Http_Chunked.thy ===== *)
theory Ngx_Http_Chunked
  imports Ngx_Prelude
begin

text \<open>
  The chunked transfer coding: the parser \<^verbatim>\<open>ngx_http_parse_chunked\<close> of \<^verbatim>\<open>src/http/ngx_http_parse.c\<close>
  and its main client \<^verbatim>\<open>ngx_http_request_body_chunked_filter\<close> of
  \<^verbatim>\<open>src/http/ngx_http_request_body.c\<close>, which moves small chunks together inside the receive buffer.
  An \<open>off_t\<close> is a natural number and storing a value that does not fit is the explicit outcome
  \<open>Overflow\<close>, shown never to happen. The lemmas show that the parser may be fed in pieces, that
  moving chunks in place gives what copying them out would give, and that decoding inverts encoding.
\<close>

section \<open>The parser\<close>

datatype chunk_state =
    sw_chunk_start | sw_chunk_size | sw_chunk_extension | sw_chunk_extension_almost_done
  | sw_chunk_data | sw_after_data | sw_after_data_almost_done
  | sw_last_chunk_extension | sw_last_chunk_extension_almost_done
  | sw_trailer | sw_trailer_almost_done | sw_trailer_header | sw_trailer_header_almost_done

text \<open>\<open>ngx_http_chunked_t\<close>.\<close>

record ngx_http_chunked =
  chunked_state :: chunk_state
  chunked_size :: nat
  chunked_length :: nat

text \<open>The labels \<open>data\<close>, \<open>done\<close> and \<open>invalid\<close>, with the value of \<open>ctx->size\<close>.\<close>

datatype chunk_jump = Data chunk_state nat | Done nat | Invalid nat | Overflow

type_synonym chunk_ctl = "(chunk_state \<times> nat, chunk_jump) ctl"

text \<open>\<open>ctx->size = n\<close>.\<close>

definition set_size :: "nat \<Rightarrow> (nat \<Rightarrow> chunk_ctl) \<Rightarrow> chunk_ctl" where
  "set_size n k = (if n \<le> NGX_MAX_OFF_T_VALUE then k n else Exit Overflow)"

definition ch_sw_chunk_start :: "byte \<Rightarrow> nat \<Rightarrow> chunk_ctl" where
  [step_defs]: "ch_sw_chunk_start ch sz =
     (if is_digit ch then set_size (digit_val ch) (\<lambda>sz. Next (sw_chunk_size, sz))
      else if is_hex_alpha ch then
        set_size (unat (hex_alpha_val ch) + 10) (\<lambda>sz. Next (sw_chunk_size, sz))
      else Exit (Invalid sz))"

definition ch_sw_chunk_size :: "bool \<Rightarrow> byte \<Rightarrow> nat \<Rightarrow> chunk_ctl" where
  [step_defs]: "ch_sw_chunk_size keep_trailers ch sz =
     (if NGX_MAX_OFF_T_VALUE div 16 < sz then Exit (Invalid sz)
      else if is_digit ch then set_size (sz * 16 + digit_val ch) (\<lambda>sz. Next (sw_chunk_size, sz))
      else if is_hex_alpha ch then
        set_size (sz * 16 + (unat (hex_alpha_val ch) + 10)) (\<lambda>sz. Next (sw_chunk_size, sz))
      else if sz = 0 then
        (if ch = CR then Next (sw_last_chunk_extension_almost_done, sz)
         else if ch = LF then (if keep_trailers then Exit (Done sz) else Next (sw_trailer, sz))
         else if ch = B CHR '';'' \<or> ch = SP \<or> ch = 9 then Next (sw_last_chunk_extension, sz)
         else Exit (Invalid sz))
      else if ch = CR then Next (sw_chunk_extension_almost_done, sz)
      else if ch = LF then Next (sw_chunk_data, sz)
      else if ch = B CHR '';'' \<or> ch = SP \<or> ch = 9 then Next (sw_chunk_extension, sz)
      else Exit (Invalid sz))"

definition ch_sw_chunk_extension :: "byte \<Rightarrow> nat \<Rightarrow> chunk_ctl" where
  [step_defs]: "ch_sw_chunk_extension ch sz =
     (if ch = CR then Next (sw_chunk_extension_almost_done, sz)
      else if ch = LF then Next (sw_chunk_data, sz)
      else Next (sw_chunk_extension, sz))"

definition ch_sw_chunk_extension_almost_done :: "byte \<Rightarrow> nat \<Rightarrow> chunk_ctl" where
  [step_defs]: "ch_sw_chunk_extension_almost_done ch sz =
     (if ch = LF then Next (sw_chunk_data, sz) else Exit (Invalid sz))"

definition ch_sw_after_data :: "byte \<Rightarrow> nat \<Rightarrow> chunk_ctl" where
  [step_defs]: "ch_sw_after_data ch sz =
     (if ch = CR then Next (sw_after_data_almost_done, sz)
      else if ch = LF then Next (sw_chunk_start, sz)
      else Exit (Invalid sz))"

definition ch_sw_after_data_almost_done :: "byte \<Rightarrow> nat \<Rightarrow> chunk_ctl" where
  [step_defs]: "ch_sw_after_data_almost_done ch sz =
     (if ch = LF then Next (sw_chunk_start, sz) else Exit (Invalid sz))"

definition ch_sw_last_chunk_extension :: "bool \<Rightarrow> byte \<Rightarrow> nat \<Rightarrow> chunk_ctl" where
  [step_defs]: "ch_sw_last_chunk_extension keep_trailers ch sz =
     (if ch = CR then Next (sw_last_chunk_extension_almost_done, sz)
      else if ch = LF then (if keep_trailers then Exit (Done sz) else Next (sw_trailer, sz))
      else Next (sw_last_chunk_extension, sz))"

definition ch_sw_last_chunk_extension_almost_done :: "bool \<Rightarrow> byte \<Rightarrow> nat \<Rightarrow> chunk_ctl" where
  [step_defs]: "ch_sw_last_chunk_extension_almost_done keep_trailers ch sz =
     (if ch = LF then (if keep_trailers then Exit (Done sz) else Next (sw_trailer, sz))
      else Exit (Invalid sz))"

definition ch_sw_trailer :: "byte \<Rightarrow> nat \<Rightarrow> chunk_ctl" where
  [step_defs]: "ch_sw_trailer ch sz =
     (if ch = CR then Next (sw_trailer_almost_done, sz)
      else if ch = LF then Exit (Done sz)
      else Next (sw_trailer_header, sz))"

definition ch_sw_trailer_almost_done :: "byte \<Rightarrow> nat \<Rightarrow> chunk_ctl" where
  [step_defs]: "ch_sw_trailer_almost_done ch sz =
     (if ch = LF then Exit (Done sz) else Exit (Invalid sz))"

definition ch_sw_trailer_header :: "byte \<Rightarrow> nat \<Rightarrow> chunk_ctl" where
  [step_defs]: "ch_sw_trailer_header ch sz =
     (if ch = CR then Next (sw_trailer_header_almost_done, sz)
      else if ch = LF then Next (sw_trailer, sz)
      else Next (sw_trailer_header, sz))"

definition ch_sw_trailer_header_almost_done :: "byte \<Rightarrow> nat \<Rightarrow> chunk_ctl" where
  [step_defs]: "ch_sw_trailer_header_almost_done ch sz =
     (if ch = LF then Next (sw_trailer, sz) else Exit (Invalid sz))"

fun ch_step :: "bool \<Rightarrow> byte list \<Rightarrow> nat \<Rightarrow> byte \<Rightarrow> chunk_state \<times> nat \<Rightarrow> chunk_ctl" where
  "ch_step keep_trailers buf p ch (st, sz) =
     (case st of
        sw_chunk_start \<Rightarrow> ch_sw_chunk_start ch sz
      | sw_chunk_size \<Rightarrow> ch_sw_chunk_size keep_trailers ch sz
      | sw_chunk_extension \<Rightarrow> ch_sw_chunk_extension ch sz
      | sw_chunk_extension_almost_done \<Rightarrow> ch_sw_chunk_extension_almost_done ch sz
      | sw_chunk_data \<Rightarrow> Exit (Data sw_chunk_data sz)
      | sw_after_data \<Rightarrow> ch_sw_after_data ch sz
      | sw_after_data_almost_done \<Rightarrow> ch_sw_after_data_almost_done ch sz
      | sw_last_chunk_extension \<Rightarrow> ch_sw_last_chunk_extension keep_trailers ch sz
      | sw_last_chunk_extension_almost_done \<Rightarrow> ch_sw_last_chunk_extension_almost_done keep_trailers ch sz
      | sw_trailer \<Rightarrow> ch_sw_trailer ch sz
      | sw_trailer_almost_done \<Rightarrow> ch_sw_trailer_almost_done ch sz
      | sw_trailer_header \<Rightarrow> ch_sw_trailer_header ch sz
      | sw_trailer_header_almost_done \<Rightarrow> ch_sw_trailer_header_almost_done ch sz)"

declare ch_step.simps [simp del, step_defs]

text \<open>The switch on \<open>state\<close> that sets \<open>ctx->length\<close>, the least number of bytes still to come.\<close>

fun chunk_length :: "chunk_state \<Rightarrow> nat \<Rightarrow> nat" where
  "chunk_length sw_chunk_start sz = 3"
| "chunk_length sw_chunk_size sz = 1 + (if sz \<noteq> 0 then sz + 4 else 1)"
| "chunk_length sw_chunk_extension sz = 1 + sz + 4"
| "chunk_length sw_chunk_extension_almost_done sz = 1 + sz + 4"
| "chunk_length sw_chunk_data sz = sz + 4"
| "chunk_length sw_after_data sz = 4"
| "chunk_length sw_after_data_almost_done sz = 4"
| "chunk_length sw_last_chunk_extension sz = 2"
| "chunk_length sw_last_chunk_extension_almost_done sz = 2"
| "chunk_length sw_trailer sz = 1"
| "chunk_length sw_trailer_almost_done sz = 1"
| "chunk_length sw_trailer_header sz = 2"
| "chunk_length sw_trailer_header_almost_done sz = 2"

type_synonym chunk_result = "(ngx_int \<times> ngx_http_chunked \<times> ngx_buf) option"

text \<open>The code after the label \<open>data\<close>; \<open>None\<close> is an overflow of \<open>off_t\<close>.\<close>

definition chunk_data :: "ngx_int \<Rightarrow> nat \<Rightarrow> chunk_state \<Rightarrow> nat \<Rightarrow> ngx_http_chunked \<Rightarrow> ngx_buf \<Rightarrow> chunk_result" where
  "chunk_data rc p st sz ctx0 b =
     (let ctx = ctx0\<lparr>chunked_state := st, chunked_size := sz\<rparr> in
      if NGX_MAX_OFF_T_VALUE - 5 < sz then Some (NGX_ERROR, ctx, b\<lparr>pos := p\<rparr>)
      else if NGX_MAX_OFF_T_VALUE < chunk_length st sz then None
      else Some (rc, ctx\<lparr>chunked_length := chunk_length st sz\<rparr>, b\<lparr>pos := p\<rparr>))"

definition chunk_entry :: "ngx_http_chunked \<Rightarrow> chunk_state" where
  "chunk_entry ctx =
     (if chunked_state ctx = sw_chunk_data \<and> chunked_size ctx = 0 then sw_after_data else chunked_state ctx)"

definition ngx_http_parse_chunked :: "bool \<Rightarrow> ngx_http_chunked \<Rightarrow> ngx_buf \<Rightarrow> chunk_result" where
  "ngx_http_parse_chunked keep_trailers ctx b =
     (case scan_buf (ch_step keep_trailers) b (chunk_entry ctx, chunked_size ctx) of
        (p, Next (st, sz)) \<Rightarrow> chunk_data NGX_AGAIN p st sz ctx b
      | (p, Exit (Data st sz)) \<Rightarrow> chunk_data NGX_OK p st sz ctx b
      | (p, Exit (Done sz)) \<Rightarrow>
          Some (NGX_DONE, ctx\<lparr>chunked_state := sw_chunk_start, chunked_size := sz\<rparr>, b\<lparr>pos := p + 1\<rparr>)
      | (p, Exit (Invalid sz)) \<Rightarrow> Some (NGX_ERROR, ctx\<lparr>chunked_size := sz\<rparr>, b)
      | (p, Exit Overflow) \<Rightarrow> None)"

section \<open>Bounds and progress\<close>

text \<open>The fields of the context that matter, as the parser leaves them between calls.\<close>

definition chunk_ok :: "chunk_state \<Rightarrow> nat \<Rightarrow> bool" where
  "chunk_ok st sz \<longleftrightarrow> sz \<le> NGX_MAX_OFF_T_VALUE \<and>
     (st \<in> {sw_chunk_extension, sw_chunk_extension_almost_done} \<longrightarrow> 0 < sz)"

fun ch_inv :: "byte list \<Rightarrow> nat \<Rightarrow> chunk_state \<times> nat \<Rightarrow> bool" where
  "ch_inv buf p (st, sz) \<longleftrightarrow> chunk_ok st sz \<and> (st = sw_chunk_data \<longrightarrow> 0 < sz)"

fun ch_post :: "byte list \<Rightarrow> nat \<Rightarrow> chunk_jump \<Rightarrow> bool" where
  "ch_post buf p (Data st sz) \<longleftrightarrow> st = sw_chunk_data \<and> 0 < sz \<and> sz \<le> NGX_MAX_OFF_T_VALUE"
| "ch_post buf p (Done sz) \<longleftrightarrow> buf ! p = LF \<and> sz \<le> NGX_MAX_OFF_T_VALUE"
| "ch_post buf p (Invalid sz) \<longleftrightarrow> sz \<le> NGX_MAX_OFF_T_VALUE"
| "ch_post buf p Overflow \<longleftrightarrow> False"

definition ch_good :: "byte list \<Rightarrow> nat \<Rightarrow> chunk_ctl \<Rightarrow> bool" where
  "ch_good buf p c \<longleftrightarrow> (case c of Next s \<Rightarrow> ch_inv buf (Suc p) s | Exit j \<Rightarrow> ch_post buf p j)"

lemma ch_good_simps [simp]:
  "ch_good buf p (Next s) = ch_inv buf (Suc p) s" "ch_good buf p (Exit j) = ch_post buf p j"
  by (simp_all add: ch_good_def)

text \<open>The guard \<open>ctx->size > NGX_MAX_OFF_T_VALUE / 16\<close> leaves room for one more digit.\<close>

lemma chunk_size_room: "sz \<le> NGX_MAX_OFF_T_VALUE div 16 \<Longrightarrow> d \<le> 15 \<Longrightarrow> sz * 16 + d \<le> NGX_MAX_OFF_T_VALUE"
  by (simp add: NGX_MAX_OFF_T_VALUE_def)

lemma ch_good_size:
  assumes "ch_inv buf p (sw_chunk_size, sz)"
  shows "ch_good buf p (ch_sw_chunk_size k (buf ! p) sz)"
proof (cases "NGX_MAX_OFF_T_VALUE div 16 < sz")
  case False
  then have room: "sz * 16 + d \<le> NGX_MAX_OFF_T_VALUE" if "d \<le> 15" for d
    using chunk_size_room that by simp
  have "is_digit (buf ! p) \<Longrightarrow> digit_val (buf ! p) \<le> 15" using digit_val_le [of "buf ! p"] by linarith
  moreover have "is_hex_alpha (buf ! p) \<Longrightarrow> unat (hex_alpha_val (buf ! p)) + 10 \<le> 15"
    using hex_digit_bounds(2) [of "buf ! p"] by linarith
  ultimately show ?thesis
    using False assms room
    by (simp add: ch_sw_chunk_size_def set_size_def chunk_ok_def)
qed (use assms in \<open>simp add: ch_sw_chunk_size_def chunk_ok_def\<close>)

lemma ch_good_start: "ch_inv buf p (sw_chunk_start, sz) \<Longrightarrow> ch_good buf p (ch_sw_chunk_start (buf ! p) sz)"
proof -
  assume a: "ch_inv buf p (sw_chunk_start, sz)"
  have "is_digit (buf ! p) \<Longrightarrow> digit_val (buf ! p) \<le> NGX_MAX_OFF_T_VALUE"
    by (rule order_trans [OF digit_val_le]) (simp_all add: NGX_MAX_OFF_T_VALUE_def)
  moreover have "is_hex_alpha (buf ! p) \<Longrightarrow> unat (hex_alpha_val (buf ! p)) + 10 \<le> NGX_MAX_OFF_T_VALUE"
    using hex_digit_bounds(2) [of "buf ! p"] by (simp add: NGX_MAX_OFF_T_VALUE_def)
  ultimately show ?thesis
    using a by (simp add: ch_sw_chunk_start_def set_size_def chunk_ok_def)
qed

lemma ch_step_good: "ch_inv buf p (st, sz) \<Longrightarrow> ch_good buf p (ch_step k buf p (buf ! p) (st, sz))"
  using ch_good_size [of buf p sz k] ch_good_start [of buf p sz]
  by (cases st)
     (auto simp: ch_step.simps chunk_ok_def
        ch_sw_chunk_extension_def ch_sw_chunk_extension_almost_done_def ch_sw_after_data_def
        ch_sw_after_data_almost_done_def ch_sw_last_chunk_extension_def
        ch_sw_last_chunk_extension_almost_done_def ch_sw_trailer_def ch_sw_trailer_almost_done_def
        ch_sw_trailer_header_def ch_sw_trailer_header_almost_done_def)

interpretation ch: byte_scanner "ch_step k" for k
  by unfold_locales (auto simp: ch_step.simps)

interpretation ch_inv: scan_invariant "ch_step k" ch_inv ch_post for k
proof unfold_locales
  fix p buf s s'
  assume "ch_inv buf p s" "ch_step k buf p (buf ! p) s = Next s'"
  then show "ch_inv buf (Suc p) s'" using ch_step_good [of buf p "fst s" "snd s" k] by simp
next
  fix p buf s r
  assume "ch_inv buf p s" "ch_step k buf p (buf ! p) s = Exit r"
  then show "ch_post buf p r" using ch_step_good [of buf p "fst s" "snd s" k] by simp
qed

lemma chunk_length_fits: "sz \<le> NGX_MAX_OFF_T_VALUE - 5 \<Longrightarrow> chunk_length st sz \<le> NGX_MAX_OFF_T_VALUE"
  by (cases "(st, sz)" rule: chunk_length.cases) (simp_all add: NGX_MAX_OFF_T_VALUE_def)

definition ctx_ok :: "ngx_http_chunked \<Rightarrow> bool" where
  "ctx_ok ctx \<longleftrightarrow> chunk_ok (chunked_state ctx) (chunked_size ctx)"

lemma ch_inv_entry: "ctx_ok ctx \<Longrightarrow> ch_inv buf p (chunk_entry ctx, chunked_size ctx)"
  by (auto simp: ctx_ok_def chunk_entry_def chunk_ok_def)

lemma chunk_data_result:
  "sz \<le> NGX_MAX_OFF_T_VALUE \<Longrightarrow>
     \<exists>rc' ctx'. chunk_data rc p st sz ctx b = Some (rc', ctx', b\<lparr>pos := p\<rparr>) \<and>
       (rc' = rc \<and> sz \<le> NGX_MAX_OFF_T_VALUE - 5 \<and> chunked_length ctx' \<le> NGX_MAX_OFF_T_VALUE \<or> rc' = NGX_ERROR) \<and>
       chunked_state ctx' = st \<and> chunked_size ctx' = sz"
  using chunk_length_fits [of sz st] by (auto simp: chunk_data_def Let_def not_less)

text \<open>
  C7. Parsing a chunked body never overflows \<open>off_t\<close>, neither in the size of a chunk, however many
  digits the client sends, nor in the number of bytes still expected; and unless an error is
  reported the context is left in a state from which the next call is again safe. When a chunk is announced its size is positive and
  there is data to take; when the body is done, it ended with a line feed; in every case the buffer
  position stays inside the buffer.
\<close>

theorem parse_chunked_safe:
  assumes "ctx_ok ctx" "pos b \<le> length (data b)"
  shows "\<exists>rc ctx' b'. ngx_http_parse_chunked k ctx b = Some (rc, ctx', b') \<and>
     rc \<in> {NGX_OK, NGX_DONE, NGX_AGAIN, NGX_ERROR} \<and> (rc \<noteq> NGX_ERROR \<longrightarrow> ctx_ok ctx') \<and>
     data b' = data b \<and> pos b \<le> pos b' \<and> pos b' \<le> length (data b) \<and>
     (rc \<in> {NGX_OK, NGX_AGAIN} \<longrightarrow> chunked_length ctx' \<le> NGX_MAX_OFF_T_VALUE) \<and>
     (rc = NGX_OK \<longrightarrow> chunked_state ctx' = sw_chunk_data \<and> 0 < chunked_size ctx' \<and> pos b' < length (data b)) \<and>
     (rc = NGX_DONE \<longrightarrow> pos b < pos b' \<and> data b ! (pos b' - 1) = LF) \<and>
     (rc = NGX_AGAIN \<longrightarrow> pos b' = length (data b))"
proof -
  obtain p c where pc: "scan_buf (ch_step k) b (chunk_entry ctx, chunked_size ctx) = (p, c)" by force
  note inv = ch_inv.scan_buf_inv [OF assms(2) ch_inv_entry [OF assms(1)] pc]
  consider st sz where "c = Next (st, sz)" "chunk_ok st sz" | sz where "c = Exit (Data sw_chunk_data sz)" "0 < sz" "sz \<le> NGX_MAX_OFF_T_VALUE"
    | sz where "c = Exit (Done sz)" "data b ! p = LF" "sz \<le> NGX_MAX_OFF_T_VALUE" | sz where "c = Exit (Invalid sz)" "sz \<le> NGX_MAX_OFF_T_VALUE"
    using inv by (cases c) (auto, (metis chunk_jump.exhaust ch_post.simps)?)
  then show ?thesis
  proof cases
    case 1
    with chunk_data_result [of sz NGX_AGAIN p st ctx b] inv pc show ?thesis
      by (auto simp: ngx_http_parse_chunked_def ctx_ok_def chunk_ok_def)
  next
    case 2
    with chunk_data_result [of sz NGX_OK p sw_chunk_data ctx b] inv pc show ?thesis
      by (auto simp: ngx_http_parse_chunked_def ctx_ok_def chunk_ok_def)
  next
    case 3
    with inv pc show ?thesis by (auto simp: ngx_http_parse_chunked_def ctx_ok_def chunk_ok_def)
  next
    case 4
    with assms pc show ?thesis by (auto simp: ngx_http_parse_chunked_def ctx_ok_def chunk_ok_def)
  qed
qed


lemmas chunk_eval = ngx_http_parse_chunked_def scan_buf_def chunk_entry_def step_defs set_size_def
  is_digit_def digit_val_def is_hex_alpha_def hex_alpha_val_def NGX_MAX_OFF_T_VALUE_def chunk_data_def

theorem parse_chunked_safe_witness:
  "\<exists>ctx' b'. ngx_http_parse_chunked False \<lparr>chunked_state = sw_chunk_start, chunked_size = 0, chunked_length = 0\<rparr>
       \<lparr>pos = 0, data = bytes ''1f;x'' @ [CR, LF] @ bytes ''abc''\<rparr> = Some (NGX_OK, ctx', b') \<and>
     chunked_size ctx' = 31 \<and> ctx_ok ctx' \<and> pos b' < 9"
proof -
  let ?ctx = "\<lparr>chunked_state = sw_chunk_start, chunked_size = 0, chunked_length = 0\<rparr>"
  let ?b = "\<lparr>pos = 0, data = bytes ''1f;x'' @ [CR, LF] @ bytes ''abc''\<rparr>"
  have "case ngx_http_parse_chunked False ?ctx ?b of Some (rc, ctx', b') \<Rightarrow> rc = NGX_OK \<and> chunked_size ctx' = 31 | None \<Rightarrow> False"
    by (simp add: chunk_eval)
  then obtain ctx' b' where e: "ngx_http_parse_chunked False ?ctx ?b = Some (NGX_OK, ctx', b')" "chunked_size ctx' = 31"
    by (auto split: option.splits prod.splits)
  have "ctx_ok ?ctx" "pos ?b \<le> length (data ?b)" by (simp_all add: ctx_ok_def chunk_ok_def)
  from parse_chunked_safe [OF this, of False] e show ?thesis by auto
qed

section \<open>Feeding the parser in pieces\<close>

lemma chunk_entry_again:
  "ch_inv buf p (st, sz) \<Longrightarrow> chunk_entry \<lparr>chunked_state = st, chunked_size = sz, chunked_length = n\<rparr> = st"
  by (auto simp: chunk_entry_def)

definition chunk_same :: "chunk_result \<Rightarrow> chunk_result \<Rightarrow> bool" where
  "chunk_same x y \<longleftrightarrow>
     (case (x, y) of
        (Some (rc, ctx, b), Some (rc', ctx', b')) \<Rightarrow>
          rc = rc' \<and> (rc \<noteq> NGX_ERROR \<longrightarrow> b = b' \<and> chunked_state ctx = chunked_state ctx' \<and>
            chunked_size ctx = chunked_size ctx' \<and> (rc \<noteq> NGX_DONE \<longrightarrow> ctx = ctx'))
      | _ \<Rightarrow> x = y)"

text \<open>
  C25. Delivering a chunked body in pieces does not change how it is parsed: after \<open>NGX_AGAIN\<close>, a
  second call once more bytes have arrived gives the return code, the buffer position, the chunk size
  and the state of one call on the whole input.
\<close>

theorem parse_chunked_resume:
  assumes "ctx_ok ctx" "pos b \<le> length (data b)"
    and "ngx_http_parse_chunked k ctx b = Some (NGX_AGAIN, ctx', b')"
  shows "chunk_same (ngx_http_parse_chunked k ctx (b\<lparr>data := data b @ ys\<rparr>))
                    (ngx_http_parse_chunked k ctx' (b'\<lparr>data := data b @ ys\<rparr>))"
proof -
  obtain p c where pc: "scan_buf (ch_step k) b (chunk_entry ctx, chunked_size ctx) = (p, c)" by force
  note inv = ch_inv.scan_buf_inv [OF assms(2) ch_inv_entry [OF assms(1)] pc]
  from assms(3) pc obtain st sz where c: "c = Next (st, sz)" and d: "chunk_data NGX_AGAIN p st sz ctx b = Some (NGX_AGAIN, ctx', b')"
    by (auto simp: ngx_http_parse_chunked_def chunk_data_def Let_def split: ctl.splits chunk_jump.splits if_splits)
  then have ctx': "ctx' = ctx\<lparr>chunked_state := st, chunked_size := sz, chunked_length := chunk_length st sz\<rparr>"
    and b': "b' = b\<lparr>pos := p\<rparr>"
    by (auto simp: chunk_data_def Let_def split: if_splits)
  have e: "chunk_entry ctx' = st" "chunked_size ctx' = sz"
    using inv c by (auto simp: ctx' chunk_entry_def)
  have s: "scan_buf (ch_step k) (b\<lparr>data := data b @ ys\<rparr>) (chunk_entry ctx, chunked_size ctx) =
      scan_buf (ch_step k) (b'\<lparr>data := data b @ ys\<rparr>) (st, sz)"
    using ch.scan_buf_resume(2) [OF assms(2) pc [unfolded c], of ys] by (cases b) (simp add: b')
  show ?thesis
    unfolding ngx_http_parse_chunked_def s e
    by (auto simp: chunk_same_def chunk_data_def ctx' b' Let_def split: prod.split ctl.split chunk_jump.split)
qed

theorem parse_chunked_resume_witness:
  "\<exists>ctx' b'. ngx_http_parse_chunked False \<lparr>chunked_state = sw_chunk_start, chunked_size = 0, chunked_length = 0\<rparr>
       \<lparr>pos = 0, data = bytes ''1''\<rparr> = Some (NGX_AGAIN, ctx', b') \<and>
     chunk_same (ngx_http_parse_chunked False \<lparr>chunked_state = sw_chunk_start, chunked_size = 0, chunked_length = 0\<rparr>
                   \<lparr>pos = 0, data = bytes ''1'' @ bytes ''0'' @ [LF] @ bytes ''a''\<rparr>)
                (ngx_http_parse_chunked False ctx' (b'\<lparr>data := bytes ''1'' @ bytes ''0'' @ [LF] @ bytes ''a''\<rparr>))"
proof -
  let ?ctx = "\<lparr>chunked_state = sw_chunk_start, chunked_size = 0, chunked_length = 0\<rparr>"
  let ?b = "\<lparr>pos = 0, data = bytes ''1''\<rparr>"
  have "case ngx_http_parse_chunked False ?ctx ?b of Some (rc, ctx', b') \<Rightarrow> rc = NGX_AGAIN | None \<Rightarrow> False"
    by (simp add: chunk_eval)
  then obtain ctx' b' where e: "ngx_http_parse_chunked False ?ctx ?b = Some (NGX_AGAIN, ctx', b')"
    by (auto split: option.splits prod.splits)
  have "ctx_ok ?ctx" "pos ?b \<le> length (data ?b)" by (simp_all add: ctx_ok_def chunk_ok_def)
  from parse_chunked_resume [OF this e, of "bytes ''0'' @ [LF] @ bytes ''a''"] e show ?thesis by auto
qed

section \<open>The request body filter\<close>

text \<open>
  \<open>*b->last++ = *cl->buf->pos++\<close> repeated \<open>n\<close> times, and \<open>ngx_memmove\<close>, in the memory of one
  receive buffer; destination and source are offsets.
\<close>

fun copy_bytes :: "nat \<Rightarrow> nat \<Rightarrow> nat \<Rightarrow> byte list \<Rightarrow> byte list" where
  "copy_bytes 0 d s m = m"
| "copy_bytes (Suc n) d s m = copy_bytes n (Suc d) (Suc s) (m[d := m ! s])"

definition ngx_memmove :: "nat \<Rightarrow> nat \<Rightarrow> nat \<Rightarrow> byte list \<Rightarrow> byte list" where
  "ngx_memmove n d s m = map (\<lambda>i. if d \<le> i \<and> i < d + n then m ! (s + (i - d)) else m ! i) [0..<length m]"

lemma length_copy_bytes [simp]: "length (copy_bytes n d s m) = length m"
  by (induction n d s m rule: copy_bytes.induct) auto

lemma length_ngx_memmove [simp]: "length (ngx_memmove n d s m) = length m"
  by (simp add: ngx_memmove_def)

text \<open>Copying forward, byte by byte, to a lower address is the move.\<close>

lemma copy_bytes_memmove: "d \<le> s \<Longrightarrow> s + n \<le> length m \<Longrightarrow> copy_bytes n d s m = ngx_memmove n d s m"
proof (induction n d s m rule: copy_bytes.induct)
  case (1 d s m)
  show ?case by (intro nth_equalityI) (auto simp: ngx_memmove_def)
next
  case (2 n d s m)
  then have "copy_bytes (Suc n) d s m = ngx_memmove n (Suc d) (Suc s) (m[d := m ! s])" by simp
  also have "\<dots> = ngx_memmove (Suc n) d s m"
    using 2(2,3) by (intro nth_equalityI) (auto simp: ngx_memmove_def nth_list_update Suc_diff_Suc)
  finally show ?case .
qed

text \<open>How the inner loop over one receive buffer is left.\<close>

datatype chunk_loop =
    Loop_done ngx_http_chunked nat ngx_buf "(nat \<times> nat) list"
  | Loop_again ngx_http_chunked nat ngx_buf "(nat \<times> nat) list"
  | Loop_status nat
  | Loop_overflow

definition NGX_HTTP_BAD_REQUEST :: nat where "NGX_HTTP_BAD_REQUEST = 400"
definition NGX_HTTP_REQUEST_ENTITY_TOO_LARGE :: nat where "NGX_HTTP_REQUEST_ENTITY_TOO_LARGE = 413"
definition NGX_HTTP_INTERNAL_SERVER_ERROR :: nat where "NGX_HTTP_INTERNAL_SERVER_ERROR = 500"

lemma chunk_progress:
  assumes "ngx_http_parse_chunked k ctx b = Some (NGX_OK, ctx', b')"
  shows "data b' = data b" "pos b \<le> pos b'" "pos b' < length (data b)"
    "chunked_size ctx' = 0 \<Longrightarrow> pos b < pos b'"
proof -
  obtain p st sz where s: "scan_buf (ch_step k) b (chunk_entry ctx, chunked_size ctx) = (p, Exit (Data st sz))"
    and r: "b' = b\<lparr>pos := p\<rparr>" "chunked_size ctx' = sz"
    using assms
    by (auto simp: ngx_http_parse_chunked_def chunk_data_def Let_def split: prod.splits ctl.splits chunk_jump.splits if_splits)
  have p: "pos b \<le> p" "p < length (data b)" using scan_Exit_pos [OF s [unfolded scan_buf_def]] by auto
  then show "data b' = data b" "pos b \<le> pos b'" "pos b' < length (data b)" using r by auto
  assume 0: "chunked_size ctx' = 0"
  show "pos b < pos b'"
  proof (rule ccontr)
    assume "\<not> pos b < pos b'"
    with p r have "p = pos b" by simp
    then obtain ch cs where d: "drop (pos b) (data b) = ch # cs" using p by (cases "drop (pos b) (data b)") auto
    have "ch_step k (data b) p ch (chunk_entry ctx, chunked_size ctx) = Exit (Data st sz)"
    proof (cases "ch_step k (data b) p ch (chunk_entry ctx, chunked_size ctx)")
      case (Next s')
      then have "scan (ch_step k (data b)) (Suc p) cs s' = (p, Exit (Data st sz))"
        using s d \<open>p = pos b\<close> by (simp add: scan_buf_def)
      from scan_Exit_pos [OF this] show ?thesis by simp
    qed (use s d \<open>p = pos b\<close> in \<open>simp add: scan_buf_def\<close>)
    then have "chunk_entry ctx = sw_chunk_data \<and> sz = chunked_size ctx"
      by (cases "chunk_entry ctx") (auto simp: step_defs set_size_def split: if_splits)
    with 0 r show False by (auto simp: chunk_entry_def split: if_splits)
  qed
qed

lemma chunk_measure:
  assumes "ngx_http_parse_chunked k ctx b = Some (NGX_OK, ctx', b')"
  shows "length (data b') - (pos b' + chunked_size ctx') < length (data b) - pos b" "pos b < length (data b)"
  using chunk_progress [OF assms] by (cases "chunked_size ctx' = 0"; auto)+

text \<open>
  The loop \<open>for ( ;; )\<close> over one buffer of the chain. \<open>n\<close> is \<open>r->headers_in.content_length_n\<close>, \<open>outs\<close>
  are the buffers of the \<open>out\<close> chain as pairs of offsets \<open>b->pos\<close>, \<open>b->last\<close>, and \<open>cur\<close> says whether
  \<open>b\<close> is set, in which case it is the last of them. \<open>alloc i\<close> says whether taking the \<open>i\<close>-th buffer
  from the free list succeeds.
\<close>

function chunk_filter_loop ::
    "nat \<Rightarrow> (nat \<Rightarrow> bool) \<Rightarrow> ngx_http_chunked \<Rightarrow> nat \<Rightarrow> ngx_buf \<Rightarrow> bool \<Rightarrow> (nat \<times> nat) list \<Rightarrow> chunk_loop" where
  "chunk_filter_loop client_max_body_size alloc ctx0 n b0 cur outs =
     (case ngx_http_parse_chunked False ctx0 b0 of
        None \<Rightarrow> Loop_overflow
      | Some (rc, ctx, b) \<Rightarrow>
          if rc = NGX_OK then
            let sz = chunked_size ctx; avail = length (data b) - pos b in
            if client_max_body_size \<noteq> 0 \<and> int client_max_body_size - int n < int sz
            then Loop_status NGX_HTTP_REQUEST_ENTITY_TOO_LARGE
            else if cur \<and> sz \<le> 128 \<and> sz \<le> avail then
              let (first, last') = last outs;
                  mem = (if sz < 8 then copy_bytes sz last' (pos b) (data b)
                         else ngx_memmove sz last' (pos b) (data b))
              in chunk_filter_loop client_max_body_size alloc (ctx\<lparr>chunked_size := 0\<rparr>) (n + sz)
                   \<lparr>pos = pos b + sz, data = mem\<rparr> True (butlast outs @ [(first, last' + sz)])
            else if \<not> alloc (length outs) then Loop_status NGX_HTTP_INTERNAL_SERVER_ERROR
            else if sz < avail then
              chunk_filter_loop client_max_body_size alloc (ctx\<lparr>chunked_size := 0\<rparr>) (n + sz)
                (b\<lparr>pos := pos b + sz\<rparr>) True (outs @ [(pos b, pos b + sz)])
            else
              chunk_filter_loop client_max_body_size alloc (ctx\<lparr>chunked_size := sz - avail\<rparr>) (n + avail)
                (b\<lparr>pos := length (data b)\<rparr>) True (outs @ [(pos b, length (data b))])
          else if rc = NGX_DONE then
            (if alloc (length outs) then Loop_done ctx n b outs
             else Loop_status NGX_HTTP_INTERNAL_SERVER_ERROR)
          else if rc = NGX_AGAIN then Loop_again ctx n b outs
          else Loop_status NGX_HTTP_BAD_REQUEST)"
  by pat_completeness auto
termination
  by (relation "measure (\<lambda>(m, a, ctx, n, b, cur, outs). length (data b) - pos b)")
     (auto simp: chunk_measure)

declare chunk_filter_loop.simps [simp del]

text \<open>The fields of the request body that the filter uses; \<open>rest\<close> is -1 before the first call.\<close>

record ngx_http_request_body =
  chunked :: ngx_http_chunked
  content_length_n :: nat
  rest :: int

text \<open>
  What is handed to the next filter: for every buffer of the input chain its memory, the pieces of it
  that are body, and whether the body ended there.
\<close>

datatype filter_result =
    Filter_pass ngx_http_request_body "(byte list \<times> (nat \<times> nat) list \<times> bool) list"
  | Filter_status nat
  | Filter_overflow

text \<open>The loop over the input chain; \<open>alloc k i\<close> is the \<open>i\<close>-th allocation for its \<open>k\<close>-th buffer.\<close>

fun chunk_filter_chain ::
    "nat \<Rightarrow> nat \<Rightarrow> (nat \<Rightarrow> nat \<Rightarrow> bool) \<Rightarrow> ngx_http_request_body \<Rightarrow> ngx_buf list \<Rightarrow>
     (byte list \<times> (nat \<times> nat) list \<times> bool) list \<Rightarrow> filter_result" where
  "chunk_filter_chain client_max_body_size large alloc rb [] out = Filter_pass rb out"
| "chunk_filter_chain client_max_body_size large alloc rb (b # bs) out =
     (case chunk_filter_loop client_max_body_size (alloc (length out)) (chunked rb) (content_length_n rb) b False [] of
        Loop_done ctx n b' outs \<Rightarrow>
          chunk_filter_chain client_max_body_size large alloc
            \<lparr>chunked = ctx, content_length_n = n, rest = 0\<rparr> bs (out @ [(data b', outs, True)])
      | Loop_again ctx n b' outs \<Rightarrow>
          chunk_filter_chain client_max_body_size large alloc
            \<lparr>chunked = ctx, content_length_n = n, rest = max (int (chunked_length ctx)) (int large)\<rparr>
            bs (out @ [(data b', outs, False)])
      | Loop_status status \<Rightarrow> Filter_status status
      | Loop_overflow \<Rightarrow> Filter_overflow)"

definition init_chunked :: ngx_http_chunked where
  "init_chunked = \<lparr>chunked_state = sw_chunk_start, chunked_size = 0, chunked_length = 0\<rparr>"

text \<open>\<open>large\<close> is \<open>cscf->large_client_header_buffers.size\<close>.\<close>

definition ngx_http_request_body_chunked_filter ::
    "nat \<Rightarrow> nat \<Rightarrow> bool \<Rightarrow> (nat \<Rightarrow> nat \<Rightarrow> bool) \<Rightarrow> ngx_http_request_body \<Rightarrow> ngx_buf list \<Rightarrow> filter_result" where
  "ngx_http_request_body_chunked_filter client_max_body_size large pcalloc_ok alloc rb ins =
     (if rest rb = -1 then
        if \<not> pcalloc_ok then Filter_status NGX_HTTP_INTERNAL_SERVER_ERROR
        else chunk_filter_chain client_max_body_size large alloc
               \<lparr>chunked = init_chunked, content_length_n = 0, rest = int large\<rparr> ins []
      else chunk_filter_chain client_max_body_size large alloc rb ins [])"

section \<open>Moving chunks in place\<close>

text \<open>
  The specification of the loop: a decoder that never writes to the receive buffer and collects the
  bytes of the chunks.
\<close>

datatype decoded =
    Decoded_done ngx_http_chunked nat nat "byte list"
  | Decoded_again ngx_http_chunked nat nat "byte list"
  | Decoded_status nat
  | Decoded_overflow

function decode_chunks :: "nat \<Rightarrow> byte list \<Rightarrow> ngx_http_chunked \<Rightarrow> nat \<Rightarrow> nat \<Rightarrow> byte list \<Rightarrow> decoded" where
  "decode_chunks max_size mem ctx0 n p acc =
     (case ngx_http_parse_chunked False ctx0 \<lparr>pos = p, data = mem\<rparr> of
        None \<Rightarrow> Decoded_overflow
      | Some (rc, ctx, b) \<Rightarrow>
          if rc = NGX_OK then
            let k = min (chunked_size ctx) (length mem - pos b) in
            if max_size \<noteq> 0 \<and> int max_size - int n < int (chunked_size ctx)
            then Decoded_status NGX_HTTP_REQUEST_ENTITY_TOO_LARGE
            else decode_chunks max_size mem (ctx\<lparr>chunked_size := chunked_size ctx - k\<rparr>) (n + k) (pos b + k)
                   (acc @ slice mem (pos b) (pos b + k))
          else if rc = NGX_DONE then Decoded_done ctx n (pos b) acc
          else if rc = NGX_AGAIN then Decoded_again ctx n (pos b) acc
          else Decoded_status NGX_HTTP_BAD_REQUEST)"
  by pat_completeness auto
termination
proof (relation "measure (\<lambda>(m, mem, ctx, n, p, acc). length mem - p)", goal_cases)
  case 1
  show ?case by simp
next
  case (2 m mem ctx0 n p acc x rc y ctx b k)
  then have parse: "ngx_http_parse_chunked False ctx0 \<lparr>pos = p, data = mem\<rparr> = Some (NGX_OK, ctx, b)" by simp
  note pr = chunk_progress [OF parse]
  have "p < pos b + k" using pr 2 by (cases "chunked_size ctx = 0") (auto simp: min_def)
  then show ?case using pr by auto
qed

declare decode_chunks.simps [simp del]

definition payload :: "byte list \<Rightarrow> (nat \<times> nat) list \<Rightarrow> byte list" where
  "payload mem outs = concat (map (\<lambda>(i, j). slice mem i j) outs)"

fun loop_abs :: "chunk_loop \<Rightarrow> decoded" where
  "loop_abs (Loop_done ctx n b outs) = Decoded_done ctx n (pos b) (payload (data b) outs)"
| "loop_abs (Loop_again ctx n b outs) = Decoded_again ctx n (pos b) (payload (data b) outs)"
| "loop_abs (Loop_status s) = Decoded_status s"
| "loop_abs Loop_overflow = Decoded_overflow"

text \<open>The pieces are disjoint, in order, and end before offset \<open>p\<close>.\<close>

fun outs_ok :: "nat \<Rightarrow> (nat \<times> nat) list \<Rightarrow> nat \<Rightarrow> bool" where
  "outs_ok lo [] p \<longleftrightarrow> lo \<le> p"
| "outs_ok lo ((i, j) # xs) p \<longleftrightarrow> lo \<le> i \<and> i \<le> j \<and> outs_ok j xs p"

lemma outs_ok_le: "outs_ok lo xs p \<Longrightarrow> lo \<le> p"
  by (induction lo xs p rule: outs_ok.induct) auto

lemma outs_ok_mono: "outs_ok lo xs p \<Longrightarrow> p \<le> q \<Longrightarrow> outs_ok lo xs q"
  by (induction lo xs p rule: outs_ok.induct) auto

lemma outs_ok_snoc: "outs_ok lo (xs @ [(i, j)]) p \<longleftrightarrow> outs_ok lo xs i \<and> i \<le> j \<and> j \<le> p"
  by (induction lo xs p rule: outs_ok.induct) auto

lemma slice_take: "j \<le> l \<Longrightarrow> slice (take l m) i j = slice m i j"
  by (simp add: slice_def drop_take min_def)

lemma slice_append: "i \<le> j \<Longrightarrow> j \<le> k \<Longrightarrow> slice m i j @ slice m j k = slice m i k"
  using take_add [of "j - i" "k - j" "drop i m"] by (simp add: slice_def)

lemma payload_take: "outs_ok lo xs p \<Longrightarrow> p \<le> l \<Longrightarrow> take l m' = take l m \<Longrightarrow> payload m' xs = payload m xs"
proof (induction lo xs p rule: outs_ok.induct)
  case (2 lo i j xs p)
  then have "j \<le> l" using outs_ok_le [of j xs p] by auto
  then have "slice m' i j = slice m i j" using 2(4) slice_take by metis
  with 2 show ?case by (simp add: payload_def)
qed (simp add: payload_def)

lemma payload_snoc: "payload m (xs @ [(i, j)]) = payload m xs @ slice m i j"
  by (simp add: payload_def)

lemma memmove_parts:
  assumes "d \<le> s" "s + n \<le> length m"
  shows "take d (ngx_memmove n d s m) = take d m" "drop (s + n) (ngx_memmove n d s m) = drop (s + n) m"
    "slice (ngx_memmove n d s m) d (d + n) = slice m s (s + n)"
  using assms by (auto simp: ngx_memmove_def slice_def intro!: nth_equalityI)


lemma ch_step_buf: "ch_step k buf p ch s = ch_step k buf' p ch s"
  by (cases s) (simp add: ch_step.simps)

text \<open>The parser sees only the bytes from \<open>b->pos\<close> on.\<close>

lemma parse_chunked_mem:
  assumes "drop (pos b) (data b) = drop (pos b) mem"
  shows "ngx_http_parse_chunked k ctx \<lparr>pos = pos b, data = mem\<rparr> =
     map_option (map_prod id (map_prod id (data_update (\<lambda>_. mem)))) (ngx_http_parse_chunked k ctx b)"
proof -
  have "scan_buf (ch_step k) \<lparr>pos = pos b, data = mem\<rparr> s = scan_buf (ch_step k) b s" for s
    using assms scan_cong [of "drop (pos b) mem" "ch_step k mem" "pos b" "ch_step k (data b)" s] ch_step_buf
    by (simp add: scan_buf_def)
  then show ?thesis
    by (cases b) (auto simp: ngx_http_parse_chunked_def chunk_data_def Let_def split: prod.split ctl.split chunk_jump.split)
qed

lemma chunk_move:
  assumes "outs_ok 0 outs p" "outs \<noteq> []" "p \<le> q" "last outs = (i, l)" "q + sz \<le> length m"
    and "m' = (if sz < 8 then copy_bytes sz l q m else ngx_memmove sz l q m)"
  shows "outs_ok 0 (butlast outs @ [(i, l + sz)]) (q + sz)" "drop (q + sz) m' = drop (q + sz) m"
    "payload m' (butlast outs @ [(i, l + sz)]) = payload m outs @ slice m q (q + sz)"
proof -
  have o: "outs = butlast outs @ [(i, l)]" using assms(2,4) by (metis append_butlast_last_id)
  have ok: "outs_ok 0 (butlast outs) i" "i \<le> l" "l \<le> p"
    using assms(1) o outs_ok_snoc by metis+
  then show "outs_ok 0 (butlast outs @ [(i, l + sz)]) (q + sz)" using assms(3) by (simp add: outs_ok_snoc)
  have m': "m' = ngx_memmove sz l q m" using copy_bytes_memmove [of l q sz m] ok assms(3,5,6) by simp
  have "l \<le> q" using ok(3) assms(3) by simp
  note parts = memmove_parts [OF this assms(5), folded m']
  show "drop (q + sz) m' = drop (q + sz) m" by (rule parts(2))
  have "payload m' (butlast outs) = payload m (butlast outs)" using payload_take [OF ok(1,2) parts(1)] .
  moreover have "slice m' i l = slice m i l" using slice_take [of l l] parts(1) by (metis order_refl)
  ultimately have "payload m' outs = payload m outs" using o payload_snoc by metis
  moreover have "payload m' (butlast outs @ [(i, l + sz)]) = payload m' outs @ slice m' l (l + sz)"
    using o slice_append [of i l "l + sz" m'] ok(2) by (metis append_assoc le_add1 payload_snoc)
  ultimately show "payload m' (butlast outs @ [(i, l + sz)]) = payload m outs @ slice m q (q + sz)"
    using parts(3) by simp
qed

lemma slice_drop_eq: "drop p m = drop p m' \<Longrightarrow> p \<le> i \<Longrightarrow> slice m i j = slice m' i j"
  unfolding slice_def by (metis le_add_diff_inverse2 drop_drop)

lemma drop_mono_eq: "drop p m = drop p m' \<Longrightarrow> p \<le> q \<Longrightarrow> drop q m = drop q m'"
  by (metis le_add_diff_inverse2 drop_drop)

lemma chunk_loop_move:
  assumes "ngx_http_parse_chunked False ctx0 b0 = Some (NGX_OK, ctx, b)" "sz = chunked_size ctx"
    and "\<not> (max_size \<noteq> 0 \<and> int max_size - int n < int sz)"
    and "cur" "sz \<le> 128" "sz \<le> length (data b) - pos b" "last outs = (i, l)"
    and "m' = (if sz < 8 then copy_bytes sz l (pos b) (data b) else ngx_memmove sz l (pos b) (data b))"
  shows "chunk_filter_loop max_size alloc ctx0 n b0 cur outs =
    chunk_filter_loop max_size alloc (ctx\<lparr>chunked_size := 0\<rparr>) (n + sz) \<lparr>pos = pos b + sz, data = m'\<rparr> True
      (butlast outs @ [(i, l + sz)])"
  using assms by (subst chunk_filter_loop.simps) (auto simp: Let_def)

lemma chunk_loop_piece:
  assumes "ngx_http_parse_chunked False ctx0 b0 = Some (NGX_OK, ctx, b)" "sz = chunked_size ctx"
    and "\<not> (max_size \<noteq> 0 \<and> int max_size - int n < int sz)"
    and "\<not> (cur \<and> sz \<le> 128 \<and> sz \<le> length (data b) - pos b)" "k = min sz (length (data b) - pos b)"
    and "alloc (length outs)"
  shows "chunk_filter_loop max_size alloc ctx0 n b0 cur outs =
    chunk_filter_loop max_size alloc (ctx\<lparr>chunked_size := sz - k\<rparr>) (n + k) (b\<lparr>pos := pos b + k\<rparr>) True
      (outs @ [(pos b, pos b + k)])"
  using assms chunk_progress [OF assms(1)]
  by (subst chunk_filter_loop.simps) (auto simp: Let_def min_def)

text \<open>
  The invariant of the loop: the memory still to be parsed is as received, and the pieces lie before
  it.
\<close>

definition loop_inv :: "byte list \<Rightarrow> ngx_buf \<Rightarrow> bool \<Rightarrow> (nat \<times> nat) list \<Rightarrow> bool" where
  "loop_inv mem b cur outs \<longleftrightarrow> drop (pos b) (data b) = drop (pos b) mem \<and> length (data b) = length mem \<and>
     outs_ok 0 outs (pos b) \<and> (cur \<longrightarrow> outs \<noteq> [])"

text \<open>One chunk, or as much of it as there is, either way.\<close>

lemma chunk_loop_step:
  assumes "ngx_http_parse_chunked False ctx0 b0 = Some (NGX_OK, ctx, b)" "sz = chunked_size ctx"
    and "\<not> (max_size \<noteq> 0 \<and> int max_size - int n < int sz)"
    and "loop_inv mem b0 cur outs" "k = min sz (length mem - pos b)"
  shows "\<exists>b' outs'. chunk_filter_loop max_size (\<lambda>_. True) ctx0 n b0 cur outs =
      chunk_filter_loop max_size (\<lambda>_. True) (ctx\<lparr>chunked_size := sz - k\<rparr>) (n + k) b' True outs' \<and>
    loop_inv mem b' True outs' \<and> pos b' = pos b + k \<and>
    payload (data b') outs' = payload (data b0) outs @ slice mem (pos b) (pos b + k)"
proof -
  note pr = chunk_progress [OF assms(1)]
  have inv: "drop (pos b0) (data b0) = drop (pos b0) mem" "length (data b0) = length mem"
    "outs_ok 0 outs (pos b0)" "cur \<Longrightarrow> outs \<noteq> []" using assms(4) by (auto simp: loop_inv_def)
  note d = drop_mono_eq [OF inv(1) pr(2), folded pr(1)]
  note sl = slice_drop_eq [OF d order_refl]
  have dk: "drop (pos b + k) (data b) = drop (pos b + k) mem" using drop_mono_eq [OF d] by simp
  show ?thesis
  proof (cases "cur \<and> sz \<le> 128 \<and> sz \<le> length (data b) - pos b")
    case True
    then have k: "k = sz" "outs \<noteq> []" "pos b + sz \<le> length (data b)"
      using inv(2,4) pr assms(5) by (auto simp: min_def)
    obtain i l where il: "last outs = (i, l)" by force
    define m' where "m' = (if sz < 8 then copy_bytes sz l (pos b) (data b) else ngx_memmove sz l (pos b) (data b))"
    note mv = chunk_move [OF inv(3) k(2) pr(2) il k(3) m'_def]
    have "length m' = length mem" using inv(2) pr(1) by (simp add: m'_def)
    then show ?thesis
      using chunk_loop_move [OF assms(1-3) _ _ _ il m'_def, where alloc = "\<lambda>_. True"] True mv k dk sl pr(1)
      by (intro exI [of _ "\<lparr>pos = pos b + sz, data = m'\<rparr>"] exI [of _ "butlast outs @ [(i, l + sz)]"])
         (auto simp: loop_inv_def)
  next
    case False
    then show ?thesis
      using chunk_loop_piece [OF assms(1-3) False, where k = k and alloc = "\<lambda>_. True"] inv(2) pr(1) dk sl outs_ok_mono [OF inv(3) pr(2)] assms(5)
      by (intro exI [of _ "b\<lparr>pos := pos b + k\<rparr>"] exI [of _ "outs @ [(pos b, pos b + k)]"])
         (simp add: loop_inv_def payload_snoc outs_ok_snoc)
  qed
qed

lemma parse_chunked_data:
  "ngx_http_parse_chunked k ctx b = Some (rc, ctx', b') \<Longrightarrow> data b' = data b"
  by (auto simp: ngx_http_parse_chunked_def chunk_data_def Let_def
      split: prod.splits ctl.splits chunk_jump.splits if_splits)

lemma decode_chunks_step:
  assumes "ngx_http_parse_chunked False ctx0 \<lparr>pos = p, data = mem\<rparr> = Some (NGX_OK, ctx, b)" "sz = chunked_size ctx"
    and "\<not> (max_size \<noteq> 0 \<and> int max_size - int n < int sz)" "k = min sz (length mem - pos b)"
  shows "decode_chunks max_size mem ctx0 n p acc =
    decode_chunks max_size mem (ctx\<lparr>chunked_size := sz - k\<rparr>) (n + k) (pos b + k)
      (acc @ slice mem (pos b) (pos b + k))"
  using assms by (subst decode_chunks.simps) (auto simp: Let_def)

lemma chunk_loop_refines:
  assumes "loop_inv mem b cur outs"
  shows "loop_abs (chunk_filter_loop max_size (\<lambda>_. True) ctx n b cur outs) =
         decode_chunks max_size mem ctx n (pos b) (payload (data b) outs)"
  using assms
proof (induction "length mem - pos b" arbitrary: ctx n b cur outs rule: less_induct)
  case (less b0 ctx0 n cur outs)
  have inv: "drop (pos b0) (data b0) = drop (pos b0) mem" "length (data b0) = length mem"
    using less(2) by (auto simp: loop_inv_def)
  note mem = parse_chunked_mem [OF inv(1), of False ctx0]
  show ?case
  proof (cases "ngx_http_parse_chunked False ctx0 b0")
    case None
    with mem show ?thesis by (subst chunk_filter_loop.simps, subst decode_chunks.simps) simp
  next
    case (Some x)
    obtain rc ctx b where x: "x = (rc, ctx, b)" by (metis prod_cases3)
    note parse = Some [unfolded x]
    let ?sz = "chunked_size ctx"
    let ?k = "min ?sz (length mem - pos b)"
    show ?thesis
    proof (cases "rc = NGX_OK \<and> \<not> (max_size \<noteq> 0 \<and> int max_size - int n < int ?sz)")
      case False
      with mem parse parse_chunked_data [OF parse] show ?thesis
        by (subst chunk_filter_loop.simps, subst decode_chunks.simps) (auto simp: Let_def)
    next
      case True
      then have ok: "ngx_http_parse_chunked False ctx0 b0 = Some (NGX_OK, ctx, b)"
        and ok': "ngx_http_parse_chunked False ctx0 \<lparr>pos = pos b0, data = mem\<rparr> = Some (NGX_OK, ctx, b\<lparr>data := mem\<rparr>)"
        and small: "\<not> (max_size \<noteq> 0 \<and> int max_size - int n < int ?sz)"
        using parse mem by auto
      obtain b' outs' where b': "chunk_filter_loop max_size (\<lambda>_. True) ctx0 n b0 cur outs =
          chunk_filter_loop max_size (\<lambda>_. True) (ctx\<lparr>chunked_size := ?sz - ?k\<rparr>) (n + ?k) b' True outs'"
        "loop_inv mem b' True outs'" "pos b' = pos b + ?k"
        "payload (data b') outs' = payload (data b0) outs @ slice mem (pos b) (pos b + ?k)"
        using chunk_loop_step [OF ok refl small less(2) refl] by blast
      have "length mem - pos b' < length mem - pos b0"
        using chunk_progress [OF ok] inv(2) b'(3) by (cases "?sz = 0") (auto simp: min_def)
      from less(1) [OF this b'(2)] show ?thesis
        using decode_chunks_step [OF ok' refl small, of ?k] b' by simp
    qed
  qed
qed

text \<open>
  C26. Moving small chunks together inside the receive buffer, byte by byte or with \<open>memmove\<close>, does not
  corrupt anything: for every content of the buffer and every state of the parser, when no allocation
  fails, the pieces handed on contain exactly the bytes that a decoder collects which never writes to
  the buffer; and status, parser context, body length and consumed bytes are the same.
\<close>

theorem chunked_filter_in_place:
  "loop_abs (chunk_filter_loop client_max_body_size (\<lambda>_. True) ctx n b False []) =
     decode_chunks client_max_body_size (data b) ctx n (pos b) []"
  using chunk_loop_refines [of "data b" b False "[]" client_max_body_size ctx n]
  by (simp add: payload_def loop_inv_def)

section \<open>Limits\<close>

lemma chunk_loop_no_piece:
  assumes "ngx_http_parse_chunked False ctx0 b0 = Some (NGX_OK, ctx, b)" "sz = chunked_size ctx"
    and "\<not> (max_size \<noteq> 0 \<and> int max_size - int n < int sz)"
    and "\<not> (cur \<and> sz \<le> 128 \<and> sz \<le> length (data b) - pos b)" "\<not> alloc (length outs)"
  shows "chunk_filter_loop max_size alloc ctx0 n b0 cur outs = Loop_status NGX_HTTP_INTERNAL_SERVER_ERROR"
  using assms by (subst chunk_filter_loop.simps) (auto simp: Let_def)

text \<open>An allocation that fails ends the request; otherwise allocation plays no part.\<close>

lemma chunk_loop_alloc:
  "chunk_filter_loop max_size alloc ctx n b cur outs = Loop_status NGX_HTTP_INTERNAL_SERVER_ERROR \<or>
   chunk_filter_loop max_size alloc ctx n b cur outs = chunk_filter_loop max_size (\<lambda>_. True) ctx n b cur outs"
proof (induction "length (data b) - pos b" arbitrary: ctx n b cur outs rule: less_induct)
  case (less b0 ctx0 n cur outs)
  note eqs = chunk_filter_loop.simps [of max_size alloc ctx0 n b0 cur outs]
    chunk_filter_loop.simps [of max_size "\<lambda>_. True" ctx0 n b0 cur outs]
  show ?case
  proof (cases "ngx_http_parse_chunked False ctx0 b0")
    case (Some x)
    obtain rc ctx b where x: "x = (rc, ctx, b)" by (metis prod_cases3)
    let ?sz = "chunked_size ctx"
    let ?k = "min ?sz (length (data b) - pos b)"
    show ?thesis
    proof (cases "rc = NGX_OK \<and> \<not> (max_size \<noteq> 0 \<and> int max_size - int n < int ?sz)")
      case True
      then have ok: "ngx_http_parse_chunked False ctx0 b0 = Some (NGX_OK, ctx, b)"
        and small: "\<not> (max_size \<noteq> 0 \<and> int max_size - int n < int ?sz)" using Some x by auto
      note pr = chunk_measure [OF ok] chunk_progress [OF ok]
      obtain i l where il: "last outs = (i, l)" by force
      define m' where "m' = (if ?sz < 8 then copy_bytes ?sz l (pos b) (data b) else ngx_memmove ?sz l (pos b) (data b))"
      show ?thesis
      proof (cases "cur \<and> ?sz \<le> 128 \<and> ?sz \<le> length (data b) - pos b")
        case True
        have "length m' = length (data b)" by (simp add: m'_def)
        then show ?thesis
          unfolding chunk_loop_move [OF ok refl small conjunct1 [OF True] conjunct1 [OF conjunct2 [OF True]]
            conjunct2 [OF conjunct2 [OF True]] il m'_def]
          using pr by (intro less) simp
      next
        case False
        have "length (data b) - (pos b + ?k) < length (data b0) - pos b0" using pr by (simp add: min_def)
        with less [of "b\<lparr>pos := pos b + ?k\<rparr>" "ctx\<lparr>chunked_size := ?sz - ?k\<rparr>" "n + ?k" True "outs @ [(pos b, pos b + ?k)]"]
        show ?thesis
          using chunk_loop_piece [OF ok refl small False refl, where outs = outs and alloc = alloc]
            chunk_loop_piece [OF ok refl small False refl, where outs = outs and alloc = "\<lambda>_. True"]
            chunk_loop_no_piece [OF ok refl small False, of alloc outs]
          by (cases "alloc (length outs)") auto
      qed
    qed (use Some x in \<open>auto simp: eqs Let_def\<close>)
  qed (simp add: eqs)
qed


text \<open>The bytes that are counted are the bytes that are collected, and the limit is respected.\<close>

fun decoded_within :: "nat \<Rightarrow> nat \<Rightarrow> decoded \<Rightarrow> bool" where
  "decoded_within max_size n0 (Decoded_done ctx n p acc) \<longleftrightarrow> n = n0 + length acc \<and> (max_size \<noteq> 0 \<longrightarrow> n \<le> max_size)"
| "decoded_within max_size n0 (Decoded_again ctx n p acc) \<longleftrightarrow> n = n0 + length acc \<and> (max_size \<noteq> 0 \<longrightarrow> n \<le> max_size)"
| "decoded_within max_size n0 _ \<longleftrightarrow> True"

lemma decode_chunks_within:
  assumes "n = n0 + length acc" "max_size \<noteq> 0 \<longrightarrow> n \<le> max_size"
  shows "decoded_within max_size n0 (decode_chunks max_size mem ctx n p acc)"
  using assms
proof (induction "length mem - p" arbitrary: ctx n p acc rule: less_induct)
  case (less p ctx0 n acc)
  show ?case
  proof (cases "ngx_http_parse_chunked False ctx0 \<lparr>pos = p, data = mem\<rparr>")
    case None
    then show ?thesis by (subst decode_chunks.simps) simp
  next
    case (Some x)
    obtain rc ctx b where x: "x = (rc, ctx, b)" by (metis prod_cases3)
    let ?sz = "chunked_size ctx"
    let ?k = "min ?sz (length mem - pos b)"
    show ?thesis
    proof (cases "rc = NGX_OK \<and> \<not> (max_size \<noteq> 0 \<and> int max_size - int n < int ?sz)")
      case False
      with Some x less.prems show ?thesis by (subst decode_chunks.simps) (auto simp: Let_def)
    next
      case True
      then have ok: "ngx_http_parse_chunked False ctx0 \<lparr>pos = p, data = mem\<rparr> = Some (NGX_OK, ctx, b)"
        and small: "\<not> (max_size \<noteq> 0 \<and> int max_size - int n < int ?sz)" using Some x by auto
      have "length mem - (pos b + ?k) < length mem - p" and k: "pos b + ?k \<le> length mem"
        using chunk_progress [OF ok] by (cases "?sz = 0"; auto simp: min_def)+
      then have "decoded_within max_size n0 (decode_chunks max_size mem (ctx\<lparr>chunked_size := ?sz - ?k\<rparr>) (n + ?k)
          (pos b + ?k) (acc @ slice mem (pos b) (pos b + ?k)))"
        using small less.prems by (intro less.hyps) auto
      then show ?thesis using decode_chunks_step [OF ok refl small refl] by simp
    qed
  qed
qed

lemma chunk_loop_within:
  assumes "max_size \<noteq> 0 \<longrightarrow> n \<le> max_size"
    and "chunk_filter_loop max_size alloc ctx n b False [] = Loop_done ctx' n' b' outs \<or>
         chunk_filter_loop max_size alloc ctx n b False [] = Loop_again ctx' n' b' outs"
  shows "n' = n + length (payload (data b') outs) \<and> (max_size \<noteq> 0 \<longrightarrow> n' \<le> max_size)"
proof -
  have eq: "loop_abs (chunk_filter_loop max_size alloc ctx n b False []) = decode_chunks max_size (data b) ctx n (pos b) []"
    using chunk_loop_alloc [of max_size alloc ctx n b False "[]"] assms(2)
      chunk_loop_refines [of "data b" b False "[]" max_size ctx n]
    by (auto simp: loop_inv_def payload_def)
  have "decoded_within max_size n (loop_abs (chunk_filter_loop max_size alloc ctx n b False []))"
    unfolding eq by (rule decode_chunks_within) (use assms(1) in simp_all)
  with assms(2) show ?thesis by auto
qed

definition out_payload :: "(byte list \<times> (nat \<times> nat) list \<times> bool) list \<Rightarrow> byte list" where
  "out_payload out = concat (map (\<lambda>(mem, outs, fin). payload mem outs) out)"

lemma chunk_chain_within:
  assumes "max_size \<noteq> 0 \<longrightarrow> content_length_n rb \<le> max_size"
    and "chunk_filter_chain max_size large alloc rb ins out = Filter_pass rb' out'"
  shows "content_length_n rb' + length (out_payload out) = content_length_n rb + length (out_payload out') \<and>
         (max_size \<noteq> 0 \<longrightarrow> content_length_n rb' \<le> max_size)"
  using assms
proof (induction max_size large alloc rb ins out rule: chunk_filter_chain.induct)
  case (2 max_size large alloc rb b bs out)
  show ?case
  proof (cases "chunk_filter_loop max_size (alloc (length out)) (chunked rb) (content_length_n rb) b False []")
    case (Loop_done ctx n b' outs)
    note w = chunk_loop_within [OF "2.prems"(1) disjI1 [OF Loop_done]]
    from Loop_done "2.prems"(2) show ?thesis
      using "2.IH"(1) [OF Loop_done] w by (auto simp: out_payload_def)
  next
    case (Loop_again ctx n b' outs)
    note w = chunk_loop_within [OF "2.prems"(1) disjI2 [OF Loop_again]]
    from Loop_again "2.prems"(2) show ?thesis
      using "2.IH"(2) [OF Loop_again] w by (auto simp: out_payload_def)
  qed (use "2.prems" in auto)
qed auto

text \<open>
  C27. The limit \<open>client_max_body_size\<close> holds for chunked bodies as well, across any number of calls
  and buffers: while it is set, the length of the body that has been passed on never exceeds it, and
  that length is the number of body bytes in the pieces handed to the next filter.
\<close>

theorem chunked_filter_limit:
  assumes "ngx_http_request_body_chunked_filter client_max_body_size large pcalloc_ok alloc rb ins = Filter_pass rb' out"
    and "rest rb \<noteq> -1 \<and> client_max_body_size \<noteq> 0 \<longrightarrow> content_length_n rb \<le> client_max_body_size"
  shows "(client_max_body_size \<noteq> 0 \<longrightarrow> content_length_n rb' \<le> client_max_body_size) \<and>
     content_length_n rb' = (if rest rb = -1 then 0 else content_length_n rb) + length (out_payload out)"
  using assms chunk_chain_within [of client_max_body_size "\<lparr>chunked = init_chunked, content_length_n = 0, rest = int large\<rparr>"
      large alloc ins "[]" rb' out] chunk_chain_within [of client_max_body_size rb large alloc ins "[]" rb' out]
  by (auto simp: ngx_http_request_body_chunked_filter_def out_payload_def split: if_splits)


theorem chunked_filter_limit_witness:
  "\<exists>rb' out. ngx_http_request_body_chunked_filter 100 1024 True (\<lambda>_ _. True)
       \<lparr>chunked = init_chunked, content_length_n = 0, rest = -1\<rparr>
       [\<lparr>pos = 0, data = bytes ''2'' @ [LF] @ bytes ''ab'' @ [LF] @ bytes ''0'' @ [LF, LF]\<rparr>] = Filter_pass rb' out \<and>
     content_length_n rb' \<le> 100 \<and> content_length_n rb' = length (out_payload out)"
proof -
  let ?rb = "\<lparr>chunked = init_chunked, content_length_n = 0, rest = -1\<rparr>"
  let ?ins = "[\<lparr>pos = 0, data = bytes ''2'' @ [LF] @ bytes ''ab'' @ [LF] @ bytes ''0'' @ [LF, LF]\<rparr>]"
  have "\<exists>rb' out. ngx_http_request_body_chunked_filter 100 1024 True (\<lambda>_ _. True) ?rb ?ins = Filter_pass rb' out"
    by (simp add: ngx_http_request_body_chunked_filter_def init_chunked_def chunk_filter_loop.simps Let_def chunk_eval)
  then obtain rb' out where e: "ngx_http_request_body_chunked_filter 100 1024 True (\<lambda>_ _. True) ?rb ?ins = Filter_pass rb' out"
    by blast
  have "rest ?rb \<noteq> -1 \<and> (100::nat) \<noteq> 0 \<longrightarrow> content_length_n ?rb \<le> 100" by simp
  from chunked_filter_limit [OF e this] e show ?thesis by auto
qed

section \<open>Encoding and decoding\<close>

text \<open>A size in lower case hexadecimal digits, and a body in chunks.\<close>

definition hex_char :: "nat \<Rightarrow> byte" where
  "hex_char d = (if d < 10 then B CHR ''0'' + of_nat d else B CHR ''a'' + of_nat (d - 10))"

fun hex_digits :: "nat \<Rightarrow> byte list" where
  "hex_digits n = (if n < 16 then [hex_char n] else hex_digits (n div 16) @ [hex_char (n mod 16)])"

declare hex_digits.simps [simp del]

definition encode_chunk :: "byte list \<Rightarrow> byte list" where
  "encode_chunk d = hex_digits (length d) @ [CR, LF] @ d @ [CR, LF]"

definition encode_body :: "byte list list \<Rightarrow> byte list" where
  "encode_body ds = concat (map encode_chunk ds) @ B CHR ''0'' # [CR, LF, CR, LF]"

lemma hex_char_table:
  "list_all (\<lambda>d. (if d < 10 then is_digit (hex_char d) \<and> digit_val (hex_char d) = d
     else \<not> is_digit (hex_char d) \<and> is_hex_alpha (hex_char d) \<and> unat (hex_alpha_val (hex_char d)) + 10 = d)) [0..<16]"
  by code_simp

lemma hex_char_cases:
  assumes "d < 16"
  shows "is_digit (hex_char d) \<and> digit_val (hex_char d) = d \<or>
     \<not> is_digit (hex_char d) \<and> is_hex_alpha (hex_char d) \<and> unat (hex_alpha_val (hex_char d)) + 10 = d"
proof -
  have "d \<in> set [0..<16]" using assms by simp
  then show ?thesis using hex_char_table unfolding list_all_iff by metis
qed

lemma ch_step_hex:
  assumes "m \<le> NGX_MAX_OFF_T_VALUE div 16" "d < 16"
  shows "ch_step k buf q (hex_char d) (sw_chunk_size, m) = Next (sw_chunk_size, m * 16 + d)"
proof -
  have "m * 16 + d \<le> NGX_MAX_OFF_T_VALUE" using chunk_size_room [OF assms(1), of d] assms(2) by simp
  then show ?thesis
    using hex_char_cases [OF assms(2)] assms(1)
    by (elim disjE conjE) (simp_all add: ch_step.simps ch_sw_chunk_size_def set_size_def)
qed

lemma ch_step_hex_start: "d < 16 \<Longrightarrow> ch_step k buf q (hex_char d) (sw_chunk_start, s) = Next (sw_chunk_size, d)"
proof -
  assume d: "d < 16"
  then have "d \<le> NGX_MAX_OFF_T_VALUE" by (simp add: NGX_MAX_OFF_T_VALUE_def)
  then show ?thesis
    using hex_char_cases [OF d]
    by (elim disjE conjE) (simp_all add: ch_step.simps ch_sw_chunk_start_def set_size_def)
qed

lemma scan_hex_digits:
  "n div 16 \<le> NGX_MAX_OFF_T_VALUE div 16 \<Longrightarrow>
     scan (ch_step k buf) p (hex_digits n) (sw_chunk_start, s) = (p + length (hex_digits n), Next (sw_chunk_size, n))"
proof (induction n rule: hex_digits.induct)
  case (1 n)
  show ?case
  proof (cases "n < 16")
    case True
    then have "hex_digits n = [hex_char n]" by (subst hex_digits.simps) simp
    then show ?thesis using ch_step_hex_start [OF True] by simp
  next
    case False
    then have h: "hex_digits n = hex_digits (n div 16) @ [hex_char (n mod 16)]" by (subst hex_digits.simps) simp
    have "n div 16 div 16 \<le> NGX_MAX_OFF_T_VALUE div 16" using 1(2) by (meson div_le_dividend le_trans)
    from 1(1) [OF False this] show ?thesis
      using ch_step_hex [OF 1(2), of "n mod 16"] by (simp add: h scan_append)
  qed
qed

text \<open>The bytes in front of a chunk header: nothing at first, the end of the previous chunk later.\<close>

fun lead :: "ngx_http_chunked \<Rightarrow> byte list" where
  "lead ctx = (if chunked_state ctx = sw_chunk_data then [CR, LF] else [])"

definition between :: "ngx_http_chunked \<Rightarrow> bool" where
  "between ctx \<longleftrightarrow> chunked_size ctx = 0 \<and> chunked_state ctx \<in> {sw_chunk_start, sw_chunk_data}"

lemma scan_lead:
  assumes "between ctx"
  shows "scan (ch_step k buf) p (lead ctx @ bs) (chunk_entry ctx, 0) =
         scan (ch_step k buf) (p + length (lead ctx)) bs (sw_chunk_start, 0)"
  using assms
  by (auto simp: between_def chunk_entry_def ch_step.simps ch_sw_after_data_def ch_sw_after_data_almost_done_def)

lemma scan_header:
  assumes "0 < n" "n \<le> NGX_MAX_OFF_T_VALUE div 16"
  shows "scan (ch_step k buf) p (hex_digits n @ [CR, LF] @ x # xs) (sw_chunk_start, s) =
         (p + length (hex_digits n) + 2, Exit (Data sw_chunk_data n))"
proof -
  have "n div 16 \<le> NGX_MAX_OFF_T_VALUE div 16" using assms(2) by (meson div_le_dividend le_trans)
  from scan_hex_digits [OF this, of k buf p s] show ?thesis
    using assms
    by (simp add: scan_append ch_step.simps ch_sw_chunk_size_def ch_sw_chunk_extension_almost_done_def
        is_digit_def is_hex_alpha_def)
qed

lemma scan_last:
  "scan (ch_step False buf) p (B CHR ''0'' # [CR, LF, CR, LF] @ xs) (sw_chunk_start, 0) = (p + 4, Exit (Done 0))"
  by (simp add: ch_step.simps ch_sw_chunk_start_def ch_sw_chunk_size_def set_size_def is_digit_def digit_val_def
      is_hex_alpha_def ch_sw_last_chunk_extension_almost_done_def ch_sw_trailer_def ch_sw_trailer_almost_done_def
      NGX_MAX_OFF_T_VALUE_def)


lemma parse_header:
  assumes "between ctx" "0 < n" "n \<le> NGX_MAX_OFF_T_VALUE div 16"
    and "mem = pre @ lead ctx @ hex_digits n @ [CR, LF] @ x # xs"
  shows "ngx_http_parse_chunked k ctx \<lparr>pos = length pre, data = mem\<rparr> =
     Some (NGX_OK, \<lparr>chunked_state = sw_chunk_data, chunked_size = n, chunked_length = n + 4\<rparr>,
       \<lparr>pos = length (pre @ lead ctx @ hex_digits n @ [CR, LF]), data = mem\<rparr>)"
proof -
  have "NGX_MAX_OFF_T_VALUE div 16 \<le> NGX_MAX_OFF_T_VALUE - 5" by (simp add: NGX_MAX_OFF_T_VALUE_def)
  then have n: "n \<le> NGX_MAX_OFF_T_VALUE - 5" "n + 4 \<le> NGX_MAX_OFF_T_VALUE"
    using assms(3) by (auto simp: NGX_MAX_OFF_T_VALUE_def)
  have z: "chunked_size ctx = 0" using assms(1) by (simp add: between_def)
  have "scan_buf (ch_step k) \<lparr>pos = length pre, data = mem\<rparr> (chunk_entry ctx, 0) =
      (length pre + length (lead ctx) + length (hex_digits n) + 2, Exit (Data sw_chunk_data n))"
    using scan_lead [OF assms(1)] scan_header [OF assms(2,3)] by (simp add: scan_buf_def assms(4) del: lead.simps)
  moreover have "ctx\<lparr>chunked_state := a, chunked_size := c, chunked_length := e\<rparr> =
      \<lparr>chunked_state = a, chunked_size = c, chunked_length = e\<rparr>" for a c e by (cases ctx) simp
  ultimately show ?thesis
    using n by (simp add: ngx_http_parse_chunked_def chunk_data_def z Let_def add.assoc del: lead.simps)
qed

lemma parse_last:
  assumes "between ctx" "mem = pre @ lead ctx @ (B CHR ''0'' # [CR, LF, CR, LF]) @ post"
  shows "ngx_http_parse_chunked False ctx \<lparr>pos = length pre, data = mem\<rparr> =
     Some (NGX_DONE, ctx\<lparr>chunked_state := sw_chunk_start, chunked_size := 0\<rparr>,
       \<lparr>pos = length pre + length (lead ctx) + 5, data = mem\<rparr>)"
proof -
  have z: "chunked_size ctx = 0" using assms(1) by (simp add: between_def)
  have "scan_buf (ch_step False) \<lparr>pos = length pre, data = mem\<rparr> (chunk_entry ctx, 0) =
      (length pre + length (lead ctx) + 4, Exit (Done 0))"
    using scan_lead [OF assms(1), of False mem "length pre"] scan_last [of mem _ post]
    by (simp add: scan_buf_def assms(2) del: lead.simps)
  then show ?thesis by (simp add: ngx_http_parse_chunked_def z del: lead.simps)
qed

lemma decode_body:
  assumes "between ctx" "\<forall>d\<in>set ds. d \<noteq> [] \<and> length d \<le> NGX_MAX_OFF_T_VALUE div 16"
    and "mem = pre @ lead ctx @ encode_body ds @ post"
    and "max_size = 0 \<or> n + length (concat ds) \<le> max_size"
  shows "\<exists>ctx'. decode_chunks max_size mem ctx n (length pre) acc =
     Decoded_done ctx' (n + length (concat ds)) (length (pre @ lead ctx @ encode_body ds)) (acc @ concat ds)"
  using assms
proof (induction ds arbitrary: ctx n pre acc)
  case Nil
  then have "ngx_http_parse_chunked False ctx \<lparr>pos = length pre, data = mem\<rparr> =
     Some (NGX_DONE, ctx\<lparr>chunked_state := sw_chunk_start, chunked_size := 0\<rparr>,
       \<lparr>pos = length pre + length (lead ctx) + 5, data = mem\<rparr>)"
    by (intro parse_last) (auto simp: encode_body_def)
  then show ?case by (subst decode_chunks.simps) (simp add: encode_body_def del: lead.simps)
next
  case (Cons d ds)
  let ?ctx = "\<lparr>chunked_state = sw_chunk_data, chunked_size = length d, chunked_length = length d + 4\<rparr>"
  let ?ctx' = "?ctx\<lparr>chunked_size := 0\<rparr>"
  let ?hd = "pre @ lead ctx @ hex_digits (length d) @ [CR, LF]"
  have m: "mem = ?hd @ d @ lead ?ctx' @ encode_body ds @ post"
    using Cons.prems(3) by (simp add: encode_body_def encode_chunk_def)
  obtain x xs where "d @ lead ?ctx' @ encode_body ds @ post = x # xs" using Cons.prems(2) by (cases d) auto
  then have parse: "ngx_http_parse_chunked False ctx \<lparr>pos = length pre, data = mem\<rparr> =
      Some (NGX_OK, ?ctx, \<lparr>pos = length ?hd, data = mem\<rparr>)"
    using Cons.prems(1,2) m by (intro parse_header) (auto simp del: lead.simps)
  have small: "\<not> (max_size \<noteq> 0 \<and> int max_size - int n < int (length d))" using Cons.prems(4) by auto
  have k: "length d = min (length d) (length mem - pos \<lparr>pos = length ?hd, data = mem\<rparr>)"
    by (simp add: m del: lead.simps)
  have "length d = chunked_size ?ctx" by simp
  from decode_chunks_step [OF parse this small k, of acc]
  have "decode_chunks max_size mem ctx n (length pre) acc =
      decode_chunks max_size mem ?ctx' (n + length d) (length ?hd + length d)
        (acc @ slice mem (length ?hd) (length ?hd + length d))"
    by (simp del: lead.simps length_append)
  also have "slice mem (length ?hd) (length ?hd + length d) = d" unfolding m by (rule slice_middle)
  also have "length ?hd + length d = length (?hd @ d)" by simp
  finally have "decode_chunks max_size mem ctx n (length pre) acc =
      decode_chunks max_size mem ?ctx' (n + length d) (length (?hd @ d)) (acc @ d)" .
  moreover obtain ctx2 where "decode_chunks max_size mem ?ctx' (n + length d) (length (?hd @ d)) (acc @ d) =
      Decoded_done ctx2 (n + length d + length (concat ds)) (length ((?hd @ d) @ lead ?ctx' @ encode_body ds)) ((acc @ d) @ concat ds)"
    using Cons.IH [of ?ctx' "?hd @ d" "n + length d" "acc @ d"] Cons.prems(2,4) m by (auto simp: between_def)
  ultimately show ?case
    by (simp add: encode_body_def encode_chunk_def add.assoc)
qed

text \<open>
  C14. Decoding inverts encoding: a body sent as any sequence of non-empty chunks, with the sizes in
  hexadecimal, and followed by anything, is recovered from the receive buffer by the request body
  filter exactly, its length is counted correctly, and the body is recognised as complete, as long as
  the limit is not exceeded.
\<close>

theorem chunked_roundtrip:
  assumes "\<forall>d\<in>set ds. d \<noteq> [] \<and> length d \<le> NGX_MAX_OFF_T_VALUE div 16"
    and "client_max_body_size = 0 \<or> length (concat ds) \<le> client_max_body_size" "rest rb = -1"
  shows "\<exists>rb' mem outs. ngx_http_request_body_chunked_filter client_max_body_size large True (\<lambda>_ _. True) rb
       [\<lparr>pos = 0, data = encode_body ds @ post\<rparr>] = Filter_pass rb' [(mem, outs, True)] \<and>
     payload mem outs = concat ds \<and> content_length_n rb' = length (concat ds) \<and> rest rb' = 0"
proof -
  let ?b = "\<lparr>pos = 0, data = encode_body ds @ post\<rparr>"
  let ?loop = "chunk_filter_loop client_max_body_size (\<lambda>_. True) init_chunked 0 ?b False []"
  obtain ctx' where "decode_chunks client_max_body_size (encode_body ds @ post) init_chunked 0 0 [] =
      Decoded_done ctx' (length (concat ds)) (length (encode_body ds)) (concat ds)"
    using decode_body [of init_chunked ds "encode_body ds @ post" "[]" post client_max_body_size 0 "[]"] assms(1,2)
    by (auto simp: between_def init_chunked_def)
  then have "loop_abs ?loop = Decoded_done ctx' (length (concat ds)) (length (encode_body ds)) (concat ds)"
    using chunk_loop_refines [of "encode_body ds @ post" ?b False "[]" client_max_body_size init_chunked 0]
    by (simp add: loop_inv_def payload_def)
  then obtain b' outs where "?loop = Loop_done ctx' (length (concat ds)) b' outs" "payload (data b') outs = concat ds"
    by (cases ?loop) auto
  then show ?thesis using assms(3) by (simp add: ngx_http_request_body_chunked_filter_def)
qed

theorem chunked_roundtrip_witness:
  "\<exists>rb' mem outs. ngx_http_request_body_chunked_filter 10 1024 True (\<lambda>_ _. True)
       \<lparr>chunked = init_chunked, content_length_n = 0, rest = -1\<rparr>
       [\<lparr>pos = 0, data = encode_body [bytes ''ab'', bytes ''c''] @ bytes ''GET''\<rparr>] = Filter_pass rb' [(mem, outs, True)] \<and>
     payload mem outs = bytes ''abc''"
proof -
  have "\<forall>d\<in>set [bytes ''ab'', bytes ''c'']. d \<noteq> [] \<and> length d \<le> NGX_MAX_OFF_T_VALUE div 16"
    "(10::nat) = 0 \<or> length (concat [bytes ''ab'', bytes ''c'']) \<le> 10"
    "rest \<lparr>chunked = init_chunked, content_length_n = 0, rest = -1\<rparr> = -1"
    by (simp_all add: NGX_MAX_OFF_T_VALUE_def)
  from chunked_roundtrip [OF this, of 1024 "bytes ''GET''"] show ?thesis by auto
qed

end
