(* ===== verification/Ngx_Http_Status_Line.thy ===== *)
theory Ngx_Http_Status_Line
  imports Ngx_Prelude
begin

text \<open>
  The parser of upstream status lines \<^verbatim>\<open>ngx_http_parse_status_line\<close> of
  \<^verbatim>\<open>src/http/ngx_http_parse.c\<close>, with which nginx reads the first line of the judge's answers. One
  definition per \<open>case\<close>. The lemmas show that it may be fed in pieces, and what version, code and
  text are when a line is accepted.
\<close>

section \<open>The parser\<close>

datatype sl_state =
    sw_start | sw_H | sw_HT | sw_HTT | sw_HTTP | sw_first_major_digit | sw_major_digit
  | sw_first_minor_digit | sw_minor_digit | sw_status | sw_space_after_status | sw_status_text
  | sw_almost_done

text \<open>\<open>ngx_http_status_t\<close>.\<close>

record ngx_http_status =
  status_http_version :: nat
  code :: nat
  count :: nat
  start :: nat
  status_end :: "nat option"

text \<open>The fields of \<open>ngx_http_request_t\<close> that the parser uses.\<close>

record ngx_http_upstream_request =
  state :: sl_state
  http_major :: nat
  http_minor :: nat

text \<open>What the parser works on, and how it leaves the loop.\<close>

type_synonym sl_data = "ngx_http_upstream_request \<times> ngx_http_status"

datatype 'a sl_jump = Error 'a | Done 'a

type_synonym sl_ctl = "(sl_state \<times> sl_data, sl_data sl_jump) ctl"

text \<open>The five cases that expect one letter of \<open>HTTP/\<close>.\<close>

definition sl_expect :: "char \<Rightarrow> sl_state \<Rightarrow> byte \<Rightarrow> sl_data \<Rightarrow> sl_ctl" where
  [step_defs]: "sl_expect c st ch d = (if ch = B c then Next (st, d) else Exit (Error d))"

fun sl_sw_first_major_digit :: "byte \<Rightarrow> sl_data \<Rightarrow> sl_ctl" where
  "sl_sw_first_major_digit ch (r, status) =
     (if ch < B CHR ''1'' \<or> B CHR ''9'' < ch then Exit (Error (r, status))
      else Next (sw_major_digit, r\<lparr>http_major := digit_val ch\<rparr>, status))"

fun sl_sw_major_digit :: "byte \<Rightarrow> sl_data \<Rightarrow> sl_ctl" where
  "sl_sw_major_digit ch (r, status) =
     (if ch = B CHR ''.'' then Next (sw_first_minor_digit, r, status)
      else if \<not> is_digit ch then Exit (Error (r, status))
      else if 99 < http_major r then Exit (Error (r, status))
      else Next (sw_major_digit, r\<lparr>http_major := http_major r * 10 + digit_val ch\<rparr>, status))"

fun sl_sw_first_minor_digit :: "byte \<Rightarrow> sl_data \<Rightarrow> sl_ctl" where
  "sl_sw_first_minor_digit ch (r, status) =
     (if \<not> is_digit ch then Exit (Error (r, status))
      else Next (sw_minor_digit, r\<lparr>http_minor := digit_val ch\<rparr>, status))"

fun sl_sw_minor_digit :: "byte \<Rightarrow> sl_data \<Rightarrow> sl_ctl" where
  "sl_sw_minor_digit ch (r, status) =
     (if ch = SP then Next (sw_status, r, status)
      else if \<not> is_digit ch then Exit (Error (r, status))
      else if 99 < http_minor r then Exit (Error (r, status))
      else Next (sw_minor_digit, r\<lparr>http_minor := http_minor r * 10 + digit_val ch\<rparr>, status))"

fun sl_sw_status :: "nat \<Rightarrow> byte \<Rightarrow> sl_data \<Rightarrow> sl_ctl" where
  "sl_sw_status p ch (r, status0) =
     (if ch = SP then Next (sw_status, r, status0)
      else if \<not> is_digit ch then Exit (Error (r, status0))
      else let status = status0\<lparr>code := code status0 * 10 + digit_val ch, count := count status0 + 1\<rparr> in
        if count status = 3 then Next (sw_space_after_status, r, status\<lparr>start := p - 2\<rparr>)
        else Next (sw_status, r, status))"

fun sl_sw_space_after_status :: "byte \<Rightarrow> sl_data \<Rightarrow> sl_ctl" where
  "sl_sw_space_after_status ch (r, status) =
     (if ch = SP then Next (sw_status_text, r, status)
      else if ch = B CHR ''.'' then Next (sw_status_text, r, status)
      else if ch = CR then Next (sw_almost_done, r, status)
      else if ch = LF then Exit (Done (r, status))
      else Exit (Error (r, status)))"

fun sl_sw_status_text :: "byte \<Rightarrow> sl_data \<Rightarrow> sl_ctl" where
  "sl_sw_status_text ch (r, status) =
     (if ch = CR then Next (sw_almost_done, r, status)
      else if ch = LF then Exit (Done (r, status))
      else Next (sw_status_text, r, status))"

fun sl_sw_almost_done :: "nat \<Rightarrow> byte \<Rightarrow> sl_data \<Rightarrow> sl_ctl" where
  "sl_sw_almost_done p ch (r, status0) =
     (let status = status0\<lparr>status_end := Some (p - 1)\<rparr> in
      if ch = LF then Exit (Done (r, status)) else Exit (Error (r, status)))"

fun sl_step :: "byte list \<Rightarrow> nat \<Rightarrow> byte \<Rightarrow> sl_state \<times> sl_data \<Rightarrow> sl_ctl" where
  "sl_step buf p ch (st, d) =
     (case st of
        sw_start \<Rightarrow> sl_expect CHR ''H'' sw_H ch d
      | sw_H \<Rightarrow> sl_expect CHR ''T'' sw_HT ch d
      | sw_HT \<Rightarrow> sl_expect CHR ''T'' sw_HTT ch d
      | sw_HTT \<Rightarrow> sl_expect CHR ''P'' sw_HTTP ch d
      | sw_HTTP \<Rightarrow> sl_expect CHR ''/'' sw_first_major_digit ch d
      | sw_first_major_digit \<Rightarrow> sl_sw_first_major_digit ch d
      | sw_major_digit \<Rightarrow> sl_sw_major_digit ch d
      | sw_first_minor_digit \<Rightarrow> sl_sw_first_minor_digit ch d
      | sw_minor_digit \<Rightarrow> sl_sw_minor_digit ch d
      | sw_status \<Rightarrow> sl_sw_status p ch d
      | sw_space_after_status \<Rightarrow> sl_sw_space_after_status ch d
      | sw_status_text \<Rightarrow> sl_sw_status_text ch d
      | sw_almost_done \<Rightarrow> sl_sw_almost_done p ch d)"

declare sl_step.simps [simp del, step_defs]

definition sl_done :: "nat \<Rightarrow> sl_data \<Rightarrow> ngx_buf \<Rightarrow> ngx_int \<times> sl_data \<times> ngx_buf" where
  "sl_done p d b =
     (let (r, status0) = d;
          status = (if status_end status0 = None then status0\<lparr>status_end := Some p\<rparr> else status0)
      in (NGX_OK, (r\<lparr>state := sw_start\<rparr>,
            status\<lparr>status_http_version := http_major r * 1000 + http_minor r\<rparr>), b\<lparr>pos := p + 1\<rparr>))"

definition ngx_http_parse_status_line :: "sl_data \<Rightarrow> ngx_buf \<Rightarrow> ngx_int \<times> sl_data \<times> ngx_buf" where
  "ngx_http_parse_status_line d0 b =
     (case scan_buf sl_step b (state (fst d0), d0) of
        (p, Next (st, r, status)) \<Rightarrow> (NGX_AGAIN, (r\<lparr>state := st\<rparr>, status), b\<lparr>pos := p\<rparr>)
      | (p, Exit (Error d)) \<Rightarrow> (NGX_ERROR, d, b)
      | (p, Exit (Done d)) \<Rightarrow> sl_done p d b)"

text \<open>The request and the zeroed status at the start of a response.\<close>

definition init_status :: sl_data where
  "init_status = (\<lparr>state = sw_start, http_major = 0, http_minor = 0\<rparr>,
     \<lparr>status_http_version = 0, code = 0, count = 0, start = 0, status_end = None\<rparr>)"

section \<open>Feeding the parser in pieces\<close>

definition sl_save :: "sl_state \<Rightarrow> sl_data \<Rightarrow> sl_data" where
  "sl_save st = map_prod (state_update (\<lambda>_. st)) id"

lemma sl_step_frame:
  "sl_step buf p ch (map_prod id (sl_save x) s) = map_ctl (map_prod id (sl_save x)) (map_sl_jump (sl_save x)) (sl_step buf p ch s)"
proof -
  obtain st r status where s: "s = (st, r, status)" by (metis prod_cases3)
  show ?thesis unfolding s by (cases st) (simp_all add: step_defs sl_save_def Let_def)
qed

interpretation sl: resumable_scanner sl_step "\<lambda>x. map_prod id (sl_save x)" "\<lambda>x. map_sl_jump (sl_save x)"
  by unfold_locales (auto simp: sl_step_frame sl_step.simps)

definition sl_same :: "ngx_int \<times> sl_data \<times> ngx_buf \<Rightarrow> ngx_int \<times> sl_data \<times> ngx_buf \<Rightarrow> bool" where
  "sl_same = (\<lambda>(rc, d, b) (rc', d', b').
     rc = rc' \<and> sl_save sw_start d = sl_save sw_start d' \<and> (rc \<noteq> NGX_ERROR \<longrightarrow> d = d' \<and> b = b'))"

text \<open>
  Delivering a status line in pieces does not change how it is parsed: after \<open>NGX_AGAIN\<close>, a
  second call once more bytes have arrived gives the result of one call on the whole input; on an
  error only the stored state, which the code does not write then, may differ.
\<close>

theorem status_line_resume:
  assumes "pos b \<le> length (data b)" "ngx_http_parse_status_line d b = (NGX_AGAIN, d', b')"
  shows "sl_same (ngx_http_parse_status_line d (b\<lparr>data := data b @ ys\<rparr>))
                 (ngx_http_parse_status_line d' (b'\<lparr>data := data b @ ys\<rparr>))"
proof -
  from assms(2) obtain st r status q where s: "scan_buf sl_step b (state (fst d), d) = (q, Next (st, r, status))"
    and d': "d' = sl_save st (r, status)" and b': "b' = b\<lparr>pos := q\<rparr>"
    by (auto simp: ngx_http_parse_status_line_def sl_done_def sl_save_def Let_def
        split: prod.splits ctl.splits sl_jump.splits)
  let ?B = "\<lparr>pos = pos b, data = data b @ ys\<rparr>"
  have bb: "b\<lparr>data := data b @ ys\<rparr> = ?B" "b'\<lparr>data := data b @ ys\<rparr> = \<lparr>pos = q, data = data b @ ys\<rparr>"
    using b' by (cases b; simp)+
  have vars: "(state (fst d'), d') = map_prod id (sl_save st) (st, r, status)" by (simp add: d' sl_save_def)
  obtain p c where pc: "scan_buf sl_step ?B (state (fst d), d) = (p, c)" by force
  have "scan_buf sl_step \<lparr>pos = q, data = data b @ ys\<rparr> (state (fst d'), d') =
      (p, map_ctl (map_prod id (sl_save st)) (map_sl_jump (sl_save st)) c)"
    unfolding vars using sl.scan_buf_continue [OF assms(1) s, of ys st] pc by simp
  with pc show ?thesis
    unfolding ngx_http_parse_status_line_def bb
    by (auto simp: sl_same_def sl_save_def sl_done_def Let_def split: ctl.split sl_jump.split)
qed

theorem status_line_resume_witness:
  "\<exists>d' b'. ngx_http_parse_status_line init_status \<lparr>pos = 0, data = bytes ''HTTP/1.1 20''\<rparr> = (NGX_AGAIN, d', b') \<and>
     sl_same (ngx_http_parse_status_line init_status \<lparr>pos = 0, data = bytes ''HTTP/1.1 20'' @ bytes ''0 OK'' @ [CR, LF]\<rparr>)
             (ngx_http_parse_status_line d' (b'\<lparr>data := bytes ''HTTP/1.1 20'' @ bytes ''0 OK'' @ [CR, LF]\<rparr>))"
proof -
  let ?b = "\<lparr>pos = 0, data = bytes ''HTTP/1.1 20''\<rparr>"
  have "fst (ngx_http_parse_status_line init_status ?b) = NGX_AGAIN" by code_simp
  then obtain d' b' where e: "ngx_http_parse_status_line init_status ?b = (NGX_AGAIN, d', b')" by (metis prod.collapse)
  have "pos ?b \<le> length (data ?b)" by simp
  from status_line_resume [OF this e, of "bytes ''0 OK'' @ [CR, LF]"] e show ?thesis by auto
qed

section \<open>Bounds\<close>

fun sl_inv :: "byte list \<Rightarrow> nat \<Rightarrow> sl_state \<times> sl_data \<Rightarrow> bool" where
  "sl_inv buf p (st, r, status) \<longleftrightarrow>
     http_major r \<le> 999 \<and> http_minor r \<le> 999 \<and> status_end status = None \<and>
     (if st \<in> {sw_start, sw_H, sw_HT, sw_HTT, sw_HTTP, sw_first_major_digit, sw_major_digit, sw_first_minor_digit,
        sw_minor_digit} then count status = 0 \<and> code status = 0
      else if st = sw_status then count status < 3 \<and> code status < 10 ^ count status \<and> count status \<le> p
      else count status = 3 \<and> code status \<le> 999 \<and> start status + 3 \<le> p \<and> (st = sw_almost_done \<longrightarrow> start status + 3 < p))"

fun sl_post :: "byte list \<Rightarrow> nat \<Rightarrow> sl_data sl_jump \<Rightarrow> bool" where
  "sl_post buf p (Error d) = True"
| "sl_post buf p (Done (r, status)) \<longleftrightarrow> buf ! p = LF \<and> http_major r \<le> 999 \<and> http_minor r \<le> 999 \<and>
     count status = 3 \<and> code status \<le> 999 \<and> start status + 3 \<le> p \<and>
     (\<forall>e. status_end status = Some e \<longrightarrow> e < p \<and> start status + 3 \<le> e)"

definition sl_ok :: "byte list \<Rightarrow> nat \<Rightarrow> sl_ctl \<Rightarrow> bool" where
  "sl_ok buf p c \<longleftrightarrow> (case c of Next s \<Rightarrow> sl_inv buf (Suc p) s | Exit j \<Rightarrow> sl_post buf p j)"

lemma sl_ok_simps [simp]:
  "sl_ok buf p (Next s) = sl_inv buf (Suc p) s" "sl_ok buf p (Exit j) = sl_post buf p j"
  by (simp_all add: sl_ok_def)

lemma sl_ok_expect:
  "sl_inv buf p (st, r, status) \<Longrightarrow> st \<in> {sw_start, sw_H, sw_HT, sw_HTT, sw_HTTP} \<Longrightarrow>
     st' \<in> {sw_H, sw_HT, sw_HTT, sw_HTTP, sw_first_major_digit} \<Longrightarrow> sl_ok buf p (sl_expect c st' ch (r, status))"
  by (auto simp: sl_expect_def)

lemma digit_le: "\<not> ch < 49 \<Longrightarrow> \<not> 57 < ch \<Longrightarrow> digit_val ch \<le> 9"
  by (rule digit_val_le) (auto simp: is_digit_def not_less intro: order_trans [of 48 49])

lemma sl_ok_version:
  "sl_inv buf p (sw_first_major_digit, r, status) \<Longrightarrow> sl_ok buf p (sl_sw_first_major_digit ch (r, status))"
  "sl_inv buf p (sw_major_digit, r, status) \<Longrightarrow> sl_ok buf p (sl_sw_major_digit ch (r, status))"
  "sl_inv buf p (sw_first_minor_digit, r, status) \<Longrightarrow> sl_ok buf p (sl_sw_first_minor_digit ch (r, status))"
  "sl_inv buf p (sw_minor_digit, r, status) \<Longrightarrow> sl_ok buf p (sl_sw_minor_digit ch (r, status))"
  using digit_le [of ch] by (auto dest: digit_val_le)

lemma sl_ok_status:
  assumes "sl_inv buf p (sw_status, r, status)"
  shows "sl_ok buf p (sl_sw_status p ch (r, status))"
proof -
  have "code status * 10 + digit_val ch < 10 ^ Suc (count status)" if "is_digit ch"
  proof -
    have "digit_val ch \<le> 9" "code status + 1 \<le> 10 ^ count status" using that assms by (auto simp: Suc_leI)
    then show ?thesis by simp
  qed
  moreover have "count status = 2 \<or> Suc (count status) < 3" using assms by auto
  ultimately show ?thesis using assms by (auto simp: Let_def)
qed

lemma sl_ok_text:
  "sl_inv buf p (sw_space_after_status, r, status) \<Longrightarrow> sl_ok buf p (sl_sw_space_after_status (buf ! p) (r, status))"
  "sl_inv buf p (sw_status_text, r, status) \<Longrightarrow> sl_ok buf p (sl_sw_status_text (buf ! p) (r, status))"
  "sl_inv buf p (sw_almost_done, r, status) \<Longrightarrow> sl_ok buf p (sl_sw_almost_done p (buf ! p) (r, status))"
  by (auto simp: Let_def)

lemma sl_step_ok: "sl_inv buf p (st, r, status) \<Longrightarrow> sl_ok buf p (sl_step buf p (buf ! p) (st, r, status))"
  using sl_ok_version [of buf p r status "buf ! p"] sl_ok_status [of buf p r status "buf ! p"]
    sl_ok_text [of buf p r status] sl_ok_expect [of buf p st r status _ _ "buf ! p"]
  by (cases st) (simp_all only: sl_step.simps sl_state.case, simp_all)

interpretation sl_inv: scan_invariant sl_step sl_inv sl_post
proof unfold_locales
  fix p buf s s'
  assume "sl_inv buf p s" "sl_step buf p (buf ! p) s = Next s'"
  then show "sl_inv buf (Suc p) s'" using sl_step_ok [of buf p "fst s" "fst (snd s)" "snd (snd s)"] by simp
next
  fix p buf s r
  assume "sl_inv buf p s" "sl_step buf p (buf ! p) s = Exit r"
  then show "sl_post buf p r" using sl_step_ok [of buf p "fst s" "fst (snd s)" "snd (snd s)"] by simp
qed

text \<open>
  When a status line is accepted, the code has exactly three digits and is at most 999, major and
  minor version are at most 999 each, so their 16-bit fields and the combined version hold them, and
  the status text lies between ordered offsets before the line feed that ends the consumed bytes.
\<close>

theorem status_line_ok_bounds:
  assumes "pos b \<le> length (data b)" "ngx_http_parse_status_line init_status b = (NGX_OK, (r, status), b')"
  shows "count status = 3 \<and> code status \<le> 999 \<and> http_major r \<le> 999 \<and> http_minor r \<le> 999 \<and>
     status_http_version status = http_major r * 1000 + http_minor r \<and>
     (\<exists>e. status_end status = Some e \<and> start status + 3 \<le> e \<and> e < pos b') \<and>
     pos b' \<le> length (data b) \<and> data b ! (pos b' - 1) = LF"
proof -
  obtain p c where pc: "scan_buf sl_step b (state (fst init_status), init_status) = (p, c)" by force
  have "sl_inv (data b) (pos b) (state (fst init_status), init_status)" by (simp add: init_status_def)
  from sl_inv.scan_buf_inv [OF assms(1) this pc] assms(2) pc show ?thesis
    by (auto simp: ngx_http_parse_status_line_def sl_done_def Let_def
        split: ctl.splits sl_jump.splits prod.splits if_splits)
qed


theorem status_line_ok_bounds_witness:
  "\<exists>r status b'. ngx_http_parse_status_line init_status \<lparr>pos = 0, data = bytes ''HTTP/1.1 200 OK'' @ [CR, LF]\<rparr> =
       (NGX_OK, (r, status), b') \<and> code status \<le> 999 \<and> pos b' \<le> 17"
proof -
  let ?b = "\<lparr>pos = 0, data = bytes ''HTTP/1.1 200 OK'' @ [CR, LF]\<rparr>"
  have "fst (ngx_http_parse_status_line init_status ?b) = NGX_OK" by code_simp
  then obtain r status b' where e: "ngx_http_parse_status_line init_status ?b = (NGX_OK, (r, status), b')"
    by (metis prod.collapse)
  have "pos ?b \<le> length (data ?b)" by simp
  from status_line_ok_bounds [OF this e] e show ?thesis by auto
qed

section \<open>Well-formed status lines\<close>

lemma scan_status_text:
  "\<forall>c\<in>set ts. c \<noteq> CR \<and> c \<noteq> LF \<Longrightarrow>
     scan (sl_step buf) p ts (sw_status_text, r, status) = (p + length ts, Next (sw_status_text, r, status))"
  by (induction ts arbitrary: p) (auto simp: sl_step.simps)

lemma scan_status_head:
  assumes "is_digit m" "is_digit d1" "is_digit d2" "is_digit d3" "count status = 0" "code status = 0"
  shows "scan (sl_step buf) p (bytes ''HTTP/1.'' @ [m, SP, d1, d2, d3, SP]) (sw_start, r, status) =
     (p + 13, Next (sw_status_text, r\<lparr>http_major := 1, http_minor := digit_val m\<rparr>,
        status\<lparr>code := digit_val d1 * 100 + digit_val d2 * 10 + digit_val d3, count := Suc (Suc (Suc 0)), start := p + 9\<rparr>))"
proof -
  have "c \<noteq> SP" if "is_digit c" for c using that by (auto simp: is_digit_def)
  then have "m \<noteq> SP" "d1 \<noteq> SP" "d2 \<noteq> SP" "d3 \<noteq> SP" using assms by blast+
  with assms show ?thesis
    by (simp add: sl_step.simps sl_expect_def digit_val_def [of 49] add_mult_distrib)
qed

text \<open>
  Every line \<open>HTTP/1.m ddd text CR LF\<close> is accepted wherever it stands in the buffer: version and
  code are the numbers it spells, the stored offsets delimit code and text exactly, and nothing after
  the line feed is consumed.
\<close>

theorem status_line_accepts:
  assumes "is_digit m" "is_digit d1" "is_digit d2" "is_digit d3" "\<forall>c\<in>set text. c \<noteq> CR \<and> c \<noteq> LF"
    and "b = \<lparr>pos = length pre,
              data = pre @ bytes ''HTTP/1.'' @ [m, SP, d1, d2, d3, SP] @ text @ [CR, LF] @ rest\<rparr>"
  shows "\<exists>r status. ngx_http_parse_status_line init_status b =
       (NGX_OK, (r, status), b\<lparr>pos := length pre + length text + 15\<rparr>) \<and>
     status_http_version status = 1000 + digit_val m \<and>
     code status = digit_val d1 * 100 + digit_val d2 * 10 + digit_val d3 \<and>
     slice (data b) (start status) (the (status_end status)) = [d1, d2, d3, SP] @ text"
proof -
  let ?hd = "bytes ''HTTP/1.'' @ [m, SP, d1, d2, d3, SP]"
  let ?p = "length pre + 13 + length text"
  obtain r0 s0 where i: "init_status = (r0, s0)" "state r0 = sw_start" "count s0 = 0" "code s0 = 0" "status_end s0 = None"
    by (simp add: init_status_def)
  let ?r = "r0\<lparr>http_major := 1, http_minor := digit_val m\<rparr>"
  let ?s = "s0\<lparr>code := digit_val d1 * 100 + digit_val d2 * 10 + digit_val d3, count := Suc (Suc (Suc 0)), start := length pre + 9\<rparr>"
  have "scan (sl_step (data b)) (length pre) (?hd @ text @ [CR, LF] @ rest) (sw_start, r0, s0) =
      (Suc ?p, Exit (Done (?r, ?s\<lparr>status_end := Some ?p\<rparr>)))"
    using scan_status_head [OF assms(1-4) i(3,4), of "data b" "length pre" r0] scan_status_text [OF assms(5)]
    by (subst scan_append) (simp add: scan_append sl_step.simps del: append.simps list.map)
  then have "scan_buf sl_step b (state (fst init_status), init_status) = (Suc ?p, Exit (Done (?r, ?s\<lparr>status_end := Some ?p\<rparr>)))"
    by (simp add: scan_buf_def i assms(6))
  moreover have "slice (data b) (length pre + 9) ?p = [d1, d2, d3, SP] @ text"
    using slice_middle [of "pre @ bytes ''HTTP/1.'' @ [m, SP]" "[d1, d2, d3, SP] @ text" "[CR, LF] @ rest"]
    by (simp add: assms(6) numeral_eq_Suc)
  ultimately show ?thesis
    by (simp add: ngx_http_parse_status_line_def sl_done_def i)
qed

theorem status_line_accepts_witness:
  "\<exists>r status. ngx_http_parse_status_line init_status \<lparr>pos = 0, data = bytes ''HTTP/1.1 404 No'' @ [CR, LF]\<rparr> =
       (NGX_OK, (r, status), \<lparr>pos = 17, data = bytes ''HTTP/1.1 404 No'' @ [CR, LF]\<rparr>) \<and> code status = 404"
proof -
  have "is_digit (B CHR ''1'')" "is_digit (B CHR ''4'')" "is_digit (B CHR ''0'')" "is_digit (B CHR ''4'')"
    "\<forall>c\<in>set (bytes ''No''). c \<noteq> CR \<and> c \<noteq> LF"
    by (simp_all add: is_digit_def)
  from status_line_accepts [OF this refl, of "[]" "[]"] show ?thesis by (auto simp: digit_val_def)
qed

end
