(* ===== verification/Ngx_Number.thy ===== *)
theory Ngx_Number
  imports Ngx_Prelude
begin

text \<open>
  Numbers in configuration and headers: the decimal readers \<^verbatim>\<open>ngx_atoi\<close>, \<^verbatim>\<open>ngx_atosz\<close>,
  \<^verbatim>\<open>ngx_atoof\<close>, \<^verbatim>\<open>ngx_atotm\<close>, \<^verbatim>\<open>ngx_atofp\<close> and \<^verbatim>\<open>ngx_hextoi\<close> of \<^verbatim>\<open>src/core/ngx_string.c\<close>,
  and \<^verbatim>\<open>ngx_parse_size\<close>, \<^verbatim>\<open>ngx_parse_offset\<close> and \<^verbatim>\<open>ngx_parse_time\<close> of
  \<^verbatim>\<open>src/core/ngx_parse.c\<close>. The value \<open>NGX_ERROR\<close> is \<open>None\<close>; numbers are natural numbers, and the
  lemmas show that every reader is exact up to the maximum of its C type and refuses everything
  beyond, so that no intermediate value leaves that type. The contract of the decimal readers is
  the locale \<open>decimal_reader\<close>, on which the readers of scaled numbers rely.
\<close>

section \<open>Decimal and hexadecimal readers\<close>

text \<open>The loop that the four decimal readers share.\<close>

fun ato_loop :: "nat \<Rightarrow> nat \<Rightarrow> nat \<Rightarrow> byte list \<Rightarrow> nat option" where
  "ato_loop cutoff cutlim v [] = Some v"
| "ato_loop cutoff cutlim v (c # cs) =
     (if \<not> is_digit c then None
      else if cutoff \<le> v \<and> (cutoff < v \<or> cutlim < digit_val c) then None
      else ato_loop cutoff cutlim (v * 10 + digit_val c) cs)"

definition ngx_atoi :: "byte list \<Rightarrow> nat option" where
  "ngx_atoi line =
     (if line = [] then None
      else ato_loop (NGX_MAX_INT_T_VALUE div 10) (NGX_MAX_INT_T_VALUE mod 10) 0 line)"

definition ngx_atosz :: "byte list \<Rightarrow> nat option" where
  "ngx_atosz line =
     (if line = [] then None
      else ato_loop (NGX_MAX_SIZE_T_VALUE div 10) (NGX_MAX_SIZE_T_VALUE mod 10) 0 line)"

definition ngx_atoof :: "byte list \<Rightarrow> nat option" where
  "ngx_atoof line =
     (if line = [] then None
      else ato_loop (NGX_MAX_OFF_T_VALUE div 10) (NGX_MAX_OFF_T_VALUE mod 10) 0 line)"

definition ngx_atotm :: "byte list \<Rightarrow> nat option" where
  "ngx_atotm line =
     (if line = [] then None
      else ato_loop (NGX_MAX_TIME_T_VALUE div 10) (NGX_MAX_TIME_T_VALUE mod 10) 0 line)"

text \<open>\<open>ngx_atofp\<close>: the two loops of the fixed point reader.\<close>

fun atofp_scale :: "nat \<Rightarrow> nat \<Rightarrow> nat \<Rightarrow> nat option" where
  "atofp_scale cutoff v 0 = Some v"
| "atofp_scale cutoff v (Suc point) = (if cutoff < v then None else atofp_scale cutoff (v * 10) point)"

fun atofp_loop :: "nat \<Rightarrow> nat \<Rightarrow> bool \<Rightarrow> nat \<Rightarrow> nat \<Rightarrow> byte list \<Rightarrow> nat option" where
  "atofp_loop cutoff cutlim dot point v [] = atofp_scale cutoff v point"
| "atofp_loop cutoff cutlim dot point v (c # cs) =
     (if point = 0 then None
      else if c = B CHR ''.'' then (if dot then None else atofp_loop cutoff cutlim True point v cs)
      else if \<not> is_digit c then None
      else if cutoff \<le> v \<and> (cutoff < v \<or> cutlim < digit_val c) then None
      else atofp_loop cutoff cutlim dot (if dot then point - 1 else point) (v * 10 + digit_val c) cs)"

definition ngx_atofp :: "byte list \<Rightarrow> nat \<Rightarrow> nat option" where
  "ngx_atofp line point =
     (if line = [] then None
      else atofp_loop (NGX_MAX_INT_T_VALUE div 10) (NGX_MAX_INT_T_VALUE mod 10) False point 0 line)"

fun hextoi_loop :: "nat \<Rightarrow> nat \<Rightarrow> byte list \<Rightarrow> nat option" where
  "hextoi_loop cutoff v [] = Some v"
| "hextoi_loop cutoff v (ch # cs) =
     (if cutoff < v then None
      else if is_digit ch then hextoi_loop cutoff (v * 16 + digit_val ch) cs
      else if is_hex_alpha ch then hextoi_loop cutoff (v * 16 + (unat (hex_alpha_val ch) + 10)) cs
      else None)"

definition ngx_hextoi :: "byte list \<Rightarrow> nat option" where
  "ngx_hextoi line = (if line = [] then None else hextoi_loop (NGX_MAX_INT_T_VALUE div 16) 0 line)"

section \<open>Sizes and offsets with a unit\<close>

definition ngx_parse_size :: "byte list \<Rightarrow> nat option" where
  "ngx_parse_size line =
     (if line = [] then None
      else
        let unit = last line;
            (line, mx, scale) =
              (if unit = B CHR ''K'' \<or> unit = B CHR ''k'' then
                 (butlast line, NGX_MAX_SIZE_T_VALUE div 1024, 1024)
               else if unit = B CHR ''M'' \<or> unit = B CHR ''m'' then
                 (butlast line, NGX_MAX_SIZE_T_VALUE div (1024 * 1024), 1024 * 1024)
               else (line, NGX_MAX_SIZE_T_VALUE, 1))
        in case ngx_atosz line of
             None \<Rightarrow> None
           | Some sz \<Rightarrow> if mx < sz then None else Some (sz * scale))"

definition ngx_parse_offset :: "byte list \<Rightarrow> nat option" where
  "ngx_parse_offset line =
     (if line = [] then None
      else
        let unit = last line;
            (line, mx, scale) =
              (if unit = B CHR ''K'' \<or> unit = B CHR ''k'' then
                 (butlast line, NGX_MAX_OFF_T_VALUE div 1024, 1024)
               else if unit = B CHR ''M'' \<or> unit = B CHR ''m'' then
                 (butlast line, NGX_MAX_OFF_T_VALUE div (1024 * 1024), 1024 * 1024)
               else if unit = B CHR ''G'' \<or> unit = B CHR ''g'' then
                 (butlast line, NGX_MAX_OFF_T_VALUE div (1024 * 1024 * 1024), 1024 * 1024 * 1024)
               else (line, NGX_MAX_OFF_T_VALUE, 1))
        in case ngx_atoof line of
             None \<Rightarrow> None
           | Some offset \<Rightarrow> if mx < offset then None else Some (offset * scale))"

section \<open>Times\<close>

datatype time_step =
    st_start | st_year | st_month | st_week | st_day | st_hour | st_min | st_sec | st_msec | st_last

text \<open>The order of the \<open>enum\<close>.\<close>

fun time_rank :: "time_step \<Rightarrow> nat" where
  "time_rank st_start = 0" | "time_rank st_year = 1" | "time_rank st_month = 2" | "time_rank st_week = 3"
| "time_rank st_day = 4" | "time_rank st_hour = 5" | "time_rank st_min = 6" | "time_rank st_sec = 7"
| "time_rank st_msec = 8" | "time_rank st_last = 9"

instantiation time_step :: linorder
begin

definition less_eq_time_step :: "time_step \<Rightarrow> time_step \<Rightarrow> bool" where
  "less_eq_time_step a b \<longleftrightarrow> time_rank a \<le> time_rank b"

definition less_time_step :: "time_step \<Rightarrow> time_step \<Rightarrow> bool" where
  "less_time_step a b \<longleftrightarrow> time_rank a < time_rank b"

instance
proof
  fix a b :: time_step
  show "a = b" if "a \<le> b" "b \<le> a"
  proof -
    have "time_rank a = time_rank b" using that by (simp add: less_eq_time_step_def)
    then show ?thesis by (cases a; cases b) simp_all
  qed
qed (auto simp: less_eq_time_step_def less_time_step_def)

end

text \<open>
  The \<open>switch\<close> on a character that is not a digit; \<open>cs\<close> is what follows it. The result is the new
  step, \<open>max\<close>, \<open>scale\<close> and the rest of the line.
\<close>

definition time_case :: "bool \<Rightarrow> time_step \<Rightarrow> byte \<Rightarrow> byte list \<Rightarrow> (time_step \<times> nat \<times> nat \<times> byte list) option" where
  "time_case is_sec step c cs =
     (if c = B CHR ''y'' then
        (if st_start < step then None
         else Some (st_year, NGX_MAX_INT_T_VALUE div (60 * 60 * 24 * 365), 60 * 60 * 24 * 365, cs))
      else if c = B CHR ''M'' then
        (if st_month \<le> step then None
         else Some (st_month, NGX_MAX_INT_T_VALUE div (60 * 60 * 24 * 30), 60 * 60 * 24 * 30, cs))
      else if c = B CHR ''w'' then
        (if st_week \<le> step then None
         else Some (st_week, NGX_MAX_INT_T_VALUE div (60 * 60 * 24 * 7), 60 * 60 * 24 * 7, cs))
      else if c = B CHR ''d'' then
        (if st_day \<le> step then None
         else Some (st_day, NGX_MAX_INT_T_VALUE div (60 * 60 * 24), 60 * 60 * 24, cs))
      else if c = B CHR ''h'' then
        (if st_hour \<le> step then None
         else Some (st_hour, NGX_MAX_INT_T_VALUE div (60 * 60), 60 * 60, cs))
      else if c = B CHR ''m'' then
        (if cs \<noteq> [] \<and> hd cs = B CHR ''s'' then
           (if is_sec \<or> st_msec \<le> step then None else Some (st_msec, NGX_MAX_INT_T_VALUE, 1, tl cs))
         else if st_min \<le> step then None
         else Some (st_min, NGX_MAX_INT_T_VALUE div 60, 60, cs))
      else if c = B CHR ''s'' then
        (if st_sec \<le> step then None else Some (st_sec, NGX_MAX_INT_T_VALUE, 1, cs))
      else if c = SP then
        (if st_sec \<le> step then None else Some (st_last, NGX_MAX_INT_T_VALUE, 1, cs))
      else None)"

text \<open>The code after the loop.\<close>

definition time_end :: "bool \<Rightarrow> bool \<Rightarrow> nat \<Rightarrow> nat \<Rightarrow> nat option" where
  "time_end is_sec valid v tot =
     (if \<not> valid then None
      else if \<not> is_sec \<and> NGX_MAX_INT_T_VALUE div 1000 < v then None
      else let v = (if is_sec then v else v * 1000) in
        if NGX_MAX_INT_T_VALUE - v < tot then None else Some (tot + v))"

lemma time_case_length: "time_case is_sec step c cs = Some (step', mx, scale, cs') \<Longrightarrow> length cs' \<le> length cs"
  by (auto simp: time_case_def split: if_splits)

function time_loop :: "bool \<Rightarrow> time_step \<Rightarrow> bool \<Rightarrow> nat \<Rightarrow> nat \<Rightarrow> byte list \<Rightarrow> nat option" where
  "time_loop is_sec step valid v tot [] = time_end is_sec valid v tot"
| "time_loop is_sec step valid v tot (c # cs) =
     (if is_digit c then
        (if NGX_MAX_INT_T_VALUE div 10 \<le> v \<and>
            (NGX_MAX_INT_T_VALUE div 10 < v \<or> NGX_MAX_INT_T_VALUE mod 10 < digit_val c)
         then None
         else time_loop is_sec step True (v * 10 + digit_val c) tot cs)
      else case time_case is_sec step c cs of
        None \<Rightarrow> None
      | Some (step, mx0, scale0, cs) \<Rightarrow>
          let (scale, mx) = (if step \<noteq> st_msec \<and> \<not> is_sec then (scale0 * 1000, mx0 div 1000) else (scale0, mx0)) in
          if mx < v then None
          else if NGX_MAX_INT_T_VALUE - v * scale < tot then None
          else time_loop is_sec step valid 0 (tot + v * scale) (dropWhile (\<lambda>c. c = SP) cs))"
  by pat_completeness auto
termination
proof (relation "measure (\<lambda>(is_sec, step, valid, v, tot, cs). length cs)", goal_cases)
  case (3 is_sec step valid v tot c cs)
  then show ?case
    using length_dropWhile_le by (auto dest!: time_case_length intro: le_imp_less_Suc le_trans)
qed auto

definition ngx_parse_time :: "byte list \<Rightarrow> bool \<Rightarrow> nat option" where
  "ngx_parse_time line is_sec = time_loop is_sec (if is_sec then st_start else st_month) False 0 0 line"

section \<open>Decimal values\<close>

text \<open>The value of a digit string, continuing from \<open>v\<close>.\<close>

definition dec_from :: "nat \<Rightarrow> byte list \<Rightarrow> nat" where
  "dec_from v ds = foldl (\<lambda>v c. v * 10 + digit_val c) v ds"

abbreviation dec_val :: "byte list \<Rightarrow> nat" where
  "dec_val ds \<equiv> dec_from 0 ds"

lemma dec_from_simps [simp]:
  "dec_from v [] = v"
  "dec_from v (c # cs) = dec_from (v * 10 + digit_val c) cs"
  by (simp_all add: dec_from_def)

lemma dec_from_ge: "v \<le> dec_from v ds"
proof (induction ds arbitrary: v)
  case (Cons c ds)
  from Cons.IH [of "v * 10 + digit_val c"] show ?case by simp
qed simp

text \<open>The guard of the readers is exact: it lets a digit through iff the new value fits.\<close>

lemma ato_guard:
  assumes "is_digit c"
  shows "(M div 10 \<le> v \<and> (M div 10 < v \<or> M mod 10 < digit_val c)) \<longleftrightarrow> M < v * 10 + digit_val c"
proof -
  have "digit_val c \<le> 9" using assms by (rule digit_val_le)
  moreover have "M = 10 * (M div 10) + M mod 10" "M mod 10 < 10" by simp_all
  ultimately show ?thesis by linarith
qed

lemma ato_loop_eq:
  "v \<le> M \<Longrightarrow> ato_loop (M div 10) (M mod 10) v ds =
     (if list_all is_digit ds \<and> dec_from v ds \<le> M then Some (dec_from v ds) else None)"
proof (induction ds arbitrary: v)
  case (Cons c ds)
  show ?case
  proof (cases "is_digit c \<and> v * 10 + digit_val c \<le> M")
    case True
    with Cons.IH [of "v * 10 + digit_val c"] show ?thesis by (simp add: ato_guard)
  next
    case False
    then show ?thesis
      using dec_from_ge [of "v * 10 + digit_val c" ds] by (auto simp: ato_guard)
  qed
qed simp

text \<open>
  The contract of a decimal reader with maximum \<open>M\<close>: it reads a non-empty digit string whose value
  fits, and nothing else. What the readers of scaled numbers do with it follows.
\<close>

locale decimal_reader =
  fixes read :: "byte list \<Rightarrow> nat option" and M :: nat
  assumes read_eq: "read ds = (if ds \<noteq> [] \<and> list_all is_digit ds \<and> dec_val ds \<le> M then Some (dec_val ds) else None)"
begin

lemma read_scaled:
  assumes "0 < k"
  shows "(case read ds of None \<Rightarrow> None | Some v \<Rightarrow> if M div k < v then None else Some (v * k)) =
         (if ds \<noteq> [] \<and> list_all is_digit ds \<and> dec_val ds * k \<le> M then Some (dec_val ds * k) else None)"
proof -
  have *: "dec_val ds \<le> M div k \<longleftrightarrow> dec_val ds * k \<le> M"
    using assms by (simp add: less_eq_div_iff_mult_less_eq)
  have "dec_val ds * k \<le> M \<Longrightarrow> dec_val ds \<le> M"
    using assms by (cases k) auto
  with * show ?thesis by (auto simp: read_eq not_le [symmetric])
qed

end

interpretation atoi: decimal_reader ngx_atoi NGX_MAX_INT_T_VALUE
  by unfold_locales (simp add: ngx_atoi_def ato_loop_eq)

interpretation atosz: decimal_reader ngx_atosz NGX_MAX_SIZE_T_VALUE
  by unfold_locales (simp add: ngx_atosz_def ato_loop_eq)

interpretation atoof: decimal_reader ngx_atoof NGX_MAX_OFF_T_VALUE
  by unfold_locales (simp add: ngx_atoof_def ato_loop_eq)

interpretation atotm: decimal_reader ngx_atotm NGX_MAX_TIME_T_VALUE
  by unfold_locales (simp add: ngx_atotm_def ato_loop_eq)

text \<open>The suffixes of sizes and of offsets.\<close>

definition size_unit :: "byte \<Rightarrow> nat option" where
  "size_unit c = (if c \<in> {B CHR ''K'', B CHR ''k''} then Some 1024
     else if c \<in> {B CHR ''M'', B CHR ''m''} then Some (1024 ^ 2) else None)"

definition offset_unit :: "byte \<Rightarrow> nat option" where
  "offset_unit c = (if c \<in> {B CHR ''G'', B CHR ''g''} then Some (1024 ^ 3) else size_unit c)"

text \<open>What a number with an optional suffix means: the exact product, if it is at most \<open>M\<close>.\<close>

definition scaled_number :: "(byte \<Rightarrow> nat option) \<Rightarrow> nat \<Rightarrow> byte list \<Rightarrow> nat option" where
  "scaled_number u M line =
     (if line = [] then None
      else let (ds, k) = (case u (last line) of Some k \<Rightarrow> (butlast line, k) | None \<Rightarrow> (line, 1)) in
        if ds \<noteq> [] \<and> list_all is_digit ds \<and> dec_val ds * k \<le> M then Some (dec_val ds * k) else None)"

lemma ngx_parse_size_eq: "ngx_parse_size line = scaled_number size_unit NGX_MAX_SIZE_T_VALUE line"
  by (simp add: ngx_parse_size_def scaled_number_def size_unit_def atosz.read_scaled) (simp add: atosz.read_eq)

lemma ngx_parse_offset_eq: "ngx_parse_offset line = scaled_number offset_unit NGX_MAX_OFF_T_VALUE line"
  by (simp add: ngx_parse_offset_def scaled_number_def offset_unit_def size_unit_def atoof.read_scaled) (simp add: atoof.read_eq)

text \<open>
  C28. A size or offset of the configuration means the exact product of its decimal digits and its
  unit, and it is refused exactly when it is not of that form or when the product does not fit the
  C type; in particular no multiplication in the readers overflows.
\<close>

theorem parse_size_offset_exact:
  "ngx_parse_size line = scaled_number size_unit NGX_MAX_SIZE_T_VALUE line \<and>
   ngx_parse_offset line = scaled_number offset_unit NGX_MAX_OFF_T_VALUE line"
  by (simp add: ngx_parse_size_eq ngx_parse_offset_eq)

section \<open>Times are exact\<close>

text \<open>
  A time is a list of items, each a digit string, a unit and the number of spaces after it, and
  a digit string at the end that stands for seconds. The units are the steps of the code.
\<close>

type_synonym time_item = "byte list \<times> time_step \<times> nat"

fun unit_text :: "time_step \<Rightarrow> byte list" where
  "unit_text st_year = bytes ''y''" | "unit_text st_month = bytes ''M''" | "unit_text st_week = bytes ''w''"
| "unit_text st_day = bytes ''d''" | "unit_text st_hour = bytes ''h''" | "unit_text st_min = bytes ''m''"
| "unit_text st_sec = bytes ''s''" | "unit_text st_msec = bytes ''ms''" | "unit_text _ = []"

fun unit_seconds :: "time_step \<Rightarrow> nat" where
  "unit_seconds st_year = 365 * 24 * 60 * 60" | "unit_seconds st_month = 30 * 24 * 60 * 60"
| "unit_seconds st_week = 7 * 24 * 60 * 60" | "unit_seconds st_day = 24 * 60 * 60"
| "unit_seconds st_hour = 60 * 60" | "unit_seconds st_min = 60" | "unit_seconds _ = 1"

text \<open>The weight of a unit in seconds, or in milliseconds.\<close>

definition unit_scale :: "bool \<Rightarrow> time_step \<Rightarrow> nat" where
  "unit_scale is_sec u = unit_seconds u * (if is_sec \<or> u = st_msec then 1 else 1000)"

definition time_text :: "time_item list \<Rightarrow> byte list" where
  "time_text items = concat (map (\<lambda>(ds, u, k). ds @ unit_text u @ replicate k SP) items)"

definition time_sum :: "bool \<Rightarrow> time_item list \<Rightarrow> nat" where
  "time_sum is_sec items = (\<Sum>(ds, u, k)\<leftarrow>items. dec_val ds * unit_scale is_sec u)"

definition time_units :: "bool \<Rightarrow> time_step set" where
  "time_units is_sec = (if is_sec then {st_year, st_month, st_week, st_day, st_hour, st_min, st_sec}
                        else {st_week, st_day, st_hour, st_min, st_sec, st_msec})"

definition good_item :: "bool \<Rightarrow> time_item \<Rightarrow> bool" where
  "good_item is_sec = (\<lambda>(ds, u, k). ds \<noteq> [] \<and> list_all is_digit ds \<and> u \<in> time_units is_sec)"

lemma time_sum_simps [simp]:
  "time_sum is_sec [] = 0"
  "time_sum is_sec ((ds, u, k) # items) = dec_val ds * unit_scale is_sec u + time_sum is_sec items"
  by (simp_all add: time_sum_def)

lemma time_text_simps [simp]:
  "time_text [] = []"
  "time_text ((ds, u, k) # items) = ds @ unit_text u @ replicate k SP @ time_text items"
  by (simp_all add: time_text_def)

lemma time_loop_digits:
  "list_all is_digit ds \<Longrightarrow> v \<le> NGX_MAX_INT_T_VALUE \<Longrightarrow>
   time_loop is_sec step valid v tot (ds @ cs) =
     (if dec_from v ds \<le> NGX_MAX_INT_T_VALUE
      then time_loop is_sec step (valid \<or> ds \<noteq> []) (dec_from v ds) tot cs else None)"
proof (induction ds arbitrary: v valid)
  case (Cons c ds)
  show ?case
  proof (cases "v * 10 + digit_val c \<le> NGX_MAX_INT_T_VALUE")
    case True
    with Cons show ?thesis by (simp add: ato_guard)
  next
    case False
    with Cons.prems dec_from_ge [of "v * 10 + digit_val c" ds] show ?thesis by (simp add: ato_guard)
  qed
qed simp

lemmas time_order = less_time_step_def less_eq_time_step_def

text \<open>The \<open>switch\<close> takes a unit that comes later in the order than the step reached so far.\<close>

lemma time_case_unit:
  assumes "u \<in> time_units is_sec" "step < u" "cs = [] \<or> hd cs \<noteq> B CHR ''s''"
  shows "time_case is_sec step (hd (unit_text u)) (tl (unit_text u) @ cs) =
           Some (u, NGX_MAX_INT_T_VALUE div unit_seconds u, unit_seconds u, cs)"
  using assms by (cases u; cases is_sec) (auto simp: time_case_def time_units_def time_order)

lemma unit_text_hd: "u \<in> time_units is_sec \<Longrightarrow> unit_text u \<noteq> [] \<and> \<not> is_digit (hd (unit_text u))"
  by (cases u; cases is_sec) (auto simp: time_units_def is_digit_def)

lemma dropWhile_replicate_SP:
  "cs = [] \<or> hd cs \<noteq> SP \<Longrightarrow> dropWhile (\<lambda>c. c = SP) (replicate k SP @ cs) = cs"
  by (induction k) (auto simp: dropWhile_eq_self_iff)

lemma time_loop_unit:
  assumes u: "u \<in> time_units is_sec" "step < u" and cs: "cs = [] \<or> is_digit (hd cs)"
    and v: "v \<le> NGX_MAX_INT_T_VALUE" "tot \<le> NGX_MAX_INT_T_VALUE"
  shows "time_loop is_sec step valid v tot (unit_text u @ replicate k SP @ cs) =
           (if tot + v * unit_scale is_sec u \<le> NGX_MAX_INT_T_VALUE
            then time_loop is_sec u valid 0 (tot + v * unit_scale is_sec u) cs else None)"
proof -
  let ?M = NGX_MAX_INT_T_VALUE
  have hdc: "replicate k SP @ cs = [] \<or> hd (replicate k SP @ cs) \<noteq> B CHR ''s''"
    using cs by (cases k) (auto simp: is_digit_def)
  have sp: "cs = [] \<or> hd cs \<noteq> SP" using cs by (auto simp: is_digit_def)
  have tx: "unit_text u = hd (unit_text u) # tl (unit_text u)" "\<not> is_digit (hd (unit_text u))"
    using unit_text_hd [OF u(1)] by simp_all
  have scale: "(if u \<noteq> st_msec \<and> \<not> is_sec then (unit_seconds u * 1000, ?M div unit_seconds u div 1000)
                 else (unit_seconds u, ?M div unit_seconds u)) = (unit_scale is_sec u, ?M div unit_scale is_sec u)"
    by (simp add: unit_scale_def div_mult2_eq [symmetric])
  have pos: "0 < unit_scale is_sec u" by (cases u) (simp_all add: unit_scale_def)
  have le: "?M div unit_scale is_sec u < v \<longleftrightarrow> ?M < v * unit_scale is_sec u"
    using pos by (metis less_eq_div_iff_mult_less_eq not_le)
  show ?thesis
    unfolding append_Cons [symmetric] by (subst tx(1))
      (use tx(2) v le in \<open>simp add: time_case_unit [OF u hdc] scale dropWhile_replicate_SP [OF sp], auto\<close>)
qed

lemma time_loop_items:
  assumes "list_all (good_item is_sec) items" "sorted_wrt (<) (step # map (fst \<circ> snd) items)"
    "list_all is_digit rest" "tot \<le> NGX_MAX_INT_T_VALUE" "valid \<or> items \<noteq> [] \<or> rest \<noteq> []"
  shows "time_loop is_sec step valid 0 tot (time_text items @ rest) =
     (let n = tot + time_sum is_sec items + dec_val rest * unit_scale is_sec st_sec
      in if n \<le> NGX_MAX_INT_T_VALUE then Some n else None)"
  using assms
proof (induction items arbitrary: step tot valid)
  case Nil
  let ?M = NGX_MAX_INT_T_VALUE
  have "?M div 1000 < dec_val rest \<longleftrightarrow> ?M < dec_val rest * 1000"
    by (simp add: NGX_MAX_INT_T_VALUE_def) linarith
  with Nil time_loop_digits [of rest 0 is_sec step valid tot "[]"] show ?case
    by (auto simp: time_end_def unit_scale_def Let_def)
next
  case (Cons it items)
  obtain ds u k where it: "it = (ds, u, k)" by (cases it)
  from Cons.prems have good: "ds \<noteq> []" "list_all is_digit ds" "u \<in> time_units is_sec" "step < u"
    by (auto simp: it good_item_def)
  let ?cs = "time_text items @ rest" and ?t = "tot + dec_val ds * unit_scale is_sec u"
  have cs: "?cs = [] \<or> is_digit (hd ?cs)"
    using Cons.prems by (cases items; cases rest) (auto simp: good_item_def neq_Nil_conv)
  have "1 \<le> unit_scale is_sec u" by (cases u) (simp_all add: unit_scale_def)
  then have ge: "dec_val ds \<le> dec_val ds * unit_scale is_sec u" by simp
  have IH: "time_loop is_sec u True 0 ?t ?cs =
     (let n = ?t + time_sum is_sec items + dec_val rest * unit_scale is_sec st_sec
      in if n \<le> NGX_MAX_INT_T_VALUE then Some n else None)" if "?t \<le> NGX_MAX_INT_T_VALUE"
    using Cons.prems that by (intro Cons.IH) (auto simp: it)
  show ?case
  proof (cases "dec_val ds \<le> NGX_MAX_INT_T_VALUE")
    case False
    then have "\<not> ?t + x \<le> NGX_MAX_INT_T_VALUE" for x using ge by linarith
    with False show ?thesis
      using time_loop_digits [OF good(2), of 0 is_sec step valid tot "unit_text u @ replicate k SP @ ?cs"]
      by (simp add: it Let_def add.assoc)
  next
    case True
    then show ?thesis using time_loop_digits [OF good(2), of 0 is_sec step valid tot "unit_text u @ replicate k SP @ ?cs"]
      time_loop_unit [OF good(3,4) cs, of "dec_val ds" tot True k] Cons.prems(4) IH good(1)
    by (auto simp: it Let_def add.assoc)
  qed
qed

text \<open>
  C29. A time of the configuration, written as numbers with units in decreasing order of size and
  possibly a plain number of seconds at the end, is read as the exact sum in seconds
  (\<open>is_sec\<close>) or in milliseconds; it is refused exactly when that sum does not fit \<open>ngx_int_t\<close>.
\<close>

theorem parse_time_exact:
  assumes "list_all (good_item is_sec) items"
    and "sorted_wrt (<) (map (fst \<circ> snd) items)"
    and "list_all is_digit rest" and "items \<noteq> [] \<or> rest \<noteq> []"
  shows "ngx_parse_time (time_text items @ rest) is_sec =
     (let n = time_sum is_sec items + dec_val rest * (if is_sec then 1 else 1000)
      in if n \<le> NGX_MAX_INT_T_VALUE then Some n else None)"
proof -
  let ?s = "if is_sec then st_start else st_month"
  have "u \<in> time_units is_sec \<Longrightarrow> ?s < u" for u
    by (auto simp: time_units_def time_order split: if_splits)
  then have "sorted_wrt (<) (?s # map (fst \<circ> snd) items)"
    using assms(1,2) by (auto simp: good_item_def list_all_iff)
  from time_loop_items [OF assms(1) this assms(3), of 0 False] assms(4) show ?thesis
    by (simp add: ngx_parse_time_def unit_scale_def)
qed

theorem parse_time_exact_witness:
  "ngx_parse_time (bytes ''1d 2h30m15'') True = Some 95415"
proof -
  let ?items = "[(bytes ''1'', st_day, 1), (bytes ''2'', st_hour, 0), (bytes ''30'', st_min, 0)]"
  have "list_all (good_item True) ?items" "sorted_wrt (<) (map (fst \<circ> snd) ?items)"
    by (simp_all add: good_item_def time_units_def time_order is_digit_def)
  from parse_time_exact [OF this, of "bytes ''15''"] show ?thesis
    by (simp add: is_digit_def digit_val_def unit_scale_def NGX_MAX_INT_T_VALUE_def)
qed

section \<open>Fixed point and hexadecimal numbers\<close>

lemma dec_from_append [simp]: "dec_from v (ds @ cs) = dec_from (dec_from v ds) cs"
  by (simp add: dec_from_def)

lemma not_le_mult_power: "\<not> v \<le> M \<Longrightarrow> v \<le> w \<Longrightarrow> \<not> w * 10 ^ k \<le> (M :: nat)"
proof -
  have "w * 1 \<le> w * 10 ^ k" by (rule mult_le_mono2) simp
  moreover assume "\<not> v \<le> M" "v \<le> w"
  ultimately show ?thesis by linarith
qed

lemma atofp_scale_eq:
  "v \<le> M \<Longrightarrow> atofp_scale (M div 10) v k = (if v * 10 ^ k \<le> M then Some (v * 10 ^ k) else None)"
proof (induction k arbitrary: v)
  case (Suc k)
  have *: "M div 10 < v \<longleftrightarrow> M < v * 10" by linarith
  show ?case
  proof (cases "v * 10 \<le> M")
    case True
    with Suc.IH [OF True] * show ?thesis by (simp add: mult.assoc)
  next
    case False
    then have "\<not> v * 10 * 10 ^ k \<le> M" by (rule not_le_mult_power) simp
    with False * show ?thesis by (simp add: mult.assoc)
  qed
qed simp

text \<open>The digits before the point.\<close>

lemma atofp_loop_int:
  "list_all is_digit ds \<Longrightarrow> 0 < point \<Longrightarrow> v \<le> M \<Longrightarrow>
   atofp_loop (M div 10) (M mod 10) False point v (ds @ cs) =
     (if dec_from v ds \<le> M then atofp_loop (M div 10) (M mod 10) False point (dec_from v ds) cs else None)"
proof (induction ds arbitrary: v)
  case (Cons c ds)
  have c: "is_digit c" "c \<noteq> B CHR ''.''" using Cons.prems by (auto simp: is_digit_def)
  show ?case
  proof (cases "v * 10 + digit_val c \<le> M")
    case True
    with Cons c show ?thesis by (simp add: ato_guard)
  next
    case False
    with Cons.prems c dec_from_ge [of "v * 10 + digit_val c" ds] show ?thesis by (simp add: ato_guard)
  qed
qed simp

text \<open>The digits after it: one too many is refused.\<close>

lemma atofp_loop_frac:
  "list_all is_digit fs \<Longrightarrow> v \<le> M \<Longrightarrow>
   atofp_loop (M div 10) (M mod 10) True point v fs =
     (let n = dec_from v fs * 10 ^ (point - length fs)
      in if length fs \<le> point \<and> n \<le> M then Some n else None)"
proof (induction fs arbitrary: v point)
  case Nil
  then show ?case by (simp add: atofp_scale_eq)
next
  case (Cons c fs)
  have c: "is_digit c" "c \<noteq> B CHR ''.''" using Cons.prems by (auto simp: is_digit_def)
  show ?case
  proof (cases "v * 10 + digit_val c \<le> M")
    case True
    show ?thesis
    proof (cases point)
      case (Suc n)
      then show ?thesis using Cons.IH [OF _ True, of n] Cons.prems c True by (simp add: ato_guard)
    qed (simp add: Let_def)
  next
    case False
    from not_le_mult_power [OF False dec_from_ge]
    have "\<not> dec_from (v * 10 + digit_val c) fs * 10 ^ (point - Suc (length fs)) \<le> M" .
    with False c show ?thesis by (simp add: ato_guard Let_def)
  qed
qed

text \<open>
  A fixed point number \<open>ds.fs\<close> with \<open>point\<close> decimal places is read as the integer
  \<open>ds.fs * 10 ^ point\<close>, exactly; it is refused exactly when it has more decimal places than that or
  when the integer does not fit \<open>ngx_int_t\<close>.
\<close>

lemma atofp_exact:
  assumes "list_all is_digit ds" "list_all is_digit fs" "0 < point"
  shows "ngx_atofp (ds @ B CHR ''.'' # fs) point =
     (let n = dec_val (ds @ fs) * 10 ^ (point - length fs)
      in if length fs \<le> point \<and> n \<le> NGX_MAX_INT_T_VALUE then Some n else None)"
proof -
  let ?M = NGX_MAX_INT_T_VALUE
  have "\<not> dec_val ds \<le> ?M \<Longrightarrow> \<not> dec_val (ds @ fs) * 10 ^ (point - length fs) \<le> ?M"
    using not_le_mult_power [OF _ dec_from_ge] by simp
  with assms show ?thesis
    by (auto simp: ngx_atofp_def atofp_loop_int atofp_loop_frac Let_def)
qed

text \<open>Hexadecimal digits of both cases, and the value of a string of them.\<close>

definition is_xdigit :: "byte \<Rightarrow> bool" where
  "is_xdigit c \<longleftrightarrow> is_digit c \<or> is_hex_alpha c"

definition xdigit_val :: "byte \<Rightarrow> nat" where
  "xdigit_val c = (if is_digit c then digit_val c else unat (hex_alpha_val c) + 10)"

definition hex_from :: "nat \<Rightarrow> byte list \<Rightarrow> nat" where
  "hex_from v ds = foldl (\<lambda>v c. v * 16 + xdigit_val c) v ds"

lemma hex_from_simps [simp]:
  "hex_from v [] = v"
  "hex_from v (c # cs) = hex_from (v * 16 + xdigit_val c) cs"
  by (simp_all add: hex_from_def)

lemma hex_from_ge: "v \<le> hex_from v ds"
proof (induction ds arbitrary: v)
  case (Cons c ds)
  from Cons.IH [of "v * 16 + xdigit_val c"] show ?case by simp
qed simp

lemma xdigit_val_less: "is_xdigit c \<Longrightarrow> xdigit_val c < 16"
  using digit_val_le [of c] hex_digit_bounds(2) [of c] by (auto simp: is_xdigit_def xdigit_val_def simp del: digit_val_le)

lemma hextoi_loop_eq:
  "v \<le> NGX_MAX_INT_T_VALUE \<Longrightarrow> hextoi_loop (NGX_MAX_INT_T_VALUE div 16) v ds =
     (if list_all is_xdigit ds \<and> hex_from v ds \<le> NGX_MAX_INT_T_VALUE then Some (hex_from v ds) else None)"
proof (induction ds arbitrary: v)
  case (Cons c ds)
  let ?v = "v * 16 + xdigit_val c"
  have step: "hextoi_loop K v (c # ds) = (if K < v \<or> \<not> is_xdigit c then None else hextoi_loop K ?v ds)" for K
    by (simp add: is_xdigit_def xdigit_val_def)
  show ?case
  proof (cases "is_xdigit c")
    case True
    then have guard: "NGX_MAX_INT_T_VALUE div 16 < v \<longleftrightarrow> NGX_MAX_INT_T_VALUE < ?v"
      using xdigit_val_less [OF True] by (simp add: NGX_MAX_INT_T_VALUE_def) linarith
    show ?thesis
      using Cons.IH [of ?v] hex_from_ge [of ?v ds] True unfolding step by (auto simp: guard)
  qed (simp add: is_xdigit_def)
qed simp

text \<open>
  \<open>ngx_hextoi\<close> reads exactly the non-empty strings of hexadecimal digits whose value fits
  \<open>ngx_int_t\<close>, and returns that value; everything else is \<open>NGX_ERROR\<close>.
\<close>

lemma hextoi_exact:
  "ngx_hextoi line =
     (if line \<noteq> [] \<and> list_all is_xdigit line \<and> hex_from 0 line \<le> NGX_MAX_INT_T_VALUE
      then Some (hex_from 0 line) else None)"
  by (simp add: ngx_hextoi_def hextoi_loop_eq)

end
