(* ===== verification/Ngx_Escape.thy ===== *)
theory Ngx_Escape
  imports Ngx_Prelude
begin

unbundle bit_operations_syntax

text \<open>
  Escaping of strings in \<^verbatim>\<open>src/core/ngx_string.c\<close>: \<open>ngx_escape_uri\<close>, \<open>ngx_unescape_uri\<close>,
  \<open>ngx_escape_html\<close> and \<open>ngx_escape_json\<close>. Each escaper is called twice by its users: with
  \<open>dst == NULL\<close> it only counts, so that the caller can allocate the result, and then it writes.
  The two calls are two definitions here, and the locale \<open>counted_escaper\<close> is the contract
  between them. The bytes a function writes at \<open>dst\<close> are its result.
\<close>

section \<open>ngx_escape_uri\<close>

datatype ngx_escape_type =
    NGX_ESCAPE_URI | NGX_ESCAPE_ARGS | NGX_ESCAPE_URI_COMPONENT | NGX_ESCAPE_HTML
  | NGX_ESCAPE_REFRESH | NGX_ESCAPE_MEMCACHED | NGX_ESCAPE_MAIL_AUTH

text \<open>The bitmaps, and \<open>map[]\<close>: the one that a type selects.\<close>

definition escape_uri_tab :: "32 word list" where
  "escape_uri_tab = [0xffffffff, 0xd000002d, 0x50000000, 0xb8000001,
                     0xffffffff, 0xffffffff, 0xffffffff, 0xffffffff]"

definition escape_args_tab :: "32 word list" where
  "escape_args_tab = [0xffffffff, 0xd800086d, 0x50000000, 0xb8000001,
                      0xffffffff, 0xffffffff, 0xffffffff, 0xffffffff]"

definition escape_uri_component_tab :: "32 word list" where
  "escape_uri_component_tab = [0xffffffff, 0xfc009fff, 0x78000001, 0xb8000001,
                               0xffffffff, 0xffffffff, 0xffffffff, 0xffffffff]"

definition escape_html_tab :: "32 word list" where
  "escape_html_tab = [0xffffffff, 0x500000ad, 0x50000000, 0xb8000001,
                      0xffffffff, 0xffffffff, 0xffffffff, 0xffffffff]"

definition escape_refresh_tab :: "32 word list" where
  "escape_refresh_tab = [0xffffffff, 0x50000085, 0x50000000, 0xd8000001,
                         0xffffffff, 0xffffffff, 0xffffffff, 0xffffffff]"

definition escape_memcached_tab :: "32 word list" where
  "escape_memcached_tab = [0xffffffff, 0x00000021, 0x00000000, 0x00000000,
                           0x00000000, 0x00000000, 0x00000000, 0x00000000]"

fun escape_map :: "ngx_escape_type \<Rightarrow> 32 word list" where
  "escape_map NGX_ESCAPE_URI = escape_uri_tab"
| "escape_map NGX_ESCAPE_ARGS = escape_args_tab"
| "escape_map NGX_ESCAPE_URI_COMPONENT = escape_uri_component_tab"
| "escape_map NGX_ESCAPE_HTML = escape_html_tab"
| "escape_map NGX_ESCAPE_REFRESH = escape_refresh_tab"
| "escape_map NGX_ESCAPE_MEMCACHED = escape_memcached_tab"
| "escape_map NGX_ESCAPE_MAIL_AUTH = escape_memcached_tab"

text \<open>The test \<open>escape[*src >> 5] & (1U << (*src & 0x1f))\<close>.\<close>

definition escape_bit :: "32 word list \<Rightarrow> byte \<Rightarrow> bool" where
  "escape_bit escape c \<longleftrightarrow> escape ! unat (drop_bit 5 c) AND push_bit (unat (c AND 0x1f)) 1 \<noteq> 0"

definition hex_upper :: "byte list" where
  "hex_upper = bytes ''0123456789ABCDEF''"

text \<open>With \<open>dst == NULL\<close>: the number of characters to be escaped.\<close>

fun escape_uri_count_loop :: "32 word list \<Rightarrow> byte list \<Rightarrow> nat \<Rightarrow> nat" where
  "escape_uri_count_loop escape [] n = n"
| "escape_uri_count_loop escape (c # src) n =
     escape_uri_count_loop escape src (if escape_bit escape c then n + 1 else n)"

definition ngx_escape_uri_count :: "byte list \<Rightarrow> ngx_escape_type \<Rightarrow> nat" where
  "ngx_escape_uri_count src type = escape_uri_count_loop (escape_map type) src 0"

text \<open>With \<open>dst\<close>: the bytes written.\<close>

fun escape_uri_loop :: "32 word list \<Rightarrow> byte list \<Rightarrow> byte list \<Rightarrow> byte list" where
  "escape_uri_loop escape [] dst = dst"
| "escape_uri_loop escape (c # src) dst =
     escape_uri_loop escape src
       (if escape_bit escape c
        then dst @ [B CHR ''%'', hex_upper ! unat (drop_bit 4 c), hex_upper ! unat (c AND 0xf)]
        else dst @ [c])"

definition ngx_escape_uri :: "byte list \<Rightarrow> ngx_escape_type \<Rightarrow> byte list" where
  "ngx_escape_uri src type = escape_uri_loop (escape_map type) src []"

section \<open>ngx_unescape_uri\<close>

abbreviation NGX_UNESCAPE_URI :: "64 word" where "NGX_UNESCAPE_URI \<equiv> 1"
abbreviation NGX_UNESCAPE_REDIRECT :: "64 word" where "NGX_UNESCAPE_REDIRECT \<equiv> 2"

datatype us_state = us_sw_usual | us_sw_quoted | us_sw_quoted_second

text \<open>The variables of the loop: \<open>state\<close>, \<open>decoded\<close> and the bytes written so far.\<close>

record us_vars =
  us_st :: us_state
  us_decoded :: byte
  us_d :: "byte list"

definition us_put :: "byte list \<Rightarrow> us_vars \<Rightarrow> us_vars" where
  "us_put bs v = v\<lparr>us_d := us_d v @ bs\<rparr>"

definition us_usual :: "64 word \<Rightarrow> byte \<Rightarrow> us_vars \<Rightarrow> (us_vars, us_vars) ctl" where
  "us_usual type ch v =
     (if ch = B CHR ''?'' \<and> type AND (NGX_UNESCAPE_URI OR NGX_UNESCAPE_REDIRECT) \<noteq> 0
      then Exit (us_put [ch] v)
      else if ch = B CHR ''%'' then Next (v\<lparr>us_st := us_sw_quoted\<rparr>)
      else Next (us_put [ch] v))"

definition us_quoted :: "byte \<Rightarrow> us_vars \<Rightarrow> (us_vars, us_vars) ctl" where
  "us_quoted ch v =
     (if is_digit ch then Next (v\<lparr>us_decoded := ch - B CHR ''0'', us_st := us_sw_quoted_second\<rparr>)
      else if is_hex_alpha ch then Next (v\<lparr>us_decoded := hex_alpha_val ch + 10, us_st := us_sw_quoted_second\<rparr>)
      else Next (us_put [ch] (v\<lparr>us_st := us_sw_usual\<rparr>)))"

text \<open>\<open>prev\<close> is \<open>*(s - 2)\<close>, the first digit of the sequence.\<close>

definition us_quoted_second :: "64 word \<Rightarrow> byte \<Rightarrow> byte \<Rightarrow> us_vars \<Rightarrow> (us_vars, us_vars) ctl" where
  "us_quoted_second type prev ch0 v0 =
     (let v = v0\<lparr>us_st := us_sw_usual\<rparr> in
      if is_digit ch0 then
        (let ch = push_bit 4 (us_decoded v) + (ch0 - B CHR ''0'') in
         if type AND NGX_UNESCAPE_REDIRECT \<noteq> 0 then
           (if B CHR ''%'' < ch \<and> ch < 0x7f then Next (us_put [ch] v)
            else Next (us_put [B CHR ''%'', prev, ch0] v))
         else Next (us_put [ch] v))
      else if is_hex_alpha ch0 then
        (let ch = push_bit 4 (us_decoded v) + hex_alpha_val ch0 + 10 in
         if type AND NGX_UNESCAPE_URI \<noteq> 0 then
           (if ch = B CHR ''?'' then Exit (us_put [ch] v) else Next (us_put [ch] v))
         else if type AND NGX_UNESCAPE_REDIRECT \<noteq> 0 then
           (if ch = B CHR ''?'' then Exit (us_put [ch] v)
            else if B CHR ''%'' < ch \<and> ch < 0x7f then Next (us_put [ch] v)
            else Next (us_put [B CHR ''%'', prev, ch0] v))
         else Next (us_put [ch] v))
      else Next v)"

definition us_step :: "64 word \<Rightarrow> byte list \<Rightarrow> nat \<Rightarrow> byte \<Rightarrow> us_vars \<Rightarrow> (us_vars, us_vars) ctl" where
  "us_step type src p ch v =
     (case us_st v of
        us_sw_usual \<Rightarrow> us_usual type ch v
      | us_sw_quoted \<Rightarrow> us_quoted ch v
      | us_sw_quoted_second \<Rightarrow> us_quoted_second type (src ! (p - 1)) ch v)"

text \<open>The bytes written, and how many bytes of \<open>src\<close> were consumed.\<close>

definition ngx_unescape_uri :: "byte list \<Rightarrow> 64 word \<Rightarrow> byte list \<times> nat" where
  "ngx_unescape_uri src type =
     (case scan (us_step type src) 0 src \<lparr>us_st = us_sw_usual, us_decoded = 0, us_d = []\<rparr> of
        (p, Next v) \<Rightarrow> (us_d v, p)
      | (p, Exit v) \<Rightarrow> (us_d v, p + 1))"

section \<open>ngx_escape_html and ngx_escape_json\<close>

fun escape_html_count_loop :: "byte list \<Rightarrow> nat \<Rightarrow> nat" where
  "escape_html_count_loop [] len = len"
| "escape_html_count_loop (c # src) len =
     escape_html_count_loop src
       (if c = B CHR ''<'' then len + 3
        else if c = B CHR ''>'' then len + 3
        else if c = B CHR ''&'' then len + 4
        else if c = B CHR 0x22 then len + 5
        else len)"

definition ngx_escape_html_count :: "byte list \<Rightarrow> nat" where
  "ngx_escape_html_count src = escape_html_count_loop src 0"

fun escape_html_loop :: "byte list \<Rightarrow> byte list \<Rightarrow> byte list" where
  "escape_html_loop [] dst = dst"
| "escape_html_loop (ch # src) dst =
     escape_html_loop src
       (if ch = B CHR ''<'' then dst @ bytes ''&lt;''
        else if ch = B CHR ''>'' then dst @ bytes ''&gt;''
        else if ch = B CHR ''&'' then dst @ bytes ''&amp;''
        else if ch = B CHR 0x22 then dst @ bytes ''&quot;''
        else dst @ [ch])"

definition ngx_escape_html :: "byte list \<Rightarrow> byte list" where
  "ngx_escape_html src = escape_html_loop src []"

text \<open>\<open>\n\<close>, \<open>\r\<close>, \<open>\t\<close>, \<open>\b\<close> and \<open>\f\<close>.\<close>

fun escape_json_count_loop :: "byte list \<Rightarrow> nat \<Rightarrow> nat" where
  "escape_json_count_loop [] len = len"
| "escape_json_count_loop (ch # src) len =
     escape_json_count_loop src
       (if ch = 0x5c \<or> ch = 0x22 then len + 1
        else if ch \<le> 0x1f then
          (if ch = LF \<or> ch = CR \<or> ch = 0x09 \<or> ch = 0x08 \<or> ch = 0x0c then len + 1 else len + 5)
        else len)"

definition ngx_escape_json_count :: "byte list \<Rightarrow> nat" where
  "ngx_escape_json_count src = escape_json_count_loop src 0"

fun escape_json_loop :: "byte list \<Rightarrow> byte list \<Rightarrow> byte list" where
  "escape_json_loop [] dst = dst"
| "escape_json_loop (ch # src) dst =
     escape_json_loop src
       (if 0x1f < ch then (if ch = 0x5c \<or> ch = 0x22 then dst @ [0x5c, ch] else dst @ [ch])
        else if ch = LF then dst @ [0x5c, B CHR ''n'']
        else if ch = CR then dst @ [0x5c, B CHR ''r'']
        else if ch = 0x09 then dst @ [0x5c, B CHR ''t'']
        else if ch = 0x08 then dst @ [0x5c, B CHR ''b'']
        else if ch = 0x0c then dst @ [0x5c, B CHR ''f'']
        else
          let lo = ch AND 0xf in
          dst @ [0x5c, B CHR ''u'', B CHR ''0'', B CHR ''0'', B CHR ''0'' + drop_bit 4 ch,
                 (if lo < 10 then B CHR ''0'' + lo else B CHR ''A'' + lo - 10)])"

definition ngx_escape_json :: "byte list \<Rightarrow> byte list" where
  "ngx_escape_json src = escape_json_loop src []"

section \<open>The contract of the two passes\<close>

text \<open>
  An escaper works byte by byte; \<open>extra\<close> says by how much a byte grows, and a byte that does not
  grow is copied. The caller allocates \<open>size + extra\<close> bytes, and copies when \<open>extra\<close> is zero.
\<close>

locale counted_escaper =
  fixes escape :: "byte list \<Rightarrow> byte list" and extra :: "byte list \<Rightarrow> nat"
  assumes escape_Nil: "escape [] = []"
    and escape_Cons: "escape (c # s) = escape [c] @ escape s"
    and extra_Nil: "extra [] = 0"
    and extra_Cons: "extra (c # s) = extra [c] + extra s"
    and length_single: "length (escape [c]) = 1 + extra [c]"
    and escape_single: "extra [c] = 0 \<Longrightarrow> escape [c] = [c]"
begin

lemma escape_append: "escape (s @ t) = escape s @ escape t"
proof (induction s)
  case (Cons c s)
  then show ?case using escape_Cons [of c "s @ t"] escape_Cons [of c s] by simp
qed (simp add: escape_Nil)

lemma length_escape: "length (escape s) = length s + extra s"
proof (induction s)
  case (Cons c s)
  then show ?case using escape_Cons [of c s] extra_Cons [of c s] length_single [of c] by simp
qed (simp add: escape_Nil extra_Nil)

lemma escape_id: "extra s = 0 \<longleftrightarrow> escape s = s"
proof
  show "extra s = 0 \<Longrightarrow> escape s = s"
  proof (induction s)
    case (Cons c s)
    then show ?case using escape_Cons [of c s] extra_Cons [of c s] escape_single [of c] by simp
  qed (rule escape_Nil)
next
  assume "escape s = s"
  then show "extra s = 0" using length_escape [of s] by simp
qed

text \<open>What holds of the escape of every byte holds of the whole output.\<close>

lemma escape_all: "(\<And>c. list_all P (escape [c])) \<Longrightarrow> list_all P (escape s)"
proof (induction s)
  case (Cons c s)
  then show ?case using escape_Cons [of c s] by simp
qed (simp add: escape_Nil)

end

lemma escape_uri_loop_acc: "escape_uri_loop e s (d @ d') = d @ escape_uri_loop e s d'"
  by (induction s arbitrary: d') simp_all

lemma escape_uri_count_acc: "escape_uri_count_loop e s (n + m) = n + escape_uri_count_loop e s m"
proof (induction s arbitrary: m)
  case (Cons c s)
  then show ?case using Cons.IH [of "m + 1"] by simp
qed simp

lemma escape_html_loop_acc: "escape_html_loop s (d @ d') = d @ escape_html_loop s d'"
  by (induction s arbitrary: d') simp_all

lemma escape_html_count_acc: "escape_html_count_loop s (n + m) = n + escape_html_count_loop s m"
  by (induction s arbitrary: m) (simp_all add: add.assoc)

lemma escape_json_loop_acc: "escape_json_loop s (d @ d') = d @ escape_json_loop s d'"
  by (induction s arbitrary: d') (simp_all add: Let_def)

lemma escape_json_count_acc: "escape_json_count_loop s (n + m) = n + escape_json_count_loop s m"
proof (induction s arbitrary: m)
  case (Cons c s)
  then show ?case using Cons.IH [of "m + 1"] Cons.IH [of "m + 5"] by (simp add: add.assoc)
qed simp

lemmas escape_accs =
  escape_uri_loop_acc [of _ _ _ "[]", simplified] escape_uri_count_acc [of _ _ _ 0, simplified]
  escape_html_loop_acc [of _ _ "[]", simplified] escape_html_count_acc [of _ _ 0, simplified]
  escape_json_loop_acc [of _ _ "[]", simplified] escape_json_count_acc [of _ _ 0, simplified]

interpretation uri: counted_escaper "\<lambda>s. ngx_escape_uri s type" "\<lambda>s. 2 * ngx_escape_uri_count s type" for type
proof (unfold_locales, goal_cases)
  case (2 c s)
  then show ?case
    using escape_accs(1) [of "escape_map type" s "[c]"]
      escape_accs(1) [of "escape_map type" s "[B CHR ''%'', hex_upper ! unat (drop_bit 4 c), hex_upper ! unat (c AND 0xf)]"]
    by (simp add: ngx_escape_uri_def)
next
  case (4 c s)
  then show ?case using escape_accs(2) [of "escape_map type" s 1] by (simp add: ngx_escape_uri_count_def)
qed (simp_all add: ngx_escape_uri_def ngx_escape_uri_count_def split: if_splits)

interpretation html: counted_escaper ngx_escape_html ngx_escape_html_count
proof (unfold_locales, goal_cases)
  case (2 c s)
  then show ?case by (simp add: ngx_escape_html_def escape_accs(3) [of s "_ # _"])
next
  case (4 c s)
  then show ?case
    using escape_accs(4) [of s 3] escape_accs(4) [of s 4] escape_accs(4) [of s 5]
    by (simp add: ngx_escape_html_count_def)
qed (simp_all add: ngx_escape_html_def ngx_escape_html_count_def split: if_splits)

interpretation json: counted_escaper ngx_escape_json ngx_escape_json_count
proof (unfold_locales, goal_cases)
  case (2 c s)
  then show ?case by (simp add: ngx_escape_json_def Let_def escape_accs(5) [of s "_ # _"])
next
  case (4 c s)
  then show ?case
    using escape_accs(6) [of s 1] escape_accs(6) [of s 5] by (simp add: ngx_escape_json_count_def)
qed (auto simp: ngx_escape_json_def ngx_escape_json_count_def Let_def not_le not_less split: if_splits)

text \<open>
  The counting call of every escaper announces the exact size of the result, so a buffer of
  \<open>size + 2 * n\<close> bytes for URIs (\<open>size + n\<close> for HTML and JSON) is filled exactly, and the count
  is zero exactly when the string may be copied as it is, which is what the callers do.
\<close>

theorem escape_two_pass:
  "length (ngx_escape_uri s type) = length s + 2 * ngx_escape_uri_count s type \<and>
   length (ngx_escape_html s) = length s + ngx_escape_html_count s \<and>
   length (ngx_escape_json s) = length s + ngx_escape_json_count s \<and>
   (ngx_escape_uri_count s type = 0 \<longleftrightarrow> ngx_escape_uri s type = s) \<and>
   (ngx_escape_html_count s = 0 \<longleftrightarrow> ngx_escape_html s = s) \<and>
   (ngx_escape_json_count s = 0 \<longleftrightarrow> ngx_escape_json s = s)"
  using uri.escape_id [of s type] by (simp add: uri.length_escape html.length_escape json.length_escape
    html.escape_id json.escape_id)

section \<open>Unescaping undoes escaping\<close>

abbreviation hex_hi :: "byte \<Rightarrow> byte" where "hex_hi c \<equiv> hex_upper ! unat (drop_bit 4 c)"
abbreviation hex_lo :: "byte \<Rightarrow> byte" where "hex_lo c \<equiv> hex_upper ! unat (c AND 0xf)"

text \<open>The value of a hexadecimal digit as a byte.\<close>

definition hex_byte :: "byte \<Rightarrow> byte" where
  "hex_byte ch = (if is_digit ch then ch - B CHR ''0'' else hex_alpha_val ch + 10)"

lemma hex_upper_nibbles:
  "list_all (\<lambda>n. (is_digit (hex_upper ! n) \<or> is_hex_alpha (hex_upper ! n)) \<and>
                 hex_byte (hex_upper ! n) = word_of_nat n) [0..<16]"
  by code_simp

lemma hex_upper_nibble:
  "n < 16 \<Longrightarrow> (is_digit (hex_upper ! n) \<or> is_hex_alpha (hex_upper ! n)) \<and> hex_byte (hex_upper ! n) = word_of_nat n"
  using hex_upper_nibbles by (simp add: list_all_iff)

lemma byte_nibbles:
  "unat (drop_bit 4 (c :: byte)) < 16" "unat (c AND 0xf) < 16" "push_bit 4 (drop_bit 4 c) + (c AND 0xf) = c"
proof -
  have lo: "c AND 0xf = take_bit 4 c" by (simp add: take_bit_eq_mask mask_eq_exp_minus_1)
  show "unat (drop_bit 4 c) < 16" using less_mult_imp_div_less [of "unat c" 16 16]
    by (simp add: unat_drop_bit_eq drop_bit_eq_div unat_div)
  show "unat (c AND 0xf) < 16" by (simp add: lo take_bit_eq_mod unat_mod)
  show "push_bit 4 (drop_bit 4 c) + (c AND 0xf) = c" by (simp only: lo bits_ident)
qed

lemma hex_pair:
  "(is_digit (hex_hi c) \<or> is_hex_alpha (hex_hi c)) \<and> (is_digit (hex_lo c) \<or> is_hex_alpha (hex_lo c)) \<and>
   push_bit 4 (hex_byte (hex_hi c)) + hex_byte (hex_lo c) = c"
  using hex_upper_nibble [OF byte_nibbles(1) [of c]] hex_upper_nibble [OF byte_nibbles(2) [of c]]
    byte_nibbles(3) [of c] by simp

lemma escape_uri_single:
  "ngx_escape_uri [c] type =
     (if escape_bit (escape_map type) c then [B CHR ''%'', hex_hi c, hex_lo c] else [c])"
  by (simp add: ngx_escape_uri_def)

lemma us_step_quoted:
  "us_st v = us_sw_quoted \<Longrightarrow> is_digit ch \<or> is_hex_alpha ch \<Longrightarrow>
   us_step type src p ch v = Next (v\<lparr>us_decoded := hex_byte ch, us_st := us_sw_quoted_second\<rparr>)"
  by (auto simp: us_step_def us_quoted_def hex_byte_def)

lemma us_step_quoted_second:
  "us_st v = us_sw_quoted_second \<Longrightarrow> is_digit ch \<or> is_hex_alpha ch \<Longrightarrow>
   us_step 0 src p ch v =
     Next (us_put [push_bit 4 (us_decoded v) + hex_byte ch] (v\<lparr>us_st := us_sw_usual\<rparr>))"
  by (auto simp: us_step_def us_quoted_second_def hex_byte_def Let_def add.assoc)

text \<open>The escape of one byte takes the decoder from its initial state back to it.\<close>

lemma unescape_single:
  assumes "us_st v = us_sw_usual" "\<not> escape_bit (escape_map type) c \<Longrightarrow> c \<noteq> B CHR ''%''"
  shows "\<exists>x. scan (us_step 0 src) p (ngx_escape_uri [c] type) v =
           (p + length (ngx_escape_uri [c] type), Next (us_put [c] (v\<lparr>us_decoded := x\<rparr>)))"
proof (cases "escape_bit (escape_map type) c")
  case True
  have "us_step 0 src p (B CHR ''%'') v = Next (v\<lparr>us_st := us_sw_quoted\<rparr>)"
    using assms(1) by (simp add: us_step_def us_usual_def)
  moreover have "v\<lparr>us_st := us_sw_quoted, us_decoded := a, us_st := us_sw_quoted_second, us_st := us_sw_usual\<rparr> =
      v\<lparr>us_decoded := a\<rparr>" for a
    using assms(1) by (cases v) simp
  ultimately show ?thesis
    using True hex_pair [of c]
    by (intro exI [of _ "hex_byte (hex_hi c)"])
      (simp add: escape_uri_single us_step_quoted us_step_quoted_second del: of_char_Char)
next
  case False
  have "us_step 0 src p c v = Next (us_put [c] v)"
    using assms(1) assms(2) [OF False] by (simp add: us_step_def us_usual_def)
  with False show ?thesis
    by (intro exI [of _ "us_decoded v"]) (cases v, simp add: escape_uri_single us_put_def)
qed

lemma unescape_escape_scan:
  assumes "\<And>c. \<not> escape_bit (escape_map type) c \<Longrightarrow> c \<noteq> B CHR ''%''"
  shows "us_st v = us_sw_usual \<Longrightarrow>
    \<exists>x. scan (us_step 0 src) p (ngx_escape_uri s type) v =
      (p + length (ngx_escape_uri s type), Next (us_put s (v\<lparr>us_decoded := x\<rparr>)))"
proof (induction s arbitrary: p v)
  case Nil
  then show ?case
    by (intro exI [of _ "us_decoded v"]) (simp add: uri.escape_Nil us_put_def)
next
  case (Cons c s)
  let ?u = "ngx_escape_uri [c] type" and ?w = "ngx_escape_uri s type"
  obtain x where x: "scan (us_step 0 src) p ?u v = (p + length ?u, Next (us_put [c] (v\<lparr>us_decoded := x\<rparr>)))"
    using unescape_single [OF Cons.prems, where type=type] assms by blast
  have "us_st (us_put [c] (v\<lparr>us_decoded := x\<rparr>)) = us_sw_usual"
    using Cons.prems by (simp add: us_put_def)
  from Cons.IH [OF this] obtain y where
    "scan (us_step 0 src) (p + length ?u) ?w (us_put [c] (v\<lparr>us_decoded := x\<rparr>)) =
      (p + length ?u + length ?w, Next (us_put s (us_put [c] (v\<lparr>us_decoded := x\<rparr>)\<lparr>us_decoded := y\<rparr>)))" by blast
  with x have "scan (us_step 0 src) p (ngx_escape_uri (c # s) type) v =
      (p + length (ngx_escape_uri (c # s) type), Next (us_put s (us_put [c] (v\<lparr>us_decoded := x\<rparr>)\<lparr>us_decoded := y\<rparr>)))"
    using uri.escape_Cons [of c s type] by (simp add: scan_append add.assoc)
  moreover have "us_put s (us_put [c] (v\<lparr>us_decoded := x\<rparr>)\<lparr>us_decoded := y\<rparr>) = us_put (c # s) (v\<lparr>us_decoded := y\<rparr>)"
    by (cases v) (simp add: us_put_def)
  ultimately show ?case by metis
qed

lemma percent_escaped: "type \<noteq> NGX_ESCAPE_REFRESH \<Longrightarrow> escape_bit (escape_map type) (B CHR ''%'')"
  by (cases type) (simp_all; code_simp)+

text \<open>
  C30. Unescaping an escaped string gives the string back and consumes all of it, for every escape
  type that escapes the percent sign, that is for all but \<open>NGX_ESCAPE_REFRESH\<close>.
\<close>

theorem unescape_escape:
  assumes "type \<noteq> NGX_ESCAPE_REFRESH"
  shows "ngx_unescape_uri (ngx_escape_uri s type) 0 = (s, length (ngx_escape_uri s type))"
proof -
  have "\<not> escape_bit (escape_map type) c \<Longrightarrow> c \<noteq> B CHR ''%''" for c
    using percent_escaped [OF assms] by blast
  from unescape_escape_scan [of type, OF this, of "\<lparr>us_st = us_sw_usual, us_decoded = 0, us_d = []\<rparr>"
      "ngx_escape_uri s type" 0 s]
  show ?thesis by (auto simp: ngx_unescape_uri_def us_put_def)
qed

theorem unescape_escape_witness:
  "ngx_escape_uri (bytes ''a b%?'') NGX_ESCAPE_URI = bytes ''a%20b%25%3F'' \<and>
   ngx_unescape_uri (bytes ''a%20b%25%3F'') 0 = (bytes ''a b%?'', 11)"
proof -
  have e: "ngx_escape_uri (bytes ''a b%?'') NGX_ESCAPE_URI = bytes ''a%20b%25%3F''" by code_simp
  with unescape_escape [of NGX_ESCAPE_URI "bytes ''a b%?''"] show ?thesis by simp
qed

section \<open>What the escapers let through\<close>

text \<open>The bitmaps over integers, on which the kernel evaluates them quickly.\<close>

definition tab_bit :: "int list \<Rightarrow> int \<Rightarrow> bool" where
  "tab_bit t x = bit (t ! nat (x div 32)) (nat (x mod 32))"

lemma escape_bit_eq: "length t = 8 \<Longrightarrow> escape_bit t c \<longleftrightarrow> tab_bit (map uint t) (uint c)"
proof -
  assume t: "length t = 8"
  have lo: "c AND 0x1f = take_bit 5 c" by (simp add: take_bit_eq_mask mask_eq_exp_minus_1)
  have n: "unat c div 32 < 8" using less_mult_imp_div_less [of "unat c" 8 32] by simp
  have d: "unat (drop_bit 5 c) = unat c div 32"
    by (simp add: unat_drop_bit_eq drop_bit_eq_div unat_div)
  have m: "unat (c AND 0x1f) = unat c mod 32" by (simp add: lo take_bit_eq_mod unat_mod)
  have "escape_bit t c \<longleftrightarrow> bit (t ! (unat c div 32)) (unat c mod 32)"
    unfolding escape_bit_def d m by (simp add: and_exp_eq_0_iff_not_bit push_bit_eq_mult)
  also have "\<dots> \<longleftrightarrow> bit (uint (t ! (unat c div 32))) (unat c mod 32)"
    by (simp add: bit_uint_iff)
  also have "unat c div 32 = nat (uint c div 32)" by (simp add: nat_div_distrib nat_uint_eq)
  also have "unat c mod 32 = nat (uint c mod 32)" by (simp add: nat_mod_distrib nat_uint_eq)
  finally show ?thesis using t n by (simp add: tab_bit_def nat_uint_eq nat_div_distrib)
qed

lemma byte_all_int: "list_all P [0..255] \<Longrightarrow> P (uint (c :: byte))"
  using uint_lt2p [of c] by (auto simp: list_all_iff)

text \<open>The characters that the comment of \<open>ngx_escape_uri\<close> lists as not allowed in a URI.\<close>

definition uri_forbidden :: "byte \<Rightarrow> bool" where
  "uri_forbidden c \<longleftrightarrow> uint c \<le> 0x20 \<or> 0x7f \<le> uint c \<or>
     uint c \<in> set [0x22, 0x3c, 0x3e, 0x5c, 0x5e, 0x60, 0x7b, 0x7c, 0x7d]"

definition uri_unreserved :: "byte \<Rightarrow> bool" where
  "uri_unreserved c \<longleftrightarrow> (0x30 \<le> uint c \<and> uint c \<le> 0x39) \<or> (0x41 \<le> uint c \<and> uint c \<le> 0x5a) \<or>
     (0x61 \<le> uint c \<and> uint c \<le> 0x7a) \<or> uint c \<in> set [0x2d, 0x2e, 0x5f, 0x7e]"

text \<open>Each bitmap against the comment above it.\<close>

lemma escape_uri_tab: "escape_bit escape_uri_tab c \<longleftrightarrow> uri_forbidden c \<or> uint c \<in> set [0x23, 0x25, 0x3f]"
  unfolding escape_uri_tab_def uri_forbidden_def
  by (subst escape_bit_eq, simp, rule byte_all_int) code_simp

lemma escape_args_tab:
  "escape_bit escape_args_tab c \<longleftrightarrow> uri_forbidden c \<or> uint c \<in> set [0x23, 0x25, 0x26, 0x2b, 0x3b, 0x3f]"
  unfolding escape_args_tab_def uri_forbidden_def
  by (subst escape_bit_eq, simp, rule byte_all_int) code_simp

lemma escape_uri_component_tab: "escape_bit escape_uri_component_tab c \<longleftrightarrow> \<not> uri_unreserved c"
  unfolding escape_uri_component_tab_def uri_unreserved_def
  by (subst escape_bit_eq, simp, rule byte_all_int) code_simp

lemma escape_html_tab: "escape_bit escape_html_tab c \<longleftrightarrow> uri_forbidden c \<or> uint c \<in> set [0x23, 0x25, 0x27]"
  unfolding escape_html_tab_def uri_forbidden_def
  by (subst escape_bit_eq, simp, rule byte_all_int) code_simp

lemma escape_memcached_tab: "escape_bit escape_memcached_tab c \<longleftrightarrow> uint c \<le> 0x20 \<or> uint c = 0x25"
  unfolding escape_memcached_tab_def
  by (subst escape_bit_eq, simp, rule byte_all_int) code_simp

text \<open>
  The bitmap for \<open>Refresh\<close> headers differs from its comment: the bits written beside it are those of
  0xb8000001, the value is 0xd8000001.
\<close>

lemma escape_refresh_tab:
  "escape_bit escape_refresh_tab c \<longleftrightarrow> (uri_forbidden c \<and> uint c \<noteq> 0x7d) \<or> uint c \<in> set [0x27, 0x7e]"
  unfolding escape_refresh_tab_def uri_forbidden_def
  by (subst escape_bit_eq, simp, rule byte_all_int) code_simp

lemma unreserved_not_forbidden: "uri_unreserved c \<Longrightarrow> \<not> uri_forbidden c"
  by (auto simp: uri_unreserved_def uri_forbidden_def)

lemma hex_upper_safe: "n < 16 \<Longrightarrow> \<not> uri_forbidden (hex_upper ! n)"
proof -
  have "list_all (\<lambda>n. \<not> uri_forbidden (hex_upper ! n)) [0..<16]" by code_simp
  then show "n < 16 \<Longrightarrow> \<not> uri_forbidden (hex_upper ! n)" by (simp add: list_all_iff)
qed

lemma escape_uri_safe_single:
  assumes "type \<in> {NGX_ESCAPE_URI, NGX_ESCAPE_ARGS, NGX_ESCAPE_URI_COMPONENT, NGX_ESCAPE_HTML}"
  shows "list_all (\<lambda>c. \<not> uri_forbidden c) (ngx_escape_uri [c] type)"
proof -
  have "\<not> escape_bit (escape_map type) c \<Longrightarrow> \<not> uri_forbidden c"
    using assms unreserved_not_forbidden [of c]
    by (auto simp: escape_uri_tab escape_args_tab escape_uri_component_tab escape_html_tab)
  moreover have "\<not> uri_forbidden (B CHR ''%'')" by code_simp
  ultimately show ?thesis
    by (simp add: escape_uri_single hex_upper_safe byte_nibbles)
qed

text \<open>
  A string escaped as a URI, as an argument, as a URI component or for HTML holds none of the
  characters that are not allowed in a URI: no controls, no spaces, no bytes from 0x7f on, none of
  the listed delimiters; so a name taken from a request cannot end a header line or a quoted
  attribute.
\<close>

theorem escape_uri_safe:
  assumes "type \<in> {NGX_ESCAPE_URI, NGX_ESCAPE_ARGS, NGX_ESCAPE_URI_COMPONENT, NGX_ESCAPE_HTML}"
  shows "list_all (\<lambda>c. \<not> uri_forbidden c) (ngx_escape_uri s type)"
  by (rule uri.escape_all) (rule escape_uri_safe_single [OF assms])

theorem escape_uri_safe_witness:
  "list_all (\<lambda>c. \<not> uri_forbidden c) (ngx_escape_uri (bytes ''x y'' @ [CR, LF]) NGX_ESCAPE_ARGS) \<and>
   ngx_escape_uri (bytes ''x y'' @ [CR, LF]) NGX_ESCAPE_ARGS = bytes ''x%20y%0D%0A''"
proof
  show "list_all (\<lambda>c. \<not> uri_forbidden c) (ngx_escape_uri (bytes ''x y'' @ [CR, LF]) NGX_ESCAPE_ARGS)"
    by (rule escape_uri_safe) simp
qed code_simp

section \<open>HTML text and JSON strings\<close>

text \<open>
  A reader of HTML text between quotes: the four entities stand for their characters, and the
  characters themselves do not occur.
\<close>

function html_text :: "byte list \<Rightarrow> byte list option" where
  "html_text [] = Some []"
| "html_text (c # s) =
     (if c = B CHR ''&'' then
        (if take 3 s = bytes ''lt;'' then map_option (Cons (B CHR ''<'')) (html_text (drop 3 s))
         else if take 3 s = bytes ''gt;'' then map_option (Cons (B CHR ''>'')) (html_text (drop 3 s))
         else if take 4 s = bytes ''amp;'' then map_option (Cons (B CHR ''&'')) (html_text (drop 4 s))
         else if take 5 s = bytes ''quot;'' then map_option (Cons 0x22) (html_text (drop 5 s))
         else None)
      else if c = B CHR ''<'' \<or> c = B CHR ''>'' \<or> c = 0x22 then None
      else map_option (Cons c) (html_text s))"
  by pat_completeness auto
termination by (relation "measure length") auto

text \<open>
  A reader of the inside of a JSON string (RFC 8259), where \<open>\u\<close> escapes stand for ASCII characters.
\<close>

definition json_short :: "byte \<Rightarrow> byte option" where
  "json_short e = map_of [(0x22, 0x22), (0x5c, 0x5c), (0x2f, 0x2f), (B CHR ''b'', 0x08), (B CHR ''f'', 0x0c),
                          (B CHR ''n'', LF), (B CHR ''r'', CR), (B CHR ''t'', 0x09)] e"

definition json_unicode :: "byte list \<Rightarrow> byte option" where
  "json_unicode s = (case s of [a, b, h, l] \<Rightarrow>
       (if a = B CHR ''0'' \<and> b = B CHR ''0'' \<and> (is_digit h \<and> hex_byte h < 8) \<and> (is_digit l \<or> is_hex_alpha l)
        then Some (16 * hex_byte h + hex_byte l) else None)
     | _ \<Rightarrow> None)"

function json_string :: "byte list \<Rightarrow> byte list option" where
  "json_string [] = Some []"
| "json_string (c # s) =
     (if c < 0x20 \<or> c = 0x22 then None
      else if c \<noteq> 0x5c then map_option (Cons c) (json_string s)
      else if s = [] then None
      else if hd s = B CHR ''u'' then
        (case json_unicode (take 4 (tl s)) of
           None \<Rightarrow> None | Some x \<Rightarrow> map_option (Cons x) (json_string (drop 4 (tl s))))
      else (case json_short (hd s) of
           None \<Rightarrow> None | Some x \<Rightarrow> map_option (Cons x) (json_string (tl s))))"
  by pat_completeness auto
termination by (relation "measure length") auto

lemma html_text_single: "html_text (ngx_escape_html [c] @ t) = map_option (Cons c) (html_text t)"
  by (simp add: ngx_escape_html_def)

lemma json_unicode_all:
  "list_all (\<lambda>n. let ch = word_of_nat n :: byte; lo = ch AND 0xf in
     json_unicode [B CHR ''0'', B CHR ''0'', B CHR ''0'' + drop_bit 4 ch,
                   (if lo < 10 then B CHR ''0'' + lo else B CHR ''A'' + lo - 10)] = Some ch) [0..<32]"
  by code_simp

lemma json_unicode_control:
  assumes "ch \<le> 0x1f"
  shows "json_unicode [B CHR ''0'', B CHR ''0'', B CHR ''0'' + drop_bit 4 ch,
           (if ch AND 0xf < 10 then B CHR ''0'' + (ch AND 0xf) else B CHR ''A'' + (ch AND 0xf) - 10)] = Some ch"
proof -
  have "unat ch \<in> set [0..<32]" using assms by (simp add: word_le_nat_alt)
  with json_unicode_all show ?thesis unfolding list_all_iff Let_def by fastforce
qed

lemma json_string_single: "json_string (ngx_escape_json [c] @ t) = map_option (Cons c) (json_string t)"
proof (cases "c \<le> 0x1f")
  case True
  then have "\<not> 0x1f < c" by simp
  with json_unicode_control [OF True] show ?thesis
    by (simp add: ngx_escape_json_def Let_def json_short_def)
next
  case False
  then have "0x1f < c" "\<not> c < 0x20" by (simp_all add: word_le_nat_alt word_less_nat_alt)
  then show ?thesis by (simp add: ngx_escape_json_def json_short_def)
qed

text \<open>
  The escaped forms are well formed and mean the original: a reader of HTML text that accepts
  no raw delimiter, and a reader of JSON strings that accepts no raw quote, backslash or control
  character, both accept the output and return the input.
\<close>

theorem escape_html_json_roundtrip:
  "html_text (ngx_escape_html s) = Some s \<and> json_string (ngx_escape_json s) = Some s"
proof (induction s)
  case (Cons c s)
  then show ?case
    using html.escape_Cons [of c s] json.escape_Cons [of c s]
    by (simp add: html_text_single json_string_single)
qed (simp add: html.escape_Nil json.escape_Nil)

section \<open>Unescaping in place\<close>

text \<open>
  How far the output may be behind the input in each state: callers pass the same memory as source
  and destination, so a byte may be written only where it has been read.
\<close>

fun us_room :: "us_state \<Rightarrow> nat" where
  "us_room us_sw_usual = 0" | "us_room us_sw_quoted = 1" | "us_room us_sw_quoted_second = 2"

definition us_inv :: "byte list \<Rightarrow> nat \<Rightarrow> us_vars \<Rightarrow> bool" where
  "us_inv src p v \<longleftrightarrow> length (us_d v) + us_room (us_st v) \<le> p"

interpretation unescape: scan_invariant "us_step type" us_inv "\<lambda>src p v. length (us_d v) \<le> p + 1" for type
  by unfold_locales
    (auto simp: us_step_def us_usual_def us_quoted_def us_quoted_second_def us_inv_def us_put_def Let_def
      split: us_state.splits if_splits)

text \<open>
  \<open>ngx_unescape_uri\<close> may work in place: what it has written is never longer than what it has
  consumed, and it consumes no more than it was given, for every flag.
\<close>

theorem unescape_in_place:
  "length (fst (ngx_unescape_uri src type)) \<le> snd (ngx_unescape_uri src type) \<and>
   snd (ngx_unescape_uri src type) \<le> length src"
proof -
  let ?v = "\<lparr>us_st = us_sw_usual, us_decoded = 0, us_d = []\<rparr>"
  obtain p c where r: "scan (us_step type src) 0 src ?v = (p, c)" by fastforce
  then have "scan (us_step type src) 0 (drop 0 src) ?v = (p, c)" by simp
  from unescape.scan_drop [OF _ _ this] show ?thesis
    by (auto simp: ngx_unescape_uri_def r us_inv_def split: ctl.splits)
qed

end
