(* ===== verification/Ngx_Http_Args.thy ===== *)
theory Ngx_Http_Args
  imports Ngx_Http_Request_Line Ngx_Escape
begin

unbundle bit_operations_syntax

text \<open>
  Arguments and redirect targets in \<^verbatim>\<open>src/http/ngx_http_parse.c\<close>: \<open>ngx_http_arg\<close> with the string
  searches it uses (\<^verbatim>\<open>src/core/ngx_string.c\<close>), \<open>ngx_http_split_args\<close>, and
  \<open>ngx_http_parse_unsafe_uri\<close>, which vets the target of an internal redirect; then
  \<open>ngx_http_parse_uri\<close>, related to the request line parser, and the look-up of a value in the lines of
  a header (\<open>ngx_http_parse_multi_header_lines\<close>, \<open>ngx_http_parse_set_cookie_lines\<close>). A pointer is an
  offset into the string; a read outside the string is the result \<open>None\<close>, which the lemmas exclude.
\<close>

section \<open>String searches\<close>

text \<open>\<open>(c >= 'A' && c <= 'Z') ? (c | 0x20) : c\<close>.\<close>

definition lowcase :: "byte \<Rightarrow> byte" where
  "lowcase c = (if B CHR ''A'' \<le> c \<and> c \<le> B CHR ''Z'' then c OR 0x20 else c)"

fun ngx_strncasecmp :: "byte list \<Rightarrow> byte list \<Rightarrow> nat \<Rightarrow> int option" where
  "ngx_strncasecmp s1 s2 0 = Some 0"
| "ngx_strncasecmp (c1 # s1) (c2 # s2) (Suc n) =
     (if lowcase c1 = lowcase c2 then
        (if lowcase c1 \<noteq> 0 then ngx_strncasecmp s1 s2 n else Some 0)
      else Some (uint (lowcase c1) - uint (lowcase c2)))"
| "ngx_strncasecmp _ _ (Suc n) = None"

text \<open>\<open>ngx_strlchr(p, last, c)\<close>, where \<open>last\<close> is the end of \<open>s\<close>; \<open>None\<close> is \<open>NULL\<close>.\<close>

function ngx_strlchr :: "byte list \<Rightarrow> nat \<Rightarrow> byte \<Rightarrow> nat option" where
  "ngx_strlchr s p c = (if p < length s then (if s ! p = c then Some p else ngx_strlchr s (p + 1) c) else None)"
  by pat_completeness auto
termination by (relation "measure (\<lambda>(s, p, c). length s - p)") auto

text \<open>
  \<open>ngx_strlcasestrn(s1, last, s2, n)\<close> after \<open>last -= n\<close>, which may point before the string. The
  result is \<open>Some None\<close> for \<open>NULL\<close>.
\<close>

function strlcasestrn_loop :: "byte list \<Rightarrow> nat \<Rightarrow> int \<Rightarrow> byte list \<Rightarrow> nat \<Rightarrow> nat option option" where
  "strlcasestrn_loop s s1 lst s2 n =
     (if int s1 \<ge> lst then Some None
      else if length s \<le> s1 then None
      else if lowcase (s ! s1) \<noteq> lowcase (hd s2) then strlcasestrn_loop s (s1 + 1) lst s2 n
      else case ngx_strncasecmp (drop (s1 + 1) s) (tl s2) n of
             None \<Rightarrow> None
           | Some r \<Rightarrow> if r \<noteq> 0 then strlcasestrn_loop s (s1 + 1) lst s2 n else Some (Some s1))"
  by pat_completeness auto
termination by (relation "measure (\<lambda>(s, s1, lst, s2, n). length s - s1)") auto

definition ngx_strlcasestrn :: "byte list \<Rightarrow> nat \<Rightarrow> int \<Rightarrow> byte list \<Rightarrow> nat \<Rightarrow> nat option option" where
  "ngx_strlcasestrn s s1 lst s2 n = strlcasestrn_loop s s1 (lst - int n) s2 n"

declare ngx_strlchr.simps [simp del] strlcasestrn_loop.simps [simp del]

lemma strlcasestrn_loop_ge: "strlcasestrn_loop s p lst s2 n = Some (Some q) \<Longrightarrow> p \<le> q \<and> q < length s"
proof (induction "length s - p" arbitrary: p rule: less_induct)
  case less
  show ?case
    using less.prems less.hyps [of "p + 1"]
    by (subst (asm) strlcasestrn_loop.simps) (force split: if_splits option.splits)
qed

section \<open>ngx_http_arg and ngx_http_split_args\<close>

text \<open>The result is the return code and the bytes of \<open>value\<close>.\<close>

function arg_loop :: "byte list \<Rightarrow> byte list \<Rightarrow> nat \<Rightarrow> (ngx_int \<times> byte list) option" where
  "arg_loop args name p =
     (let len = length name in
      if p < length args then
        (case ngx_strlcasestrn args p (int (length args) - 1) name (len - 1) of
           None \<Rightarrow> None
         | Some None \<Rightarrow> Some (NGX_DECLINED, [])
         | Some (Some p') \<Rightarrow>
             if length args \<le> p' + len then None
             else if (p' = 0 \<or> args ! (p' - 1) = B CHR ''&'') \<and> args ! (p' + len) = B CHR ''='' then
               (let stop = (case ngx_strlchr args p' (B CHR ''&'') of None \<Rightarrow> length args | Some q \<Rightarrow> q)
                in Some (NGX_OK, slice args (p' + len + 1) stop))
             else arg_loop args name (p' + 1))
      else Some (NGX_DECLINED, []))"
  by pat_completeness auto
termination
proof (relation "measure (\<lambda>(args, name, p). length args - p)", goal_cases)
  case (2 args name p len o1 q)
  then have "p \<le> q \<and> q < length args" by (auto simp: ngx_strlcasestrn_def dest: strlcasestrn_loop_ge)
  then show ?case by auto
qed simp

declare arg_loop.simps [simp del]

definition ngx_http_arg :: "byte list \<Rightarrow> byte list \<Rightarrow> (ngx_int \<times> byte list) option" where
  "ngx_http_arg args name = (if args = [] then Some (NGX_DECLINED, []) else arg_loop args name 0)"

text \<open>The URI and the arguments after the call.\<close>

definition ngx_http_split_args :: "byte list \<Rightarrow> byte list \<times> byte list" where
  "ngx_http_split_args uri =
     (case ngx_strlchr uri 0 (B CHR ''?'') of
        Some p \<Rightarrow> (take p uri, slice uri (p + 1) (length uri))
      | None \<Rightarrow> (uri, []))"

section \<open>ngx_http_parse_unsafe_uri\<close>

abbreviation ngx_path_separator :: "byte \<Rightarrow> bool" where
  "ngx_path_separator c \<equiv> c = B CHR ''/''"

text \<open>The test for a leading \<open>..\<close>, and for \<open>/../\<close> and \<open>/..\<close> at a separator that \<open>p\<close> follows.\<close>

definition leading_dotdot :: "byte list \<Rightarrow> bool" where
  "leading_dotdot p \<longleftrightarrow> p \<noteq> [] \<and> p ! 0 = B CHR ''.'' \<and> length p > 1 \<and> p ! 1 = B CHR ''.'' \<and>
     (length p = 2 \<or> ngx_path_separator (p ! 2))"

definition separator_dotdot :: "byte \<Rightarrow> byte list \<Rightarrow> bool" where
  "separator_dotdot ch p \<longleftrightarrow> ngx_path_separator ch \<and> length p + 1 > 2 \<and>
     p ! 0 = B CHR ''.'' \<and> p ! 1 = B CHR ''.'' \<and> (length p + 1 = 3 \<or> ngx_path_separator (p ! 2))"

text \<open>
  The first loop: \<open>None\<close> is the jump to \<open>unsafe\<close>; otherwise the flag \<open>quoted\<close>, and what follows the
  question mark if the loop was left there.
\<close>

fun unsafe_loop1 :: "bool \<Rightarrow> byte list \<Rightarrow> (bool \<times> byte list option) option" where
  "unsafe_loop1 quoted [] = Some (quoted, None)"
| "unsafe_loop1 quoted (ch # p) =
     (if ch = B CHR ''%'' then unsafe_loop1 True p
      else if usual ch then unsafe_loop1 quoted p
      else if ch = B CHR ''?'' then Some (quoted, Some p)
      else if ch = 0 then None
      else if separator_dotdot ch p then None
      else unsafe_loop1 quoted p)"

text \<open>The second loop, on the unescaped URI.\<close>

fun unsafe_loop2 :: "byte list \<Rightarrow> bool" where
  "unsafe_loop2 [] \<longleftrightarrow> True"
| "unsafe_loop2 (ch # p) \<longleftrightarrow> (if ch = 0 then False else if separator_dotdot ch p then False else unsafe_loop2 p)"

text \<open>
  \<open>alloc\<close> says whether \<open>ngx_pnalloc\<close> succeeds. The result is \<open>None\<close> for \<open>NGX_ERROR\<close>, otherwise
  the URI and the arguments (\<open>None\<close> when \<open>args\<close> is left as it was).
\<close>

definition ngx_http_parse_unsafe_uri :: "bool \<Rightarrow> byte list \<Rightarrow> (byte list \<times> byte list option) option" where
  "ngx_http_parse_unsafe_uri alloc uri =
     (if uri = [] \<or> uri ! 0 = B CHR ''?'' then None
      else if leading_dotdot uri then None
      else case unsafe_loop1 False uri of
             None \<Rightarrow> None
           | Some (quoted, args) \<Rightarrow>
               (let uri' = (case args of None \<Rightarrow> uri | Some a \<Rightarrow> take (length uri - (length a + 1)) uri) in
                if \<not> quoted then Some (uri', args)
                else if \<not> alloc then None
                else let uri'' = fst (ngx_unescape_uri uri' 0) in
                  if leading_dotdot uri'' then None
                  else if unsafe_loop2 uri'' then Some (uri'', args) else None))"

section \<open>Finding an argument\<close>

lemma lowcase_fixed_all: "\<forall>c. (lowcase c = 0 \<longleftrightarrow> c = 0) \<and> (lowcase c = 0x26 \<longleftrightarrow> c = 0x26)"
  unfolding byte_all by code_simp

lemmas lowcase_fixed = lowcase_fixed_all [rule_format]

lemma ngx_strncasecmp_eq:
  "n \<le> length s1 \<Longrightarrow> n \<le> length s2 \<Longrightarrow> 0 \<notin> set s2 \<Longrightarrow>
   \<exists>r. ngx_strncasecmp s1 s2 n = Some r \<and> (r = 0 \<longleftrightarrow> map lowcase (take n s1) = map lowcase (take n s2))"
proof (induction s1 s2 n rule: ngx_strncasecmp.induct)
  case (2 c1 s1 c2 s2 n)
  have "uint (lowcase c1) - uint (lowcase c2) = 0 \<longleftrightarrow> lowcase c1 = lowcase c2" by (simp add: word_uint_eq_iff)
  with 2 show ?case using lowcase_fixed [of c2] by auto
qed auto

text \<open>\<open>name\<close> stands at offset \<open>p\<close>, up to case.\<close>

definition name_at :: "byte list \<Rightarrow> byte list \<Rightarrow> nat \<Rightarrow> bool" where
  "name_at args name p \<longleftrightarrow> map lowcase (take (length name) (drop p args)) = map lowcase name"

text \<open>An argument of that name starts there.\<close>

definition arg_at :: "byte list \<Rightarrow> byte list \<Rightarrow> nat \<Rightarrow> bool" where
  "arg_at args name p \<longleftrightarrow> name_at args name p \<and> (p = 0 \<or> args ! (p - 1) = B CHR ''&'') \<and>
     args ! (p + length name) = B CHR ''='' "

lemma upt_split: "p \<le> q \<Longrightarrow> q < m \<Longrightarrow> [p..<m] = [p..<q] @ q # [Suc q..<m]"
  by (metis upt_conv_Cons upt_add_eq_append le_Suc_ex less_imp_le_nat)

lemma find_upt: "find P [p..<m] = Some q \<longleftrightarrow> p \<le> q \<and> q < m \<and> P q \<and> (\<forall>i. p \<le> i \<and> i < q \<longrightarrow> \<not> P i)"
proof (induction "m - p" arbitrary: p)
  case (Suc n)
  then have "[p..<m] = p # [Suc p..<m]" by (simp add: upt_conv_Cons)
  with Suc.hyps(1) [of "Suc p"] Suc.hyps(2) show ?case by (auto simp: Suc_le_eq) (metis Suc_leI le_neq_implies_less)+
qed auto

lemma strlcasestrn_eq:
  assumes "name \<noteq> []" "0 \<notin> set name"
  shows "strlcasestrn_loop args p (int (length args) - int (length name)) name (length name - 1) =
           Some (find (name_at args name) [p..<length args - length name])"
proof (induction "length args - p" arbitrary: p rule: less_induct)
  case less
  obtain c cs where name: "name = c # cs" using assms(1) by (cases name) auto
  show ?case
  proof (cases "p < length args - length name")
    case True
    then have p: "p < length args" "\<not> int (length args) - int (length name) \<le> int p" by auto
    have len: "length cs \<le> length (drop (p + 1) args)" using True name by simp
    obtain r where r: "ngx_strncasecmp (drop (p + 1) args) cs (length cs) = Some r"
      "r = 0 \<longleftrightarrow> map lowcase (take (length cs) (drop (p + 1) args)) = map lowcase cs"
      using ngx_strncasecmp_eq [OF len order.refl] assms(2) name by auto
    have at: "name_at args name p \<longleftrightarrow> lowcase (args ! p) = lowcase c \<and> r = 0"
      using p(1) r(2) name by (simp add: name_at_def Cons_nth_drop_Suc [symmetric])
    have "[p..<length args - length name] = p # [p + 1..<length args - length name]"
      using True by (simp add: upt_conv_Cons)
    then show ?thesis
      using less.hyps [of "p + 1"] p r(1) at name by (subst strlcasestrn_loop.simps) simp
  next
    case False
    then have "int (length args) - int (length name) \<le> int p" by linarith
    with False show ?thesis by (subst strlcasestrn_loop.simps) simp
  qed
qed

lemma strlchr_stop:
  "p \<le> length s \<Longrightarrow> (case ngx_strlchr s p c of None \<Rightarrow> length s | Some q \<Rightarrow> q) = p + length (takeWhile (\<lambda>x. x \<noteq> c) (drop p s))"
proof (induction "length s - p" arbitrary: p rule: less_induct)
  case less
  show ?case
  proof (cases "p < length s")
    case True
    then have "drop p s = s ! p # drop (p + 1) s" by (simp add: Cons_nth_drop_Suc)
    with True less.hyps [of "p + 1"] show ?thesis by (subst ngx_strlchr.simps) simp
  next
    case False
    with less.prems show ?thesis by (subst ngx_strlchr.simps) simp
  qed
qed

text \<open>The value runs up to the next \<open>&\<close> after the equals sign.\<close>

lemma arg_value:
  assumes "arg_at args name p" "B CHR ''&'' \<notin> set name" "p + length name < length args"
  shows "slice args (p + length name + 1) (case ngx_strlchr args p (B CHR ''&'') of None \<Rightarrow> length args | Some q \<Rightarrow> q) =
           takeWhile (\<lambda>x. x \<noteq> B CHR ''&'') (drop (p + length name + 1) args)"
proof -
  let ?a = "B CHR ''&'' " and ?n = "take (length name) (drop p args)"
  have "?a \<notin> set ?n"
  proof
    assume "?a \<in> set ?n"
    then have "lowcase ?a \<in> set (map lowcase name)"
      using assms(1) by (metis arg_at_def image_eqI list.set_map name_at_def)
    then obtain x where "x \<in> set name" "lowcase x = lowcase ?a" by auto
    moreover have "lowcase ?a = ?a" using lowcase_fixed [of ?a] by simp
    ultimately show False using assms(2) lowcase_fixed [of x] by simp
  qed
  moreover have drp: "drop p args = ?n @ args ! (p + length name) # drop (p + length name + 1) args"
    using assms(3) by (metis Cons_nth_drop_Suc Suc_eq_plus1 add.commute append_take_drop_id drop_drop)
  moreover have len: "length ?n = length name" using assms(3) by simp
  moreover have "args ! (p + length name) \<noteq> ?a" using assms(1) by (simp add: arg_at_def)
  ultimately have "length (takeWhile (\<lambda>x. x \<noteq> ?a) (drop p args)) =
      length name + 1 + length (takeWhile (\<lambda>x. x \<noteq> ?a) (drop (p + length name + 1) args))"
    by (subst drp, subst takeWhile_append2) (auto simp del: of_char_Char)
  then show ?thesis
    using strlchr_stop [of p args ?a] assms(3) takeWhile_eq_take [of "\<lambda>x. x \<noteq> ?a" "drop (p + length name + 1) args"]
    by (simp add: slice_def del: of_char_Char)
qed

lemma arg_loop_eq:
  assumes "name \<noteq> []" "0 \<notin> set name" "B CHR ''&'' \<notin> set name"
  shows "arg_loop args name p =
     Some (case find (arg_at args name) [p..<length args - length name] of
             None \<Rightarrow> (NGX_DECLINED, [])
           | Some q \<Rightarrow> (NGX_OK, takeWhile (\<lambda>x. x \<noteq> B CHR ''&'') (drop (q + length name + 1) args)))"
proof (induction "length args - p" arbitrary: p rule: less_induct)
  case less
  let ?m = "length args - length name" and ?find = "find (arg_at args name)"
  have search: "ngx_strlcasestrn args p (int (length args) - 1) name (length name - 1) =
      Some (find (name_at args name) [p..<?m])"
    using strlcasestrn_eq [OF assms(1,2), of args p] assms(1)
    by (cases name) (simp_all add: ngx_strlcasestrn_def algebra_simps)
  show ?case
  proof (cases "find (name_at args name) [p..<?m]")
    case None
    then have "?find [p..<?m] = None" by (auto simp: find_None_iff arg_at_def)
    then show ?thesis using None search by (subst arg_loop.simps) (simp add: Let_def)
  next
    case (Some q)
    then have q: "p \<le> q" "q < ?m" "name_at args name q" "\<forall>i. p \<le> i \<and> i < q \<longrightarrow> \<not> name_at args name i"
      by (simp_all add: find_upt)
    then have "?find [p..<q] = None" by (auto simp: find_None_iff arg_at_def)
    then have first: "?find [p..<?m] = (if arg_at args name q then Some q else ?find [q + 1..<?m])"
      using upt_split [OF q(1,2)] by (simp add: find_append)
    show ?thesis
    proof (cases "arg_at args name q")
      case True
      then show ?thesis
        using Some search q first arg_value [OF True assms(3)]
        by (subst arg_loop.simps) (auto simp: Let_def arg_at_def)
    next
      case False
      have "arg_loop args name (q + 1) = Some (case ?find [q + 1..<?m] of None \<Rightarrow> (NGX_DECLINED, [])
           | Some q \<Rightarrow> (NGX_OK, takeWhile (\<lambda>x. x \<noteq> B CHR ''&'') (drop (q + length name + 1) args)))"
        using q by (intro less) auto
      then show ?thesis
        using Some search q first False by (subst arg_loop.simps) (auto simp: Let_def arg_at_def)
    qed
  qed
qed

text \<open>
  \<open>ngx_http_arg\<close> never reads outside the arguments and returns the value of the first argument
  of that name: the first place, at the start or behind a \<open>&\<close>, where the name stands up to case
  and is followed by \<open>=\<close>; its value reaches to the next \<open>&\<close>. It declines exactly when there is
  none. (A name is not empty and holds no NUL and no \<open>&\<close>.)
\<close>

theorem http_arg_first:
  assumes "name \<noteq> []" "0 \<notin> set name" "B CHR ''&'' \<notin> set name"
  shows "ngx_http_arg args name =
     Some (case find (arg_at args name) [0..<length args - length name] of
             None \<Rightarrow> (NGX_DECLINED, [])
           | Some p \<Rightarrow> (NGX_OK, takeWhile (\<lambda>c. c \<noteq> B CHR ''&'') (drop (p + length name + 1) args)))"
  using arg_loop_eq [OF assms, of args 0] by (cases args) (simp_all add: ngx_http_arg_def)

theorem http_arg_first_witness:
  "ngx_http_arg (bytes ''xid=1&ID=42&id=3'') (bytes ''id'') = Some (NGX_OK, bytes ''42'')"
proof -
  let ?args = "bytes ''xid=1&ID=42&id=3''" and ?name = "bytes ''id''"
  have n: "length ?args - length ?name = 14" by simp
  have f: "find (arg_at ?args ?name) [0..<14] = Some 6" by code_simp
  have "ngx_http_arg ?args ?name =
     Some (case find (arg_at ?args ?name) [0..<length ?args - length ?name] of
             None \<Rightarrow> (NGX_DECLINED, [])
           | Some p \<Rightarrow> (NGX_OK, takeWhile (\<lambda>c. c \<noteq> B CHR ''&'') (drop (p + length ?name + 1) ?args)))"
    by (rule http_arg_first) simp_all
  then show ?thesis unfolding n f by simp
qed

section \<open>Redirect targets\<close>

abbreviation segments :: "byte list \<Rightarrow> byte list list" where
  "segments s \<equiv> split_on (B CHR ''/'') s"

lemma split_on_not_Nil [simp]: "split_on c s \<noteq> []"
  by (cases s) auto

lemma set_split: "set (split_on c s) = insert (hd (split_on c s)) (set (tl (split_on c s)))"
  by (metis list.collapse list.simps(15) split_on_not_Nil)

lemma hd_split_Nil: "hd (split_on c s) = [] \<longleftrightarrow> s = [] \<or> hd s = c"
  by (cases s) auto

lemma hd_split_Cons: "hd (split_on c s) = x # xs \<longleftrightarrow> (\<exists>t. s = x # t \<and> x \<noteq> c \<and> hd (split_on c t) = xs)"
  by (cases s) auto

text \<open>Both tests ask whether the first segment is \<open>..\<close>.\<close>

lemma first_dotdot:
  "hd (segments p) = bytes ''..'' \<longleftrightarrow>
     1 < length p \<and> p ! 0 = B CHR ''.'' \<and> p ! 1 = B CHR ''.'' \<and> (length p = 2 \<or> ngx_path_separator (p ! 2))"
proof -
  consider "p = []" | a where "p = [a]" | a b where "p = [a, b]" | a b c t where "p = a # b # c # t"
    by (metis neq_Nil_conv)
  then show ?thesis by cases auto
qed

lemma leading_dotdot_eq: "leading_dotdot p \<longleftrightarrow> hd (segments p) = bytes ''..''"
  unfolding first_dotdot by (cases p) (auto simp: leading_dotdot_def)

lemma separator_dotdot_eq: "separator_dotdot ch p \<longleftrightarrow> ngx_path_separator ch \<and> hd (segments p) = bytes ''..''"
  unfolding first_dotdot by (auto simp: separator_dotdot_def)

lemma unsafe_loop2_eq: "unsafe_loop2 s \<longleftrightarrow> 0 \<notin> set s \<and> bytes ''..'' \<notin> set (tl (segments s))"
proof (induction s)
  case (Cons ch p)
  show ?case
  proof (cases "ngx_path_separator ch")
    case True
    with Cons set_split [of "B CHR ''/''" p] show ?thesis by (auto simp: separator_dotdot_eq)
  next
    case False
    with Cons show ?thesis by (auto simp: separator_dotdot_eq)
  qed
qed simp

lemma usual_facts: "\<not> usual 0" "\<not> usual (B CHR ''?'')" "\<not> usual (B CHR ''/'')"
  by code_simp+

text \<open>The first loop without a question mark.\<close>

lemma unsafe_loop1_None:
  "unsafe_loop1 q s = Some (q', None) \<Longrightarrow> 0 \<notin> set s \<and> bytes ''..'' \<notin> set (tl (segments s))"
proof (induction s arbitrary: q)
  case (Cons ch p)
  then obtain q'' where rest: "unsafe_loop1 q'' p = Some (q', None)" "ch \<noteq> 0" "\<not> separator_dotdot ch p"
    using usual_facts by (auto simp: separator_dotdot_eq split: if_splits)
  with Cons.IH [OF rest(1)] set_split [of "B CHR ''/''" p] show ?case by (auto simp: separator_dotdot_eq)
qed simp

text \<open>With a question mark, the segment just before it escapes the test.\<close>

lemma hd_split_append: "c \<in> set s \<Longrightarrow> hd (split_on c (s @ t)) = hd (split_on c s)"
  by (induction s) auto

lemma butlast_split: "c \<in> set s \<Longrightarrow> butlast (split_on c s) = hd (split_on c s) # butlast (tl (split_on c s))"
proof -
  assume "c \<in> set s"
  then have "tl (split_on c s) \<noteq> []" by (induction s) auto
  then show ?thesis by (metis butlast.simps(2) list.collapse split_on_not_Nil)
qed

lemma unsafe_loop1_Some:
  "unsafe_loop1 q s = Some (q', Some a) \<Longrightarrow>
     \<exists>u. s = u @ B CHR ''?'' # a \<and> 0 \<notin> set u \<and> bytes ''..'' \<notin> set (butlast (tl (segments u)))"
proof (induction s arbitrary: q)
  case (Cons ch p)
  show ?case
  proof (cases "ch = B CHR ''?''")
    case True
    with Cons.prems usual_facts have "a = p" by auto
    with True show ?thesis by (intro exI [of _ "[]"]) simp
  next
    case False
    with Cons.prems obtain q'' where rest: "unsafe_loop1 q'' p = Some (q', Some a)" "ch \<noteq> 0" "\<not> separator_dotdot ch p"
      using usual_facts by (auto simp: separator_dotdot_eq split: if_splits)
    from Cons.IH [OF rest(1)] obtain u where u: "p = u @ B CHR ''?'' # a" "0 \<notin> set u"
      "bytes ''..'' \<notin> set (butlast (tl (segments u)))" by blast
    have "bytes ''..'' \<notin> set (butlast (tl (segments (ch # u))))"
    proof (cases "ngx_path_separator ch \<and> B CHR ''/'' \<in> set u")
      case True
      then have "hd (segments u) \<noteq> bytes ''..''"
        using rest(3) hd_split_append [of "B CHR ''/''" u "B CHR ''?'' # a"] u(1) by (simp add: separator_dotdot_eq)
      moreover have "butlast (segments u) = hd (segments u) # butlast (tl (segments u))"
        using True butlast_split by blast
      ultimately show ?thesis using True u(3) by simp
    next
      case False
      then show ?thesis using u(3) by (auto simp: split_on_no)
    qed
    with u rest(2) show ?thesis by (intro exI [of _ "ch # u"]) simp
  qed
qed simp

text \<open>The ways to accept a target: after decoding, plainly, or plainly with arguments.\<close>

lemma unsafe_uri_cases:
  assumes "ngx_http_parse_unsafe_uri alloc uri = Some (uri', args)"
  obtains "hd (segments uri') \<noteq> bytes ''..''" "unsafe_loop2 uri'"
  | q where "hd (segments uri) \<noteq> bytes ''..''" "unsafe_loop1 False uri = Some (q, None)" "uri' = uri"
  | q a where "hd (segments uri) \<noteq> bytes ''..''" "unsafe_loop1 False uri = Some (q, Some a)" "args = Some a"
      "uri' = take (length uri - (length a + 1)) uri"
proof -
  have lead: "hd (segments uri) \<noteq> bytes ''..''"
    using assms unfolding ngx_http_parse_unsafe_uri_def leading_dotdot_eq by (meson option.distinct(1))
  obtain q args' where l1: "unsafe_loop1 False uri = Some (q, args')"
    using assms unfolding ngx_http_parse_unsafe_uri_def by (cases "unsafe_loop1 False uri") (auto split: if_splits)
  have res: "(let uri'' = (case args' of None \<Rightarrow> uri | Some a \<Rightarrow> take (length uri - (length a + 1)) uri) in
      if \<not> q then Some (uri'', args')
      else if \<not> alloc then None
      else let v = fst (ngx_unescape_uri uri'' 0) in
        if leading_dotdot v then None else if unsafe_loop2 v then Some (v, args') else None) = Some (uri', args)"
    using assms l1 unfolding ngx_http_parse_unsafe_uri_def by (simp split: if_splits)
  show thesis
  proof (cases q)
    case True
    with res have "\<not> leading_dotdot uri'" "unsafe_loop2 uri'" by (auto simp: Let_def split: if_splits)
    then show thesis unfolding leading_dotdot_eq by (rule that(1))
  next
    case False
    show thesis
    proof (cases args')
      case None
      with False res have "uri' = uri" by (simp add: Let_def)
      with lead l1 None show thesis by (intro that(2)) simp_all
    next
      case (Some a)
      with False res have "args = Some a" "uri' = take (length uri - (length a + 1)) uri" by (simp_all add: Let_def)
      with lead l1 Some show thesis by (intro that(3)) simp_all
    qed
  qed
qed

text \<open>
  C32. An accepted redirect target has no NUL byte and no \<open>..\<close> segment, in its decoded form if it was
  escaped; with the exception that a target with arguments may end in \<open>..\<close> just before its question
  mark.
\<close>

theorem unsafe_uri_safe:
  assumes "ngx_http_parse_unsafe_uri alloc uri = Some (uri', args)"
  shows "0 \<notin> set uri' \<and> bytes ''..'' \<notin> set (butlast (segments uri')) \<and>
         (args = None \<longrightarrow> bytes ''..'' \<notin> set (segments uri'))"
  using assms
proof (rule unsafe_uri_cases)
  assume "hd (segments uri') \<noteq> bytes ''..''" "unsafe_loop2 uri'"
  then show ?thesis using set_split [of "B CHR ''/''" uri'] by (auto simp: unsafe_loop2_eq dest: in_set_butlastD)
next
  fix q
  assume "hd (segments uri) \<noteq> bytes ''..''" "unsafe_loop1 False uri = Some (q, None)" "uri' = uri"
  then show ?thesis using unsafe_loop1_None [of False uri q] set_split [of "B CHR ''/''" uri]
    by (auto dest: in_set_butlastD)
next
  fix q a
  assume *: "hd (segments uri) \<noteq> bytes ''..''" "unsafe_loop1 False uri = Some (q, Some a)" "args = Some a"
    "uri' = take (length uri - (length a + 1)) uri"
  from unsafe_loop1_Some [OF *(2)] obtain u where u: "uri = u @ B CHR ''?'' # a" "0 \<notin> set u"
    "bytes ''..'' \<notin> set (butlast (tl (segments u)))" by blast
  have "bytes ''..'' \<notin> set (butlast (segments u))"
  proof (cases "B CHR ''/'' \<in> set u")
    case True
    then have "hd (segments u) \<noteq> bytes ''..''"
      using *(1) hd_split_append [of "B CHR ''/''" u "B CHR ''?'' # a"] u(1) by simp
    then show ?thesis using u(3) butlast_split [OF True] by simp
  qed (simp add: split_on_no)
  then show ?thesis using u * by simp
qed

theorem unsafe_uri_safe_witness:
  "ngx_http_parse_unsafe_uri True (bytes ''/a%2eb/c?x'') = Some (bytes ''/a.b/c'', Some (bytes ''x'')) \<and>
   bytes ''..'' \<notin> set (butlast (segments (bytes ''/a.b/c'')))"
proof -
  have "ngx_http_parse_unsafe_uri True (bytes ''/a%2eb/c?x'') = Some (bytes ''/a.b/c'', Some (bytes ''x''))"
    by code_simp
  with unsafe_uri_safe [OF this] show ?thesis by blast
qed

text \<open>The exception is real: the test for the end of the path takes the question mark for a name character.\<close>

lemma unsafe_uri_dotdot_query:
  "ngx_http_parse_unsafe_uri True (bytes ''/..?x'') = Some (bytes ''/..'', Some (bytes ''x'')) \<and>
   ngx_http_parse_unsafe_uri True (bytes ''/..'') = None"
  by code_simp

section \<open>ngx_http_parse_uri\<close>

text \<open>
  The parser of a URI that did not come in an HTTP/1.x request line (for instance in the
  pseudo-header of an HTTP/2 request).
\<close>

datatype pu_state = pu_sw_start | pu_sw_after_slash_in_uri | pu_sw_check_uri | pu_sw_uri

type_synonym pu_ctl = "(pu_state \<times> ngx_http_request, ngx_http_request) ctl"

definition pu_start :: "byte \<Rightarrow> ngx_http_request \<Rightarrow> pu_ctl" where
  "pu_start ch r = (if ch \<noteq> B CHR ''/'' then Exit r else Next (pu_sw_after_slash_in_uri, r))"

definition pu_after_slash_in_uri :: "nat \<Rightarrow> byte \<Rightarrow> ngx_http_request \<Rightarrow> pu_ctl" where
  "pu_after_slash_in_uri p ch r =
     (if usual ch then Next (pu_sw_check_uri, r)
      else if ch = B CHR ''.'' then Next (pu_sw_uri, r\<lparr>complex_uri := True\<rparr>)
      else if ch = B CHR ''%'' then Next (pu_sw_uri, r\<lparr>quoted_uri := True\<rparr>)
      else if ch = B CHR ''/'' then Next (pu_sw_uri, r\<lparr>complex_uri := True\<rparr>)
      else if ch = B CHR ''?'' then Next (pu_sw_uri, r\<lparr>args_start := Some (p + 1)\<rparr>)
      else if ch = B CHR ''#'' then Next (pu_sw_uri, r\<lparr>complex_uri := True\<rparr>)
      else if ch = B CHR ''+'' then Next (pu_sw_after_slash_in_uri, r\<lparr>plus_in_uri := True\<rparr>)
      else if ch \<le> 0x20 \<or> ch = 0x7f then Exit r
      else Next (pu_sw_check_uri, r))"

definition pu_check_uri :: "nat \<Rightarrow> byte \<Rightarrow> ngx_http_request \<Rightarrow> pu_ctl" where
  "pu_check_uri p ch r =
     (if usual ch then Next (pu_sw_check_uri, r)
      else if ch = B CHR ''/'' then Next (pu_sw_after_slash_in_uri, r\<lparr>uri_ext := None\<rparr>)
      else if ch = B CHR ''.'' then Next (pu_sw_check_uri, r\<lparr>uri_ext := Some (p + 1)\<rparr>)
      else if ch = B CHR ''%'' then Next (pu_sw_uri, r\<lparr>quoted_uri := True\<rparr>)
      else if ch = B CHR ''?'' then Next (pu_sw_uri, r\<lparr>args_start := Some (p + 1)\<rparr>)
      else if ch = B CHR ''#'' then Next (pu_sw_uri, r\<lparr>complex_uri := True\<rparr>)
      else if ch = B CHR ''+'' then Next (pu_sw_check_uri, r\<lparr>plus_in_uri := True\<rparr>)
      else if ch \<le> 0x20 \<or> ch = 0x7f then Exit r
      else Next (pu_sw_check_uri, r))"

definition pu_uri :: "byte \<Rightarrow> ngx_http_request \<Rightarrow> pu_ctl" where
  "pu_uri ch r =
     (if usual ch then Next (pu_sw_uri, r)
      else if ch = B CHR ''#'' then Next (pu_sw_uri, r\<lparr>complex_uri := True\<rparr>)
      else if ch \<le> 0x20 \<or> ch = 0x7f then Exit r
      else Next (pu_sw_uri, r))"

definition pu_step :: "nat \<Rightarrow> byte \<Rightarrow> pu_state \<times> ngx_http_request \<Rightarrow> pu_ctl" where
  "pu_step p ch sr =
     (case sr of (st, r) \<Rightarrow>
        (case st of
           pu_sw_start \<Rightarrow> pu_start ch r
         | pu_sw_after_slash_in_uri \<Rightarrow> pu_after_slash_in_uri p ch r
         | pu_sw_check_uri \<Rightarrow> pu_check_uri p ch r
         | pu_sw_uri \<Rightarrow> pu_uri ch r))"

text \<open>The bytes from \<open>r->uri_start\<close> up to \<open>r->uri_end\<close>.\<close>

definition ngx_http_parse_uri :: "byte list \<Rightarrow> ngx_http_request \<Rightarrow> ngx_int \<times> ngx_http_request" where
  "ngx_http_parse_uri buf r =
     (case scan pu_step (uri_start r) (slice buf (uri_start r) (uri_end r)) (pu_sw_start, r) of
        (p, Next (st, r)) \<Rightarrow> (NGX_OK, r)
      | (p, Exit r) \<Rightarrow> (NGX_ERROR, r))"

subsection \<open>Agreement with the request line parser\<close>

text \<open>The same state of the request line parser.\<close>

fun rl_of :: "pu_state \<Rightarrow> rl_state" where
  "rl_of pu_sw_start = sw_spaces_before_uri"
| "rl_of pu_sw_after_slash_in_uri = sw_after_slash_in_uri"
| "rl_of pu_sw_check_uri = sw_check_uri"
| "rl_of pu_sw_uri = sw_uri"

abbreviation uri_byte :: "byte \<Rightarrow> bool" where
  "uri_byte c \<equiv> 0x20 < c \<and> c \<noteq> 0x7f"

lemma usual_uri_byte_all: "\<forall>c. usual c \<longrightarrow> uri_byte c"
  unfolding byte_all by code_simp

lemma uri_byte_facts: "uri_byte c \<Longrightarrow> c \<noteq> SP \<and> c \<noteq> CR \<and> c \<noteq> LF \<and> \<not> c < 0x20 \<and> \<not> c \<le> 0x20"
  by auto

lemma pu_step_rl:
  assumes "st \<noteq> pu_sw_start" "uri_byte ch"
  shows "\<exists>st' r'. pu_step p ch (st, r) = Next (st', r') \<and> st' \<noteq> pu_sw_start \<and>
           rl_step buf p ch (rl_of st, r) = Next (rl_of st', r')"
  using assms uri_byte_facts [OF assms(2)]
  by (cases st) (auto simp: pu_step_def pu_after_slash_in_uri_def pu_check_uri_def pu_uri_def step_defs)

lemma pu_scan_rl:
  "st \<noteq> pu_sw_start \<Longrightarrow> list_all uri_byte bs \<Longrightarrow>
   \<exists>st' r'. scan pu_step p bs (st, r) = (p + length bs, Next (st', r')) \<and> st' \<noteq> pu_sw_start \<and>
     scan (rl_step buf) p bs (rl_of st, r) = (p + length bs, Next (rl_of st', r'))"
proof (induction bs arbitrary: p st r)
  case (Cons ch bs)
  then obtain st' r' where s: "pu_step p ch (st, r) = Next (st', r')" "st' \<noteq> pu_sw_start"
      "rl_step buf p ch (rl_of st, r) = Next (rl_of st', r')"
    using pu_step_rl [of st ch p r buf] by auto
  then show ?case using Cons.IH [OF s(2), of "Suc p" r'] Cons.prems by auto
qed simp

lemma pu_step_bad: "\<not> uri_byte ch \<Longrightarrow> \<exists>r'. pu_step p ch (st, r) = Exit r'"
proof -
  assume bad: "\<not> uri_byte ch"
  then have "\<not> usual ch" "ch \<le> 0x20 \<or> ch = 0x7f" using usual_uri_byte_all by (auto simp: not_less)
  moreover have "ch \<noteq> B CHR ''/''" "ch \<noteq> B CHR ''.''" "ch \<noteq> B CHR ''%''" "ch \<noteq> B CHR ''?''"
    "ch \<noteq> B CHR ''#''" "ch \<noteq> B CHR ''+''" using bad by auto
  ultimately show ?thesis
    by (cases st) (auto simp: pu_step_def pu_start_def pu_after_slash_in_uri_def pu_check_uri_def pu_uri_def)
qed

lemma pu_scan_bad: "\<not> list_all uri_byte bs \<Longrightarrow> \<exists>q r'. scan pu_step p bs (st, r) = (q, Exit r')"
proof (induction bs arbitrary: p st r)
  case (Cons ch bs)
  show ?case
  proof (cases "pu_step p ch (st, r)")
    case (Next s)
    then have "uri_byte ch" using pu_step_bad [of ch p st r] by auto
    with Cons Next show ?thesis by (cases s) auto
  qed auto
qed simp

text \<open>
  The two parsers of a URI classify it in the same way. \<open>ngx_http_parse_uri\<close> accepts exactly the strings of
  allowed bytes that start with a slash, and then leaves the request as the request line parser
  leaves it behind the same bytes; so the flags by which \<open>ngx_http_process_request_uri\<close> decides
  about normalisation do not depend on the protocol version.
\<close>

lemma parse_uri_agrees:
  assumes "bs = slice buf (uri_start r) (uri_end r)" "bs \<noteq> []"
  shows "fst (ngx_http_parse_uri buf r) = (if hd bs = B CHR ''/'' \<and> list_all uri_byte bs then NGX_OK else NGX_ERROR)"
    and "fst (ngx_http_parse_uri buf r) = NGX_OK \<Longrightarrow>
      \<exists>st. scan (rl_step buf') (Suc (uri_start r)) (tl bs) (sw_after_slash_in_uri, r) =
        (uri_start r + length bs, Next (st, snd (ngx_http_parse_uri buf r)))"
proof -
  obtain ch cs where bs: "bs = ch # cs" using assms(2) by (cases bs) auto
  consider "ch \<noteq> B CHR ''/''" | "ch = B CHR ''/''" "\<not> list_all uri_byte cs" | "ch = B CHR ''/''" "list_all uri_byte cs"
    by blast
  then have "fst (ngx_http_parse_uri buf r) = (if hd bs = B CHR ''/'' \<and> list_all uri_byte bs then NGX_OK else NGX_ERROR) \<and>
    (fst (ngx_http_parse_uri buf r) = NGX_OK \<longrightarrow>
      (\<exists>st. scan (rl_step buf') (Suc (uri_start r)) (tl bs) (sw_after_slash_in_uri, r) =
        (uri_start r + length bs, Next (st, snd (ngx_http_parse_uri buf r)))))"
  proof cases
    case 1
    then show ?thesis using bs by (simp add: ngx_http_parse_uri_def assms(1) [symmetric] pu_step_def pu_start_def)
  next
    case 2
    obtain q r' where "scan pu_step (Suc (uri_start r)) cs (pu_sw_after_slash_in_uri, r) = (q, Exit r')"
      using pu_scan_bad [OF 2(2)] by blast
    with 2 show ?thesis using bs by (simp add: ngx_http_parse_uri_def assms(1) [symmetric] pu_step_def pu_start_def)
  next
    case 3
    obtain st' r' where "scan pu_step (Suc (uri_start r)) cs (pu_sw_after_slash_in_uri, r) = (Suc (uri_start r) + length cs, Next (st', r'))"
      "scan (rl_step buf') (Suc (uri_start r)) cs (sw_after_slash_in_uri, r) = (Suc (uri_start r) + length cs, Next (rl_of st', r'))"
      using pu_scan_rl [OF _ 3(2), of pu_sw_after_slash_in_uri "Suc (uri_start r)" r buf'] by auto
    with 3 show ?thesis using bs by (simp add: ngx_http_parse_uri_def assms(1) [symmetric] pu_step_def pu_start_def)
  qed
  then show "fst (ngx_http_parse_uri buf r) = (if hd bs = B CHR ''/'' \<and> list_all uri_byte bs then NGX_OK else NGX_ERROR)"
    "fst (ngx_http_parse_uri buf r) = NGX_OK \<Longrightarrow>
      \<exists>st. scan (rl_step buf') (Suc (uri_start r)) (tl bs) (sw_after_slash_in_uri, r) =
        (uri_start r + length bs, Next (st, snd (ngx_http_parse_uri buf r)))" by blast+
qed

section \<open>Values in header lines\<close>

text \<open>
  \<open>ngx_http_parse_multi_header_lines\<close> and \<open>ngx_http_parse_set_cookie_lines\<close> look for \<open>name=value\<close> in a
  list of header values. A header value is followed by a NUL in memory, which the comparison may
  read. The result is \<open>None\<close> for a read behind it, \<open>Some None\<close> for \<open>NULL\<close>, and otherwise the position of the
  header in the list and the bytes of \<open>value\<close> (empty when the caller passes \<open>NULL\<close> for it).
\<close>

definition skip_spaces :: "byte list \<Rightarrow> nat \<Rightarrow> nat" where
  "skip_spaces v start = start + length (takeWhile (\<lambda>c. c = SP) (drop start v))"

text \<open>The code behind the label \<open>skip\<close>: past the next \<open>;\<close> or \<open>,\<close>, and past spaces.\<close>

definition skip_item :: "byte list \<Rightarrow> nat \<Rightarrow> nat" where
  "skip_item v start =
     (let n = length (takeWhile (\<lambda>c. c \<noteq> B CHR '';'' \<and> c \<noteq> B CHR '','') (drop start v))
      in skip_spaces v (min (start + n + 1) (max start (length v))))"

text \<open>From the equals sign on: the value up to the next \<open>;\<close>.\<close>

definition header_item_value :: "byte list \<Rightarrow> nat \<Rightarrow> byte list" where
  "header_item_value v start =
     takeWhile (\<lambda>c. c \<noteq> B CHR '';'') (drop (skip_spaces v start) v)"

lemma skip_spaces_ge: "start \<le> skip_spaces v start"
  by (simp add: skip_spaces_def)

lemma skip_item_gt: "start < length v \<Longrightarrow> start < skip_item v start"
  unfolding skip_item_def Let_def by (rule less_le_trans [OF _ skip_spaces_ge]) simp

lemma skip_item_ge: "start \<le> skip_item v start"
  unfolding skip_item_def Let_def by (rule le_trans [OF _ skip_spaces_ge]) simp

function multi_header_loop :: "byte list \<Rightarrow> byte list \<Rightarrow> bool \<Rightarrow> nat \<Rightarrow> byte list option option" where
  "multi_header_loop v name want start =
     (if start < length v then
        (case ngx_strncasecmp (drop start (v @ [0])) name (length name) of
           None \<Rightarrow> None
         | Some r \<Rightarrow>
             if r \<noteq> 0 then multi_header_loop v name want (skip_item v start)
             else
               let s = skip_spaces v (start + length name) in
               if length v < s then None
               else if \<not> want then
                 (if s = length v \<or> v ! s = B CHR '','' then Some (Some [])
                  else multi_header_loop v name want (skip_item v s))
               else if s = length v then multi_header_loop v name want (skip_item v s)
               else if v ! s \<noteq> B CHR ''='' then multi_header_loop v name want (skip_item v (s + 1))
               else Some (Some (header_item_value v (s + 1))))
      else Some None)"
  by pat_completeness auto
termination
proof (relation "measure (\<lambda>(v, name, want, start). length v - start)", goal_cases)
  case (2 v name want start r)
  then show ?case using skip_item_gt [of start v] by auto
next
  case (3 v name want start r s)
  then have "start \<le> s" "s < length v" using skip_spaces_ge [of "start + length name" v] by auto
  then show ?case using skip_item_gt [of s v] by auto
next
  case (4 v name want start r s)
  then show ?case using skip_item_ge [of s v] by auto
next
  case (5 v name want start r s)
  then have "start \<le> s" using skip_spaces_ge [of "start + length name" v] by auto
  then show ?case using 5 skip_item_ge [of "s + 1" v] by auto
qed simp

declare multi_header_loop.simps [simp del]

fun parse_multi_header_lines :: "nat \<Rightarrow> byte list list \<Rightarrow> byte list \<Rightarrow> bool \<Rightarrow> (nat \<times> byte list) option option" where
  "parse_multi_header_lines i [] name want = Some None"
| "parse_multi_header_lines i (h # hs) name want =
     (if length h < length name then parse_multi_header_lines (i + 1) hs name want
      else case multi_header_loop h name want 0 of
             None \<Rightarrow> None
           | Some (Some val) \<Rightarrow> Some (Some (i, val))
           | Some None \<Rightarrow> parse_multi_header_lines (i + 1) hs name want)"

definition ngx_http_parse_multi_header_lines :: "byte list list \<Rightarrow> byte list \<Rightarrow> bool \<Rightarrow> (nat \<times> byte list) option option" where
  "ngx_http_parse_multi_header_lines headers name want = parse_multi_header_lines 0 headers name want"

text \<open>\<open>Set-Cookie\<close> lines: the name must stand at the beginning.\<close>

definition set_cookie_line :: "byte list \<Rightarrow> byte list \<Rightarrow> byte list option option" where
  "set_cookie_line v name =
     (if length v \<le> length name then Some None
      else case ngx_strncasecmp v name (length name) of
             None \<Rightarrow> None
           | Some r \<Rightarrow>
               if r \<noteq> 0 then Some None
               else
                 let s = skip_spaces v (length name) in
                 if s = length v \<or> v ! s \<noteq> B CHR ''='' then Some None
                 else Some (Some (header_item_value v (s + 1))))"

fun parse_set_cookie_lines :: "nat \<Rightarrow> byte list list \<Rightarrow> byte list \<Rightarrow> (nat \<times> byte list) option option" where
  "parse_set_cookie_lines i [] name = Some None"
| "parse_set_cookie_lines i (h # hs) name =
     (case set_cookie_line h name of
        None \<Rightarrow> None
      | Some (Some val) \<Rightarrow> Some (Some (i, val))
      | Some None \<Rightarrow> parse_set_cookie_lines (i + 1) hs name)"

definition ngx_http_parse_set_cookie_lines :: "byte list list \<Rightarrow> byte list \<Rightarrow> (nat \<times> byte list) option option" where
  "ngx_http_parse_set_cookie_lines headers name = parse_set_cookie_lines 0 headers name"

subsection \<open>No read outside the values\<close>

text \<open>
  A name without NUL is compared at most up to the terminating NUL of the header value, and matches
  only inside the value.
\<close>

lemma strncasecmp_terminated:
  "0 \<notin> set name \<Longrightarrow> \<exists>r. ngx_strncasecmp (s @ [0]) name (length name) = Some r \<and> (r = 0 \<longrightarrow> length name \<le> length s)"
proof (induction s arbitrary: name)
  case Nil
  show ?case
  proof (cases name)
    case (Cons c cs)
    then have "lowcase 0 \<noteq> lowcase c" using Nil lowcase_fixed [of 0] lowcase_fixed [of c] by auto
    then have "uint (lowcase 0) - uint (lowcase c) \<noteq> 0" by (simp add: word_uint_eq_iff)
    with Cons \<open>lowcase 0 \<noteq> lowcase c\<close> show ?thesis by simp
  qed simp
next
  case (Cons x s)
  show ?case
  proof (cases name)
    case (Cons c cs)
    have "uint (lowcase x) - uint (lowcase c) = 0 \<longleftrightarrow> lowcase x = lowcase c" by (simp add: word_uint_eq_iff)
    with Cons Cons.prems Cons.IH [of cs] lowcase_fixed [of c] show ?thesis by auto
  qed simp
qed

lemma skip_spaces_le: "start \<le> length v \<Longrightarrow> skip_spaces v start \<le> length v"
  using length_takeWhile_le [of "\<lambda>c. c = SP" "drop start v"] by (simp add: skip_spaces_def)

lemma multi_header_loop_defined:
  "0 \<notin> set name \<Longrightarrow> \<exists>res. multi_header_loop v name want start = Some res"
proof (induction v name want start rule: multi_header_loop.induct)
  case (1 v name want start)
  show ?case
  proof (cases "start < length v")
    case True
    then have drp: "drop start (v @ [0]) = drop start v @ [0]" by simp
    obtain r where r: "ngx_strncasecmp (drop start (v @ [0])) name (length name) = Some r"
        "r = 0 \<longrightarrow> length name \<le> length v - start"
      using strncasecmp_terminated [OF "1.prems", of "drop start v"] unfolding drp by auto
    have "r = 0 \<Longrightarrow> \<not> length v < skip_spaces v (start + length name)"
      using skip_spaces_le [of "start + length name" v] r(2) True by (simp add: not_less)
    then show ?thesis
      using "1.IH" [OF True r(1)] "1.prems" r(1) True
      by (subst multi_header_loop.simps) (auto simp: Let_def simp del: append.simps)
  next
    case False
    then show ?thesis by (subst multi_header_loop.simps) simp
  qed
qed

lemma multi_header_lines_defined:
  "0 \<notin> set name \<Longrightarrow> \<exists>res. ngx_http_parse_multi_header_lines headers name want = Some res"
proof -
  assume name: "0 \<notin> set name"
  have "\<exists>res. parse_multi_header_lines i headers name want = Some res" for i
  proof (induction headers arbitrary: i)
    case (Cons h hs)
    then show ?case using multi_header_loop_defined [OF name, of h want 0] by (auto split: option.splits)
  qed simp
  then show ?thesis by (simp add: ngx_http_parse_multi_header_lines_def)
qed

lemma set_cookie_lines_defined:
  assumes "0 \<notin> set name"
  shows "\<exists>res. ngx_http_parse_set_cookie_lines headers name = Some res"
proof -
  have line: "\<exists>res. set_cookie_line v name = Some res" for v
    using ngx_strncasecmp_eq [of "length name" v name] assms by (auto simp: set_cookie_line_def Let_def)
  have "\<exists>res. parse_set_cookie_lines i headers name = Some res" for i
  proof (induction headers arbitrary: i)
    case (Cons h hs)
    then show ?case using line [of h] by (auto split: option.splits)
  qed simp
  then show ?thesis by (simp add: ngx_http_parse_set_cookie_lines_def)
qed

text \<open>A cookie written as usual is found, with its value.\<close>

lemma multi_header_example:
  "ngx_http_parse_multi_header_lines [bytes ''a=1; token = xyz; b=2''] (bytes ''Token'') True =
     Some (Some (0, bytes ''xyz''))"
  by code_simp

end
