(* ===== verification/Ngx_Base64.thy ===== *)
theory Ngx_Base64
  imports Ngx_Prelude
begin

unbundle bit_operations_syntax

text \<open>
  The Base64 codecs of \<^verbatim>\<open>src/core/ngx_string.c\<close>: the standard alphabet with padding and the URL
  alphabet without. The locale \<open>base64_alphabet\<close> states what an encoding table and a decoding
  table owe each other; both pairs of tables of the source interpret it.
\<close>

section \<open>Encoding\<close>

fun encode_base64_loop :: "byte list \<Rightarrow> bool \<Rightarrow> byte list \<Rightarrow> byte list \<Rightarrow> byte list" where
  "encode_base64_loop basis padding (s0 # s1 # s2 # s) d =
     encode_base64_loop basis padding s
       (d @ [basis ! unat (drop_bit 2 s0 AND 0x3f),
             basis ! unat (push_bit 4 (s0 AND 3) OR drop_bit 4 s1),
             basis ! unat (push_bit 2 (s1 AND 0x0f) OR drop_bit 6 s2),
             basis ! unat (s2 AND 0x3f)])"
| "encode_base64_loop basis padding [] d = d"
| "encode_base64_loop basis padding [s0] d =
     (let d = d @ [basis ! unat (drop_bit 2 s0 AND 0x3f)];
          d = d @ [basis ! unat (push_bit 4 (s0 AND 3))];
          d = (if padding then d @ [B CHR ''='' ] else d)
      in if padding then d @ [B CHR ''='' ] else d)"
| "encode_base64_loop basis padding [s0, s1] d =
     (let d = d @ [basis ! unat (drop_bit 2 s0 AND 0x3f)];
          d = d @ [basis ! unat (push_bit 4 (s0 AND 3) OR drop_bit 4 s1)];
          d = d @ [basis ! unat (push_bit 2 (s1 AND 0x0f))]
      in if padding then d @ [B CHR ''='' ] else d)"

definition ngx_encode_base64_internal :: "byte list \<Rightarrow> byte list \<Rightarrow> bool \<Rightarrow> byte list" where
  "ngx_encode_base64_internal src basis padding = encode_base64_loop basis padding src []"

definition basis64_enc :: "byte list" where
  "basis64_enc = bytes ''ABCDEFGHIJKLMNOPQRSTUVWXYZabcdefghijklmnopqrstuvwxyz0123456789+/''"

definition basis64url_enc :: "byte list" where
  "basis64url_enc = bytes ''ABCDEFGHIJKLMNOPQRSTUVWXYZabcdefghijklmnopqrstuvwxyz0123456789-_''"

definition ngx_encode_base64 :: "byte list \<Rightarrow> byte list" where
  "ngx_encode_base64 src = ngx_encode_base64_internal src basis64_enc True"

definition ngx_encode_base64url :: "byte list \<Rightarrow> byte list" where
  "ngx_encode_base64url src = ngx_encode_base64_internal src basis64url_enc False"

section \<open>Decoding\<close>

definition basis64_dec :: "byte list" where
  "basis64_dec = [
        77, 77, 77, 77, 77, 77, 77, 77, 77, 77, 77, 77, 77, 77, 77, 77,
        77, 77, 77, 77, 77, 77, 77, 77, 77, 77, 77, 77, 77, 77, 77, 77,
        77, 77, 77, 77, 77, 77, 77, 77, 77, 77, 77, 62, 77, 77, 77, 63,
        52, 53, 54, 55, 56, 57, 58, 59, 60, 61, 77, 77, 77, 77, 77, 77,
        77,  0,  1,  2,  3,  4,  5,  6,  7,  8,  9, 10, 11, 12, 13, 14,
        15, 16, 17, 18, 19, 20, 21, 22, 23, 24, 25, 77, 77, 77, 77, 77,
        77, 26, 27, 28, 29, 30, 31, 32, 33, 34, 35, 36, 37, 38, 39, 40,
        41, 42, 43, 44, 45, 46, 47, 48, 49, 50, 51, 77, 77, 77, 77, 77] @ replicate 128 77"

definition basis64url_dec :: "byte list" where
  "basis64url_dec = [
        77, 77, 77, 77, 77, 77, 77, 77, 77, 77, 77, 77, 77, 77, 77, 77,
        77, 77, 77, 77, 77, 77, 77, 77, 77, 77, 77, 77, 77, 77, 77, 77,
        77, 77, 77, 77, 77, 77, 77, 77, 77, 77, 77, 77, 77, 62, 77, 77,
        52, 53, 54, 55, 56, 57, 58, 59, 60, 61, 77, 77, 77, 77, 77, 77,
        77,  0,  1,  2,  3,  4,  5,  6,  7,  8,  9, 10, 11, 12, 13, 14,
        15, 16, 17, 18, 19, 20, 21, 22, 23, 24, 25, 77, 77, 77, 77, 63,
        77, 26, 27, 28, 29, 30, 31, 32, 33, 34, 35, 36, 37, 38, 39, 40,
        41, 42, 43, 44, 45, 46, 47, 48, 49, 50, 51, 77, 77, 77, 77, 77] @ replicate 128 77"

text \<open>The first loop: the number of characters before the padding, if they are all in the alphabet.\<close>

fun decode_base64_len :: "byte list \<Rightarrow> byte list \<Rightarrow> nat \<Rightarrow> nat option" where
  "decode_base64_len basis [] len = Some len"
| "decode_base64_len basis (c # src) len =
     (if c = B CHR ''='' then Some len
      else if basis ! unat c = 77 then None
      else decode_base64_len basis src (len + 1))"

text \<open>The second loop, on those characters.\<close>

fun decode_base64_loop :: "byte list \<Rightarrow> byte list \<Rightarrow> byte list \<Rightarrow> byte list" where
  "decode_base64_loop basis (s0 # s1 # s2 # s3 # s) d =
     decode_base64_loop basis s
       (d @ [push_bit 2 (basis ! unat s0) OR drop_bit 4 (basis ! unat s1),
             push_bit 4 (basis ! unat s1) OR drop_bit 2 (basis ! unat s2),
             push_bit 6 (basis ! unat s2) OR basis ! unat s3])"
| "decode_base64_loop basis s d =
     (let d = (if 1 < length s then d @ [push_bit 2 (basis ! unat (s ! 0)) OR drop_bit 4 (basis ! unat (s ! 1))] else d)
      in if 2 < length s then d @ [push_bit 4 (basis ! unat (s ! 1)) OR drop_bit 2 (basis ! unat (s ! 2))] else d)"

definition ngx_decode_base64_internal :: "byte list \<Rightarrow> byte list \<Rightarrow> byte list option" where
  "ngx_decode_base64_internal src basis =
     (case decode_base64_len basis src 0 of
        None \<Rightarrow> None
      | Some len \<Rightarrow> if len mod 4 = 1 then None else Some (decode_base64_loop basis (take len src) []))"

definition ngx_decode_base64 :: "byte list \<Rightarrow> byte list option" where
  "ngx_decode_base64 src = ngx_decode_base64_internal src basis64_dec"

definition ngx_decode_base64url :: "byte list \<Rightarrow> byte list option" where
  "ngx_decode_base64url src = ngx_decode_base64_internal src basis64url_dec"

text \<open>The buffer sizes that callers allocate.\<close>

definition ngx_base64_encoded_length :: "nat \<Rightarrow> nat" where
  "ngx_base64_encoded_length len = ((len + 2) div 3) * 4"

definition ngx_base64_decoded_length :: "nat \<Rightarrow> nat" where
  "ngx_base64_decoded_length len = ((len + 3) div 4) * 3"

section \<open>The tables\<close>

locale base64_alphabet =
  fixes enc dec :: "byte list"
  assumes dec_enc: "n < 64 \<Longrightarrow> dec ! unat (enc ! n) = word_of_nat n"
    and enc_not_pad: "n < 64 \<Longrightarrow> enc ! n \<noteq> B CHR ''='' "
begin

lemma dec_enc_word: "x < 64 \<Longrightarrow> dec ! unat (enc ! unat (x :: byte)) = x"
  using dec_enc [of "unat x"] by (simp add: word_less_nat_alt)

lemma enc_valid: "x < 64 \<Longrightarrow> dec ! unat (enc ! unat (x :: byte)) \<noteq> 77"
  by (auto simp: dec_enc_word)

lemma enc_not_pad_word: "x < 64 \<Longrightarrow> enc ! unat (x :: byte) \<noteq> B CHR ''='' "
  using enc_not_pad [of "unat x"] by (simp add: word_less_nat_alt)

end

text \<open>The kernel checks the tables over integers, where look-ups are cheap.\<close>

lemma base64_alphabetI:
  assumes "enc = map word_of_int es" "dec = map word_of_int ds" "length ds = 256" "length es = 64"
    and "list_all (\<lambda>e. 0 \<le> e \<and> e < 256 \<and> e \<noteq> 0x3d) es" "map (\<lambda>e. ds ! nat e) es = [0..63]"
  shows "base64_alphabet enc dec"
proof
  fix n :: nat
  assume n: "n < 64"
  from assms(5) n assms(4) have e: "0 \<le> es ! n" "es ! n < 256" "es ! n \<noteq> 0x3d"
    by (simp_all add: list_all_length)
  have u: "uint (enc ! n) = es ! n" using n assms(1,4) e by (simp add: uint_word_of_int)
  then have "unat (enc ! n) = nat (es ! n)" by (simp add: nat_uint_eq [symmetric])
  moreover have "ds ! nat (es ! n) = [0..63] ! n"
    using n assms(4) by (simp only: assms(6) [symmetric]) simp
  moreover have "[0..63] ! n = int n" using n by (simp add: nth_upto)
  moreover have "nat (es ! n) < 256" using e by simp
  ultimately show "dec ! unat (enc ! n) = word_of_nat n"
    using assms(2,3) by simp
  show "enc ! n \<noteq> B CHR ''='' " using u e(3) by auto
qed

interpretation b64: base64_alphabet basis64_enc basis64_dec
proof (rule base64_alphabetI)
  show "basis64_enc = map word_of_int
    [65, 66, 67, 68, 69, 70, 71, 72, 73, 74, 75, 76, 77, 78, 79, 80, 81, 82, 83, 84, 85, 86, 87, 88, 89,
     90, 97, 98, 99, 100, 101, 102, 103, 104, 105, 106, 107, 108, 109, 110, 111, 112, 113, 114, 115, 116,
     117, 118, 119, 120, 121, 122, 48, 49, 50, 51, 52, 53, 54, 55, 56, 57, 43, 47]" by (simp add: basis64_enc_def)
  show "basis64_dec = map word_of_int ([
     77, 77, 77, 77, 77, 77, 77, 77, 77, 77, 77, 77, 77, 77, 77, 77, 77, 77, 77, 77, 77, 77, 77, 77, 77,
     77, 77, 77, 77, 77, 77, 77, 77, 77, 77, 77, 77, 77, 77, 77, 77, 77, 77, 62, 77, 77, 77, 63, 52, 53,
     54, 55, 56, 57, 58, 59, 60, 61, 77, 77, 77, 77, 77, 77, 77, 0, 1, 2, 3, 4, 5, 6, 7, 8, 9, 10, 11,
     12, 13, 14, 15, 16, 17, 18, 19, 20, 21, 22, 23, 24, 25, 77, 77, 77, 77, 77, 77, 26, 27, 28, 29, 30,
     31, 32, 33, 34, 35, 36, 37, 38, 39, 40, 41, 42, 43, 44, 45, 46, 47, 48, 49, 50, 51, 77, 77, 77, 77,
     77] @ replicate 128 77)" by (simp add: basis64_dec_def)
qed code_simp+

interpretation b64url: base64_alphabet basis64url_enc basis64url_dec
proof (rule base64_alphabetI)
  show "basis64url_enc = map word_of_int
    [65, 66, 67, 68, 69, 70, 71, 72, 73, 74, 75, 76, 77, 78, 79, 80, 81, 82, 83, 84, 85, 86, 87, 88, 89,
     90, 97, 98, 99, 100, 101, 102, 103, 104, 105, 106, 107, 108, 109, 110, 111, 112, 113, 114, 115, 116,
     117, 118, 119, 120, 121, 122, 48, 49, 50, 51, 52, 53, 54, 55, 56, 57, 45, 95]" by (simp add: basis64url_enc_def)
  show "basis64url_dec = map word_of_int ([
     77, 77, 77, 77, 77, 77, 77, 77, 77, 77, 77, 77, 77, 77, 77, 77, 77, 77, 77, 77, 77, 77, 77, 77, 77,
     77, 77, 77, 77, 77, 77, 77, 77, 77, 77, 77, 77, 77, 77, 77, 77, 77, 77, 77, 77, 62, 77, 77, 52, 53,
     54, 55, 56, 57, 58, 59, 60, 61, 77, 77, 77, 77, 77, 77, 77, 0, 1, 2, 3, 4, 5, 6, 7, 8, 9, 10, 11,
     12, 13, 14, 15, 16, 17, 18, 19, 20, 21, 22, 23, 24, 25, 77, 77, 77, 77, 63, 77, 26, 27, 28, 29, 30,
     31, 32, 33, 34, 35, 36, 37, 38, 39, 40, 41, 42, 43, 44, 45, 46, 47, 48, 49, 50, 51, 77, 77, 77, 77,
     77] @ replicate 128 77)" by (simp add: basis64url_dec_def)
qed code_simp+

section \<open>Round trip\<close>

lemma byte_eqI: "list_all (\<lambda>n. bit (x :: byte) n = bit y n) [0, 1, 2, 3, 4, 5, 6, 7] \<Longrightarrow> x = y"
proof (rule bit_word_eqI)
  fix n
  assume a: "list_all (\<lambda>n. bit x n = bit y n) [0, 1, 2, 3, 4, 5, 6, 7]" and "n < LENGTH(8)"
  then have "n < 8" by simp
  then have "n \<in> set [0, 1, 2, 3, 4, 5, 6, 7]" by auto
  with a show "bit x n = bit y n" unfolding list_all_iff by blast
qed

lemma sextetI: "\<not> bit x 6 \<Longrightarrow> \<not> bit x 7 \<Longrightarrow> x < (64 :: byte)"
proof -
  assume "\<not> bit x 6" "\<not> bit x 7"
  then have "x = take_bit 6 x" by (intro byte_eqI) (simp add: bit_take_bit_iff)
  moreover have "unat (take_bit 6 x) < 64" by (simp add: take_bit_eq_mod unat_mod)
  ultimately show ?thesis by (simp add: word_less_nat_alt)
qed

lemma bit_byte_out [simp]: "8 \<le> n \<Longrightarrow> \<not> bit (x :: byte) n"
  using bit_imp_le_length [of x n] by auto

lemmas bit_idx = numeral_2_eq_2 [symmetric] numeral_3_eq_3 [symmetric]

lemma sextets:
  "drop_bit 2 (a :: byte) AND 0x3f < 64"
  "push_bit 4 (a AND 3) OR drop_bit 4 (b :: byte) < 64"
  "push_bit 2 (b AND 0x0f) OR drop_bit 6 (c :: byte) < 64"
  "c AND 0x3f < 64"
  by (rule sextetI; simp add: bit_simps bit_idx)+

lemma sextets_tail: "push_bit 4 (a AND 3) < (64 :: byte)" "push_bit 2 (b AND 0x0f) < (64 :: byte)"
  by (rule sextetI; simp add: bit_simps bit_idx)+

lemma quartet:
  "push_bit 2 (drop_bit 2 a AND 0x3f) OR drop_bit 4 (push_bit 4 (a AND 3) OR drop_bit 4 b) = (a :: byte)"
  "push_bit 4 (push_bit 4 (a AND 3) OR drop_bit 4 b) OR drop_bit 2 (push_bit 2 (b AND 0x0f) OR drop_bit 6 c) = (b :: byte)"
  "push_bit 6 (push_bit 2 (b AND 0x0f) OR drop_bit 6 c) OR (c AND 0x3f) = (c :: byte)"
  "push_bit 2 (drop_bit 2 a AND 0x3f) OR drop_bit 4 (push_bit 4 (a AND 3)) = (a :: byte)"
  "push_bit 4 (push_bit 4 (a AND 3) OR drop_bit 4 b) OR drop_bit 2 (push_bit 2 (b AND 0x0f)) = (b :: byte)"
  by (rule byte_eqI; simp add: bit_simps bit_idx)+

lemma encode_base64_acc: "encode_base64_loop basis padding s (d @ d') = d @ encode_base64_loop basis padding s d'"
  by (induction basis padding s d' arbitrary: d rule: encode_base64_loop.induct) (simp_all add: Let_def)

lemma decode_base64_acc: "decode_base64_loop basis s (d @ d') = d @ decode_base64_loop basis s d'"
  by (induction basis s d' arbitrary: d rule: decode_base64_loop.induct) (simp_all add: Let_def)

lemma decode_base64_len_acc:
  "decode_base64_len basis s (n + m) = map_option (\<lambda>k. n + k) (decode_base64_len basis s m)"
proof (induction s arbitrary: m)
  case (Cons c s)
  then show ?case using Cons.IH [of "m + 1"] by simp
qed simp

text \<open>Four valid characters in front are four more characters to decode.\<close>

lemma decode_internal_quad:
  assumes "list_all (\<lambda>c. c \<noteq> B CHR ''='' \<and> basis ! unat c \<noteq> 77) [c0, c1, c2, c3]"
  shows "ngx_decode_base64_internal (c0 # c1 # c2 # c3 # s) basis =
     map_option (\<lambda>d. decode_base64_loop basis [c0, c1, c2, c3] [] @ d) (ngx_decode_base64_internal s basis)"
proof -
  have "decode_base64_len basis (c0 # c1 # c2 # c3 # s) 0 = map_option (\<lambda>k. 4 + k) (decode_base64_len basis s 0)"
    using assms decode_base64_len_acc [of basis s 4 0] by (simp add: eval_nat_numeral)
  moreover have "take (4 + k) (c0 # c1 # c2 # c3 # s) = c0 # c1 # c2 # c3 # take k s" for k
    by (simp add: eval_nat_numeral)
  ultimately show ?thesis
    using decode_base64_acc [of basis "take n s" "decode_base64_loop basis [c0, c1, c2, c3] []" "[]" for n]
    by (cases "decode_base64_len basis s 0") (simp_all add: ngx_decode_base64_internal_def)
qed

text \<open>Two or three valid characters at the end, with padding or without.\<close>

lemma decode_internal_tail:
  assumes "list_all (\<lambda>c. c \<noteq> B CHR ''='' \<and> basis ! unat c \<noteq> 77) [c0, c1, c2]"
    "t = [] \<or> hd t = B CHR ''='' "
  shows "ngx_decode_base64_internal ([c0, c1] @ t) basis =
           Some [push_bit 2 (basis ! unat c0) OR drop_bit 4 (basis ! unat c1)]"
    and "ngx_decode_base64_internal ([c0, c1, c2] @ t) basis =
           Some [push_bit 2 (basis ! unat c0) OR drop_bit 4 (basis ! unat c1),
                 push_bit 4 (basis ! unat c1) OR drop_bit 2 (basis ! unat c2)]"
  using assms by (cases t; simp add: ngx_decode_base64_internal_def)+

lemma decode_base64_quad:
  "decode_base64_loop basis [c0, c1, c2, c3] [] =
     [push_bit 2 (basis ! unat c0) OR drop_bit 4 (basis ! unat c1),
      push_bit 4 (basis ! unat c1) OR drop_bit 2 (basis ! unat c2),
      push_bit 6 (basis ! unat c2) OR basis ! unat c3]"
  by simp

context base64_alphabet
begin

text \<open>Encoding in either style and then decoding is the identity.\<close>

lemma decode_encode: "ngx_decode_base64_internal (encode_base64_loop enc padding s []) dec = Some s"
proof (induction "length s" arbitrary: s rule: less_induct)
  case less
  note valid1 = enc_not_pad_word [simplified] enc_valid sextets sextets [simplified] sextets_tail sextets_tail [simplified]
  consider a b c t where "s = a # b # c # t" | "s = []" | a where "s = [a]" | a b where "s = [a, b]"
    by (metis neq_Nil_conv)
  then show ?case
  proof cases
    case 1
    let ?q = "[enc ! unat (drop_bit 2 a AND 0x3f), enc ! unat (push_bit 4 (a AND 3) OR drop_bit 4 b),
               enc ! unat (push_bit 2 (b AND 0x0f) OR drop_bit 6 c), enc ! unat (c AND 0x3f)]"
    have "encode_base64_loop enc padding s [] = ?q @ encode_base64_loop enc padding t []"
      using 1 encode_base64_acc [of enc padding t ?q "[]"] by simp
    moreover have "ngx_decode_base64_internal (encode_base64_loop enc padding t []) dec = Some t"
      using 1 by (intro less) simp
    moreover have "list_all (\<lambda>c. c \<noteq> B CHR ''='' \<and> dec ! unat c \<noteq> 77) ?q"
      by (simp add: valid1)
    moreover have "decode_base64_loop dec ?q [] = [a, b, c]"
      unfolding decode_base64_quad dec_enc_word [OF sextets(1)] dec_enc_word [OF sextets(2)]
        dec_enc_word [OF sextets(3)] dec_enc_word [OF sextets(4)] quartet by (rule refl)
    ultimately show ?thesis using 1 by (simp add: decode_internal_quad del: of_char_Char)
  next
    case 2
    then show ?thesis by (simp add: ngx_decode_base64_internal_def)
  next
    case 3
    have "list_all (\<lambda>c. c \<noteq> B CHR ''='' \<and> dec ! unat c \<noteq> 77)
        [enc ! unat (drop_bit 2 a AND 0x3f), enc ! unat (push_bit 4 (a AND 3)), enc ! unat (drop_bit 2 a AND 0x3f)]"
      by (simp add: valid1)
    from decode_internal_tail(1) [OF this, of "if padding then [B CHR ''='', B CHR ''=''] else []"] 3
    show ?thesis
      unfolding dec_enc_word [OF sextets(1)] dec_enc_word [OF sextets_tail(1)] quartet
      by (cases padding) (simp_all add: Let_def)
  next
    case 4
    have "list_all (\<lambda>c. c \<noteq> B CHR ''='' \<and> dec ! unat c \<noteq> 77)
        [enc ! unat (drop_bit 2 a AND 0x3f), enc ! unat (push_bit 4 (a AND 3) OR drop_bit 4 b),
         enc ! unat (push_bit 2 (b AND 0x0f))]"
      by (simp add: valid1)
    from decode_internal_tail(2) [OF this, of "if padding then [B CHR ''=''] else []"] 4
    show ?thesis
      unfolding dec_enc_word [OF sextets(1)] dec_enc_word [OF sextets(2)] dec_enc_word [OF sextets_tail(2)] quartet
      by (cases padding) (simp_all add: Let_def)
  qed
qed

end

lemma encoded_length_simps [simp]:
  "ngx_base64_encoded_length 0 = 0" "ngx_base64_encoded_length (Suc 0) = 4"
  "ngx_base64_encoded_length (Suc (Suc 0)) = 4"
  "ngx_base64_encoded_length (Suc (Suc (Suc n))) = 4 + ngx_base64_encoded_length n"
proof -
  have "(5 + n) div 3 = Suc ((2 + n) div 3)" by presburger
  then show "ngx_base64_encoded_length (Suc (Suc (Suc n))) = 4 + ngx_base64_encoded_length n"
    by (simp add: ngx_base64_encoded_length_def)
qed (simp_all add: ngx_base64_encoded_length_def)

lemma encode_base64_length:
  "length (encode_base64_loop basis padding s d) \<le> length d + ngx_base64_encoded_length (length s) \<and>
   (padding \<longrightarrow> length (encode_base64_loop basis padding s d) = length d + ngx_base64_encoded_length (length s))"
  by (induction basis padding s d rule: encode_base64_loop.induct) (simp_all add: Let_def)

text \<open>
  C31. Decoding what was encoded gives the bytes back, in the standard alphabet with padding and in
  the URL alphabet without it.
\<close>

theorem base64_roundtrip:
  "ngx_decode_base64 (ngx_encode_base64 s) = Some s \<and> ngx_decode_base64url (ngx_encode_base64url s) = Some s"
  by (simp add: ngx_decode_base64_def ngx_encode_base64_def ngx_decode_base64url_def ngx_encode_base64url_def
    ngx_encode_base64_internal_def b64.decode_encode b64url.decode_encode)

lemma decode_base64_loop_length:
  "length s mod 4 \<noteq> 1 \<Longrightarrow> length (decode_base64_loop basis s d) = length d + length s * 3 div 4"
proof (induction basis s d rule: decode_base64_loop.induct)
  case (1 basis s0 s1 s2 s3 s d)
  then show ?case by simp
qed (auto simp: Let_def)

lemma decode_base64_len_le: "decode_base64_len basis s n = Some k \<Longrightarrow> k \<le> n + length s"
proof (induction s arbitrary: n)
  case (Cons c s)
  then show ?case using Cons.IH [of "n + 1"] by (auto split: if_splits)
qed simp

lemma decode_internal_length:
  "ngx_decode_base64_internal src basis = Some d \<Longrightarrow> length d \<le> ngx_base64_decoded_length (length src)"
proof -
  assume "ngx_decode_base64_internal src basis = Some d"
  then obtain len where len: "decode_base64_len basis src 0 = Some len" "len mod 4 \<noteq> 1"
    and d: "d = decode_base64_loop basis (take len src) []"
    by (auto simp: ngx_decode_base64_internal_def split: option.splits if_splits)
  have "len \<le> length src" using decode_base64_len_le [OF len(1)] by simp
  with d len(2) have "length d = len * 3 div 4"
    by (simp add: decode_base64_loop_length)
  also have "\<dots> \<le> (len + 3) div 4 * 3" by linarith
  also have "\<dots> \<le> (length src + 3) div 4 * 3" using \<open>len \<le> length src\<close> by (intro mult_le_mono1 div_le_mono) simp
  finally show ?thesis by (simp add: ngx_base64_decoded_length_def)
qed

text \<open>
  The sizes that callers allocate are enough: an encoded string with padding has exactly
  \<open>ngx_base64_encoded_length\<close> bytes and one without has at most that many, and whatever a decoder
  accepts, valid encoding or not, it writes at most \<open>ngx_base64_decoded_length\<close> bytes.
\<close>

theorem base64_buffers:
  "length (ngx_encode_base64 s) = ngx_base64_encoded_length (length s) \<and>
   length (ngx_encode_base64url s) \<le> ngx_base64_encoded_length (length s) \<and>
   pred_option (\<lambda>d. length d \<le> ngx_base64_decoded_length (length s)) (ngx_decode_base64 s) \<and>
   pred_option (\<lambda>d. length d \<le> ngx_base64_decoded_length (length s)) (ngx_decode_base64url s)"
  using encode_base64_length [of basis64_enc True s "[]"] encode_base64_length [of basis64url_enc False s "[]"]
  by (auto simp: ngx_encode_base64_def ngx_encode_base64url_def ngx_encode_base64_internal_def
    ngx_decode_base64_def ngx_decode_base64url_def option.pred_set dest: decode_internal_length)

end
