(* ===== verification/Ngx_Queue.thy ===== *)
theory Ngx_Queue
  imports Ngx_Prelude "HOL-Library.Monad_Syntax" "HOL-Library.Multiset" "HOL-Library.Sublist"
begin

text \<open>
  The intrusive doubly linked queue of \<^verbatim>\<open>src/core/ngx_queue.h\<close> and \<^verbatim>\<open>src/core/ngx_queue.c\<close> with its
  merge sort, and the queues of posted events in \<^verbatim>\<open>src/event/ngx_event_posted.c\<close>.

  Memory is a heap split by field: \<open>prev\<close> and \<open>nxt\<close> are partial maps from the address of a link to
  the pointer stored there, and an address outside their domain is no link. Reading or writing through
  such an address makes an operation return \<open>None\<close>; so does a loop that does not end. A theorem that an
  operation returns \<open>Some\<close> therefore states memory safety and termination as well. Macros that
  assign to \<open>(x)->next->prev\<close> read the inner pointer from the heap as it is at that statement.

  \<open>is_queue s q xs\<close> relates the heap to the list of the elements of the queue with sentinel \<open>q\<close>;
  every operation is shown to have on that list the effect its name promises, and to leave the
  memory outside the queue alone. The handlers of posted events are an argument of the loop that runs them, with a
  contract, \<open>handler_ok\<close>, that lets them post and delete events.
\<close>


section \<open>The heap and the operations\<close>

type_synonym ptr = nat

record qheap =
  prev :: "ptr \<rightharpoonup> ptr"
  nxt :: "ptr \<rightharpoonup> ptr"

definition set_prev :: "ptr \<Rightarrow> ptr \<Rightarrow> 'a qheap_scheme \<Rightarrow> 'a qheap_scheme option" where
  "set_prev x v s = (case prev s x of None \<Rightarrow> None | Some _ \<Rightarrow> Some (s\<lparr>prev := (prev s)(x \<mapsto> v)\<rparr>))"

definition set_next :: "ptr \<Rightarrow> ptr \<Rightarrow> 'a qheap_scheme \<Rightarrow> 'a qheap_scheme option" where
  "set_next x v s = (case nxt s x of None \<Rightarrow> None | Some _ \<Rightarrow> Some (s\<lparr>nxt := (nxt s)(x \<mapsto> v)\<rparr>))"

definition ngx_queue_init :: "ptr \<Rightarrow> 'a qheap_scheme \<Rightarrow> 'a qheap_scheme option" where
  "ngx_queue_init q s = do { s \<leftarrow> set_prev q q s; set_next q q s }"

definition ngx_queue_empty :: "ptr \<Rightarrow> 'a qheap_scheme \<Rightarrow> bool option" where
  "ngx_queue_empty h s = do { p \<leftarrow> prev s h; Some (h = p) }"

definition ngx_queue_insert_head :: "ptr \<Rightarrow> ptr \<Rightarrow> 'a qheap_scheme \<Rightarrow> 'a qheap_scheme option" where
  "ngx_queue_insert_head h x s = do {
     n \<leftarrow> nxt s h; s \<leftarrow> set_next x n s;
     n \<leftarrow> nxt s x; s \<leftarrow> set_prev n x s;
     s \<leftarrow> set_prev x h s;
     set_next h x s }"

definition ngx_queue_insert_tail :: "ptr \<Rightarrow> ptr \<Rightarrow> 'a qheap_scheme \<Rightarrow> 'a qheap_scheme option" where
  "ngx_queue_insert_tail h x s = do {
     p \<leftarrow> prev s h; s \<leftarrow> set_prev x p s;
     p \<leftarrow> prev s x; s \<leftarrow> set_next p x s;
     s \<leftarrow> set_next x h s;
     set_prev h x s }"

definition ngx_queue_remove :: "ptr \<Rightarrow> 'a qheap_scheme \<Rightarrow> 'a qheap_scheme option" where
  "ngx_queue_remove x s = do {
     n \<leftarrow> nxt s x; p \<leftarrow> prev s x; s \<leftarrow> set_prev n p s;
     p \<leftarrow> prev s x; n \<leftarrow> nxt s x; set_next p n s }"

definition ngx_queue_split :: "ptr \<Rightarrow> ptr \<Rightarrow> ptr \<Rightarrow> 'a qheap_scheme \<Rightarrow> 'a qheap_scheme option" where
  "ngx_queue_split h q n s = do {
     p \<leftarrow> prev s h; s \<leftarrow> set_prev n p s;
     p \<leftarrow> prev s n; s \<leftarrow> set_next p n s;
     s \<leftarrow> set_next n q s;
     p \<leftarrow> prev s q; s \<leftarrow> set_prev h p s;
     p \<leftarrow> prev s h; s \<leftarrow> set_next p h s;
     set_prev q n s }"

definition ngx_queue_add :: "ptr \<Rightarrow> ptr \<Rightarrow> 'a qheap_scheme \<Rightarrow> 'a qheap_scheme option" where
  "ngx_queue_add h n s = do {
     p \<leftarrow> prev s h; m \<leftarrow> nxt s n; s \<leftarrow> set_next p m s;
     m \<leftarrow> nxt s n; p \<leftarrow> prev s h; s \<leftarrow> set_prev m p s;
     p \<leftarrow> prev s n; s \<leftarrow> set_prev h p s;
     p \<leftarrow> prev s h; set_next p h s }"

text \<open>The loop of \<open>ngx_queue_middle\<close>.\<close>

partial_function (option) queue_middle_loop :: "ptr \<Rightarrow> ptr \<Rightarrow> ptr \<Rightarrow> 'a qheap_scheme \<Rightarrow> ptr option" where
  "queue_middle_loop queue middle nx s = do {
     middle \<leftarrow> nxt s middle;
     nx \<leftarrow> nxt s nx;
     l \<leftarrow> prev s queue;
     if nx = l then Some middle
     else do {
       nx \<leftarrow> nxt s nx;
       if nx = l then Some middle else queue_middle_loop queue middle nx s } }"

definition ngx_queue_middle :: "ptr \<Rightarrow> 'a qheap_scheme \<Rightarrow> ptr option" where
  "ngx_queue_middle queue s = do {
     middle \<leftarrow> nxt s queue;
     l \<leftarrow> prev s queue;
     if middle = l then Some middle
     else do { nx \<leftarrow> nxt s queue; queue_middle_loop queue middle nx s } }"

partial_function (option) queue_merge_loop ::
  "(ptr \<Rightarrow> ptr \<Rightarrow> int) \<Rightarrow> ptr \<Rightarrow> ptr \<Rightarrow> ptr \<Rightarrow> ptr \<Rightarrow> 'a qheap_scheme \<Rightarrow> 'a qheap_scheme option" where
  "queue_merge_loop cmp queue tail q1 q2 s =
     (if q1 = queue then ngx_queue_add queue tail s
      else if q2 = tail then Some s
      else if cmp q1 q2 \<le> 0 then do { q1 \<leftarrow> nxt s q1; queue_merge_loop cmp queue tail q1 q2 s }
      else do {
        s \<leftarrow> ngx_queue_remove q2 s;
        s \<leftarrow> ngx_queue_insert_tail q1 q2 s;
        q2 \<leftarrow> nxt s tail;
        queue_merge_loop cmp queue tail q1 q2 s })"

definition ngx_queue_merge :: "(ptr \<Rightarrow> ptr \<Rightarrow> int) \<Rightarrow> ptr \<Rightarrow> ptr \<Rightarrow> 'a qheap_scheme \<Rightarrow> 'a qheap_scheme option" where
  "ngx_queue_merge cmp queue tail s = do {
     q1 \<leftarrow> nxt s queue; q2 \<leftarrow> nxt s tail; queue_merge_loop cmp queue tail q1 q2 s }"

text \<open>
  The automatic variable \<open>tail\<close> of the activation at recursion depth \<open>d\<close> lives at \<open>tail d\<close>.
\<close>

partial_function (option) ngx_queue_sort ::
  "(ptr \<Rightarrow> ptr \<Rightarrow> int) \<Rightarrow> (nat \<Rightarrow> ptr) \<Rightarrow> nat \<Rightarrow> ptr \<Rightarrow> 'a qheap_scheme \<Rightarrow> 'a qheap_scheme option" where
  "ngx_queue_sort cmp tail d queue s = do {
     q \<leftarrow> nxt s queue;
     l \<leftarrow> prev s queue;
     if q = l then Some s
     else do {
       q \<leftarrow> ngx_queue_middle queue s;
       s \<leftarrow> ngx_queue_split queue q (tail d) s;
       s \<leftarrow> ngx_queue_sort cmp tail (Suc d) queue s;
       s \<leftarrow> ngx_queue_sort cmp tail (Suc d) (tail d) s;
       ngx_queue_merge cmp queue (tail d) s } }"

section \<open>Queues in the heap\<close>

text \<open>\<open>path f ps\<close>: following \<open>f\<close> leads through the addresses \<open>ps\<close> in order.\<close>

fun path :: "(ptr \<rightharpoonup> ptr) \<Rightarrow> ptr list \<Rightarrow> bool" where
  "path f (a # b # r) \<longleftrightarrow> f a = Some b \<and> path f (b # r)"
| "path f _ \<longleftrightarrow> True"

lemma path_Cons: "path f (a # r) \<longleftrightarrow> r = [] \<or> f a = Some (hd r) \<and> path f r"
  by (cases r) auto

lemma path_append: "path f (xs @ a # ys) \<longleftrightarrow> path f (xs @ [a]) \<and> path f (a # ys)"
  by (induction xs) (auto simp: path_Cons hd_append)

lemma path_upd [simp]: "u \<notin> set (butlast ps) \<Longrightarrow> path (f(u \<mapsto> v)) ps = path f ps"
  by (induction ps) (auto simp: path_Cons)

lemma path_upd_other [simp]: "u \<notin> set ps \<Longrightarrow> path (f(u \<mapsto> v)) ps = path f ps"
  by (meson in_set_butlastD path_upd)

lemma path_cong: "(\<And>a. a \<in> set (butlast ps) \<Longrightarrow> f a = g a) \<Longrightarrow> path f ps = path g ps"
  by (induction ps) (auto simp: path_Cons)

text \<open>A ring through the sentinel, traversed forwards and backwards.\<close>

definition is_queue :: "'a qheap_scheme \<Rightarrow> ptr \<Rightarrow> ptr list \<Rightarrow> bool" where
  "is_queue s q xs \<longleftrightarrow> distinct (q # xs) \<and> path (nxt s) (q # xs @ [q]) \<and> path (prev s) (q # rev xs @ [q])"

definition same_outside :: "ptr set \<Rightarrow> 'a qheap_scheme \<Rightarrow> 'a qheap_scheme \<Rightarrow> bool" where
  "same_outside A s s' \<longleftrightarrow> (\<forall>x. x \<notin> A \<longrightarrow> nxt s' x = nxt s x \<and> prev s' x = prev s x)"

lemma is_queue_frame:
  assumes "is_queue s q xs" "same_outside A s s'" "A \<inter> set (q # xs) = {}"
  shows "is_queue s' q xs"
proof -
  have "path (nxt s') (q # xs @ [q]) = path (nxt s) (q # xs @ [q])"
       "path (prev s') (q # rev xs @ [q]) = path (prev s) (q # rev xs @ [q])"
    using assms(2,3) unfolding same_outside_def by (intro path_cong; auto simp: butlast_append)+
  then show ?thesis using assms(1) by (simp add: is_queue_def)
qed


lemma same_outsideI [intro?]:
  "(\<And>x. x \<notin> A \<Longrightarrow> nxt s' x = nxt s x \<and> prev s' x = prev s x) \<Longrightarrow> same_outside A s s'"
  by (simp add: same_outside_def)

lemma same_outside_trans:
  "same_outside A s s' \<Longrightarrow> same_outside A' s' s'' \<Longrightarrow> A \<union> A' \<subseteq> C \<Longrightarrow> same_outside C s s''"
  unfolding same_outside_def by (metis UnCI subsetD)

text \<open>The ring of a queue, cut open between two neighbours.\<close>

lemma ring_cut:
  assumes "q # xs @ [q] = as @ p # h # bs"
  shows "is_queue s q xs \<longleftrightarrow> distinct (q # xs) \<and>
    path (nxt s) (as @ [p]) \<and> nxt s p = Some h \<and> path (nxt s) (h # bs) \<and>
    path (prev s) (rev bs @ [h]) \<and> prev s h = Some p \<and> path (prev s) (p # rev as)"
proof -
  have r: "q # rev xs @ [q] = rev bs @ h # p # rev as"
    using arg_cong [OF assms, of rev] by simp
  show ?thesis
    unfolding is_queue_def assms r
    by (simp add: path_append [of _ as p "h # bs"] path_append [of _ "rev bs" h "p # rev as"])
qed

lemma ring_distinct:
  assumes "q # xs @ [q] = as @ p # h # bs" "distinct (q # xs)"
  shows "p \<notin> set as" "p \<notin> set (butlast (h # bs))" "h \<notin> set bs" "h \<notin> set (butlast (p # rev as))"
proof -
  have "butlast (q # xs @ [q]) = as @ p # butlast (h # bs)" using assms(1) by (simp add: butlast_append)
  then have "distinct (as @ p # butlast (h # bs))" using assms(2) by (simp add: butlast_append)
  then show "p \<notin> set as" "p \<notin> set (butlast (h # bs))" by auto
  have "tl (q # xs @ [q]) = tl (as @ [p]) @ h # bs" using assms(1) by (cases as) auto
  moreover have "distinct (tl (q # xs @ [q]))" using assms(2) by simp
  ultimately have "distinct (tl (as @ [p]) @ h # bs)" by metis
  moreover have "butlast (p # rev as) = rev (tl (as @ [p]))" by (cases as) (auto simp: butlast_append)
  ultimately show "h \<notin> set bs" "h \<notin> set (butlast (p # rev as))" by auto
qed

lemma ring_elems: "q # xs @ [q] = as @ p # h # bs \<Longrightarrow> insert q (set xs) = set as \<union> {p, h} \<union> set bs"
  by (drule arg_cong [of _ _ set]) auto

lemma ring_member: "h \<in> set xs \<or> h = q \<Longrightarrow> \<exists>as p bs. q # xs @ [q] = as @ p # h # bs"
proof -
  assume "h \<in> set xs \<or> h = q"
  then obtain ys zs where "xs @ [q] = ys @ h # zs" by (metis in_set_conv_decomp Un_iff insertCI list.simps(15) set_append)
  moreover have "q # ys = butlast (q # ys) @ [last (q # ys)]" by (metis append_butlast_last_id list.distinct(1))
  ultimately have "q # xs @ [q] = butlast (q # ys) @ last (q # ys) # h # zs" by (metis append.assoc append_Cons append_Nil)
  then show ?thesis by blast
qed


text \<open>The address of a link.\<close>

definition mapped :: "'a qheap_scheme \<Rightarrow> ptr \<Rightarrow> bool" where
  "mapped s x \<longleftrightarrow> prev s x \<noteq> None \<and> nxt s x \<noteq> None"

lemmas queue_op_defs = set_prev_def set_next_def mapped_def

text \<open>The assignments of each macro, executed.\<close>

lemma insert_tail_eval:
  assumes "prev s h = Some p" "nxt s p \<noteq> None" "mapped s x" "x \<noteq> h" "x \<noteq> p"
  shows "ngx_queue_insert_tail h x s =
    Some (s\<lparr>nxt := (nxt s)(p \<mapsto> x, x \<mapsto> h), prev := (prev s)(x \<mapsto> p, h \<mapsto> x)\<rparr>)"
  using assms by (auto simp: ngx_queue_insert_tail_def queue_op_defs split: option.splits)

lemma insert_head_eval:
  assumes "nxt s h = Some n" "prev s n \<noteq> None" "mapped s x" "x \<noteq> h" "x \<noteq> n"
  shows "ngx_queue_insert_head h x s =
    Some (s\<lparr>prev := (prev s)(n \<mapsto> x, x \<mapsto> h), nxt := (nxt s)(x \<mapsto> n, h \<mapsto> x)\<rparr>)"
  using assms by (auto simp: ngx_queue_insert_head_def queue_op_defs split: option.splits)

lemma remove_eval:
  assumes "prev s x = Some p" "nxt s x = Some n" "prev s n \<noteq> None" "nxt s p \<noteq> None" "x \<noteq> n" "x \<noteq> p"
  shows "ngx_queue_remove x s = Some (s\<lparr>prev := (prev s)(n \<mapsto> p), nxt := (nxt s)(p \<mapsto> n)\<rparr>)"
  using assms by (auto simp: ngx_queue_remove_def queue_op_defs split: option.splits)

lemma queue_mapped:
  assumes "is_queue s q xs" "x \<in> set (q # xs)"
  shows "mapped s x"
proof -
  obtain as p bs where r: "q # xs @ [q] = as @ p # x # bs" using ring_member [of x xs q] assms(2) by auto
  have "\<exists>as n bs. q # rev xs @ [q] = as @ n # x # bs" using ring_member [of x "rev xs" q] assms(2) by auto
  then obtain as' n bs' where r': "q # rev xs @ [q] = as' @ n # x # bs'" by blast
  have "q # xs @ [q] = rev bs' @ x # n # rev as'" using arg_cong [OF r', of rev] by simp
  then show ?thesis using ring_cut [OF r, of s] ring_cut [of q xs "rev bs'" x n "rev as'" s] assms(1) by (simp add: mapped_def)
qed

lemma queue_insert_between:
  assumes q: "is_queue s q xs" and r: "q # xs @ [q] = as @ p # h # bs" and x: "x \<notin> set (q # xs)"
    and r': "q # xs' @ [q] = as @ p # x # h # bs"
  shows "is_queue (s\<lparr>nxt := (nxt s)(p \<mapsto> x, x \<mapsto> h), prev := (prev s)(x \<mapsto> p, h \<mapsto> x)\<rparr>) q xs'"
proof -
  have d: "distinct (q # xs)" using q by (simp add: is_queue_def)
  note rd = ring_distinct [OF r d] and el = ring_elems [OF r]
  have xn: "x \<notin> set as" "x \<noteq> p" "x \<noteq> h" "x \<notin> set bs" using x el by auto
  have xb: "x \<notin> set (butlast (h # bs))" "x \<notin> set (butlast (p # rev as))"
    using xn by (metis in_set_butlastD set_ConsD set_rev)+
  have "mset (q # xs' @ [q]) = add_mset x (mset (q # xs @ [q]))" unfolding r r' by simp
  then have "mset (q # xs') = mset (x # q # xs)" by simp
  then have d': "distinct (q # xs')" using d x by (metis distinct.simps(2) mset_eq_imp_distinct_iff)
  show ?thesis unfolding ring_cut [OF r']
    using q [unfolded ring_cut [OF r]] d' rd xn xb
    by (simp add: path_append [of _ "rev bs" h "[x]"])
qed

lemma queue_delete_between:
  assumes q: "is_queue s q xs" and r: "q # xs @ [q] = as @ p # x # h # bs"
    and r': "q # xs' @ [q] = as @ p # h # bs" and x: "x \<noteq> q"
  shows "is_queue (s\<lparr>prev := (prev s)(h \<mapsto> p), nxt := (nxt s)(p \<mapsto> h)\<rparr>) q xs'"
    and "prev s x = Some p" "nxt s x = Some h" "x \<noteq> p" "x \<noteq> h"
proof -
  have d: "distinct (q # xs)" using q by (simp add: is_queue_def)
  have "mset (q # xs @ [q]) = add_mset x (mset (q # xs' @ [q]))" unfolding r r' by simp
  then have m: "mset (q # xs) = mset (x # q # xs')" by simp
  then have "distinct (x # q # xs')" using d by (metis mset_eq_imp_distinct_iff)
  then have d': "distinct (q # xs')" and xs': "x \<notin> set (q # xs')" by auto
  note rd = ring_distinct [OF r' d'] and el = ring_elems [OF r']
  show "x \<noteq> p" "x \<noteq> h" using xs' el by auto
  show "prev s x = Some p" "nxt s x = Some h" using q [unfolded ring_cut [OF r]] by auto
  show "is_queue (s\<lparr>prev := (prev s)(h \<mapsto> p), nxt := (nxt s)(p \<mapsto> h)\<rparr>) q xs'"
    unfolding ring_cut [OF r'] using q [unfolded ring_cut [OF r]] d' rd
    by (simp add: path_append [of _ "rev bs" h "[x]"])
qed

text \<open>The operations on a queue. Every one of them writes to the elements it links only.\<close>

lemma ring_at: "q # (xs @ ys) @ [q] = butlast (q # xs) @ last (q # xs) # hd (ys @ [q]) # tl (ys @ [q])"
proof -
  have "hd (ys @ [q]) # tl (ys @ [q]) = ys @ [q]" by (rule list.collapse) simp
  moreover have "butlast (q # xs) @ [last (q # xs)] = q # xs" by (rule append_butlast_last_id) simp
  ultimately show ?thesis by (metis append.assoc append_Cons append_Nil)
qed

lemma queue_neighbours:
  assumes "is_queue s q (xs @ ys)"
  shows "nxt s (last (q # xs)) = Some (hd (ys @ [q]))" "prev s (hd (ys @ [q])) = Some (last (q # xs))"
  using assms [unfolded ring_cut [OF ring_at]] by auto

lemma queue_insert_at:
  assumes q: "is_queue s q (xs @ ys)" and x: "x \<notin> set (q # xs @ ys)"
  shows "is_queue (s\<lparr>nxt := (nxt s)(last (q # xs) \<mapsto> x, x \<mapsto> hd (ys @ [q])),
    prev := (prev s)(x \<mapsto> last (q # xs), hd (ys @ [q]) \<mapsto> x)\<rparr>) q (xs @ x # ys)"
proof (rule queue_insert_between [OF q ring_at x])
  show "q # (xs @ x # ys) @ [q] = butlast (q # xs) @ last (q # xs) # x # hd (ys @ [q]) # tl (ys @ [q])"
    using ring_at [of q xs "x # ys"] by (simp del: last.simps butlast.simps)
qed

lemma insert_before_queue:
  assumes q: "is_queue s q (xs @ ys)" and x: "x \<notin> set (q # xs @ ys)" "mapped s x"
  shows "\<exists>s'. ngx_queue_insert_tail (hd (ys @ [q])) x s = Some s' \<and> is_queue s' q (xs @ x # ys) \<and>
    same_outside (set (x # q # xs @ ys)) s s'"
proof -
  define h p where "h = hd (ys @ [q])" and "p = last (q # xs)"
  note n = queue_neighbours [OF q, folded h_def p_def] and i = queue_insert_at [OF q x(1), folded h_def p_def]
  have e: "h \<in> set (q # xs @ ys)" "p \<in> set (q # xs @ ys)"
    using ring_elems [OF ring_at, of q xs ys, folded h_def p_def] by auto
  have "ngx_queue_insert_tail h x s =
      Some (s\<lparr>nxt := (nxt s)(p \<mapsto> x, x \<mapsto> h), prev := (prev s)(x \<mapsto> p, h \<mapsto> x)\<rparr>)"
    using n e x by (intro insert_tail_eval) auto
  then show ?thesis using i e by (fold h_def) (auto intro!: same_outsideI)
qed

lemma insert_head_queue:
  assumes q: "is_queue s q xs" and x: "x \<notin> set (q # xs)" "mapped s x"
  shows "\<exists>s'. ngx_queue_insert_head q x s = Some s' \<and> is_queue s' q (x # xs) \<and>
    same_outside (set (x # q # xs)) s s'"
proof -
  define n where "n = hd (xs @ [q])"
  have q': "is_queue s q ([] @ xs)" using q by simp
  have nb: "nxt s q = Some n" "prev s n = Some q" using queue_neighbours [OF q', folded n_def] by auto
  have i: "is_queue (s\<lparr>nxt := (nxt s)(q \<mapsto> x, x \<mapsto> n), prev := (prev s)(x \<mapsto> q, n \<mapsto> x)\<rparr>) q (x # xs)"
    using queue_insert_at [OF q', of x, folded n_def] x by simp
  have e: "n \<in> set (q # xs)" unfolding n_def by (cases xs) auto
  have "ngx_queue_insert_head q x s =
      Some (s\<lparr>prev := (prev s)(n \<mapsto> x, x \<mapsto> q), nxt := (nxt s)(x \<mapsto> n, q \<mapsto> x)\<rparr>)"
    using nb e x by (intro insert_head_eval) auto
  moreover have "s\<lparr>prev := (prev s)(n \<mapsto> x, x \<mapsto> q), nxt := (nxt s)(x \<mapsto> n, q \<mapsto> x)\<rparr> =
      s\<lparr>nxt := (nxt s)(q \<mapsto> x, x \<mapsto> n), prev := (prev s)(x \<mapsto> q, n \<mapsto> x)\<rparr>"
    using x e by (intro qheap.equality) (auto simp: fun_upd_twist)
  ultimately show ?thesis using i e x by (auto intro!: same_outsideI)
qed

lemma remove_queue:
  assumes q: "is_queue s q (xs @ x # ys)"
  shows "\<exists>s'. ngx_queue_remove x s = Some s' \<and> is_queue s' q (xs @ ys) \<and>
    same_outside (set (q # xs @ ys)) s s' \<and> mapped s' x"
proof -
  define h p where "h = hd (ys @ [q])" and "p = last (q # xs)"
  have r: "q # (xs @ ys) @ [q] = butlast (q # xs) @ p # h # tl (ys @ [q])"
    unfolding h_def p_def by (rule ring_at)
  have rx: "q # (xs @ x # ys) @ [q] = butlast (q # xs) @ p # x # h # tl (ys @ [q])"
    using ring_at [of q xs "x # ys", folded p_def] by (simp add: h_def del: last.simps butlast.simps)
  have x: "x \<noteq> q" using q by (auto simp: is_queue_def)
  note d = queue_delete_between [OF q rx r x]
  have e: "h \<in> set (q # xs @ ys)" "p \<in> set (q # xs @ ys)" using ring_elems [OF r] by auto
  have "mapped s h" "mapped s p" "mapped s x" using queue_mapped [OF q] e by auto
  then have "ngx_queue_remove x s = Some (s\<lparr>prev := (prev s)(h \<mapsto> p), nxt := (nxt s)(p \<mapsto> h)\<rparr>)"
    using d by (intro remove_eval) (auto simp: mapped_def)
  then show ?thesis using d e by (auto intro!: same_outsideI simp: mapped_def)
qed


lemma path_append_iff:
  "path f (xs @ ys) \<longleftrightarrow> path f xs \<and> path f ys \<and> (xs \<noteq> [] \<and> ys \<noteq> [] \<longrightarrow> f (last xs) = Some (hd ys))"
  by (induction xs) (auto simp: path_Cons hd_append)

lemma last_not_butlast: "distinct xs \<Longrightarrow> last xs \<notin> set (butlast xs)"
  by (cases xs rule: rev_cases) auto

lemma split_eval:
  assumes "prev s h = Some l" "prev s q = Some a" "mapped s n" "nxt s l \<noteq> None" "nxt s a \<noteq> None"
    "n \<noteq> h" "n \<noteq> q" "n \<noteq> l" "n \<noteq> a" "h \<noteq> q"
  shows "ngx_queue_split h q n s =
    Some (s\<lparr>nxt := (nxt s)(l \<mapsto> n, n \<mapsto> q, a \<mapsto> h), prev := (prev s)(n \<mapsto> l, h \<mapsto> a, q \<mapsto> n)\<rparr>)"
  using assms by (auto simp: ngx_queue_split_def queue_op_defs split: option.splits)

lemma split_queue:
  assumes q: "is_queue s q (xs @ ys)" and ne: "ys \<noteq> []" and n: "n \<notin> set (q # xs @ ys)" "mapped s n"
  shows "\<exists>s'. ngx_queue_split q (hd ys) n s = Some s' \<and> is_queue s' q xs \<and> is_queue s' n ys \<and>
    same_outside (set (n # q # xs @ ys)) s s'"
proof -
  define p where "p = last (q # xs)"
  define s' where "s' = s\<lparr>nxt := (nxt s)(last ys \<mapsto> n, n \<mapsto> hd ys, p \<mapsto> q),
    prev := (prev s)(n \<mapsto> last ys, q \<mapsto> p, hd ys \<mapsto> n)\<rparr>"
  have d: "distinct (q # xs @ ys)" using q by (simp add: is_queue_def)
  have e: "p \<in> set (q # xs)" "last ys \<in> set ys" "hd ys \<in> set ys" using ne by (auto simp: p_def)
  have l: "p \<notin> set (butlast (q # xs))" "last ys \<notin> set (butlast ys)" "hd ys \<notin> set (butlast (rev ys))"
    using d last_not_butlast [of "q # xs"] last_not_butlast [of ys] last_not_butlast [of "rev ys"] ne
    by (auto simp: p_def last_rev simp del: butlast_rev)
  have x: "last ys \<notin> set (q # xs)" "hd ys \<notin> set (q # xs)" "p \<notin> set ys" "q \<notin> set ys" using d e by auto
  have nb: "nxt s p = Some (hd ys)" "prev s (hd ys) = Some p"
    using queue_neighbours [OF q] ne by (auto simp: p_def)
  have qx: "path (nxt s) (q # xs)" "path (nxt s) (ys @ [q])"
    using q unfolding is_queue_def path_append_iff [of _ "q # xs", simplified] by (auto simp: path_Cons path_append_iff)
  have px: "path (prev s) (q # rev ys)" "path (prev s) (rev xs @ [q])"
    using q unfolding is_queue_def by (auto simp: path_Cons path_append_iff)
  have ql: "prev s q = Some (last ys)" using px ne by (simp add: path_Cons hd_rev)
  have "mapped s (last ys)" using queue_mapped [OF q] e by auto
  then have "ngx_queue_split q (hd ys) n s = Some s'" unfolding s'_def
    using nb ql d e n x by (intro split_eval) (auto simp: mapped_def)
  moreover have "path (nxt s') (q # xs @ [q])" "path (prev s') (q # rev xs @ [q])"
  proof -
    have "n \<notin> set (q # xs)" using n by auto
    then have "path (nxt s') (q # xs)" "nxt s' p = Some q" using qx(1) l(1) x by (auto simp: s'_def)
    then show "path (nxt s') (q # xs @ [q])" using path_append_iff [of "nxt s'" "q # xs" "[q]"] by (simp add: p_def)
    have "q \<notin> set (butlast (rev xs @ [q]))" using d by (simp add: butlast_append)
    then have "path (prev s') (rev xs @ [q])" using px(2) x n by (auto simp: s'_def)
    moreover have "prev s' q = Some p" using x e by (auto simp: s'_def)
    ultimately show "path (prev s') (q # rev xs @ [q])"
      by (cases xs rule: rev_cases) (auto simp: path_Cons p_def)
  qed
  then have "is_queue s' q xs" using d by (simp add: is_queue_def)
  moreover have "is_queue s' n ys"
    using ne qx(2) px(1) d e l x n unfolding is_queue_def path_Cons path_append_iff s'_def
    by (auto simp: hd_append hd_rev last_rev)
  moreover have "same_outside (set (n # q # xs @ ys)) s s'" unfolding s'_def using e by (auto intro!: same_outsideI)
  ultimately show ?thesis by blast
qed

lemma add_eval:
  assumes "prev s h = Some p" "nxt s n = Some m" "prev s n = Some l" "nxt s p \<noteq> None" "prev s m \<noteq> None"
    "nxt s l \<noteq> None" "n \<noteq> p" "n \<noteq> h" "n \<noteq> m" "h \<noteq> m" "p \<noteq> l" "h \<noteq> l"
  shows "ngx_queue_add h n s =
    Some (s\<lparr>nxt := (nxt s)(p \<mapsto> m, l \<mapsto> h), prev := (prev s)(m \<mapsto> p, h \<mapsto> l)\<rparr>)"
  using assms by (auto simp: ngx_queue_add_def queue_op_defs split: option.splits)

lemma add_eval_empty:
  assumes "prev s h = Some p" "nxt s p = Some h" "nxt s n = Some n" "prev s n = Some n" "n \<noteq> p" "n \<noteq> h"
  shows "ngx_queue_add h n s = Some (s\<lparr>prev := (prev s)(n \<mapsto> p)\<rparr>)"
  using assms by (auto simp: ngx_queue_add_def queue_op_defs split: option.splits intro!: qheap.equality)

lemma add_queue:
  assumes q: "is_queue s q xs" and n: "is_queue s n ys" and disj: "set (q # xs) \<inter> set (n # ys) = {}"
  shows "\<exists>s'. ngx_queue_add q n s = Some s' \<and> is_queue s' q (xs @ ys) \<and>
    same_outside (set (n # q # xs @ ys)) s s'"
proof (cases "ys = []")
  case True
  have "nxt s (last (q # xs)) = Some q" "prev s q = Some (last (q # xs))"
    using queue_neighbours [of s q xs "[]"] q by auto
  moreover have "nxt s n = Some n" "prev s n = Some n" using n True by (auto simp: is_queue_def)
  moreover have "n \<noteq> last (q # xs)" "n \<noteq> q" using disj by auto
  ultimately have "ngx_queue_add q n s = Some (s\<lparr>prev := (prev s)(n \<mapsto> last (q # xs))\<rparr>)"
    by (intro add_eval_empty)
  moreover have so: "same_outside {n} s (s\<lparr>prev := (prev s)(n \<mapsto> last (q # xs))\<rparr>)" by (auto intro!: same_outsideI)
  moreover have "is_queue (s\<lparr>prev := (prev s)(n \<mapsto> last (q # xs))\<rparr>) q xs"
    using is_queue_frame [OF q so] disj by auto
  ultimately show ?thesis using True by (auto simp: same_outside_def)
next
  case False
  define p where "p = last (q # xs)"
  define s' where "s' = s\<lparr>nxt := (nxt s)(p \<mapsto> hd ys, last ys \<mapsto> q), prev := (prev s)(hd ys \<mapsto> p, q \<mapsto> last ys)\<rparr>"
  have pq: "nxt s p = Some q" "prev s q = Some p"
    using queue_neighbours [of s q xs "[]"] q by (auto simp: p_def)
  have d: "distinct (q # xs)" "distinct (n # ys)" using q n by (auto simp: is_queue_def)
  have e: "last ys \<in> set ys" "hd ys \<in> set ys" "p \<in> set (q # xs)" using False by (auto simp: p_def)
  have x: "last ys \<notin> set (q # xs)" "hd ys \<notin> set (q # xs)" "p \<notin> set (n # ys)" "q \<notin> set ys" using disj e by auto
  have l: "p \<notin> set (butlast (q # xs))" "hd ys \<notin> set (butlast (rev ys))" "last ys \<notin> set (butlast ys)"
    using d last_not_butlast [of "q # xs"] last_not_butlast [of ys] last_not_butlast [of "rev ys"] False
    by (auto simp: p_def last_rev simp del: butlast_rev)
  have qx: "path (nxt s) (q # xs)" "path (prev s) (rev xs @ [q])"
    using q unfolding is_queue_def path_append_iff [of _ "q # xs", simplified] by (auto simp: path_Cons)
  have ny: "nxt s n = Some (hd ys)" "prev s n = Some (last ys)" "path (nxt s) ys" "path (prev s) (rev ys)"
    "nxt s (last ys) = Some n" "prev s (hd ys) = Some n"
    using n False unfolding is_queue_def path_Cons path_append_iff by (auto simp: hd_append hd_rev last_rev)
  have "ngx_queue_add q n s = Some s'" unfolding s'_def
    using pq ny e x disj d by (intro add_eval) auto
  moreover have "path (nxt s') (q # xs @ ys @ [q])"
    using qx ny x l False d path_append_iff [of "nxt s'" "q # xs" "ys @ [q]"]
    by (auto simp: s'_def path_append_iff hd_append p_def [symmetric] simp del: last.simps)
  moreover have "rev xs @ [q] = butlast (rev xs @ [q]) @ [q]" "q \<notin> set (rev xs)" using d by auto
  then have "path (prev s') (rev xs @ [q])" using qx x by (simp add: s'_def butlast_append)
  then have "path (prev s') (q # rev ys @ rev xs @ [q])"
    using ny x l False d path_append_iff [of "prev s'" "rev ys" "rev xs @ [q]"]
    by (cases xs rule: rev_cases) (auto simp: s'_def path_Cons hd_append hd_rev last_rev p_def)
  ultimately show ?thesis using d disj e
    by (intro exI [of _ s']) (auto simp: is_queue_def s'_def intro!: same_outsideI)
qed


text \<open>\<open>ngx_queue_middle\<close> finds the element at half the length.\<close>

lemma queue_nth:
  assumes "is_queue s q xs" "Suc i < length xs"
  shows "nxt s (xs ! i) = Some (xs ! Suc i)"
proof -
  have "path (nxt s) (q # take (Suc i) xs @ drop (Suc i) xs @ [q])"
    using assms(1) by (simp add: is_queue_def flip: append.assoc)
  moreover have "take (Suc i) xs \<noteq> []" "last (take (Suc i) xs) = xs ! i"
    using assms(2) by (auto simp: take_Suc_conv_app_nth)
  ultimately show ?thesis using assms(2) by (simp add: path_Cons path_append_iff hd_drop_conv_nth)
qed

lemma queue_ends:
  assumes "is_queue s q xs"
  shows "nxt s q = Some (hd (xs @ [q]))" "prev s q = Some (last (q # xs))"
  using queue_neighbours [of s q "[]" xs] queue_neighbours [of s q xs "[]"] assms by auto

lemma queue_middle_loop_eq:
  assumes q: "is_queue s q xs" and k: "2 * k + 1 < length xs"
  shows "queue_middle_loop q (xs ! k) (xs ! (2 * k)) s = Some (xs ! (length xs div 2))"
  using k
proof (induction "length xs - 2 * k" arbitrary: k rule: less_induct)
  case less
  have d: "distinct xs" using q by (simp add: is_queue_def)
  have l: "prev s q = Some (xs ! (length xs - 1))" using queue_ends(2) [OF q] less.prems by (auto simp: last_conv_nth)
  have eq: "xs ! i = xs ! (length xs - 1) \<longleftrightarrow> i = length xs - 1" if "i < length xs" for i
    using d that nth_eq_iff_index_eq [of xs i "length xs - 1"] less.prems by simp
  have n1: "nxt s (xs ! k) = Some (xs ! Suc k)" "nxt s (xs ! (2 * k)) = Some (xs ! Suc (2 * k))"
    using queue_nth [OF q, of k] queue_nth [OF q, of "2 * k"] less.prems by auto
  show ?case
  proof (cases "length xs = 2 * k + 2")
    case True
    then show ?thesis using n1 l by (subst queue_middle_loop.simps) simp
  next
    case False
    have n2: "nxt s (xs ! Suc (2 * k)) = Some (xs ! (2 * Suc k))"
      using queue_nth [OF q, of "Suc (2 * k)"] less.prems False by simp
    have ne: "xs ! Suc (2 * k) \<noteq> xs ! (length xs - 1)" using eq [of "Suc (2 * k)"] False less.prems by auto
    show ?thesis
    proof (cases "length xs = 2 * k + 3")
      case True
      then have "length xs div 2 = Suc k" by simp
      then show ?thesis using n1 n2 ne l True by (subst queue_middle_loop.simps) simp
    next
      case F: False
      have "xs ! (2 * Suc k) \<noteq> xs ! (length xs - 1)" using eq [of "2 * Suc k"] False F less.prems by auto
      then show ?thesis using n1 n2 ne l less.hyps [of "Suc k"] less.prems False F
        by (subst queue_middle_loop.simps) simp
    qed
  qed
qed

lemma queue_middle_eq:
  assumes "is_queue s q xs" "xs \<noteq> []"
  shows "ngx_queue_middle q s = Some (xs ! (length xs div 2))"
proof (cases "length xs = 1")
  case True
  then obtain x where "xs = [x]" by (auto simp: length_Suc_conv)
  then show ?thesis using queue_ends [OF assms(1)] by (simp add: ngx_queue_middle_def)
next
  case False
  then have l: "2 * 0 + 1 < length xs" using assms(2) by (cases xs) auto
  have "distinct xs" using assms(1) by (simp add: is_queue_def)
  then have "xs ! 0 \<noteq> xs ! (length xs - 1)" using l by (subst nth_eq_iff_index_eq) auto
  then have "xs ! 0 \<noteq> last xs" using assms(2) by (simp add: last_conv_nth)
  moreover have "hd (xs @ [q]) = xs ! 0" using assms(2) by (cases xs) auto
  ultimately show ?thesis using queue_middle_loop_eq [OF assms(1) l] queue_ends [OF assms(1)] assms(2)
    by (simp add: ngx_queue_middle_def)
qed

section \<open>The merge sort\<close>

text \<open>The merge as a function on lists, and the loop of \<open>ngx_queue_merge\<close>, which relinks in place.\<close>

fun merge_lists :: "('a \<Rightarrow> 'a \<Rightarrow> int) \<Rightarrow> 'a list \<Rightarrow> 'a list \<Rightarrow> 'a list" where
  "merge_lists cmp (x # xs) (y # ys) =
     (if cmp x y \<le> 0 then x # merge_lists cmp xs (y # ys) else y # merge_lists cmp (x # xs) ys)"
| "merge_lists cmp xs [] = xs"
| "merge_lists cmp [] ys = ys"

lemma mset_merge_lists [simp]: "mset (merge_lists cmp xs ys) = mset xs + mset ys"
  by (induction cmp xs ys rule: merge_lists.induct) auto

lemma set_merge_lists [simp]: "set (merge_lists cmp xs ys) = set xs \<union> set ys"
  by (induction cmp xs ys rule: merge_lists.induct) auto

lemma queue_merge_loop_eq:
  assumes "is_queue s q (ps @ xs)" "is_queue s t ys" "set (q # ps @ xs) \<inter> set (t # ys) = {}"
  shows "\<exists>s'. queue_merge_loop cmp q t (hd (xs @ [q])) (hd (ys @ [t])) s = Some s' \<and>
    is_queue s' q (ps @ merge_lists cmp xs ys) \<and> same_outside (set (q # ps @ xs) \<union> set (t # ys)) s s'"
  using assms
proof (induction cmp xs ys arbitrary: ps s rule: merge_lists.induct)
  case (1 cmp x xs y ys)
  have x: "x \<noteq> q" "y \<noteq> t" using 1(3,4) by (auto simp: is_queue_def)
  show ?case
  proof (cases "cmp x y \<le> 0")
    case True
    have "nxt s x = Some (hd (xs @ [q]))" using queue_neighbours(1) [of s q "ps @ [x]" xs] 1(3) by simp
    then show ?thesis using 1(1) [OF True, of s "ps @ [x]"] 1(3-5) x True
      by (subst queue_merge_loop.simps) simp
  next
    case False
    obtain s1 where s1: "ngx_queue_remove y s = Some s1" "is_queue s1 t ys" "same_outside (set (t # ys)) s s1" "mapped s1 y"
      using remove_queue [of s t "[]" y ys] 1(4) by auto
    have q1: "is_queue s1 q (ps @ x # xs)" using is_queue_frame [OF 1(3) s1(3)] 1(5) by auto
    obtain s2 where s2: "ngx_queue_insert_tail x y s1 = Some s2" "is_queue s2 q (ps @ y # x # xs)"
      "same_outside (set (y # q # ps @ x # xs)) s1 s2"
      using insert_before_queue [OF q1, of y] s1(4) 1(5) by auto
    have t2: "is_queue s2 t ys" using is_queue_frame [OF s1(2) s2(3)] 1(4,5) by (auto simp: is_queue_def)
    obtain s' where s': "queue_merge_loop cmp q t x (hd (ys @ [t])) s2 = Some s'"
      "is_queue s' q (ps @ y # merge_lists cmp (x # xs) ys)"
      "same_outside (set (q # ps @ y # x # xs) \<union> set (t # ys)) s2 s'"
      using 1(2) [OF False, of s2 "ps @ [y]"] s2(2) t2 1(4,5) by (auto simp: is_queue_def)
    have "same_outside (set (q # ps @ x # xs) \<union> set (t # y # ys)) s s2"
      by (rule same_outside_trans [OF s1(3) s2(3)]) auto
    then have "same_outside (set (q # ps @ x # xs) \<union> set (t # y # ys)) s s'"
      by (rule same_outside_trans [OF _ s'(3)]) auto
    then show ?thesis using s1(1) s2(1) s' x False queue_ends(1) [OF t2]
      by (subst queue_merge_loop.simps) simp
  qed
next
  case (2 cmp xs)
  then show ?case using add_queue [of s q ps t "[]"]
    by (cases xs) (auto simp: queue_merge_loop.simps [of _ q t] same_outside_def is_queue_def insert_commute)
next
  case (3 cmp y ys)
  then obtain s' where "ngx_queue_add q t s = Some s'" "is_queue s' q (ps @ y # ys)"
    "same_outside (set (t # q # ps @ y # ys)) s s'"
    using add_queue [of s q ps t "y # ys"] by auto
  moreover have "set (q # ps @ []) \<union> set (t # y # ys) = set (t # q # ps @ y # ys)" by auto
  ultimately show ?case by (subst queue_merge_loop.simps) simp
qed


text \<open>No operation takes memory away.\<close>

lemma set_prev_mapped [dest]: "set_prev x v s = Some s' \<Longrightarrow> mapped s y \<Longrightarrow> mapped s' y"
  by (auto simp: queue_op_defs split: option.splits)

lemma set_next_mapped [dest]: "set_next x v s = Some s' \<Longrightarrow> mapped s y \<Longrightarrow> mapped s' y"
  by (auto simp: queue_op_defs split: option.splits)

lemma remove_mapped: "ngx_queue_remove x s = Some s' \<Longrightarrow> mapped s y \<Longrightarrow> mapped s' y"
  by (auto simp: ngx_queue_remove_def bind_eq_Some_conv)

lemma insert_tail_mapped: "ngx_queue_insert_tail h x s = Some s' \<Longrightarrow> mapped s y \<Longrightarrow> mapped s' y"
  by (auto simp: ngx_queue_insert_tail_def bind_eq_Some_conv)

lemma add_mapped: "ngx_queue_add h x s = Some s' \<Longrightarrow> mapped s y \<Longrightarrow> mapped s' y"
  by (auto simp: ngx_queue_add_def bind_eq_Some_conv)

lemma split_mapped: "ngx_queue_split h q n s = Some s' \<Longrightarrow> mapped s y \<Longrightarrow> mapped s' y"
  by (auto simp: ngx_queue_split_def bind_eq_Some_conv) (metis set_prev_mapped set_next_mapped)

lemma merge_loop_mapped:
  assumes "queue_merge_loop cmp q t q1 q2 s = Some s'"
  shows "\<forall>y. mapped s y \<longrightarrow> mapped s' y"
  by (rule queue_merge_loop.raw_induct [OF _ assms])
    (fastforce simp: bind_eq_Some_conv split: if_splits dest: add_mapped remove_mapped insert_tail_mapped)

fun merge_sort :: "('a \<Rightarrow> 'a \<Rightarrow> int) \<Rightarrow> 'a list \<Rightarrow> 'a list" where
  "merge_sort cmp xs =
     (if length xs \<le> 1 then xs
      else merge_lists cmp (merge_sort cmp (take (length xs div 2) xs)) (merge_sort cmp (drop (length xs div 2) xs)))"

declare merge_sort.simps [simp del]

lemma mset_merge_sort [simp]: "mset (merge_sort cmp xs) = mset xs"
proof (induction cmp xs rule: merge_sort.induct)
  case (1 cmp xs)
  then show ?case by (subst merge_sort.simps) (auto simp flip: mset_append)
qed

lemma set_merge_sort [simp]: "set (merge_sort cmp xs) = set xs"
  by (metis mset_merge_sort set_mset_mset)

lemma queue_sort_eq:
  assumes "is_queue s q xs" "set (q # xs) \<inter> tail ` {d..<d + length xs} = {}" "inj_on tail {d..<d + length xs}"
    "\<And>t. t \<in> tail ` {d..<d + length xs} \<Longrightarrow> mapped s t"
  shows "\<exists>s'. ngx_queue_sort cmp tail d q s = Some s' \<and> is_queue s' q (merge_sort cmp xs) \<and>
    same_outside (set (q # xs) \<union> tail ` {d..<d + length xs}) s s' \<and> (\<forall>x. mapped s x \<longrightarrow> mapped s' x)"
  using assms
proof (induction "length xs" arbitrary: xs q d s rule: less_induct)
  case less
  note ends = queue_ends [OF less.prems(1)]
  show ?case
  proof (cases "length xs \<le> 1")
    case True
    then have "hd (xs @ [q]) = last (q # xs)" by (cases xs) auto
    then show ?thesis using True less.prems(1) ends
      by (subst ngx_queue_sort.simps, subst merge_sort.simps) (auto simp: same_outside_def)
  next
    case False
    have xs0: "xs \<noteq> []" using False by auto
    define k as bs where "k = length xs div 2" and "as = take k xs" and "bs = drop k xs"
    have xs: "xs = as @ bs" and ne: "as \<noteq> []" "bs \<noteq> []" and la: "length as < length xs" "length bs < length xs"
      using False xs0 by (auto simp: k_def as_def bs_def)
    have hdb: "xs ! (length xs div 2) = hd bs" using ne by (simp add: bs_def hd_drop_conv_nth k_def)
    let ?T = "tail ` {d..<d + length xs}" and ?t = "tail d"
    have "d \<in> {d..<d + length xs}" using xs0 by simp
    then have tT: "?t \<in> ?T" and t: "?t \<notin> set (q # xs)" "mapped s ?t" using less.prems(2,4) by auto
    have sub: "{Suc d..<Suc d + length ys} \<subseteq> {d..<d + length xs}" "d \<notin> {Suc d..<Suc d + length ys}"
      if "length ys < length xs" for ys :: "ptr list" using that by auto
    have T: "tail ` {Suc d..<Suc d + length ys} \<subseteq> ?T - {?t}" "inj_on tail {Suc d..<Suc d + length ys}"
      if "length ys < length xs" for ys :: "ptr list"
      using sub [OF that] less.prems(3) \<open>d \<in> _\<close> by (auto dest: inj_onD intro: inj_on_subset)
    have hl: "hd (xs @ [q]) \<noteq> last (q # xs)"
      using less.prems(1) ne unfolding xs is_queue_def
      by (auto simp: hd_append dest: hd_in_set last_in_set)
    obtain s1 where s1: "ngx_queue_split q (hd bs) ?t s = Some s1" "is_queue s1 q as" "is_queue s1 ?t bs"
      "same_outside (set (?t # q # xs)) s s1"
      using split_queue [OF less.prems(1) [unfolded xs] ne(2)] t xs by auto
    have m1: "mapped s x \<Longrightarrow> mapped s1 x" for x using split_mapped [OF s1(1)] .
    have mT: "mapped s x" if "x \<in> tail ` {Suc d..<Suc d + length ys}" "length ys < length xs" for x and ys :: "ptr list"
      using T(1) [OF that(2)] that(1) less.prems(4) by auto
    have disj: "set (q # xs) \<inter> tail ` {Suc d..<Suc d + length ys} = {}" if "length ys < length xs" for ys :: "ptr list"
      using T(1) [OF that] less.prems(2) by blast
    have "set (q # as) \<inter> tail ` {Suc d..<Suc d + length as} = {}" using disj [OF la(1)] xs by auto
    from less.hyps [OF la(1) s1(2) this T(2) [OF la(1)]] obtain s2 where
      s2: "ngx_queue_sort cmp tail (Suc d) q s1 = Some s2" "is_queue s2 q (merge_sort cmp as)"
        "same_outside (set (q # as) \<union> tail ` {Suc d..<Suc d + length as}) s1 s2"
      and m2: "mapped s1 x \<Longrightarrow> mapped s2 x" for x
      using m1 mT [OF _ la(1)] by auto
    have d: "distinct (q # as @ bs)" using less.prems(1) by (simp add: is_queue_def xs)
    have tn: "?t \<notin> tail ` {Suc d..<Suc d + length ys}" if "length ys < length xs" for ys :: "ptr list"
      using T(1) [OF that] by blast
    have "(set (q # as) \<union> tail ` {Suc d..<Suc d + length as}) \<inter> set (?t # bs) = {}"
      using tn [OF la(1)] disj [OF la(1)] d t(1) by (auto simp: xs)
    then have t2: "is_queue s2 ?t bs" by (rule is_queue_frame [OF s1(3) s2(3)])
    have "set (?t # bs) \<inter> tail ` {Suc d..<Suc d + length bs} = {}" using disj [OF la(2)] T(1) [OF la(2)] xs by auto
    from less.hyps [OF la(2) t2 this T(2) [OF la(2)]] obtain s3 where
      s3: "ngx_queue_sort cmp tail (Suc d) ?t s2 = Some s3" "is_queue s3 ?t (merge_sort cmp bs)"
        "same_outside (set (?t # bs) \<union> tail ` {Suc d..<Suc d + length bs}) s2 s3"
      and m3: "mapped s2 x \<Longrightarrow> mapped s3 x" for x
      using m1 m2 mT [OF _ la(2)] by auto
    have "(set (?t # bs) \<union> tail ` {Suc d..<Suc d + length bs}) \<inter> set (q # merge_sort cmp as) = {}"
      using tn [OF la(2)] disj [OF la(2)] d t(1) by (auto simp: xs)
    then have q3: "is_queue s3 q (merge_sort cmp as)" by (rule is_queue_frame [OF s2(2) s3(3)])
    from d have dm: "set (q # [] @ merge_sort cmp as) \<inter> set (?t # merge_sort cmp bs) = {}" using t xs by auto
    have q3': "is_queue s3 q ([] @ merge_sort cmp as)" using q3 by simp
    obtain s4 where l4: "queue_merge_loop cmp q ?t (hd (merge_sort cmp as @ [q])) (hd (merge_sort cmp bs @ [?t])) s3 = Some s4"
      and s4: "is_queue s4 q (merge_lists cmp (merge_sort cmp as) (merge_sort cmp bs))"
      "same_outside (set (q # as) \<union> set (?t # bs)) s3 s4"
      using queue_merge_loop_eq [OF q3' s3(2) dm] by auto
    have m4: "mapped s3 x \<Longrightarrow> mapped s4 x" for x using merge_loop_mapped [OF l4] by blast
    have mg: "ngx_queue_merge cmp q ?t s3 = Some s4"
      using l4 queue_ends(1) [OF q3] queue_ends(1) [OF s3(2)] by (simp add: ngx_queue_merge_def)
    have "same_outside (set (q # xs) \<union> ?T) s s2"
      by (rule same_outside_trans [OF s1(4) s2(3)]) (use tT T [OF la(1)] xs in auto)
    then have "same_outside (set (q # xs) \<union> ?T) s s3"
      by (rule same_outside_trans [OF _ s3(3)]) (use tT T [OF la(2)] xs in auto)
    then have "same_outside (set (q # xs) \<union> ?T) s s4"
      by (rule same_outside_trans [OF _ s4(2)]) (use tT xs in auto)
    moreover have "ngx_queue_sort cmp tail d q s = Some s4"
      using ends hl queue_middle_eq [OF less.prems(1) xs0] hdb s1(1) s2(1) s3(1) mg
      by (subst ngx_queue_sort.simps) simp
    moreover have "merge_sort cmp xs = merge_lists cmp (merge_sort cmp as) (merge_sort cmp bs)"
      using False by (subst merge_sort.simps) (simp add: as_def bs_def k_def)
    ultimately show ?thesis using s4(1) m1 m2 m3 m4 by auto
  qed
qed

text \<open>Sorting links by what they are part of sorts the structures themselves.\<close>

lemma merge_lists_map: "map f (merge_lists (\<lambda>x y. cmp (f x) (f y)) xs ys) = merge_lists cmp (map f xs) (map f ys)"
proof (induction "length xs + length ys" arbitrary: xs ys rule: less_induct)
  case less
  then show ?case by (cases xs; cases ys) auto
qed

lemma merge_sort_map: "map f (merge_sort (\<lambda>x y. cmp (f x) (f y)) xs) = merge_sort cmp (map f xs)"
proof (induction "length xs" arbitrary: xs rule: less_induct)
  case less
  then show ?case
    by (subst (1 2) merge_sort.simps) (auto simp: merge_lists_map take_map drop_map)
qed

lemma queue_sort_values:
  assumes "is_queue s q xs" "set (q # xs) \<inter> tail ` {d..<d + length xs} = {}" "inj_on tail {d..<d + length xs}"
    "\<And>t. t \<in> tail ` {d..<d + length xs} \<Longrightarrow> mapped s t"
  shows "\<exists>s' ys. ngx_queue_sort (\<lambda>x y. cmp (f x) (f y)) tail d q s = Some s' \<and> is_queue s' q ys \<and>
    map f ys = merge_sort cmp (map f xs)"
  using queue_sort_eq [OF assms, of "\<lambda>x y. cmp (f x) (f y)"] merge_sort_map by blast

section \<open>Sorted and stable\<close>

text \<open>
  What the callers of \<open>ngx_queue_sort\<close> have to give: a comparison that is a total preorder.
\<close>

locale comparison =
  fixes cmp :: "'a \<Rightarrow> 'a \<Rightarrow> int"
  assumes le_total: "cmp x y \<le> 0 \<or> cmp y x \<le> 0"
    and le_trans: "cmp x y \<le> 0 \<Longrightarrow> cmp y z \<le> 0 \<Longrightarrow> cmp x z \<le> 0"
begin

abbreviation le :: "'a \<Rightarrow> 'a \<Rightarrow> bool" where "le x y \<equiv> cmp x y \<le> 0"

lemma sorted_merge_lists:
  assumes "sorted_wrt le xs" "sorted_wrt le ys"
  shows "sorted_wrt le (merge_lists cmp xs ys)"
  using assms
proof (induction "length xs + length ys" arbitrary: xs ys rule: less_induct)
  case less
  show ?case
  proof (cases xs; cases ys)
    fix x xs' y ys' assume e: "xs = x # xs'" "ys = y # ys'"
    show ?thesis
    proof (cases "le x y")
      case True
      then show ?thesis using less e by (auto intro: le_trans)
    next
      case False
      then have "le y x" using le_total by blast
      then show ?thesis using less e False by (auto intro: le_trans)
    qed
  qed (use less in auto)
qed

text \<open>Elements that compare equal to \<open>x\<close>.\<close>

definition same :: "'a \<Rightarrow> 'a \<Rightarrow> bool" where "same x y \<longleftrightarrow> le x y \<and> le y x"

lemma filter_merge_lists:
  assumes "sorted_wrt le xs"
  shows "filter (same z) (merge_lists cmp xs ys) = filter (same z) xs @ filter (same z) ys"
  using assms
proof (induction "length xs + length ys" arbitrary: xs ys rule: less_induct)
  case less
  show ?case
  proof (cases xs; cases ys)
    fix x xs' y ys' assume e: "xs = x # xs'" "ys = y # ys'"
    show ?thesis
    proof (cases "le x y")
      case True
      then show ?thesis using less e by auto
    next
      case False
      have "\<not> same z u" if "same z y" "u \<in> set xs" for u
        using that less.prems e False unfolding same_def by (auto intro: le_trans)
      then have "filter (same z) xs = []" if "same z y" using that by (auto simp: filter_empty_conv)
      then show ?thesis using less e False by auto
    qed
  qed (use less in auto)
qed

lemma sorted_merge_sort: "sorted_wrt le (merge_sort cmp xs)"
proof (induction "length xs" arbitrary: xs rule: less_induct)
  case less
  have "sorted_wrt le xs" if "length xs \<le> 1" using that by (cases xs) auto
  then show ?case using less by (subst merge_sort.simps) (auto intro!: sorted_merge_lists)
qed

lemma filter_merge_sort: "filter (same z) (merge_sort cmp xs) = filter (same z) xs"
proof (induction "length xs" arbitrary: xs rule: less_induct)
  case less
  show ?case using less
    by (subst merge_sort.simps) (auto simp: filter_merge_lists sorted_merge_sort simp flip: filter_append)
qed

end

text \<open>
  C18. \<open>ngx_queue_sort\<close> is a stable sort, in place. For every queue in the heap and every
  comparison that is a total preorder, if there is stack for one \<open>tail\<close> variable per element, the
  function returns; the queue then holds the same elements in sorted order, elements that compare
  equal keep their order, and no memory outside the queue and the stack variables has changed.
\<close>

theorem queue_sort_stable:
  assumes "is_queue s q xs" "comparison cmp"
    and "set (q # xs) \<inter> tail ` {d..<d + length xs} = {}" "inj_on tail {d..<d + length xs}"
    and "\<And>t. t \<in> tail ` {d..<d + length xs} \<Longrightarrow> mapped s t"
  shows "\<exists>s' ys. ngx_queue_sort cmp tail d q s = Some s' \<and> is_queue s' q ys \<and> mset ys = mset xs \<and>
    sorted_wrt (\<lambda>x y. cmp x y \<le> 0) ys \<and>
    (\<forall>z. filter (\<lambda>y. cmp z y \<le> 0 \<and> cmp y z \<le> 0) ys = filter (\<lambda>y. cmp z y \<le> 0 \<and> cmp y z \<le> 0) xs) \<and>
    same_outside (set (q # xs) \<union> tail ` {d..<d + length xs}) s s'"
proof -
  obtain s' where "ngx_queue_sort cmp tail d q s = Some s'" "is_queue s' q (merge_sort cmp xs)"
    "same_outside (set (q # xs) \<union> tail ` {d..<d + length xs}) s s'"
    using queue_sort_eq [OF assms(1,3,4,5)] by blast
  moreover have "filter (\<lambda>y. cmp z y \<le> 0 \<and> cmp y z \<le> 0) (merge_sort cmp xs) =
      filter (\<lambda>y. cmp z y \<le> 0 \<and> cmp y z \<le> 0) xs" for z
    using comparison.filter_merge_sort [OF assms(2), of z xs] comparison.same_def [OF assms(2), of z]
    by (simp cong: filter_cong)
  ultimately show ?thesis using comparison.sorted_merge_sort [OF assms(2)] by (intro exI) auto
qed

text \<open>
  The queue 1 with the elements 2, 3 and 4, of which 3 and 4 have the smaller key; the stack
  variables are at 10, 11 and 12.
\<close>

definition example_heap :: qheap where
  "example_heap = \<lparr>prev = map_of [(1, 4), (2, 1), (3, 2), (4, 3), (10, 0), (11, 0), (12, 0)],
     nxt = map_of [(1, 2), (2, 3), (3, 4), (4, 1), (10, 0), (11, 0), (12, 0)]\<rparr>"

definition example_cmp :: "ptr \<Rightarrow> ptr \<Rightarrow> int" where
  "example_cmp x y = (if x = 2 then 1 else 0) - (if y = 2 then 1 else 0)"

theorem queue_sort_stable_witness:
  "\<exists>s' ys. ngx_queue_sort example_cmp (\<lambda>d. 10 + d) 0 1 example_heap = Some s' \<and> is_queue s' 1 ys \<and>
    mset ys = mset [2, 3, 4] \<and> filter (\<lambda>y. y \<noteq> 2) ys = [3, 4]"
proof -
  have q: "is_queue example_heap 1 [2, 3, 4]" by (simp add: is_queue_def example_heap_def)
  have c: "comparison example_cmp" by unfold_locales (auto simp: example_cmp_def split: if_splits)
  have t: "(\<lambda>d. 10 + d) ` {0..<0 + length [2, 3, 4::nat]} = {10, 11, 12}"
    by (simp add: numeral_eq_Suc atLeast0_lessThan_Suc insert_commute)
  have m: "mapped example_heap t" if "t \<in> {10, 11, 12}" for t
    using that by (auto simp: mapped_def example_heap_def)
  obtain s' ys where r: "ngx_queue_sort example_cmp (\<lambda>d. 10 + d) 0 1 example_heap = Some s'" "is_queue s' 1 ys"
    "mset ys = mset [2, 3, 4]" "\<And>z. filter (\<lambda>y. example_cmp z y \<le> 0 \<and> example_cmp y z \<le> 0) ys =
       filter (\<lambda>y. example_cmp z y \<le> 0 \<and> example_cmp y z \<le> 0) [2, 3, 4]"
    using queue_sort_stable [OF q c, of "\<lambda>d. 10 + d" 0] m unfolding t by (auto simp: inj_on_def)
  have "(example_cmp 3 y \<le> 0 \<and> example_cmp y 3 \<le> 0) = (y \<noteq> 2)" for y by (simp add: example_cmp_def)
  with r(4) [of 3] have "filter (\<lambda>y. y \<noteq> 2) ys = [3, 4]" by simp
  with r show ?thesis by blast
qed

section \<open>Posted events\<close>

text \<open>
  An event is identified with the address of its member \<open>queue\<close>, from which \<open>ngx_queue_data\<close> computes
  the address of the event; the members of \<open>ngx_event_t\<close> the code here uses are functions of it.
\<close>

record event_heap = qheap +
  posted :: "ptr \<Rightarrow> bool"
  ready :: "ptr \<Rightarrow> bool"
  available :: "ptr \<Rightarrow> int"

definition ngx_post_event :: "ptr \<Rightarrow> ptr \<Rightarrow> event_heap \<Rightarrow> event_heap option" where
  "ngx_post_event ev q s =
     (if \<not> posted s ev then ngx_queue_insert_tail q ev (s\<lparr>posted := (posted s)(ev := True)\<rparr>) else Some s)"

definition ngx_delete_posted_event :: "ptr \<Rightarrow> event_heap \<Rightarrow> event_heap option" where
  "ngx_delete_posted_event ev s = ngx_queue_remove ev (s\<lparr>posted := (posted s)(ev := False)\<rparr>)"

text \<open>The handler of an event is code of other modules: a parameter.\<close>

partial_function (option) ngx_event_process_posted ::
  "(ptr \<Rightarrow> event_heap \<Rightarrow> event_heap option) \<Rightarrow> ptr \<Rightarrow> event_heap \<Rightarrow> event_heap option" where
  "ngx_event_process_posted handler q s = do {
     empty \<leftarrow> ngx_queue_empty q s;
     if empty then Some s
     else do {
       ev \<leftarrow> nxt s q;
       s \<leftarrow> ngx_delete_posted_event ev s;
       s \<leftarrow> handler ev s;
       ngx_event_process_posted handler q s } }"

partial_function (option) move_posted_loop :: "ptr \<Rightarrow> ptr \<Rightarrow> event_heap \<Rightarrow> event_heap option" where
  "move_posted_loop posted_next q s =
     (if q = posted_next then Some s
      else do {
        s \<leftarrow> Some (s\<lparr>ready := (ready s)(q := True), available := (available s)(q := -1)\<rparr>);
        q \<leftarrow> nxt s q;
        move_posted_loop posted_next q s })"

definition ngx_event_move_posted_next :: "ptr \<Rightarrow> ptr \<Rightarrow> event_heap \<Rightarrow> event_heap option" where
  "ngx_event_move_posted_next posted_events posted_next s = do {
     q \<leftarrow> nxt s posted_next;
     s \<leftarrow> move_posted_loop posted_next q s;
     s \<leftarrow> ngx_queue_add posted_events posted_next s;
     ngx_queue_init posted_next s }"

lemma is_queue_cong: "nxt s' = nxt s \<Longrightarrow> prev s' = prev s \<Longrightarrow> is_queue s' q xs = is_queue s q xs"
  by (simp add: is_queue_def)

lemma queue_empty_eq: "is_queue s q xs \<Longrightarrow> ngx_queue_empty q s = Some (xs = [])"
  using queue_ends(2) [of s q xs] by (cases xs rule: rev_cases) (auto simp: ngx_queue_empty_def is_queue_def)

lemma post_event_queue:
  assumes "is_queue s q xs" "ev \<notin> set (q # xs)" "mapped s ev" "\<not> posted s ev"
  shows "\<exists>s'. ngx_post_event ev q s = Some s' \<and> is_queue s' q (xs @ [ev])"
proof -
  let ?s = "s\<lparr>posted := (posted s)(ev := True)\<rparr>"
  have "is_queue ?s q (xs @ [])" "mapped ?s ev" using assms(1,3) by (simp_all add: is_queue_def mapped_def)
  from insert_before_queue [OF this(1) _ this(2)] show ?thesis using assms(2,4) by (auto simp: ngx_post_event_def)
qed

lemma delete_posted_event_queue:
  assumes "is_queue s q (ev # xs)"
  shows "\<exists>s'. ngx_delete_posted_event ev s = Some s' \<and> is_queue s' q xs"
proof -
  have "is_queue (s\<lparr>posted := (posted s)(ev := False)\<rparr>) q ([] @ ev # xs)" using assms by (simp add: is_queue_def)
  from remove_queue [OF this] show ?thesis by (auto simp: ngx_delete_posted_event_def)
qed

text \<open>
  The specification: the events in the order of the queue, each taken out and then handled, without those that earlier
  handlers have taken out: \<open>D ev s\<close> is the set of queued events that the handler of \<open>ev\<close> deletes in the state \<open>s\<close>.
\<close>

function run_events :: "(ptr \<Rightarrow> event_heap \<Rightarrow> event_heap option) \<Rightarrow> (ptr \<Rightarrow> event_heap \<Rightarrow> ptr set) \<Rightarrow> ptr list \<Rightarrow>
    event_heap \<Rightarrow> (ptr list \<times> event_heap) option" where
  "run_events handler D [] s = Some ([], s)"
| "run_events handler D (ev # evs) s = do {
     s1 \<leftarrow> ngx_delete_posted_event ev s;
     s2 \<leftarrow> handler ev s1;
     (ks, s3) \<leftarrow> run_events handler D (filter (\<lambda>x. x \<notin> D ev s1) evs) s2;
     Some (ev # ks, s3) }"
  by pat_completeness auto
termination by (relation "measure (\<lambda>(h, D, xs, s). length xs)") (auto simp: le_imp_less_Suc)

text \<open>
  What a handler may do, given an invariant \<open>I\<close> of the heap and the queue: take the events \<open>D ev s1\<close> out of the
  queue and post any events, itself included, as long as a measure \<open>m\<close> of the heap and the queue gets smaller: the work that
  is left, such as the bytes still to be read.
\<close>

definition handler_ok :: "(event_heap \<Rightarrow> ptr list \<Rightarrow> bool) \<Rightarrow> (event_heap \<Rightarrow> ptr list \<Rightarrow> nat) \<Rightarrow>
  (ptr \<Rightarrow> event_heap \<Rightarrow> ptr set) \<Rightarrow> (ptr \<Rightarrow> event_heap \<Rightarrow> event_heap option) \<Rightarrow> ptr \<Rightarrow> bool" where
  "handler_ok I m D handler q \<longleftrightarrow>
     (\<forall>ev s ys s1. is_queue s q (ev # ys) \<and> I s (ev # ys) \<and> ngx_delete_posted_event ev s = Some s1 \<longrightarrow>
       (\<exists>s' zs. let xs = filter (\<lambda>x. x \<notin> D ev s1) ys @ zs in
          handler ev s1 = Some s' \<and> is_queue s' q xs \<and> I s' xs \<and> m s' xs < m s (ev # ys)))"

lemma process_posted_step:
  assumes "is_queue s q (ev # ys)" "I s (ev # ys)" "handler_ok I m D handler q"
  shows "\<exists>s1 s2 zs. ngx_delete_posted_event ev s = Some s1 \<and> handler ev s1 = Some s2 \<and>
    is_queue s2 q (filter (\<lambda>x. x \<notin> D ev s1) ys @ zs) \<and> I s2 (filter (\<lambda>x. x \<notin> D ev s1) ys @ zs) \<and>
    m s2 (filter (\<lambda>x. x \<notin> D ev s1) ys @ zs) < m s (ev # ys) \<and>
    ngx_event_process_posted handler q s = ngx_event_process_posted handler q s2"
proof -
  obtain s1 where s1: "ngx_delete_posted_event ev s = Some s1" using delete_posted_event_queue [OF assms(1)] by blast
  obtain s2 zs where s2: "handler ev s1 = Some s2" "is_queue s2 q (filter (\<lambda>x. x \<notin> D ev s1) ys @ zs)"
    "I s2 (filter (\<lambda>x. x \<notin> D ev s1) ys @ zs)" "m s2 (filter (\<lambda>x. x \<notin> D ev s1) ys @ zs) < m s (ev # ys)"
    using assms s1 unfolding handler_ok_def Let_def by blast
  have "ngx_event_process_posted handler q s = ngx_event_process_posted handler q s2"
    using queue_empty_eq [OF assms(1)] queue_ends(1) [OF assms(1)] s1(1) s2(1)
    by (subst ngx_event_process_posted.simps) simp
  then show ?thesis using s1 s2 by blast
qed

lemma process_posted_returns:
  assumes "is_queue s q xs" "I s xs" "handler_ok I m D handler q"
  shows "\<exists>s'. ngx_event_process_posted handler q s = Some s' \<and> is_queue s' q []"
  using assms(1,2)
proof (induction "m s xs" arbitrary: xs s rule: less_induct)
  case less
  show ?case
  proof (cases xs)
    case Nil
    then show ?thesis using queue_empty_eq [OF less.prems(1)] less.prems
      by (subst ngx_event_process_posted.simps) simp
  next
    case (Cons ev ys)
    obtain s2 zs where "is_queue s2 q zs" "I s2 zs" "m s2 zs < m s xs"
      "ngx_event_process_posted handler q s = ngx_event_process_posted handler q s2"
      using process_posted_step [OF less.prems [unfolded Cons] assms(3)] Cons by blast
    then show ?thesis using less.hyps [of s2 zs] by simp
  qed
qed

lemma process_posted_order:
  assumes "is_queue s q (xs @ zs)" "I s (xs @ zs)" "handler_ok I m D handler q"
  shows "\<exists>ks s1 zs'. run_events handler D xs s = Some (ks, s1) \<and> is_queue s1 q zs' \<and>
    ngx_event_process_posted handler q s = ngx_event_process_posted handler q s1"
  using assms(1,2)
proof (induction "length xs" arbitrary: s xs zs rule: less_induct)
  case less
  show ?case
  proof (cases xs)
    case Nil
    then show ?thesis using less.prems by auto
  next
    case (Cons ev ys)
    obtain s1 s2 us where *: "ngx_delete_posted_event ev s = Some s1" "handler ev s1 = Some s2"
      "is_queue s2 q (filter (\<lambda>x. x \<notin> D ev s1) ys @ (filter (\<lambda>x. x \<notin> D ev s1) zs @ us))"
      "I s2 (filter (\<lambda>x. x \<notin> D ev s1) ys @ (filter (\<lambda>x. x \<notin> D ev s1) zs @ us))"
      "ngx_event_process_posted handler q s = ngx_event_process_posted handler q s2"
      using process_posted_step [OF less.prems [unfolded Cons append_Cons] assms(3)] by auto
    have "length (filter (\<lambda>x. x \<notin> D ev s1) ys) < length xs" using Cons by (simp add: le_imp_less_Suc)
    from less.hyps [OF this *(3,4)] show ?thesis using *(1,2,5) Cons by (auto simp: bind_eq_Some_conv)
  qed
qed

lemma run_events_order:
  "run_events handler D xs s = Some (ks, s') \<Longrightarrow> subseq ks xs \<and> ((\<forall>ev s. D ev s = {}) \<longrightarrow> ks = xs)"
proof (induction handler D xs s arbitrary: ks s' rule: run_events.induct)
  case (2 handler D ev evs s)
  then obtain s1 s2 js where "ngx_delete_posted_event ev s = Some s1" "handler ev s1 = Some s2"
    "run_events handler D (filter (\<lambda>x. x \<notin> D ev s1) evs) s2 = Some (js, s')" "ks = ev # js"
    by (auto simp: bind_eq_Some_conv)
  then show ?case using "2.IH" [of s1 s2 js s'] subseq_filter_left subseq_order.order_trans by fastforce
qed auto

lemma move_posted_loop_eq:
  assumes "is_queue s q (as @ bs)"
  shows "move_posted_loop q (hd (bs @ [q])) s =
    Some (s\<lparr>ready := (\<lambda>x. x \<in> set bs \<or> ready s x), available := (\<lambda>x. if x \<in> set bs then -1 else available s x)\<rparr>)"
  using assms
proof (induction bs arbitrary: as s)
  case Nil
  then show ?case by (subst move_posted_loop.simps) simp
next
  case (Cons b bs)
  let ?s = "s\<lparr>ready := (ready s)(b := True), available := (available s)(b := -1)\<rparr>"
  have n: "nxt s b = Some (hd (bs @ [q]))" using queue_neighbours(1) [of s q "as @ [b]" bs] Cons.prems by simp
  have b: "b \<noteq> q" "b \<notin> set bs" using Cons.prems by (auto simp: is_queue_def)
  have "is_queue ?s q ((as @ [b]) @ bs)" using Cons.prems by (simp add: is_queue_def)
  from Cons.IH [OF this] show ?case using n b
    by (subst move_posted_loop.simps) (auto intro!: event_heap.equality ext)
qed

lemma move_posted_next_queue:
  assumes "is_queue s p xs" "is_queue s n ys" "set (p # xs) \<inter> set (n # ys) = {}"
  shows "\<exists>s'. ngx_event_move_posted_next p n s = Some s' \<and> is_queue s' p (xs @ ys) \<and> is_queue s' n []"
proof -
  let ?s = "s\<lparr>ready := (\<lambda>x. x \<in> set ys \<or> ready s x), available := (\<lambda>x. if x \<in> set ys then -1 else available s x)\<rparr>"
  have l: "move_posted_loop n (hd (ys @ [n])) s = Some ?s" using move_posted_loop_eq [of s n "[]" ys] assms(2) by simp
  have "is_queue ?s p xs" "is_queue ?s n ys" using assms(1,2) by (simp_all add: is_queue_def)
  from add_queue [OF this assms(3)] obtain s2 where s2: "ngx_queue_add p n ?s = Some s2" "is_queue s2 p (xs @ ys)" by blast
  have "mapped ?s n" using queue_mapped [OF \<open>is_queue ?s n ys\<close>] by simp
  then have "mapped s2 n" using add_mapped [OF s2(1)] by blast
  then obtain s3 where s3: "ngx_queue_init n s2 = Some s3" "is_queue s3 n []" "same_outside {n} s2 s3"
    by (auto simp: ngx_queue_init_def queue_op_defs is_queue_def same_outside_def)
  have "{n} \<inter> set (p # xs @ ys) = {}" using assms(2,3) by (auto simp: is_queue_def)
  from is_queue_frame [OF s2(2) s3(3) this] show ?thesis
    using l s2(1) s3 queue_ends(1) [OF assms(2)] by (simp add: ngx_event_move_posted_next_def)
qed

text \<open>
  C33. \<open>ngx_event_process_posted\<close> ends and leaves the queue empty for all handlers that are \<open>handler_ok\<close>: they
  may delete queued events and post any events, their own included, if each call leaves less work by a measure of the
  heap and the queue. (A handler that posts its own event without end is excluded: with it the loop does not end.) The
  events queued at the start are handled first, in the order they were posted, each after it was taken out of the queue
  and at most once, without those that earlier handlers have deleted; all of them, if handlers delete none. What the handlers
  post comes after them.
\<close>

theorem posted_events_handled:
  assumes "is_queue s q xs" "I s xs" "handler_ok I m D handler q"
  shows "\<exists>ks s1 s' zs. run_events handler D xs s = Some (ks, s1) \<and> is_queue s1 q zs \<and>
    subseq ks xs \<and> ((\<forall>ev s. D ev s = {}) \<longrightarrow> ks = xs) \<and>
    ngx_event_process_posted handler q s1 = Some s' \<and>
    ngx_event_process_posted handler q s = Some s' \<and> is_queue s' q []"
proof -
  obtain ks s1 zs where "run_events handler D xs s = Some (ks, s1)" "is_queue s1 q zs"
    "ngx_event_process_posted handler q s = ngx_event_process_posted handler q s1"
    using process_posted_order [of s q xs "[]" I m D handler] assms by auto
  then show ?thesis using process_posted_returns [OF assms] run_events_order by fastforce
qed

text \<open>
  A queue 1 with the events 2 and 3. As long as the event 2 has something available, its handler deletes the event 3 and
  posts its own event again.
\<close>

definition example_events :: event_heap where
  "example_events = \<lparr>prev = map_of [(1, 3), (2, 1), (3, 2)], nxt = map_of [(1, 2), (2, 3), (3, 1)],
     posted = (\<lambda>x. x = 2 \<or> x = 3), ready = (\<lambda>_. False), available = (\<lambda>_. 1)\<rparr>"

definition example_handler :: "ptr \<Rightarrow> event_heap \<Rightarrow> event_heap option" where
  "example_handler ev s =
     (if ev = 2 \<and> 0 < available s 2
      then do { s \<leftarrow> ngx_delete_posted_event 3 s;
                ngx_post_event 2 1 (s\<lparr>available := (available s)(2 := available s 2 - 1)\<rparr>) }
      else Some s)"

definition example_inv :: "event_heap \<Rightarrow> ptr list \<Rightarrow> bool" where
  "example_inv s xs \<longleftrightarrow> xs = [2, 3] \<and> available s 2 = 1 \<or> xs = [2] \<and> available s 2 = 0 \<or> xs = []"

lemma delete_posted_event_keeps:
  assumes "ngx_delete_posted_event ev s = Some s'" "mapped s x"
  shows "mapped s' x" "x \<noteq> ev \<Longrightarrow> posted s' x = posted s x"
  using assms by (auto simp: ngx_delete_posted_event_def ngx_queue_remove_def bind_eq_Some_conv queue_op_defs
      split: option.splits if_splits)

lemma set_prev_fields: "set_prev x y s = Some s' \<Longrightarrow> posted s' = posted s \<and> available s' = available (s :: event_heap)"
  by (auto simp: set_prev_def split: option.splits if_splits)

lemma set_next_fields: "set_next x y s = Some s' \<Longrightarrow> posted s' = posted s \<and> available s' = available (s :: event_heap)"
  by (auto simp: set_next_def split: option.splits if_splits)

lemma delete_posted_event_fields:
  assumes "ngx_delete_posted_event ev s = Some s'"
  shows "posted s' = (posted s)(ev := False)" "available s' = available s"
  using assms by (auto simp: ngx_delete_posted_event_def ngx_queue_remove_def bind_eq_Some_conv
      dest!: set_prev_fields set_next_fields)

lemma post_event_fields: "ngx_post_event ev q s = Some s' \<Longrightarrow> available s' = available s"
  by (auto simp: ngx_post_event_def ngx_queue_insert_tail_def bind_eq_Some_conv split: if_splits
      dest!: set_prev_fields set_next_fields)

lemma example_handler_ok:
  "handler_ok example_inv (\<lambda>s xs. length xs) (\<lambda>ev s. if 0 < available s 2 then {3} else {}) example_handler 1"
  unfolding handler_ok_def Let_def
proof (intro allI impI, elim conjE)
  fix ev s ys s1
  assume q: "is_queue s 1 (ev # ys)" and I: "example_inv s (ev # ys)" and d: "ngx_delete_posted_event ev s = Some s1"
  have q1: "is_queue s1 1 ys" using delete_posted_event_queue [OF q] d by auto
  have "mapped s ev" using queue_mapped [OF q] by simp
  note k = delete_posted_event_keeps [OF d this]
  note p = delete_posted_event_fields [OF d]
  show "\<exists>s' zs. example_handler ev s1 = Some s' \<and> is_queue s' 1 (filter (\<lambda>x. x \<notin> (if 0 < available s1 2 then {3} else {})) ys @ zs) \<and>
      example_inv s' (filter (\<lambda>x. x \<notin> (if 0 < available s1 2 then {3} else {})) ys @ zs) \<and>
      length (filter (\<lambda>x. x \<notin> (if 0 < available s1 2 then {3} else {})) ys @ zs) < length (ev # ys)"
  proof (cases "ys = [3]")
    case True
    then have ev: "ev = 2" "available s1 2 = 1" using I p(2) by (auto simp: example_inv_def)
    obtain s2 where s2: "ngx_delete_posted_event 3 s1 = Some s2" "is_queue s2 1 []"
      using delete_posted_event_queue [of s1 1 3 "[]"] q1 True by auto
    have m: "mapped s2 2" "\<not> posted s2 2" "available s2 2 = 1"
      using delete_posted_event_keeps [OF s2(1), of 2] delete_posted_event_fields [OF s2(1)] k(1) p(1) ev by simp_all
    let ?s = "s2\<lparr>available := (available s2)(2 := available s2 2 - 1)\<rparr>"
    have "is_queue ?s 1 []" "mapped ?s 2" using s2(2) m(1) by (simp_all add: is_queue_def mapped_def)
    then obtain s' where s': "ngx_post_event 2 1 ?s = Some s'" "is_queue s' 1 [2]"
      using post_event_queue [of ?s 1 "[]" 2] m(2) by auto
    then have "available s' 2 = 0" using post_event_fields [OF s'(1)] m(3) by simp
    then show ?thesis using True ev s2 s' by (intro exI [of _ s'] exI [of _ "[2]"]) (simp add: example_handler_def example_inv_def)
  next
    case False
    then have "ys = []" "ev = 2 \<Longrightarrow> available s1 2 = 0" using I p(2) by (auto simp: example_inv_def)
    then show ?thesis using q1 by (intro exI [of _ s1] exI [of _ "[]"]) (auto simp: example_handler_def example_inv_def)
  qed
qed

theorem posted_events_handled_witness:
  "\<exists>s1 s' zs. run_events example_handler (\<lambda>ev s. if 0 < available s 2 then {3} else {}) [2, 3] example_events = Some ([2], s1) \<and>
     ngx_event_process_posted example_handler 1 example_events = Some s' \<and> is_queue s' 1 []"
proof -
  have "is_queue example_events 1 [2, 3]" by (simp add: is_queue_def example_events_def)
  moreover have "example_inv example_events [2, 3]" by (simp add: example_inv_def example_events_def)
  ultimately obtain ks s1 s' where r: "run_events example_handler (\<lambda>ev s. if 0 < available s 2 then {3} else {}) [2, 3] example_events = Some (ks, s1)"
    "ngx_event_process_posted example_handler 1 example_events = Some s'" "is_queue s' 1 []"
    using posted_events_handled [OF _ _ example_handler_ok] by blast
  from r(1) obtain s2 s3 js where d: "ngx_delete_posted_event 2 example_events = Some s2" "ks = 2 # js"
    "run_events example_handler (\<lambda>ev s. if 0 < available s 2 then {3} else {}) (filter (\<lambda>x. x \<notin> (if 0 < available s2 2 then {3} else {})) [3]) s3 = Some (js, s1)"
    by (simp add: bind_eq_Some_conv del: filter.simps) blast
  have "available s2 2 = 1" using delete_posted_event_fields(2) [OF d(1)] by (simp add: example_events_def)
  then show ?thesis using d r by auto
qed

end
