(* ===== verification/Ngx_Http_Location.thy ===== *)
theory Ngx_Http_Location
  imports Ngx_Queue Ngx_Escape "HOL-Library.Sublist" "HOL-Library.List_Lexorder" "HOL-Library.Product_Lexorder"
begin

text \<open>
  Locations: how the \<open>location\<close> blocks of a server become the structures that are searched for every
  request, and the search. \<^verbatim>\<open>src/http/ngx_http_core_module.c\<close>: the directive
  (\<open>ngx_http_core_location\<close>) and the look-up (\<open>ngx_http_core_find_location\<close>,
  \<open>ngx_http_core_find_static_location\<close>); \<^verbatim>\<open>src/http/ngx_http.c\<close>: the queue of locations, its order
  \<open>ngx_http_cmp_locations\<close>, the split into prefix, regex and named locations, and the tree.

  A queue of locations is the list of its elements, which is how \<open>Ngx_Queue\<close> describes the queue
  operations: \<open>ngx_queue_sort\<close> is \<open>merge_sort\<close>, \<open>ngx_queue_split\<close> cuts a list, \<open>ngx_queue_add\<close> appends,
  \<open>ngx_queue_middle\<close> is the element at half the length. Allocation does not fail. Compiling and
  executing regular expressions is code outside the repository: parameters.

  The theory holds the definitions and the order of the sorted queue;
  \<open>Ngx_Http_Location_Tree\<close> has the tree and \<open>Ngx_Http_Location_Props\<close> the theorems.
\<close>

section \<open>Comparing names\<close>

text \<open>A read past the end of a string is the result \<open>None\<close>.\<close>

fun ngx_filename_cmp :: "byte list \<Rightarrow> byte list \<Rightarrow> nat \<Rightarrow> int option" where
  "ngx_filename_cmp s1 s2 0 = Some 0"
| "ngx_filename_cmp (c1 # s1) (c2 # s2) (Suc n) =
     (if c1 = c2 then (if c1 \<noteq> 0 then ngx_filename_cmp s1 s2 n else Some 0)
      else if c1 = 0 \<or> c2 = 0 then Some (uint c1 - uint c2)
      else Some ((if c1 = B CHR ''/'' then 0 else uint c1) - (if c2 = B CHR ''/'' then 0 else uint c2)))"
| "ngx_filename_cmp _ _ (Suc n) = None"

fun ngx_strcmp :: "byte list \<Rightarrow> byte list \<Rightarrow> int option" where
  "ngx_strcmp (c1 # s1) (c2 # s2) =
     (if c1 \<noteq> c2 then Some (uint c1 - uint c2) else if c1 = 0 then Some 0 else ngx_strcmp s1 s2)"
| "ngx_strcmp _ _ = None"

section \<open>Locations\<close>

text \<open>
  The members of \<open>ngx_http_core_loc_conf_t\<close> that the look-up uses. \<open>regex\<close> names the compiled
  expression; \<open>locations\<close> are the locations configured inside, in the order of the configuration.
\<close>

datatype ngx_http_core_loc_conf_t = Loc_Conf
  (lc_name: "byte list") (exact_match: bool) (noname: bool) (named: bool) (regex: "nat option")
  (noregex: bool) (auto_redirect: bool) (locations: "ngx_http_core_loc_conf_t list")

datatype ngx_http_location_queue_t = Location_Queue
  (exact: "ngx_http_core_loc_conf_t option") (inclusive: "ngx_http_core_loc_conf_t option")
  (lq_name: "byte list") (lq_list: "ngx_http_location_queue_t list")

definition ngx_http_add_location ::
  "ngx_http_location_queue_t list \<Rightarrow> ngx_http_core_loc_conf_t \<Rightarrow> ngx_http_location_queue_t list" where
  "ngx_http_add_location locs clcf =
     (let (e, i) = (if exact_match clcf \<or> regex clcf \<noteq> None \<or> named clcf \<or> noname clcf
                    then (Some clcf, None) else (None, Some clcf))
      in locs @ [Location_Queue e i (lc_name clcf) []])"

definition location_conf :: "ngx_http_location_queue_t \<Rightarrow> ngx_http_core_loc_conf_t" where
  "location_conf lq = (case exact lq of Some c \<Rightarrow> c | None \<Rightarrow> the (inclusive lq))"

definition ngx_http_cmp_locations :: "ngx_http_location_queue_t \<Rightarrow> ngx_http_location_queue_t \<Rightarrow> int" where
  "ngx_http_cmp_locations one two =
     (let first = location_conf one; second = location_conf two in
      if noname first \<and> \<not> noname second then 1
      else if \<not> noname first \<and> noname second then -1
      else if noname first \<or> noname second then 0
      else if named first \<and> \<not> named second then 1
      else if \<not> named first \<and> named second then -1
      else if named first \<and> named second then the (ngx_strcmp (lc_name first @ [0]) (lc_name second @ [0]))
      else if regex first \<noteq> None \<and> regex second = None then 1
      else if regex first = None \<and> regex second \<noteq> None then -1
      else if regex first \<noteq> None \<or> regex second \<noteq> None then 0
      else
        (let rc = the (ngx_filename_cmp (lc_name first @ [0]) (lc_name second @ [0])
                    (min (length (lc_name first)) (length (lc_name second)) + 1)) in
         if rc = 0 \<and> \<not> exact_match first \<and> exact_match second then 1 else rc))"

definition location_queue :: "ngx_http_core_loc_conf_t list \<Rightarrow> ngx_http_location_queue_t list" where
  "location_queue cs = foldl ngx_http_add_location [] cs"

text \<open>The loop of \<open>ngx_http_init_locations\<close>: the index of \<open>q\<close> at its end, \<open>named\<close> and \<open>regex\<close>.\<close>

fun init_locations_loop :: "ngx_http_location_queue_t list \<Rightarrow> nat \<Rightarrow> nat option \<Rightarrow> nat option \<Rightarrow>
  nat \<times> nat option \<times> nat option" where
  "init_locations_loop [] q nm rx = (q, nm, rx)"
| "init_locations_loop (lq # qs) q nm rx =
     (let clcf = location_conf lq in
      if regex clcf \<noteq> None then
        init_locations_loop qs (Suc q) nm (case rx of None \<Rightarrow> Some q | Some i \<Rightarrow> Some i)
      else if named clcf then
        init_locations_loop qs (Suc q) (case nm of None \<Rightarrow> Some q | Some i \<Rightarrow> Some i) rx
      else if noname clcf then (q, nm, rx)
      else init_locations_loop qs (Suc q) nm rx)"

record location_lists =
  static_queue :: "ngx_http_location_queue_t list"
  regex_locations :: "ngx_http_core_loc_conf_t option list"
  named_locations :: "ngx_http_core_loc_conf_t option list"

definition ngx_http_init_locations :: "ngx_http_location_queue_t list \<Rightarrow> location_lists" where
  "ngx_http_init_locations locs =
     (let locs = merge_sort ngx_http_cmp_locations locs;
          (q, nm, rx) = init_locations_loop locs 0 None None;
          locs = (if q \<noteq> length locs then take q locs else locs);
          (nms, locs) = (case nm of None \<Rightarrow> ([], locs) | Some i \<Rightarrow> (map exact (drop i locs), take i locs));
          (rxs, locs) = (case rx of None \<Rightarrow> ([], locs) | Some i \<Rightarrow> (map exact (drop i locs), take i locs))
      in \<lparr>static_queue = locs, regex_locations = rxs, named_locations = nms\<rparr>)"

fun ngx_http_join_exact_locations ::
  "ngx_http_location_queue_t list \<Rightarrow> ngx_http_location_queue_t list option" where
  "ngx_http_join_exact_locations (q # x # qs) =
     (if length (lq_name q) = length (lq_name x) \<and>
         ngx_filename_cmp (lq_name q) (lq_name x) (length (lq_name x)) = Some 0 then
        (if exact q \<noteq> None \<and> exact x \<noteq> None \<or> inclusive q \<noteq> None \<and> inclusive x \<noteq> None then None
         else ngx_http_join_exact_locations
                (Location_Queue (exact q) (inclusive x) (lq_name q) (lq_list q) # qs))
      else map_option (Cons q) (ngx_http_join_exact_locations (x # qs)))"
| "ngx_http_join_exact_locations qs = Some qs"

text \<open>The test of the loop over \<open>x\<close>: the loop goes on.\<close>

definition starts_with :: "ngx_http_location_queue_t \<Rightarrow> ngx_http_location_queue_t \<Rightarrow> bool" where
  "starts_with lq lx \<longleftrightarrow> \<not> (length (lq_name lq) > length (lq_name lx) \<or>
     ngx_filename_cmp (lq_name lq) (lq_name lx) (length (lq_name lq)) \<noteq> Some 0)"

text \<open>The queue from \<open>q\<close> on; what lies before \<open>q\<close> is not touched any more.\<close>

function ngx_http_create_locations_list :: "ngx_http_location_queue_t list \<Rightarrow> ngx_http_location_queue_t list" where
  "ngx_http_create_locations_list [] = []"
| "ngx_http_create_locations_list [q] = [q]"
| "ngx_http_create_locations_list (q # y # qs) =
     (if inclusive q = None then q # ngx_http_create_locations_list (y # qs)
      else
        let p = takeWhile (starts_with q) (y # qs); x = dropWhile (starts_with q) (y # qs) in
        if p = [] then q # ngx_http_create_locations_list x
        else Location_Queue (exact q) (inclusive q) (lq_name q) (ngx_http_create_locations_list (lq_list q @ p)) #
          (if x = [] then [] else ngx_http_create_locations_list x))"
  by pat_completeness auto

lemma size_list_takeWhile: "size_list f (takeWhile P xs) \<le> size_list f xs"
  by (induction xs) auto

lemma size_list_dropWhile: "size_list f (dropWhile P xs) \<le> size_list f xs"
  by (induction xs) auto

lemma size_list_append: "size_list f (xs @ ys) = size_list f xs + size_list f ys"
  by (induction xs) auto

lemma size_lq: "size_list size (lq_list q) < size q"
  by (cases q) simp

termination ngx_http_create_locations_list
proof (relation "measure (size_list size)"; (simp; fail)?)
  fix q y :: ngx_http_location_queue_t and qs p x
  assume p: "p = takeWhile (starts_with q) (y # qs)"
  show "(lq_list q @ p, q # y # qs) \<in> measure (size_list size)"
    using size_list_takeWhile [of size "starts_with q" "y # qs"] size_lq [of q] by (simp add: p size_list_append)
next
  fix q y :: ngx_http_location_queue_t and qs p x
  assume x: "x = dropWhile (starts_with q) (y # qs)"
  show "(x, q # y # qs) \<in> measure (size_list size)"
    using size_list_dropWhile [of size "starts_with q" "y # qs"] by (simp add: x)
  then show "(x, q # y # qs) \<in> measure (size_list size)" .
qed

datatype ngx_http_location_tree_node_t = NULL
  | Tree_Node (tn_left: ngx_http_location_tree_node_t) (tn_right: ngx_http_location_tree_node_t)
      (tn_tree: ngx_http_location_tree_node_t)
      (tn_exact: "ngx_http_core_loc_conf_t option") (tn_inclusive: "ngx_http_core_loc_conf_t option")
      (tn_len: nat) (tn_auto_redirect: bool) (tn_name: "byte list")

definition lq_auto_redirect :: "ngx_http_location_queue_t \<Rightarrow> bool" where
  "lq_auto_redirect lq \<longleftrightarrow> (\<exists>c. exact lq = Some c \<and> auto_redirect c) \<or> (\<exists>c. inclusive lq = Some c \<and> auto_redirect c)"

lemma lq_auto_redirect_code [code]:
  "lq_auto_redirect lq = ((case exact lq of Some c \<Rightarrow> auto_redirect c | None \<Rightarrow> False) \<or>
     (case inclusive lq of Some c \<Rightarrow> auto_redirect c | None \<Rightarrow> False))"
  by (auto simp: lq_auto_redirect_def split: option.splits)

text \<open>
  The function is called with queues that are not empty. \<open>node->len\<close> is a \<open>u_short\<close>.
\<close>

function ngx_http_create_locations_tree :: "ngx_http_location_queue_t list \<Rightarrow> nat \<Rightarrow> ngx_http_location_tree_node_t" where
  "ngx_http_create_locations_tree locs pre =
     (if locs = [] then NULL
      else
        let i = length locs div 2; lq = locs ! i; len = length (lq_name lq) - pre;
            left = take i locs; tail = drop (Suc i) locs
        in Tree_Node
          (if left = [] then NULL else ngx_http_create_locations_tree left pre)
          (if left = [] \<or> tail = [] then NULL else ngx_http_create_locations_tree tail pre)
          (if lq_list lq = [] then NULL else ngx_http_create_locations_tree (lq_list lq) (pre + len))
          (exact lq) (inclusive lq) (len mod 65536) (lq_auto_redirect lq) (drop pre (lq_name lq)))"
  by pat_completeness auto
termination
proof (relation "measure (\<lambda>(l, p). size_list size l)"; (simp; fail)?)
  fix locs :: "ngx_http_location_queue_t list" and p i lq len left tail
  assume "locs \<noteq> []" and i: "i = length locs div 2"
  then have "i < length locs" by (cases locs) auto
  then have e: "locs = take i locs @ locs ! i # drop (Suc i) locs" by (simp add: id_take_nth_drop)
  have *: "size_list size locs = size_list size (take i locs) + Suc (size (locs ! i) + size_list size (drop (Suc i) locs))"
    by (subst e) (simp only: size_list_append list.size)
  {
    assume "left = take i locs"
    then show "((left, p), locs, p) \<in> measure (\<lambda>(l, p). size_list size l)" using * by simp
  }
  {
    assume "tail = drop (Suc i) locs"
    then show "((tail, p), locs, p) \<in> measure (\<lambda>(l, p). size_list size l)" using * by simp
  }
  {
    assume "lq = locs ! i"
    then show "((lq_list lq, p + len), locs, p) \<in> measure (\<lambda>(l, p). size_list size l)"
      using * size_lq [of "locs ! i"] by simp
  }
qed

definition ngx_http_init_static_location_trees ::
  "ngx_http_location_queue_t list \<Rightarrow> ngx_http_location_tree_node_t option" where
  "ngx_http_init_static_location_trees locs =
     (if locs = [] then Some NULL
      else case ngx_http_join_exact_locations locs of
        None \<Rightarrow> None
      | Some locs \<Rightarrow> Some (ngx_http_create_locations_tree (ngx_http_create_locations_list locs) 0))"

text \<open>The loop of \<open>ngx_http_core_find_static_location\<close>: \<open>rv\<close> and \<open>r->loc_conf\<close>.\<close>

fun find_static_location :: "byte list \<Rightarrow> ngx_http_location_tree_node_t \<Rightarrow>
  ngx_int \<times> ngx_http_core_loc_conf_t \<Rightarrow> (ngx_int \<times> ngx_http_core_loc_conf_t) option" where
  "find_static_location uri NULL (rv, conf) = Some (rv, conf)"
| "find_static_location uri (Tree_Node lf rt tr ex inc len auto nm) (rv, conf) =
     (let n = (if length uri \<le> len then length uri else len) in
      case ngx_filename_cmp uri nm n of
        None \<Rightarrow> None
      | Some rc \<Rightarrow>
          if rc \<noteq> 0 then (if rc < 0 then find_static_location uri lf (rv, conf) else find_static_location uri rt (rv, conf))
          else if length uri > len then
            (case inc of
               Some c \<Rightarrow> find_static_location (drop n uri) tr (NGX_AGAIN, c)
             | None \<Rightarrow> find_static_location uri rt (rv, conf))
          else if length uri = len then
            (case ex of
               Some c \<Rightarrow> Some (NGX_OK, c)
             | None \<Rightarrow> (case inc of Some c \<Rightarrow> Some (NGX_AGAIN, c) | None \<Rightarrow> None))
          else
            (if length uri + 1 = len \<and> auto then
               (case (case ex of Some c \<Rightarrow> Some c | None \<Rightarrow> inc) of
                  Some c \<Rightarrow> find_static_location uri lf (NGX_DONE, c)
                | None \<Rightarrow> None)
             else find_static_location uri lf (rv, conf)))"

text \<open>The loop over \<open>regex_locations\<close>.\<close>

datatype regex_result = Regex_ok ngx_http_core_loc_conf_t | Regex_none | Regex_error

fun find_regex :: "(nat \<Rightarrow> byte list \<Rightarrow> ngx_int) \<Rightarrow> byte list \<Rightarrow> ngx_http_core_loc_conf_t option list \<Rightarrow> regex_result" where
  "find_regex regex_exec uri (Some c # cs) =
     (let n = regex_exec (the (regex c)) uri in
      if n = NGX_OK then Regex_ok c
      else if n = NGX_DECLINED then find_regex regex_exec uri cs
      else Regex_error)"
| "find_regex regex_exec uri _ = Regex_none"

text \<open>
  \<open>pclcf->static_locations\<close>. The tree is built for the server and, recursively, for the prefix
  locations found in a queue when its tree is built; regex locations have left the queue by then, so
  that nothing below them gets a tree: \<open>built\<close> is false there. (A configuration for which the
  function fails is refused.)
\<close>

definition static_locations :: "bool \<Rightarrow> ngx_http_core_loc_conf_t \<Rightarrow> ngx_http_location_tree_node_t" where
  "static_locations built pclcf =
     (if built then
        (case ngx_http_init_static_location_trees (static_queue (ngx_http_init_locations (location_queue (locations pclcf)))) of
           Some t \<Rightarrow> t | None \<Rightarrow> NULL)
      else NULL)"

definition regexes :: "ngx_http_core_loc_conf_t \<Rightarrow> ngx_http_core_loc_conf_t option list" where
  "regexes pclcf = regex_locations (ngx_http_init_locations (location_queue (locations pclcf)))"

text \<open>The result is the return code and \<open>r->loc_conf\<close>.\<close>

partial_function (option) ngx_http_core_find_location ::
  "(nat \<Rightarrow> byte list \<Rightarrow> ngx_int) \<Rightarrow> byte list \<Rightarrow> bool \<Rightarrow> ngx_http_core_loc_conf_t \<Rightarrow>
    (ngx_int \<times> ngx_http_core_loc_conf_t) option" where
  "ngx_http_core_find_location regex_exec uri built pclcf = do {
     (rc, clcf) \<leftarrow> find_static_location uri (static_locations built pclcf) (NGX_DECLINED, pclcf);
     nr \<leftarrow> Some (rc = NGX_AGAIN \<and> noregex clcf);
     (rc, conf) \<leftarrow> (if rc = NGX_AGAIN then ngx_http_core_find_location regex_exec uri built clcf else Some (rc, clcf));
     if rc = NGX_OK \<or> rc = NGX_DONE then Some (rc, conf)
     else if \<not> nr \<and> regexes pclcf \<noteq> [] then
       (case find_regex regex_exec uri (regexes pclcf) of
          Regex_ok c \<Rightarrow> do {
            (rc, conf) \<leftarrow> ngx_http_core_find_location regex_exec uri False c;
            Some (if rc = NGX_ERROR then rc else NGX_OK, conf) }
        | Regex_none \<Rightarrow> Some (rc, conf)
        | Regex_error \<Rightarrow> Some (NGX_ERROR, conf))
     else Some (rc, conf) }"

section \<open>The directive\<close>

text \<open>A token of the configuration is followed by a zero.\<close>

definition byte_at :: "byte list \<Rightarrow> nat \<Rightarrow> byte" where
  "byte_at s i = (if i < length s then s ! i else 0)"

definition new_location :: "byte list \<Rightarrow> ngx_http_core_loc_conf_t" where
  "new_location n = Loc_Conf n False False False None False False []"

definition exact_location :: "byte list \<Rightarrow> ngx_http_core_loc_conf_t" where
  "exact_location n = Loc_Conf n True False False None False False []"

definition noregex_location :: "byte list \<Rightarrow> ngx_http_core_loc_conf_t" where
  "noregex_location n = Loc_Conf n False False False None True False []"

definition ngx_http_core_regex_location ::
  "(byte list \<Rightarrow> bool \<Rightarrow> nat option) \<Rightarrow> byte list \<Rightarrow> bool \<Rightarrow> ngx_http_core_loc_conf_t option" where
  "ngx_http_core_regex_location compile pattern caseless =
     (case compile pattern caseless of
        None \<Rightarrow> None
      | Some re \<Rightarrow> Some (Loc_Conf pattern False False False (Some re) False False []))"

definition location_args ::
  "(byte list \<Rightarrow> bool \<Rightarrow> nat option) \<Rightarrow> byte list list \<Rightarrow> ngx_http_core_loc_conf_t option" where
  "location_args compile value =
     (case value of
        [_, md, name] \<Rightarrow>
          if md = bytes ''='' then Some (exact_location name)
          else if md = bytes ''^~'' then Some (noregex_location name)
          else if md = bytes ''~'' then ngx_http_core_regex_location compile name False
          else if md = bytes ''~*'' then ngx_http_core_regex_location compile name True
          else None
      | [_, name] \<Rightarrow>
          if byte_at name 0 = B CHR ''='' then Some (exact_location (drop 1 name))
          else if byte_at name 0 = B CHR ''^'' \<and> byte_at name 1 = B CHR ''~'' then Some (noregex_location (drop 2 name))
          else if byte_at name 0 = B CHR ''~'' then
            (let name = drop 1 name in
             if byte_at name 0 = B CHR ''*'' then ngx_http_core_regex_location compile (drop 1 name) True
             else ngx_http_core_regex_location compile name False)
          else if byte_at name 0 = B CHR ''@''
          then Some (Loc_Conf name False False True None False False [])
          else Some (new_location name)
      | _ \<Rightarrow> None)"

text \<open>\<open>parent\<close> is \<open>None\<close> on the server level and the enclosing location otherwise.\<close>

definition nesting_allowed :: "ngx_http_core_loc_conf_t \<Rightarrow> ngx_http_core_loc_conf_t \<Rightarrow> bool" where
  "nesting_allowed pclcf clcf \<longleftrightarrow> \<not> exact_match pclcf \<and> \<not> named pclcf \<and> \<not> named clcf \<and>
     \<not> (regex clcf = None \<and>
        ngx_filename_cmp (lc_name clcf @ [0]) (lc_name pclcf @ [0]) (length (lc_name pclcf)) \<noteq> Some 0)"

definition ngx_http_core_location :: "(byte list \<Rightarrow> bool \<Rightarrow> nat option) \<Rightarrow> ngx_http_core_loc_conf_t option \<Rightarrow>
  ngx_http_location_queue_t list \<Rightarrow> byte list list \<Rightarrow>
  (ngx_http_core_loc_conf_t \<times> ngx_http_location_queue_t list) option" where
  "ngx_http_core_location compile parent locs value = do {
     clcf \<leftarrow> location_args compile value;
     if (case parent of None \<Rightarrow> True | Some pclcf \<Rightarrow> nesting_allowed pclcf clcf)
     then Some (clcf, ngx_http_add_location locs clcf) else None }"

definition ngx_http_escape_location_name :: "ngx_http_core_loc_conf_t \<Rightarrow> byte list \<times> nat" where
  "ngx_http_escape_location_name clcf =
     (let escape = 2 * ngx_escape_uri_count (lc_name clcf) NGX_ESCAPE_URI in
      if escape \<noteq> 0 then (ngx_escape_uri (lc_name clcf) NGX_ESCAPE_URI, length (lc_name clcf) + escape)
      else (lc_name clcf, length (lc_name clcf)))"

lemma escaped_location_name:
  "fst (ngx_http_escape_location_name c) = ngx_escape_uri (lc_name c) NGX_ESCAPE_URI \<and>
   snd (ngx_http_escape_location_name c) = length (fst (ngx_http_escape_location_name c))"
  using uri.escape_id [of "lc_name c" NGX_ESCAPE_URI]
  by (auto simp: ngx_http_escape_location_name_def Let_def uri.length_escape)

section \<open>The order of names\<close>

definition name_key :: "byte \<Rightarrow> int" where
  "name_key c = (if c = 0 then -1 else if c = B CHR ''/'' then 0 else uint c)"

lemma uint_pos [simp]: "c \<noteq> (0::byte) \<Longrightarrow> 0 < uint c"
  by (metis uint_0_iff unsigned_greater_eq order_le_less)

lemma uint_not_neg [simp]: "uint (c::byte) \<noteq> -1" "-1 \<noteq> uint (c::byte)"
  by (metis unsigned_greater_eq not_one_le_zero neg_0_le_iff_le)+

lemma name_key_inj [simp]: "name_key a = name_key b \<longleftrightarrow> a = b"
  unfolding name_key_def by (auto simp: word_uint_eq_iff)

abbreviation key :: "byte list \<Rightarrow> int list" where "key \<equiv> map name_key"

lemma key_inj [simp]: "key a = key b \<longleftrightarrow> a = b"
  by (induction a arbitrary: b) (auto simp: Cons_eq_map_conv map_eq_Cons_conv)

text \<open>\<open>ngx_filename_cmp\<close> on strings that do not end within the compared length.\<close>

lemma filename_cmp_less:
  assumes "a \<noteq> b" "a \<noteq> 0" "b \<noteq> (0::byte)"
  shows "(if a = B CHR ''/'' then 0 else uint a) - (if b = B CHR ''/'' then 0 else uint b) < (0::int) \<longleftrightarrow>
      name_key a < name_key b"
    and "(if a = B CHR ''/'' then 0 else uint a) - (if b = B CHR ''/'' then 0 else uint b) \<noteq> (0::int)"
  using assms name_key_inj [of a b] unfolding name_key_def by (auto split: if_splits)

lemma filename_cmp_cases:
  assumes "n \<le> length a" "n \<le> length b" "0 \<notin> set (take n a)" "0 \<notin> set (take n b)"
  shows "\<exists>rc. ngx_filename_cmp a b n = Some rc \<and> (rc = 0 \<longleftrightarrow> take n a = take n b) \<and>
    (rc < 0 \<longleftrightarrow> key (take n a) < key (take n b))"
  using assms
proof (induction a b n rule: ngx_filename_cmp.induct)
  case (2 c1 s1 c2 s2 n)
  show ?case
  proof (cases "c1 = c2")
    case True
    then show ?thesis using 2 by auto
  next
    case False
    then show ?thesis using 2(2-5) filename_cmp_less [of c1 c2] by (auto simp: Let_def)
  qed
qed auto

text \<open>The comparison of two names with their terminating zeros.\<close>

abbreviation cstr :: "byte list \<Rightarrow> byte list" where "cstr \<equiv> takeWhile (\<lambda>c. c \<noteq> 0)"

lemma filename_cmp_names:
  "\<exists>rc. ngx_filename_cmp (a @ [0]) (b @ [0]) (min (length a) (length b) + 1) = Some rc \<and>
    (rc = 0 \<longleftrightarrow> cstr a = cstr b) \<and> (rc < 0 \<longleftrightarrow> key (cstr a) < key (cstr b))"
proof (induction a arbitrary: b)
  case Nil
  show ?case by (cases b) (auto dest: uint_pos)
next
  case (Cons x a)
  show ?case
  proof (cases b)
    case Nil
    then show ?thesis by (auto dest: uint_pos)
  next
    case (Cons y b')
    show ?thesis
    proof (cases "x = y")
      case True
      then show ?thesis using Cons.IH [of b'] Cons by auto
    next
      case False
      then show ?thesis using Cons filename_cmp_less [of x y] by (auto simp: Let_def dest: uint_pos)
    qed
  qed
qed

lemma strcmp_names:
  "\<exists>rc. ngx_strcmp (a @ [0]) (b @ [0]) = Some rc \<and> (rc \<le> 0 \<longleftrightarrow> map uint (cstr a) \<le> map uint (cstr b))"
proof (induction a arbitrary: b)
  case Nil
  show ?case by (cases b) (auto dest: uint_pos)
next
  case (Cons x a)
  show ?case
  proof (cases b)
    case Nil
    then show ?thesis by (auto dest: uint_pos simp: not_le)
  next
    case (Cons y b')
    show ?thesis
    proof (cases "x = y")
      case True
      then show ?thesis using Cons.IH [of b'] Cons by auto
    next
      case False
      then have "uint x \<noteq> uint y" by (simp add: word_uint_eq_iff)
      then show ?thesis using Cons False by (auto dest: uint_pos simp: not_le)
    qed
  qed
qed

definition loc_key :: "ngx_http_location_queue_t \<Rightarrow> nat \<times> int list \<times> nat" where
  "loc_key lq = (let c = location_conf lq in
     if noname c then (3, [], 0)
     else if named c then (2, map uint (cstr (lc_name c)), 0)
     else if regex c \<noteq> None then (1, [], 0)
     else (0, key (cstr (lc_name c)), if exact_match c then 0 else 1))"

lemma cmp_locations_le: "ngx_http_cmp_locations one two \<le> 0 \<longleftrightarrow> loc_key one \<le> loc_key two"
proof -
  let ?f = "location_conf one" and ?s = "location_conf two"
  obtain rc where rc: "ngx_filename_cmp (lc_name ?f @ [0]) (lc_name ?s @ [0])
      (min (length (lc_name ?f)) (length (lc_name ?s)) + 1) = Some rc"
    "rc = 0 \<longleftrightarrow> cstr (lc_name ?f) = cstr (lc_name ?s)" "rc < 0 \<longleftrightarrow> key (cstr (lc_name ?f)) < key (cstr (lc_name ?s))"
    using filename_cmp_names [of "lc_name ?f" "lc_name ?s"] by blast
  obtain rs where rs: "ngx_strcmp (lc_name ?f @ [0]) (lc_name ?s @ [0]) = Some rs"
    "rs \<le> 0 \<longleftrightarrow> map uint (cstr (lc_name ?f)) \<le> map uint (cstr (lc_name ?s))"
    using strcmp_names [of "lc_name ?f" "lc_name ?s"] by blast
  show ?thesis
    unfolding ngx_http_cmp_locations_def loc_key_def Let_def rc(1) rs(1) using rc(2,3) rs(2)
    by (auto simp: less_eq_prod_def less_prod_def le_less)
qed

interpretation loc: comparison ngx_http_cmp_locations
  by unfold_locales (auto simp: cmp_locations_le)

section \<open>Sorting the locations\<close>

definition rank :: "ngx_http_location_queue_t \<Rightarrow> nat" where
  "rank lq = fst (loc_key lq)"

lemma rank_cases: "rank lq = 0 \<or> rank lq = 1 \<or> rank lq = 2 \<or> rank lq = 3"
  by (simp add: rank_def loc_key_def Let_def)

lemma sorted_rank: "sorted_wrt (\<lambda>x y. rank x \<le> rank y) (merge_sort ngx_http_cmp_locations qs)"
proof -
  have "loc_key x \<le> loc_key y \<Longrightarrow> rank x \<le> rank y" for x y by (auto simp: rank_def less_eq_prod_def)
  then show ?thesis using loc.sorted_merge_sort [of qs] unfolding cmp_locations_le
    by (auto intro: sorted_wrt_mono_rel [rotated])
qed

lemma split_ranks:
  "sorted_wrt (\<lambda>x y. rank x \<le> rank y) qs \<Longrightarrow> (\<forall>x \<in> set qs. k \<le> rank x) \<Longrightarrow>
    qs = filter (\<lambda>x. rank x = k) qs @ filter (\<lambda>x. k < rank x) qs"
proof (induction qs)
  case (Cons x qs)
  show ?case
  proof (cases "rank x = k")
    case True
    then show ?thesis using Cons by auto
  next
    case False
    then have "\<forall>y \<in> set (x # qs). k < rank y" using Cons.prems by fastforce
    then have "filter (\<lambda>y. rank y = k) (x # qs) = []" "filter (\<lambda>y. k < rank y) (x # qs) = x # qs"
      by (auto simp: filter_empty_conv filter_id_conv)
    then show ?thesis by simp
  qed
qed simp

lemma sorted_by_rank:
  assumes "sorted_wrt (\<lambda>x y. rank x \<le> rank y) qs"
  shows "qs = filter (\<lambda>x. rank x = 0) qs @ filter (\<lambda>x. rank x = 1) qs @
    filter (\<lambda>x. rank x = 2) qs @ filter (\<lambda>x. rank x = 3) qs"
proof -
  let ?f = "\<lambda>k. filter (\<lambda>x. k < rank x) qs"
  have s: "sorted_wrt (\<lambda>x y. rank x \<le> rank y) (?f k)" for k using assms by (rule sorted_wrt_filter)
  have c: "(k < n \<and> n = Suc k) = (n = Suc k)" "(Suc 0 < n \<and> n = 2) = (n = 2)" "(k < n \<and> Suc k < n) = (Suc k < n)"
    "(Suc 0 < n \<and> 2 < n) = (2 < n)" for k n :: nat by auto
  have "qs = filter (\<lambda>x. rank x = 0) qs @ ?f 0" using split_ranks [OF assms, of 0] by simp
  moreover have "?f 0 = filter (\<lambda>x. rank x = 1) qs @ ?f 1"
    using split_ranks [OF s [of 0], of 1] by (simp add: c)
  moreover have "?f 1 = filter (\<lambda>x. rank x = 2) qs @ ?f 2"
    using split_ranks [OF s [of 1], of 2] by (simp add: c)
  moreover have "?f 2 = filter (\<lambda>x. rank x = 3) qs"
    by (rule filter_cong) (use rank_cases in force)+
  ultimately show ?thesis by metis
qed

text \<open>A location is of one kind.\<close>

definition one_kind :: "ngx_http_core_loc_conf_t \<Rightarrow> bool" where
  "one_kind c \<longleftrightarrow> (noname c \<longrightarrow> \<not> named c \<and> regex c = None) \<and> (named c \<longrightarrow> regex c = None)"

lemma init_loop_noname:
  assumes "\<forall>x \<in> set qs. rank x = 3 \<and> one_kind (location_conf x)"
  shows "init_locations_loop qs q nm rx = (q, nm, rx)"
  using assms by (cases qs) (auto simp: rank_def loc_key_def one_kind_def Let_def split: if_splits)

lemma init_loop_named:
  assumes "\<forall>x \<in> set qs. rank x = 2 \<and> one_kind (location_conf x)"
  shows "init_locations_loop (qs @ ts) q nm rx =
    init_locations_loop ts (q + length qs) (if qs = [] then nm else case nm of None \<Rightarrow> Some q | Some i \<Rightarrow> Some i) rx"
  using assms by (induction qs arbitrary: q nm)
    (auto simp: rank_def loc_key_def one_kind_def Let_def split: if_splits option.splits)

lemma init_loop_regex:
  assumes "\<forall>x \<in> set qs. rank x = 1 \<and> one_kind (location_conf x)"
  shows "init_locations_loop (qs @ ts) q nm rx =
    init_locations_loop ts (q + length qs) nm (if qs = [] then rx else case rx of None \<Rightarrow> Some q | Some i \<Rightarrow> Some i)"
  using assms by (induction qs arbitrary: q rx)
    (auto simp: rank_def loc_key_def one_kind_def Let_def split: if_splits option.splits)

lemma init_loop_static:
  assumes "\<forall>x \<in> set qs. rank x = 0"
  shows "init_locations_loop (qs @ ts) q nm rx = init_locations_loop ts (q + length qs) nm rx"
  using assms by (induction qs arbitrary: q)
    (auto simp: rank_def loc_key_def Let_def split: if_splits option.splits)

lemma init_locations_eq:
  assumes "\<forall>x \<in> set qs. one_kind (location_conf x)"
  defines "L \<equiv> merge_sort ngx_http_cmp_locations qs"
  shows "ngx_http_init_locations qs = \<lparr>static_queue = filter (\<lambda>x. rank x = 0) L,
    regex_locations = map exact (filter (\<lambda>x. rank x = 1) qs),
    named_locations = map exact (filter (\<lambda>x. rank x = 2) L)\<rparr>"
proof -
  define S R N E where "S = filter (\<lambda>x. rank x = 0) L" and "R = filter (\<lambda>x. rank x = 1) L"
    and "N = filter (\<lambda>x. rank x = 2) L" and "E = filter (\<lambda>x. rank x = 3) L"
  have L: "L = S @ R @ N @ E" unfolding S_def R_def N_def E_def
    by (rule sorted_by_rank) (simp add: L_def sorted_rank)
  have ok: "\<forall>x \<in> set L. one_kind (location_conf x)" using assms(1) by (simp add: L_def)
  have loop: "init_locations_loop L 0 None None = (length S + length R + length N,
      if N = [] then None else Some (length S + length R), if R = [] then None else Some (length S))"
    unfolding L using ok by (simp add: init_loop_static init_loop_regex init_loop_named init_loop_noname S_def R_def N_def E_def)
  have "filter (\<lambda>x. rank x = 1) (merge_sort ngx_http_cmp_locations qs) = filter (\<lambda>x. rank x = 1) qs"
  proof (cases "\<exists>z \<in> set qs. rank z = 1")
    case True
    then obtain z where z: "rank z = 1" by blast
    have "loc.same z x \<longleftrightarrow> rank x = 1" for x
      using z unfolding loc.same_def cmp_locations_le rank_def by (auto simp: loc_key_def Let_def split: if_splits)
    then have "loc.same z = (\<lambda>x. rank x = 1)" by blast
    then show ?thesis using loc.filter_merge_sort [of z qs] by simp
  next
    case False
    then show ?thesis by (simp add: filter_False)
  qed
  then have R: "filter (\<lambda>x. rank x = 1) qs = R" by (simp add: R_def L_def)
  have len: "take (length S + length R + length N) L = S @ R @ N" "length L \<noteq> length S + length R + length N \<or> E = []"
    by (auto simp: L)
  show ?thesis
    unfolding ngx_http_init_locations_def L_def [symmetric] Let_def loop R S_def [symmetric] N_def [symmetric]
    by (cases "N = []"; cases "R = []"; use len L in simp)
qed

end
