(* ===== verification/Ngx_Http_Location_Tree.thy ===== *)
theory Ngx_Http_Location_Tree
  imports Ngx_Http_Location
begin

text \<open>
  The tree of locations. Joining the sorted queue gives strictly sorted names (\<open>join_spec\<close>), nesting
  it keeps the entries and their order and collects below every inclusive location what extends its
  name (\<open>flat_create_list\<close>, \<open>create_list_nested\<close>), and the search in the tree of a nested list finds
  the best entry of the list (\<open>find_static_location_best\<close>).
\<close>

section \<open>Lexicographic order and prefixes\<close>

lemma lex_prefix_le: "prefix xs ys \<Longrightarrow> xs \<le> (ys :: 'a::linorder list)"
proof (induction xs arbitrary: ys)
  case (Cons x xs)
  then show ?case by (cases ys) auto
qed simp

lemma lex_between: "prefix a c \<Longrightarrow> a \<le> b \<Longrightarrow> b \<le> c \<Longrightarrow> prefix a (b :: 'a::linorder list)"
proof (induction a arbitrary: b c)
  case (Cons x a)
  then obtain c' where c: "c = x # c'" "prefix a c'" by (cases c) auto
  show ?case
  proof (cases b)
    case Nil
    then show ?thesis using Cons.prems by simp
  next
    case (Cons y b')
    then show ?thesis using Cons.prems Cons.IH [of c' b'] c by (auto simp: le_less)
  qed
qed simp

lemma lex_cancel [simp]: "p @ xs < p @ ys \<longleftrightarrow> xs < (ys :: 'a::linorder list)"
  by (induction p) auto

lemma lex_take:
  "take m xs \<noteq> take m ys \<Longrightarrow> xs < ys \<longleftrightarrow> take m xs < take m (ys :: 'a::linorder list)"
proof (induction m arbitrary: xs ys)
  case (Suc m)
  show ?case
  proof (cases xs)
    case Nil
    then show ?thesis using Suc.prems by (cases ys) simp_all
  next
    case c: (Cons x xs')
    show ?thesis
    proof (cases ys)
      case Nil
      then show ?thesis using c by simp
    next
      case (Cons y ys')
      then show ?thesis using c Suc.prems Suc.IH [of xs' ys'] by (cases "x = y") simp_all
    qed
  qed
qed simp

lemma key_prefix [simp]: "prefix (key a) (key b) \<longleftrightarrow> prefix a b"
proof
  assume "prefix (key a) (key b)"
  then have "key a = take (length a) (key b)" by (metis append_eq_conv_conj length_map prefix_def)
  then have "a = take (length a) b" by (simp add: take_map)
  then show "prefix a b" by (metis take_is_prefix)
qed (rule map_mono_prefix)

lemma key_prefix_le: "prefix a b \<Longrightarrow> key a \<le> key b"
  by (rule lex_prefix_le) simp

lemma key_between: "prefix a c \<Longrightarrow> key a \<le> key b \<Longrightarrow> key b \<le> key c \<Longrightarrow> prefix a b"
  using lex_between [of "key a" "key c" "key b"] by simp

lemma key_take:
  "take m a \<noteq> take m b \<Longrightarrow> key a < key b \<longleftrightarrow> key (take m a) < key (take m b)"
  using lex_take [of m "key a" "key b"] by (simp add: take_map)

text \<open>No longer name comes before the name extended by a slash.\<close>

lemma key_slash_least:
  assumes "strict_prefix u v" "0 \<notin> set v"
  shows "key (u @ [B CHR ''/'']) \<le> key v"
proof -
  obtain c w where v: "v = u @ c # w" using assms(1) by (metis list.exhaust prefix_def strict_prefix_def append_Nil2)
  have "name_key (B CHR ''/'') \<le> name_key c" using assms(2) v by (auto simp: name_key_def)
  then show ?thesis unfolding v by (cases w) (auto simp: le_less)
qed

section \<open>Joining exact and inclusive locations\<close>

definition nul_free :: "byte list \<Rightarrow> bool" where "nul_free s \<longleftrightarrow> 0 \<notin> set s"

lemma filename_cmp_eq:
  assumes "nul_free a" "nul_free b" "n \<le> length a" "n \<le> length b"
  shows "ngx_filename_cmp a b n = Some 0 \<longleftrightarrow> take n a = take n b"
proof -
  have "0 \<notin> set (take n a)" "0 \<notin> set (take n b)" using assms(1,2) by (auto simp: nul_free_def dest: in_set_takeD)
  then show ?thesis using filename_cmp_cases [of n a b] assms(3,4) by auto
qed

lemma same_name:
  assumes "nul_free (lq_name q)" "nul_free (lq_name x)"
  shows "length (lq_name q) = length (lq_name x) \<and>
    ngx_filename_cmp (lq_name q) (lq_name x) (length (lq_name x)) = Some 0 \<longleftrightarrow> lq_name q = lq_name x"
  using filename_cmp_eq [OF assms, of "length (lq_name x)"] by auto

definition before :: "ngx_http_location_queue_t \<Rightarrow> ngx_http_location_queue_t \<Rightarrow> bool" where
  "before x y \<longleftrightarrow> key (lq_name x) < key (lq_name y) \<or>
     lq_name x = lq_name y \<and> (exact x \<noteq> None \<or> exact y = None)"

definition unique_locations :: "ngx_http_location_queue_t list \<Rightarrow> bool" where
  "unique_locations qs \<longleftrightarrow> distinct (map lq_name (filter (\<lambda>x. exact x \<noteq> None) qs)) \<and>
     distinct (map lq_name (filter (\<lambda>x. inclusive x \<noteq> None) qs))"

definition joins :: "ngx_http_location_queue_t list \<Rightarrow> ngx_http_location_queue_t list \<Rightarrow> bool" where
  "joins qs js \<longleftrightarrow> sorted_wrt (\<lambda>x y. key (lq_name x) < key (lq_name y)) js \<and>
     (\<forall>x \<in> set js. exact x \<noteq> None \<or> inclusive x \<noteq> None) \<and> lq_list ` set js \<subseteq> {[]} \<and>
     (\<forall>n c. (\<exists>x \<in> set js. lq_name x = n \<and> exact x = Some c) \<longleftrightarrow> (\<exists>x \<in> set qs. lq_name x = n \<and> exact x = Some c)) \<and>
     (\<forall>n c. (\<exists>x \<in> set js. lq_name x = n \<and> inclusive x = Some c) \<longleftrightarrow> (\<exists>x \<in> set qs. lq_name x = n \<and> inclusive x = Some c)) \<and>
     lq_name ` set js = lq_name ` set qs"

lemma join_spec:
  assumes "sorted_wrt before qs" "\<forall>x \<in> set qs. nul_free (lq_name x) \<and> lq_list x = []"
    "\<forall>x \<in> set qs. exact x \<noteq> None \<or> inclusive x \<noteq> None" "\<forall>x \<in> set (tl qs). exact x = None \<or> inclusive x = None"
  shows "case ngx_http_join_exact_locations qs of
    None \<Rightarrow> \<not> unique_locations qs | Some js \<Rightarrow> unique_locations qs \<and> joins qs js"
  using assms
proof (induction qs rule: ngx_http_join_exact_locations.induct)
  case (1 q x qs)
  have nf: "nul_free (lq_name q)" "nul_free (lq_name x)" using 1(4) by auto
  show ?case
  proof (cases "lq_name q = lq_name x")
    case True
    show ?thesis
    proof (cases "exact q \<noteq> None \<and> exact x \<noteq> None \<or> inclusive q \<noteq> None \<and> inclusive x \<noteq> None")
      case err: True
      then show ?thesis using True same_name [OF nf] by (auto simp: unique_locations_def)
    next
      case False
      let ?q = "Location_Queue (exact q) (inclusive x) (lq_name q) (lq_list q)"
      have k: "exact q \<noteq> None" "inclusive q = None" "exact x = None" "inclusive x \<noteq> None"
        using False True 1(3,5,6) by (auto simp: before_def)
      have IH: "case ngx_http_join_exact_locations (?q # qs) of
          None \<Rightarrow> \<not> unique_locations (?q # qs) | Some js \<Rightarrow> unique_locations (?q # qs) \<and> joins (?q # qs) js"
        using 1(1) True False same_name [OF nf] 1(3-6) k by (auto simp: before_def)
      have "unique_locations (q # x # qs) = unique_locations (?q # qs)"
        using k True by (auto simp: unique_locations_def)
      moreover have "joins (?q # qs) js \<Longrightarrow> joins (q # x # qs) js" for js
        using k True unfolding joins_def by simp
      ultimately show ?thesis using IH True False same_name [OF nf]
        by (auto split: option.splits)
    qed
  next
    case False
    have lt: "\<forall>y \<in> set (x # qs). key (lq_name q) < key (lq_name y)"
      using 1(3) False by (auto simp: before_def)
    have IH: "case ngx_http_join_exact_locations (x # qs) of
        None \<Rightarrow> \<not> unique_locations (x # qs) | Some js \<Rightarrow> unique_locations (x # qs) \<and> joins (x # qs) js"
      using 1(2) False same_name [OF nf] 1(3-6) by auto
    have "lq_name q \<notin> lq_name ` set (x # qs)" using lt by (metis imageE less_irrefl)
    then have "unique_locations (q # x # qs) = unique_locations (x # qs)"
      unfolding unique_locations_def by (simp add: image_iff)
    moreover have "joins (q # x # qs) (q # js)" if j: "joins (x # qs) js" for js
    proof -
      have "\<forall>y \<in> set js. key (lq_name q) < key (lq_name y)"
      proof
        fix y assume "y \<in> set js"
        then have "lq_name y \<in> lq_name ` set (x # qs)" using j unfolding joins_def by blast
        then show "key (lq_name q) < key (lq_name y)" using lt by auto
      qed
      then show ?thesis using j 1(4,5) unfolding joins_def by simp
    qed
    ultimately show ?thesis using IH False same_name [OF nf] by (auto split: option.splits)
  qed
qed (auto simp: unique_locations_def joins_def)

section \<open>Nested lists\<close>

type_synonym loc_entry = "byte list \<times> ngx_http_core_loc_conf_t option \<times> ngx_http_core_loc_conf_t option"

abbreviation entry_name :: "loc_entry \<Rightarrow> byte list" where "entry_name \<equiv> fst"
abbreviation entry_exact :: "loc_entry \<Rightarrow> ngx_http_core_loc_conf_t option" where "entry_exact x \<equiv> fst (snd x)"
abbreviation entry_inclusive :: "loc_entry \<Rightarrow> ngx_http_core_loc_conf_t option" where "entry_inclusive x \<equiv> snd (snd x)"

definition entry :: "ngx_http_location_queue_t \<Rightarrow> loc_entry" where
  "entry q = (lq_name q, exact q, inclusive q)"

lemma entry_sel [simp]: "entry_name (entry q) = lq_name q" "entry_exact (entry q) = exact q"
  "entry_inclusive (entry q) = inclusive q"
  by (simp_all add: entry_def)

text \<open>The entries of a nested list in order.\<close>

fun flat :: "ngx_http_location_queue_t list \<Rightarrow> loc_entry list" where
  "flat [] = []"
| "flat (Location_Queue e i n l # qs) = (n, e, i) # flat l @ flat qs"

lemma flat_Cons: "flat (q # qs) = entry q # flat (lq_list q) @ flat qs"
  by (cases q) (simp add: entry_def)

lemma flat_append [simp]: "flat (xs @ ys) = flat xs @ flat ys"
  by (induction xs) (auto simp: flat_Cons)

lemma flat_flat: "lq_list ` set qs \<subseteq> {[]} \<Longrightarrow> flat qs = map entry qs"
  by (induction qs) (auto simp: flat_Cons)

lemma flat_if: "(x \<noteq> [] \<Longrightarrow> flat (f x) = flat x) \<Longrightarrow> flat (if x = [] then [] else f x) = flat x"
  by simp

lemma flat_create_list [simp]: "flat (ngx_http_create_locations_list qs) = flat qs"
proof (induction qs rule: ngx_http_create_locations_list.induct)
  case (3 q y qs)
  let ?p = "takeWhile (starts_with q) (y # qs)" and ?x = "dropWhile (starts_with q) (y # qs)"
  have px: "flat ?p @ flat ?x = flat (y # qs)" by (simp only: flip: flat_append) (simp only: takeWhile_dropWhile_id)
  show ?case
  proof (cases "inclusive q = None")
    case True
    then show ?thesis using 3(1) by (simp add: flat_Cons)
  next
    case F: False
    show ?thesis
    proof (cases "?p = []")
      case True
      then have "flat (ngx_http_create_locations_list ?x) = flat (y # qs)" using 3(2) [OF F refl refl] px by simp
      moreover have "ngx_http_create_locations_list (q # y # qs) = q # ngx_http_create_locations_list ?x"
        using F True by (simp only: ngx_http_create_locations_list.simps Let_def simp_thms if_False if_True)
      ultimately show ?thesis by (simp add: flat_Cons)
    next
      case False
      have "flat (if ?x = [] then [] else ngx_http_create_locations_list ?x) = flat ?x"
        by (rule flat_if) (rule 3(4) [OF F refl refl False])
      moreover have "ngx_http_create_locations_list (q # y # qs) =
          Location_Queue (exact q) (inclusive q) (lq_name q) (ngx_http_create_locations_list (lq_list q @ ?p)) #
            (if ?x = [] then [] else ngx_http_create_locations_list ?x)"
        using F False by (simp only: ngx_http_create_locations_list.simps Let_def if_False)
      ultimately show ?thesis using 3(3) [OF F refl refl False] px by (simp add: flat_Cons) (simp add: entry_def)
    qed
  qed
qed auto

text \<open>
  What \<open>ngx_http_create_locations_list\<close> establishes: the list of a location holds the locations
  that its name is a prefix of, and no location beside an inclusive one extends its name.
\<close>

fun nested :: "ngx_http_location_queue_t list \<Rightarrow> bool" where
  "nested [] \<longleftrightarrow> True"
| "nested (Location_Queue e i n l # qs) \<longleftrightarrow> nested l \<and> nested qs \<and> (i = None \<longrightarrow> l = []) \<and>
     (\<forall>x \<in> set (flat l). strict_prefix n (entry_name x)) \<and>
     (i \<noteq> None \<longrightarrow> (\<forall>x \<in> set (flat qs). \<not> prefix n (entry_name x)))"

lemma nested_Cons: "nested (q # qs) \<longleftrightarrow> nested (lq_list q) \<and> nested qs \<and> (inclusive q = None \<longrightarrow> lq_list q = []) \<and>
    (\<forall>x \<in> set (flat (lq_list q)). strict_prefix (lq_name q) (entry_name x)) \<and>
    (inclusive q \<noteq> None \<longrightarrow> (\<forall>x \<in> set (flat qs). \<not> prefix (lq_name q) (entry_name x)))"
  by (cases q) simp

lemma starts_with_prefix:
  assumes "nul_free (lq_name q)" "nul_free (lq_name x)"
  shows "starts_with q x \<longleftrightarrow> prefix (lq_name q) (lq_name x)"
proof (cases "length (lq_name q) \<le> length (lq_name x)")
  case True
  then have "starts_with q x \<longleftrightarrow> lq_name q = take (length (lq_name q)) (lq_name x)"
    using filename_cmp_eq [OF assms, of "length (lq_name q)"] by (auto simp: starts_with_def)
  then show ?thesis by (metis append_eq_conv_conj prefix_def take_is_prefix)
next
  case False
  then show ?thesis using prefix_length_le by (auto simp: starts_with_def)
qed

abbreviation names_sorted :: "ngx_http_location_queue_t list \<Rightarrow> bool" where
  "names_sorted \<equiv> sorted_wrt (\<lambda>x y. key (lq_name x) < key (lq_name y))"

lemma create_list_nested:
  assumes "names_sorted qs" "\<forall>x \<in> set qs. nul_free (lq_name x) \<and> lq_list x = []"
  shows "nested (ngx_http_create_locations_list qs)"
  using assms
proof (induction qs rule: ngx_http_create_locations_list.induct)
  case (3 q y qs)
  let ?p = "takeWhile (starts_with q) (y # qs)" and ?x = "dropWhile (starts_with q) (y # qs)"
  have px: "?p @ ?x = y # qs" by (rule takeWhile_dropWhile_id)
  then have sub: "set ?p \<subseteq> set (y # qs)" "set ?x \<subseteq> set (y # qs)" by (metis Un_upper1 Un_upper2 set_append)+
  have s: "names_sorted (?p @ ?x)" unfolding px using 3(5) by simp
  then have sp: "names_sorted ?p" "names_sorted ?x" by (simp_all only: sorted_wrt_append)
  have lt: "key (lq_name q) < key (lq_name b)" if "b \<in> set (y # qs)" for b using 3(5) that by auto
  have ok: "nul_free (lq_name b)" "lq_list b = []" if "b \<in> set (q # y # qs)" for b using 3(6) that by auto
  have sw: "starts_with q b \<longleftrightarrow> prefix (lq_name q) (lq_name b)" if "b \<in> set (y # qs)" for b
    using starts_with_prefix ok that by simp
  have strict: "strict_prefix (lq_name q) (lq_name b)" if "b \<in> set ?p" for b
  proof -
    have "b \<in> set (y # qs)" "starts_with q b" using that sub set_takeWhileD by fast+
    then show ?thesis using sw [of b] lt [of b] by (auto simp: strict_prefix_def)
  qed
  have no: "\<not> prefix (lq_name q) (lq_name b)" if b: "b \<in> set ?x" for b
  proof
    assume p: "prefix (lq_name q) (lq_name b)"
    obtain x0 xs where x0: "?x = x0 # xs" using b by (cases ?x) auto
    then have "\<not> starts_with q x0" by (metis hd_dropWhile list.sel(1) list.distinct(1))
    moreover have x0m: "x0 \<in> set (y # qs)" using sub x0 by auto
    moreover have "key (lq_name x0) \<le> key (lq_name b)" using sp(2) b unfolding x0 by (auto simp: le_less)
    ultimately show False using key_between [OF p, of "lq_name x0"] lt [OF x0m] sw [OF x0m] by auto
  qed
  have "lq_list b = []" if "b \<in> set (y # qs)" for b using ok(2) that by simp
  then have "lq_list ` set ?p \<subseteq> {[]}" "lq_list ` set ?x \<subseteq> {[]}" using sub by blast+
  then have fp: "flat ?p = map entry ?p" "flat ?x = map entry ?x" by (blast intro: flat_flat)+
  have okp: "\<forall>b \<in> set ?p. nul_free (lq_name b) \<and> lq_list b = []" "\<forall>b \<in> set ?x. nul_free (lq_name b) \<and> lq_list b = []"
    using sub ok by (meson list.set_intros(2) subsetD)+
  have lq: "lq_list q = []" using ok by simp
  show ?case
  proof (cases "inclusive q = None")
    case True
    then show ?thesis using 3(1) 3(5,6) lq by (simp add: nested_Cons)
  next
    case F: False
    show ?thesis
    proof (cases "?p = []")
      case True
      have "nested (ngx_http_create_locations_list ?x)" by (rule 3(2) [OF F refl refl True sp(2) okp(2)])
      moreover have "ngx_http_create_locations_list (q # y # qs) = q # ngx_http_create_locations_list ?x"
        using F True by (simp only: ngx_http_create_locations_list.simps Let_def simp_thms if_False if_True)
      ultimately show ?thesis using lq no fp(2) by (simp add: nested_Cons)
    next
      case False
      let ?X = "if ?x = [] then [] else ngx_http_create_locations_list ?x"
      have "nested (ngx_http_create_locations_list ?x)" if "?x \<noteq> []"
        by (rule 3(4) [OF F refl refl False that sp(2) okp(2)])
      then have "nested ?X" by simp
      moreover have "nested (ngx_http_create_locations_list ?p)"
        using 3(3) [OF F refl refl False] sp(1) okp(1) lq by simp
      moreover have "flat ?X = map entry ?x" unfolding fp(2) [symmetric] by (rule flat_if) simp
      then have "\<forall>e \<in> set (flat ?X). \<not> prefix (lq_name q) (entry_name e)" using no by auto
      moreover have "\<forall>e \<in> set (flat (ngx_http_create_locations_list ?p)). strict_prefix (lq_name q) (entry_name e)"
        using strict fp(1) by auto
      moreover have "ngx_http_create_locations_list (q # y # qs) =
          Location_Queue (exact q) (inclusive q) (lq_name q) (ngx_http_create_locations_list ?p) # ?X"
        using F False lq by (simp only: ngx_http_create_locations_list.simps Let_def if_False append_Nil)
      ultimately show ?thesis using F by (simp only: nested.simps simp_thms)
    qed
  qed
qed (auto simp: nested_Cons)

section \<open>Looking up a location\<close>

definition entry_auto :: "loc_entry \<Rightarrow> bool" where
  "entry_auto x \<longleftrightarrow> (\<exists>c. entry_exact x = Some c \<and> auto_redirect c) \<or> (\<exists>c. entry_inclusive x = Some c \<and> auto_redirect c)"

definition entry_conf :: "loc_entry \<Rightarrow> ngx_http_core_loc_conf_t" where
  "entry_conf x = (case entry_exact x of Some c \<Rightarrow> c | None \<Rightarrow> the (entry_inclusive x))"

definition slash :: "byte list \<Rightarrow> byte list" where "slash u = u @ [B CHR ''/'']"

lemma slash_prefix: "prefix u (slash u)"
  by (simp add: slash_def)

lemma slash_neq [simp]: "slash u \<noteq> u" "u \<noteq> slash u"
  by (simp_all add: slash_def)

definition inclusive_prefix :: "byte list \<Rightarrow> loc_entry \<Rightarrow> bool" where
  "inclusive_prefix u x \<longleftrightarrow> entry_inclusive x \<noteq> None \<and> strict_prefix (entry_name x) u"

text \<open>What the look-up finds among sorted entries.\<close>

definition best :: "loc_entry list \<Rightarrow> byte list \<Rightarrow> ngx_int \<times> ngx_http_core_loc_conf_t \<Rightarrow> ngx_int \<times> ngx_http_core_loc_conf_t" where
  "best es u acc =
     (case find (\<lambda>x. entry_name x = u) es of
        Some x \<Rightarrow> (case entry_exact x of Some c \<Rightarrow> (NGX_OK, c) | None \<Rightarrow> (NGX_AGAIN, the (entry_inclusive x)))
      | None \<Rightarrow>
          (case find (\<lambda>x. entry_name x = slash u \<and> entry_auto x) es of
             Some x \<Rightarrow> (NGX_DONE, entry_conf x)
           | None \<Rightarrow>
               (let ps = filter (inclusive_prefix u) es in
                if ps = [] then acc else (NGX_AGAIN, the (entry_inclusive (last ps))))))"

definition relevant :: "byte list \<Rightarrow> loc_entry \<Rightarrow> bool" where
  "relevant u x \<longleftrightarrow> entry_name x = u \<or> entry_name x = slash u \<or> inclusive_prefix u x"

lemma find_filter: "(\<And>x. P x \<Longrightarrow> Q x) \<Longrightarrow> find P (filter Q xs) = find P xs"
  by (induction xs) auto

lemma best_relevant: "best (filter (relevant u) es) u acc = best es u acc"
proof -
  have "filter (inclusive_prefix u) (filter (relevant u) es) = filter (inclusive_prefix u) es"
    by (simp add: relevant_def) (rule filter_cong; auto)
  moreover have "find (\<lambda>x. entry_name x = u) (filter (relevant u) es) = find (\<lambda>x. entry_name x = u) es"
    "find (\<lambda>x. entry_name x = slash u \<and> entry_auto x) (filter (relevant u) es) =
      find (\<lambda>x. entry_name x = slash u \<and> entry_auto x) es"
    by (rule find_filter; simp add: relevant_def)+
  ultimately show ?thesis by (simp only: best_def)
qed

lemma best_cong: "filter (relevant u) es = filter (relevant u) es' \<Longrightarrow> best es u acc = best es' u acc"
  by (metis best_relevant)

lemma not_relevant_filter: "(\<And>x. x \<in> set es \<Longrightarrow> \<not> relevant u x) \<Longrightarrow> filter (relevant u) es = []"
  by (simp add: filter_empty_conv)

lemma lex_less_append: "a < b \<Longrightarrow> \<not> prefix a b \<Longrightarrow> a @ w < (b :: 'a::linorder list)"
proof (induction a arbitrary: b)
  case (Cons x a)
  then show ?case by (cases b) auto
qed simp

lemma before_irrelevant:
  assumes "key (entry_name x) < key n" "key n \<le> key u" "entry_inclusive x \<noteq> None \<Longrightarrow> \<not> prefix (entry_name x) n"
  shows "\<not> relevant u x"
proof -
  have "key u \<le> key (slash u)" by (rule key_prefix_le [OF slash_prefix])
  then have "entry_name x \<noteq> u" "entry_name x \<noteq> slash u" using assms(1,2) by auto
  moreover have "\<not> inclusive_prefix u x"
    using assms key_between [of "entry_name x" u n] unfolding inclusive_prefix_def strict_prefix_def by (meson less_imp_le)
  ultimately show ?thesis by (simp add: relevant_def)
qed

lemma after_irrelevant_less:
  assumes "key n \<le> key (entry_name x)" "key u < key n" "\<not> prefix u n"
  shows "\<not> relevant u x"
proof -
  have "key (slash u) < key n" using lex_less_append [of "key u" "key n" "[name_key (B CHR ''/'')]"] assms(2,3) by (simp add: slash_def)
  then show ?thesis using assms key_prefix_le [of "entry_name x" u]
    by (auto simp: relevant_def inclusive_prefix_def strict_prefix_def)
qed

lemma after_irrelevant_prefix:
  assumes "key n < key (entry_name x)" "strict_prefix u n" "nul_free n"
  shows "\<not> relevant u x"
proof -
  have "key (slash u) \<le> key n" using key_slash_least [OF assms(2)] assms(3) by (simp add: nul_free_def slash_def)
  moreover have "key u \<le> key n" using key_prefix_le assms(2) by (simp add: strict_prefix_def)
  ultimately show ?thesis using assms(1) key_prefix_le [of "entry_name x" u]
    by (auto simp: relevant_def inclusive_prefix_def strict_prefix_def)
qed

lemma after_irrelevant_inclusive:
  assumes "key n < key (entry_name x)" "\<not> prefix n (entry_name x)" "prefix n u"
  shows "\<not> relevant u x"
proof -
  have "\<not> prefix (entry_name x) n" using assms(1) key_prefix_le by (metis leD)
  then have "\<not> prefix (entry_name x) u" using assms(2,3) by (metis prefix_same_cases)
  then show ?thesis using assms(2,3) slash_prefix [of u]
    by (auto simp: relevant_def inclusive_prefix_def strict_prefix_def dest: prefix_order.trans)
qed

lemma below_irrelevant:
  assumes "prefix n (entry_name x)" "\<not> prefix n u" "\<not> prefix u n"
  shows "\<not> relevant u x"
  using assms by (auto simp: relevant_def inclusive_prefix_def strict_prefix_def slash_def dest: prefix_order.trans)

text \<open>Names in a nested list: later entries do not extend an earlier inclusive one beside them.\<close>

lemma nested_append:
  "nested (as @ bs) \<Longrightarrow> nested as \<and> nested bs \<and>
    (\<forall>x \<in> set (flat as). \<forall>y \<in> set (flat bs). entry_inclusive x \<noteq> None \<longrightarrow> \<not> prefix (entry_name x) (entry_name y))"
proof (induction as)
  case (Cons a as)
  have a: "nested (lq_list a)" "inclusive a = None \<longrightarrow> lq_list a = []"
    "\<forall>x \<in> set (flat (lq_list a)). strict_prefix (lq_name a) (entry_name x)"
    "inclusive a \<noteq> None \<longrightarrow> (\<forall>x \<in> set (flat as @ flat bs). \<not> prefix (lq_name a) (entry_name x))"
    using Cons.prems by (simp_all add: nested_Cons)
  have IH: "nested as \<and> nested bs \<and> (\<forall>x \<in> set (flat as). \<forall>y \<in> set (flat bs).
      entry_inclusive x \<noteq> None \<longrightarrow> \<not> prefix (entry_name x) (entry_name y))"
    using Cons by (simp add: nested_Cons)
  have "\<not> prefix (entry_name x) (entry_name y)"
    if "x \<in> set (flat (lq_list a))" "y \<in> set (flat bs)" for x y
  proof -
    have "inclusive a \<noteq> None" using a(2) that(1) by auto
    then have "\<not> prefix (lq_name a) (entry_name y)" using a(4) that(2) by auto
    moreover have "prefix (lq_name a) (entry_name x)" using a(3) that(1) by (auto simp: strict_prefix_def)
    ultimately show ?thesis by (meson prefix_order.trans)
  qed
  then show ?case using a IH by (auto simp: nested_Cons flat_Cons)
qed simp

definition entry_ok :: "loc_entry \<Rightarrow> bool" where
  "entry_ok x \<longleftrightarrow> nul_free (entry_name x) \<and> length (entry_name x) < 65536 \<and>
     (entry_exact x \<noteq> None \<or> entry_inclusive x \<noteq> None) \<and>
     (entry_auto x \<longrightarrow> (\<exists>u. entry_name x = slash u))"

abbreviation entries_sorted :: "loc_entry list \<Rightarrow> bool" where
  "entries_sorted \<equiv> sorted_wrt (\<lambda>x y. key (entry_name x) < key (entry_name y))"

lemma create_tree_split:
  assumes "locs \<noteq> []"
  obtains as q bs where "locs = as @ q # bs" "as = take (length locs div 2) locs"
    "ngx_http_create_locations_tree locs p =
      Tree_Node (ngx_http_create_locations_tree as p) (ngx_http_create_locations_tree bs p)
        (ngx_http_create_locations_tree (lq_list q) (p + (length (lq_name q) - p)))
        (exact q) (inclusive q) ((length (lq_name q) - p) mod 65536) (lq_auto_redirect q) (drop p (lq_name q))"
proof
  let ?i = "length locs div 2"
  have i: "?i < length locs" using assms by (cases locs) auto
  then show "locs = take ?i locs @ locs ! ?i # drop (Suc ?i) locs" by (simp add: id_take_nth_drop)
  have nil: "ngx_http_create_locations_tree [] p = NULL" for p by (subst ngx_http_create_locations_tree.simps) simp
  have "drop (Suc ?i) locs = []" if "take ?i locs = []" using that i by (auto simp: div_eq_0_iff)
  then show "ngx_http_create_locations_tree locs p =
      Tree_Node (ngx_http_create_locations_tree (take ?i locs) p) (ngx_http_create_locations_tree (drop (Suc ?i) locs) p)
        (ngx_http_create_locations_tree (lq_list (locs ! ?i)) (p + (length (lq_name (locs ! ?i)) - p)))
        (exact (locs ! ?i)) (inclusive (locs ! ?i)) ((length (lq_name (locs ! ?i)) - p) mod 65536)
        (lq_auto_redirect (locs ! ?i)) (drop p (lq_name (locs ! ?i)))"
    using assms by (subst ngx_http_create_locations_tree.simps) (simp add: nil Let_def del: drop_eq_Nil take_eq_Nil)
qed simp

text \<open>The steps of the look-up at a node, on the entries before it, of its list, and behind it.\<close>

lemma best_go_left:
  assumes "entries_sorted (L @ x # M @ R)" "key u < key (entry_name x)" "\<not> prefix u (entry_name x)"
  shows "best (L @ x # M @ R) u acc = best L u acc"
proof (rule best_cong)
  have "\<not> relevant u y" if "y \<in> set (x # M @ R)" for y
    using after_irrelevant_less [of "entry_name x" y u] assms that by (auto simp: sorted_wrt_append le_less)
  then have "filter (relevant u) (x # M @ R) = []" by (rule not_relevant_filter)
  then show "filter (relevant u) (L @ x # M @ R) = filter (relevant u) L" by simp
qed

lemma best_go_right:
  assumes "entries_sorted (L @ x # M @ R)" "key (entry_name x) < key u" "\<not> prefix u (entry_name x)" "\<not> prefix (entry_name x) u"
    and "\<And>y. y \<in> set L \<Longrightarrow> entry_inclusive y \<noteq> None \<Longrightarrow> \<not> prefix (entry_name y) (entry_name x)"
    and "\<And>y. y \<in> set M \<Longrightarrow> prefix (entry_name x) (entry_name y)"
  shows "best (L @ x # M @ R) u acc = best R u acc"
proof (rule best_cong)
  have "\<not> relevant u y" if "y \<in> set L" for y
    using before_irrelevant [of y "entry_name x" u] assms(1,2,5) that by (auto simp: sorted_wrt_append)
  moreover have "\<not> relevant u y" if "y \<in> set (x # M)" for y
    using below_irrelevant [of "entry_name x" y u] assms(3,4,6) that by (metis set_ConsD prefix_order.refl)
  ultimately have "filter (relevant u) L = []" "filter (relevant u) (x # M) = []" by (auto intro: not_relevant_filter)
  then show "filter (relevant u) (L @ x # M @ R) = filter (relevant u) R"
    by (metis append.left_neutral append_Cons filter_append)
qed

lemma best_exact_only:
  assumes "entries_sorted (L @ x # R)" "strict_prefix (entry_name x) u" "entry_inclusive x = None"
    and "\<And>y. y \<in> set L \<Longrightarrow> entry_inclusive y \<noteq> None \<Longrightarrow> \<not> prefix (entry_name y) (entry_name x)"
  shows "best (L @ x # R) u acc = best R u acc"
proof (rule best_cong)
  have "key (entry_name x) \<le> key u" using key_prefix_le assms(2) by (auto simp: strict_prefix_def)
  then have "\<not> relevant u y" if "y \<in> set L" for y
    using before_irrelevant [of y "entry_name x" u] assms(1,4) that by (auto simp: sorted_wrt_append)
  then have "filter (relevant u) L = []" by (rule not_relevant_filter)
  moreover have "\<not> relevant u x"
    using assms(2,3) by (auto simp: relevant_def inclusive_prefix_def strict_prefix_def slash_def)
  ultimately show "filter (relevant u) (L @ x # R) = filter (relevant u) R" by simp
qed

lemma best_descend:
  assumes "entries_sorted (L @ x # M @ R)" "strict_prefix (entry_name x) u" "entry_inclusive x = Some c"
    and "\<And>y. y \<in> set L \<Longrightarrow> entry_inclusive y \<noteq> None \<Longrightarrow> \<not> prefix (entry_name y) (entry_name x)"
    and "\<And>y. y \<in> set R \<Longrightarrow> \<not> prefix (entry_name x) (entry_name y)"
  shows "best (L @ x # M @ R) u acc = best M u (NGX_AGAIN, c)"
proof -
  have "key (entry_name x) \<le> key u" using key_prefix_le assms(2) by (auto simp: strict_prefix_def)
  then have "\<not> relevant u y" if "y \<in> set L" for y
    using before_irrelevant [of y "entry_name x" u] assms(1,4) that by (auto simp: sorted_wrt_append)
  moreover have "\<not> relevant u y" if "y \<in> set R" for y
    using after_irrelevant_inclusive [of "entry_name x" y u] assms(1,2,5) that
    by (auto simp: sorted_wrt_append strict_prefix_def)
  ultimately have "filter (relevant u) L = []" "filter (relevant u) R = []" by (auto intro: not_relevant_filter)
  then have "best (L @ x # M @ R) u acc = best (x # M) u acc" by (intro best_cong) simp
  also have "\<dots> = best M u (NGX_AGAIN, c)"
  proof -
    have "entry_name x \<noteq> u" "entry_name x \<noteq> slash u" "inclusive_prefix u x"
      using assms(2,3) by (auto simp: strict_prefix_def inclusive_prefix_def slash_def)
    then show ?thesis using assms(3) by (auto simp: best_def Let_def split: option.splits)
  qed
  finally show ?thesis .
qed

lemma best_found:
  assumes "entries_sorted (L @ x # R)" "entry_name x = u"
  shows "best (L @ x # R) u acc =
    (case entry_exact x of Some c \<Rightarrow> (NGX_OK, c) | None \<Rightarrow> (NGX_AGAIN, the (entry_inclusive x)))"
proof -
  have "\<forall>y \<in> set L. entry_name y \<noteq> u" using assms by (auto simp: sorted_wrt_append)
  then have "find (\<lambda>y. entry_name y = u) (L @ x # R) = Some x" using assms(2) by (induction L) auto
  then show ?thesis by (simp add: best_def)
qed

lemma best_shorter:
  assumes "entries_sorted (L @ x # R)" "strict_prefix u (entry_name x)" "nul_free (entry_name x)"
    and "\<And>y. y \<in> set L \<Longrightarrow> entry_inclusive y \<noteq> None \<Longrightarrow> \<not> prefix (entry_name y) (entry_name x)"
  shows "best (L @ x # R) u acc =
    best L u (if entry_name x = slash u \<and> entry_auto x then (NGX_DONE, entry_conf x) else acc)"
proof -
  have "\<not> relevant u y" if "y \<in> set R" for y
    using after_irrelevant_prefix [of "entry_name x" y u] assms(1-3) that by (auto simp: sorted_wrt_append)
  then have "filter (relevant u) R = []" by (rule not_relevant_filter)
  then have 1: "best (L @ x # R) u acc = best (L @ [x]) u acc" by (intro best_cong) simp
  have x: "\<not> inclusive_prefix u x" "entry_name x \<noteq> u"
    using assms(2) by (auto simp: inclusive_prefix_def strict_prefix_def)
  have "\<not> inclusive_prefix u y" if "y \<in> set L" for y
    using assms(2,4) that unfolding inclusive_prefix_def strict_prefix_def by (meson prefix_order.trans)
  then have np: "filter (inclusive_prefix u) L = []" by (simp add: filter_empty_conv)
  have "find (\<lambda>y. entry_name y = slash u \<and> entry_auto y) L = None" if "entry_name x = slash u"
    using assms(1) that by (auto simp: find_None_iff sorted_wrt_append)
  then show ?thesis unfolding 1 using x np
    by (auto simp: best_def Let_def find_append split: option.splits)
qed

lemma drop_take_neq:
  assumes "take m a \<noteq> take m b" "m \<le> length a" "m \<le> length b"
  shows "\<not> prefix a b" "\<not> prefix b a"
  using assms by (auto simp: prefix_def)

text \<open>The look-up in the tree of a nested list.\<close>

lemma find_static_location_best:
  assumes "nested locs" "entries_sorted (flat locs)" "\<forall>x \<in> set (flat locs). entry_ok x \<and> prefix P (entry_name x)"
    "nul_free (P @ u)"
  shows "find_static_location u (ngx_http_create_locations_tree locs (length P)) acc = Some (best (flat locs) (P @ u) acc)"
  using assms
proof (induction "size_list size locs" arbitrary: locs P u acc rule: less_induct)
  case less
  obtain rv conf where acc: "acc = (rv, conf)" by (cases acc)
  show ?case
  proof (cases "locs = []")
    case True
    then show ?thesis by (subst ngx_http_create_locations_tree.simps) (simp add: best_def acc)
  next
    case ne: False
    obtain as q bs where l: "locs = as @ q # bs" and t: "ngx_http_create_locations_tree locs (length P) =
      Tree_Node (ngx_http_create_locations_tree as (length P)) (ngx_http_create_locations_tree bs (length P))
        (ngx_http_create_locations_tree (lq_list q) (length P + (length (lq_name q) - length P)))
        (exact q) (inclusive q) ((length (lq_name q) - length P) mod 65536) (lq_auto_redirect q)
        (drop (length P) (lq_name q))"
      by (rule create_tree_split [OF ne])
    have fl: "flat locs = flat as @ entry q # flat (lq_list q) @ flat bs" by (simp add: l flat_Cons)
    note so = less.prems(2) [unfolded fl]
    have okq: "entry_ok (entry q)" "prefix P (lq_name q)" using less.prems(3) fl by auto
    then obtain n where n: "lq_name q = P @ n" by (auto simp: prefix_def)
    have len: "length n < 65536" "nul_free (P @ n)" using okq n by (auto simp: entry_ok_def)
    have t': "ngx_http_create_locations_tree locs (length P) =
      Tree_Node (ngx_http_create_locations_tree as (length P)) (ngx_http_create_locations_tree bs (length P))
        (ngx_http_create_locations_tree (lq_list q) (length (P @ n)))
        (exact q) (inclusive q) (length n) (lq_auto_redirect q) n"
      using t len by (simp add: n)
    have ns: "nested as" "nested (q # bs)" "\<And>x y. x \<in> set (flat as) \<Longrightarrow> y \<in> set (flat (q # bs)) \<Longrightarrow>
        entry_inclusive x \<noteq> None \<Longrightarrow> \<not> prefix (entry_name x) (entry_name y)"
      using nested_append [of as "q # bs"] less.prems(1) l by blast+
    have nq: "nested (lq_list q)" "nested bs" "inclusive q = None \<Longrightarrow> lq_list q = []"
      "\<And>x. x \<in> set (flat (lq_list q)) \<Longrightarrow> strict_prefix (lq_name q) (entry_name x)"
      "\<And>x. inclusive q \<noteq> None \<Longrightarrow> x \<in> set (flat bs) \<Longrightarrow> \<not> prefix (lq_name q) (entry_name x)"
      using ns(2) by (auto simp: nested_Cons)
    have before: "\<not> prefix (entry_name x) (entry_name (entry q))" if "x \<in> set (flat as)" "entry_inclusive x \<noteq> None" for x
      using ns(3) [OF that(1) _ that(2), of "entry q"] by (simp add: flat_Cons)
    have size: "size_list size as < size_list size locs" "size_list size bs < size_list size locs"
      "size_list size (lq_list q) < size_list size locs"
      using size_lq [of q] by (simp_all add: l size_list_append)
    have so': "entries_sorted (flat as)" "entries_sorted (flat bs)" "entries_sorted (flat (lq_list q))"
      using so by (simp_all add: sorted_wrt_append)
    have ok': "\<forall>x \<in> set (flat as). entry_ok x \<and> prefix P (entry_name x)" "\<forall>x \<in> set (flat bs). entry_ok x \<and> prefix P (entry_name x)"
      "\<forall>x \<in> set (flat (lq_list q)). entry_ok x \<and> prefix (P @ n) (entry_name x)"
      using less.prems(3) nq(4) unfolding fl n strict_prefix_def by auto
    note IHl = less.hyps [OF size(1) ns(1) so'(1) ok'(1) less.prems(4)]
      and IHr = less.hyps [OF size(2) nq(2) so'(2) ok'(2) less.prems(4)]
      and IHs = less.hyps [OF size(3) nq(1) so'(3) ok'(3)]
    define m where "m = (if length u \<le> length n then length u else length n)"
    have m: "m \<le> length u" "m \<le> length n" by (auto simp: m_def)
    have nf: "0 \<notin> set (take m u)" "0 \<notin> set (take m n)"
      using less.prems(4) len(2) by (auto simp: nul_free_def dest: in_set_takeD)
    obtain rc where rc: "ngx_filename_cmp u n m = Some rc" "rc = 0 \<longleftrightarrow> take m u = take m n"
      "rc < 0 \<longleftrightarrow> key (take m u) < key (take m n)"
      using filename_cmp_cases [OF m nf] by blast
    have qn: "entry_name (entry q) = P @ n" by (simp add: n)
    consider (lt) "rc < 0" | (gt) "rc > 0" | (longer) "rc = 0" "length u > length n" | (same) "rc = 0" "length u = length n"
      | (shorter) "rc = 0" "length u < length n" by linarith
    then show ?thesis
    proof cases
      case lt
      then have d: "take m u \<noteq> take m n" using rc(2) by auto
      have "key u < key n" using key_take [OF d] rc(3) lt by simp
      moreover have "\<not> prefix u n" by (rule drop_take_neq [OF d m])
      ultimately have "best (flat locs) (P @ u) acc = best (flat as) (P @ u) acc"
        unfolding fl using best_go_left [OF so, of "P @ u"] by (simp add: n)
      then show ?thesis using lt rc(1) IHl unfolding t' acc by (simp add: m_def)
    next
      case gt
      then have d: "take m u \<noteq> take m n" using rc(2) by auto
      have "\<not> key u < key n" using key_take [OF d] rc(3) gt by simp
      then have "key n < key u" using d by (metis key_inj linorder_less_linear)
      moreover have "\<not> prefix u n" "\<not> prefix n u" using drop_take_neq [OF d m] by auto
      ultimately have "best (flat locs) (P @ u) acc = best (flat bs) (P @ u) acc"
        unfolding fl using best_go_right [OF so, of "P @ u"] before nq(4) by (simp add: n strict_prefix_def)
      then show ?thesis using gt rc(1) IHr unfolding t' acc by (simp add: m_def)
    next
      case longer
      then have "m = length n" by (simp add: m_def)
      then have u: "u = n @ drop (length n) u" using rc(2) longer by (metis append_take_drop_id order_refl take_all)
      then have sp: "strict_prefix (entry_name (entry q)) (P @ u)" using longer(2)
        unfolding qn strict_prefix_def by (metis less_irrefl prefixI same_append_eq same_prefix_prefix)
      show ?thesis
      proof (cases "inclusive q")
        case None
        then have "flat locs = flat as @ entry q # flat bs" using fl nq(3) by simp
        then have "best (flat locs) (P @ u) acc = best (flat bs) (P @ u) acc"
          using best_exact_only [OF _ sp, of "flat as" "flat bs"] less.prems(2) None before by simp
        then show ?thesis using longer rc(1) IHr None unfolding t' acc by (simp add: m_def)
      next
        case (Some c)
        have "best (flat locs) (P @ u) acc = best (flat (lq_list q)) (P @ u) (NGX_AGAIN, c)"
          unfolding fl using best_descend [OF so sp, of c] Some before nq(5) by (simp add: n)
        moreover have "nul_free ((P @ n) @ drop (length n) u)" using less.prems(4) u by simp
        ultimately show ?thesis using longer rc(1) IHs [of "drop (length n) u" "(NGX_AGAIN, c)"] Some u unfolding t' acc
          by (simp add: m_def)
      qed
    next
      case same
      then have u: "u = n" using rc(2) by (simp add: m_def)
      have "best (flat locs) (P @ u) acc =
          (case exact q of Some c \<Rightarrow> (NGX_OK, c) | None \<Rightarrow> (NGX_AGAIN, the (inclusive q)))"
        unfolding fl using best_found [OF so, of "P @ u" acc] by (simp add: u n cong: option.case_cong)
      moreover have "exact q \<noteq> None \<or> inclusive q \<noteq> None" using okq(1) by (simp add: entry_ok_def)
      ultimately show ?thesis using same rc(1) unfolding t' acc by (auto simp: m_def split: option.splits)
    next
      case shorter
      then have "n = u @ drop (length u) n" using rc(2) by (metis append_take_drop_id less_imp_le_nat m_def take_all order_refl)
      then have sp: "strict_prefix (P @ u) (entry_name (entry q))" using shorter(2) unfolding qn strict_prefix_def
        by (metis append_eq_append_conv less_irrefl prefixI same_prefix_prefix)
      obtain d where d: "n = u @ d" "d \<noteq> []" using \<open>n = _\<close> shorter(2) by (metis append_Nil2 less_irrefl)
      have auto: "lq_auto_redirect q \<longleftrightarrow> entry_auto (entry q)" by (simp add: lq_auto_redirect_def entry_auto_def)
      have "entry_name (entry q) = slash (P @ u) \<longleftrightarrow> length u + 1 = length n" if a: "entry_auto (entry q)"
      proof -
        obtain w where "P @ u @ d = slash w" using okq(1) a n d by (auto simp: entry_ok_def)
        then have "last d = B CHR ''/''" using d(2) by (metis last_appendR last_snoc slash_def append_is_Nil_conv)
        then show ?thesis using d by (cases d rule: rev_cases) (auto simp: n slash_def)
      qed
      then have c: "entry_name (entry q) = slash (P @ u) \<and> entry_auto (entry q) \<longleftrightarrow> length u + 1 = length n \<and> lq_auto_redirect q"
        using auto by blast
      have nq': "nul_free (entry_name (entry q))" using okq(1) by (simp add: entry_ok_def)
      have b: "best (flat locs) (P @ u) acc =
          best (flat as) (P @ u) (if length u + 1 = length n \<and> lq_auto_redirect q then (NGX_DONE, entry_conf (entry q)) else acc)"
        unfolding fl c [symmetric] by (rule best_shorter [OF so sp nq' before])
      have "entry_conf (entry q) = c" if "(case exact q of Some c \<Rightarrow> Some c | None \<Rightarrow> inclusive q) = Some c" for c
        using that by (auto simp: entry_conf_def split: option.splits)
      moreover have "(case exact q of Some c \<Rightarrow> Some c | None \<Rightarrow> inclusive q) \<noteq> None"
        using okq(1) by (auto simp: entry_ok_def split: option.splits)
      ultimately show ?thesis using shorter rc(1) IHl b unfolding t' acc by (auto simp: m_def)
    qed
  qed
qed

end
