(* ===== verification/Ngx_Http_Location_Props.thy ===== *)
theory Ngx_Http_Location_Props
  imports Ngx_Http_Location_Tree
begin

text \<open>
  The look-up of a location, from the configuration to the answer: the rule for prefix locations
  (\<open>static_match\<close>), the tree as an implementation of it, and the whole rule with regular expressions
  and nested locations (\<open>location_rule\<close>).
\<close>

section \<open>The rule for prefix locations\<close>

definition is_static :: "ngx_http_core_loc_conf_t \<Rightarrow> bool" where
  "is_static c \<longleftrightarrow> \<not> noname c \<and> \<not> named c \<and> regex c = None"

definition exact_at :: "ngx_http_core_loc_conf_t list \<Rightarrow> byte list \<Rightarrow> ngx_http_core_loc_conf_t option" where
  "exact_at cs n = find (\<lambda>c. exact_match c \<and> lc_name c = n) cs"

definition inclusive_at :: "ngx_http_core_loc_conf_t list \<Rightarrow> byte list \<Rightarrow> ngx_http_core_loc_conf_t option" where
  "inclusive_at cs n = find (\<lambda>c. \<not> exact_match c \<and> lc_name c = n) cs"

definition redirect_at :: "ngx_http_core_loc_conf_t list \<Rightarrow> byte list \<Rightarrow> ngx_http_core_loc_conf_t option" where
  "redirect_at cs n =
     (if (case exact_at cs n of Some c \<Rightarrow> auto_redirect c | None \<Rightarrow> False) \<or>
         (case inclusive_at cs n of Some c \<Rightarrow> auto_redirect c | None \<Rightarrow> False)
      then (case exact_at cs n of Some c \<Rightarrow> Some c | None \<Rightarrow> inclusive_at cs n) else None)"

fun longest_prefix :: "ngx_http_core_loc_conf_t list \<Rightarrow> byte list \<Rightarrow> nat \<Rightarrow> ngx_http_core_loc_conf_t option" where
  "longest_prefix cs u 0 = None"
| "longest_prefix cs u (Suc k) =
     (case inclusive_at cs (take k u) of Some c \<Rightarrow> Some c | None \<Rightarrow> longest_prefix cs u k)"

definition static_match :: "ngx_http_core_loc_conf_t list \<Rightarrow> byte list \<Rightarrow>
  ngx_int \<times> ngx_http_core_loc_conf_t \<Rightarrow> ngx_int \<times> ngx_http_core_loc_conf_t" where
  "static_match cs u acc =
     (case exact_at cs u of Some c \<Rightarrow> (NGX_OK, c) | None \<Rightarrow>
      case inclusive_at cs u of Some c \<Rightarrow> (NGX_AGAIN, c) | None \<Rightarrow>
      case redirect_at cs (slash u) of Some c \<Rightarrow> (NGX_DONE, c) | None \<Rightarrow>
      case longest_prefix cs u (length u) of Some c \<Rightarrow> (NGX_AGAIN, c) | None \<Rightarrow> acc)"

lemma longest_prefix_None: "longest_prefix cs u k = None \<longleftrightarrow> (\<forall>j < k. inclusive_at cs (take j u) = None)"
  by (induction k) (auto simp: less_Suc_eq split: option.splits)

lemma longest_prefix_at:
  "j < k \<Longrightarrow> inclusive_at cs (take j u) = Some c \<Longrightarrow> (\<And>i. j < i \<Longrightarrow> i < k \<Longrightarrow> inclusive_at cs (take i u) = None) \<Longrightarrow>
    longest_prefix cs u k = Some c"
proof (induction k)
  case (Suc k)
  then show ?case by (cases "j = k") (auto split: option.splits)
qed simp

text \<open>The entries represent the configured locations.\<close>

definition represents :: "ngx_http_location_queue_t list \<Rightarrow> ngx_http_core_loc_conf_t list \<Rightarrow> bool" where
  "represents js cs \<longleftrightarrow> names_sorted js \<and>
     (\<forall>x \<in> set js. exact x = exact_at cs (lq_name x) \<and> inclusive x = inclusive_at cs (lq_name x) \<and>
       (exact x \<noteq> None \<or> inclusive x \<noteq> None)) \<and>
     (\<forall>n. n \<notin> lq_name ` set js \<longrightarrow> exact_at cs n = None \<and> inclusive_at cs n = None)"

lemma find_entry:
  assumes "represents js cs"
  shows "find (\<lambda>x. entry_name x = n) (map entry js) =
    (if n \<in> lq_name ` set js then Some (n, exact_at cs n, inclusive_at cs n) else None)"
proof (cases "find (\<lambda>x. entry_name x = n) (map entry js)")
  case None
  then show ?thesis by (auto simp: find_None_iff)
next
  case (Some e)
  then obtain x where "x \<in> set js" "e = entry x" "lq_name x = n" by (auto simp: find_Some_iff) (metis nth_mem)
  then show ?thesis using Some assms by (auto simp: represents_def entry_def)
qed

lemma find_redirect:
  assumes "represents js cs"
  shows "map_option entry_conf (find (\<lambda>x. entry_name x = n \<and> entry_auto x) (map entry js)) = redirect_at cs n"
proof (cases "find (\<lambda>x. entry_name x = n \<and> entry_auto x) (map entry js)")
  case None
  have "redirect_at cs n = None"
  proof (cases "n \<in> lq_name ` set js")
    case True
    then obtain x where x: "x \<in> set js" "lq_name x = n" by auto
    then have "\<not> entry_auto (entry x)" using None by (auto simp: find_None_iff)
    then show ?thesis using x assms by (auto simp: represents_def entry_auto_def redirect_at_def split: option.splits)
  next
    case False
    then show ?thesis using assms by (simp add: represents_def redirect_at_def)
  qed
  then show ?thesis using None by simp
next
  case (Some e)
  then obtain x where "x \<in> set js" "e = entry x" "lq_name x = n" "entry_auto e" by (auto simp: find_Some_iff) (metis nth_mem)
  then show ?thesis using Some assms
    by (auto simp: represents_def entry_auto_def entry_conf_def redirect_at_def split: option.splits)
qed

lemma last_prefix:
  fixes u :: "byte list" and js :: "ngx_http_location_queue_t list"
  assumes "represents js cs"
  defines "ps \<equiv> filter (inclusive_prefix u) (map entry js)"
  shows "longest_prefix cs u (length u) = (if ps = [] then None else entry_inclusive (last ps))"
proof (cases "ps = []")
  case True
  have "inclusive_at cs (take j u) = None" if "j < length u" for j
  proof (rule ccontr)
    assume i: "inclusive_at cs (take j u) \<noteq> None"
    then obtain x where x: "x \<in> set js" "lq_name x = take j u" using assms(1) unfolding represents_def by (metis imageE)
    then have "inclusive_prefix u (entry x)"
      using i assms(1) that by (auto simp: inclusive_prefix_def represents_def strict_prefix_def take_is_prefix)
    then show False using True x(1) by (auto simp: ps_def filter_empty_conv)
  qed
  then show ?thesis using True by (simp add: longest_prefix_None)
next
  case False
  obtain x where x: "x \<in> set js" "last ps = entry x" "inclusive_prefix u (entry x)"
    using last_in_set [OF False] by (auto simp: ps_def)
  have sp: "strict_prefix (lq_name x) u" and inc: "inclusive x \<noteq> None" using x(3) by (auto simp: inclusive_prefix_def)
  then have nx: "lq_name x = take (length (lq_name x)) u" "length (lq_name x) < length u"
    by (auto simp: strict_prefix_def prefix_def)
  have "entries_sorted (map entry js)" using assms(1) by (simp add: represents_def sorted_wrt_map)
  then have s: "entries_sorted ps" unfolding ps_def by (rule sorted_wrt_filter)
  have le: "key (entry_name y) \<le> key (lq_name x)" if "y \<in> set ps" for y
  proof -
    have "ps = butlast ps @ [entry x]" using False x(2) by (metis append_butlast_last_id)
    then show ?thesis using s that by (metis (no_types, lifting) entry_sel(1) in_set_conv_decomp order.order_iff_strict
      rotate1.simps(2) set_ConsD set_rotate1 sorted_wrt_append list.set_intros(1))
  qed
  have "inclusive_at cs (take i u) = None" if i: "length (lq_name x) < i" "i < length u" for i
  proof (rule ccontr)
    assume n: "inclusive_at cs (take i u) \<noteq> None"
    then obtain y where y: "y \<in> set js" "lq_name y = take i u" using assms(1) unfolding represents_def by (metis imageE)
    then have "inclusive_prefix u (entry y)"
      using n assms(1) i by (auto simp: inclusive_prefix_def represents_def strict_prefix_def take_is_prefix)
    then have "entry y \<in> set ps" using y(1) by (auto simp: ps_def)
    then have "key (take i u) \<le> key (lq_name x)" using le y(2) by fastforce
    moreover have "prefix (lq_name x) (take i u)" using nx i by (metis less_imp_le_nat prefix_def take_add le_Suc_ex)
    moreover have "lq_name x \<noteq> take i u" using i by (metis length_take less_irrefl min.absorb4)
    ultimately show False using key_prefix_le by (metis antisym_conv key_inj)
  qed
  then have "longest_prefix cs u (length u) = inclusive x"
    using longest_prefix_at [OF nx(2)] inc nx(1) x(1) assms(1) unfolding represents_def by (metis option.exhaust)
  then show ?thesis using False x(2) by simp
qed

lemma best_static_match:
  assumes "represents js cs"
  shows "best (map entry js) u acc = static_match cs u acc"
proof -
  let ?ps = "filter (inclusive_prefix u) (map entry js)"
  have i: "entry_inclusive (last ?ps) \<noteq> None" if "?ps \<noteq> []"
    using last_in_set [OF that] by (auto simp: inclusive_prefix_def)
  have none: "exact_at cs u = None \<and> inclusive_at cs u = None" if "u \<notin> lq_name ` set js"
    using assms that by (simp add: represents_def)
  have some: "exact_at cs u \<noteq> None \<or> inclusive_at cs u \<noteq> None" if "u \<in> lq_name ` set js"
    using assms that unfolding represents_def by (metis imageE)
  show ?thesis
    unfolding best_def static_match_def find_entry [OF assms] last_prefix [OF assms] find_redirect [OF assms, symmetric]
    using i none some by (auto simp: Let_def split: option.splits)
qed

section \<open>From the configuration to the tree\<close>

definition queued :: "ngx_http_core_loc_conf_t \<Rightarrow> ngx_http_location_queue_t" where
  "queued c = (if exact_match c \<or> \<not> is_static c then Location_Queue (Some c) None (lc_name c) []
               else Location_Queue None (Some c) (lc_name c) [])"

lemma location_queue_map: "location_queue cs = map queued cs"
proof -
  have "foldl ngx_http_add_location qs cs = qs @ map queued cs" for qs
    by (induction cs arbitrary: qs) (auto simp: ngx_http_add_location_def queued_def is_static_def)
  then show ?thesis by (simp add: location_queue_def)
qed

lemma queued_sel [simp]: "location_conf (queued c) = c" "lq_name (queued c) = lc_name c" "lq_list (queued c) = []"
  "exact (queued c) = (if exact_match c \<or> \<not> is_static c then Some c else None)"
  "inclusive (queued c) = (if exact_match c \<or> \<not> is_static c then None else Some c)"
  by (simp_all add: queued_def location_conf_def)

lemma rank_queued [simp]: "rank (queued c) = 0 \<longleftrightarrow> is_static c"
  by (auto simp: rank_def loc_key_def is_static_def Let_def)

definition unique_names :: "ngx_http_core_loc_conf_t list \<Rightarrow> bool" where
  "unique_names cs \<longleftrightarrow> distinct (map lc_name (filter exact_match cs)) \<and>
     distinct (map lc_name (filter (\<lambda>c. \<not> exact_match c) cs))"

definition static_ok :: "ngx_http_core_loc_conf_t \<Rightarrow> bool" where
  "static_ok c \<longleftrightarrow> nul_free (lc_name c) \<and> length (lc_name c) < 65536 \<and>
     (auto_redirect c \<longrightarrow> (\<exists>u. lc_name c = slash u))"

abbreviation statics :: "ngx_http_core_loc_conf_t list \<Rightarrow> ngx_http_core_loc_conf_t list" where
  "statics \<equiv> filter is_static"

lemma find_unique:
  assumes "distinct (map f (filter P cs))"
  shows "find (\<lambda>c. P c \<and> f c = n) cs = Some c \<longleftrightarrow> c \<in> set cs \<and> P c \<and> f c = n"
  using assms by (induction cs) (auto simp: image_iff split: if_splits)

lemma cstr_nul_free [simp]: "nul_free s \<Longrightarrow> cstr s = s"
  by (auto simp: nul_free_def takeWhile_eq_all_conv)

definition sorted_statics :: "ngx_http_core_loc_conf_t list \<Rightarrow> ngx_http_location_queue_t list" where
  "sorted_statics cs = filter (\<lambda>x. rank x = 0) (merge_sort ngx_http_cmp_locations (location_queue cs))"

lemma mset_sorted_statics: "mset (sorted_statics cs) = mset (map queued (statics cs))"
  by (simp add: sorted_statics_def location_queue_map flip: image_mset_filter_mset_swap)

lemma set_sorted_statics: "set (sorted_statics cs) = queued ` set (statics cs)"
  by (metis list.set_map mset_sorted_statics set_mset_mset)

lemma sorted_statics_before:
  assumes "\<forall>c \<in> set (statics cs). static_ok c"
  shows "sorted_wrt before (sorted_statics cs)"
proof -
  have "sorted_wrt (\<lambda>x y. loc_key x \<le> loc_key y) (sorted_statics cs)"
    unfolding sorted_statics_def using loc.sorted_merge_sort [of "location_queue cs"]
    unfolding cmp_locations_le by (rule sorted_wrt_filter)
  moreover have "before x y" if xy: "x \<in> set (sorted_statics cs)" "y \<in> set (sorted_statics cs)" "loc_key x \<le> loc_key y" for x y
  proof -
    obtain c d where "x = queued c" "y = queued d" "is_static c" "is_static d" "static_ok c" "static_ok d"
      using xy(1,2) assms unfolding set_sorted_statics by auto
    then show ?thesis using xy(3)
      by (auto simp: before_def loc_key_def Let_def is_static_def static_ok_def less_eq_prod_def le_less split: if_splits)
  qed
  ultimately show ?thesis by (rule sorted_wrt_mono_rel [rotated])
qed

lemma unique_sorted_statics: "unique_locations (sorted_statics cs) = unique_names (statics cs)"
proof -
  let ?E = "\<lambda>x. exact x \<noteq> None" and ?I = "\<lambda>x. inclusive x \<noteq> None"
  have m: "mset (map lq_name (filter Q (sorted_statics cs))) = mset (map lc_name (filter P (statics cs)))"
    if "\<And>c. is_static c \<Longrightarrow> Q (queued c) = P c" for P Q
  proof -
    have "mset (map lq_name (filter Q (sorted_statics cs))) = mset (map lc_name (filter (\<lambda>c. Q (queued c)) (statics cs)))"
      by (simp add: mset_sorted_statics multiset.map_comp o_def filter_filter_mset conj_commute flip: image_mset_filter_mset_swap)
    also have "filter (\<lambda>c. Q (queued c)) (statics cs) = filter P (statics cs)" using that by (auto intro: filter_cong)
    finally show ?thesis .
  qed
  have "mset (map lq_name (filter ?E (sorted_statics cs))) = mset (map lc_name (filter exact_match (statics cs)))"
    by (rule m) auto
  moreover have "mset (map lq_name (filter ?I (sorted_statics cs))) = mset (map lc_name (filter (\<lambda>c. \<not> exact_match c) (statics cs)))"
    by (rule m) auto
  ultimately show ?thesis unfolding unique_locations_def unique_names_def by (metis mset_eq_imp_distinct_iff)
qed

lemma joins_represents:
  assumes j: "joins (sorted_statics cs) js" and u: "unique_names (statics cs)"
  shows "represents js (statics cs)"
proof -
  have names: "x = y" if xy: "x \<in> set js" "y \<in> set js" "lq_name x = lq_name y" for x y
  proof -
    have "distinct (map lq_name js)"
      using j unfolding joins_def by (auto simp: distinct_conv_nth sorted_wrt_iff_nth_less nth_eq_iff_index_eq)
        (metis less_irrefl linorder_neqE_nat)
    then show ?thesis using xy by (simp add: distinct_map inj_on_def)
  qed
  have e: "exact_at (statics cs) n = Some c \<longleftrightarrow> (\<exists>x \<in> set js. lq_name x = n \<and> exact x = Some c)" for n c
  proof -
    have "exact_at (statics cs) n = Some c \<longleftrightarrow> c \<in> set (statics cs) \<and> exact_match c \<and> lc_name c = n"
      using u unfolding exact_at_def unique_names_def by (intro find_unique) simp
    also have "\<dots> \<longleftrightarrow> (\<exists>x \<in> set (sorted_statics cs). lq_name x = n \<and> exact x = Some c)"
      by (auto simp: set_sorted_statics split: if_splits)
    finally show ?thesis using j by (simp add: joins_def)
  qed
  have i: "inclusive_at (statics cs) n = Some c \<longleftrightarrow> (\<exists>x \<in> set js. lq_name x = n \<and> inclusive x = Some c)" for n c
  proof -
    have "inclusive_at (statics cs) n = Some c \<longleftrightarrow> c \<in> set (statics cs) \<and> \<not> exact_match c \<and> lc_name c = n"
      using u unfolding inclusive_at_def unique_names_def by (intro find_unique) simp
    also have "\<dots> \<longleftrightarrow> (\<exists>x \<in> set (sorted_statics cs). lq_name x = n \<and> inclusive x = Some c)"
      by (auto simp: set_sorted_statics split: if_splits)
    finally show ?thesis using j by (simp add: joins_def)
  qed
  have "exact x = exact_at (statics cs) (lq_name x)" "inclusive x = inclusive_at (statics cs) (lq_name x)"
    if "x \<in> set js" for x
    using e [of "lq_name x"] i [of "lq_name x"] names that by (metis option.exhaust)+
  moreover have "exact_at (statics cs) n = None \<and> inclusive_at (statics cs) n = None" if "n \<notin> lq_name ` set js" for n
    using e [of n] i [of n] that by (metis image_eqI option.exhaust)
  moreover have "names_sorted js" "\<forall>x \<in> set js. exact x \<noteq> None \<or> inclusive x \<noteq> None" using j by (simp_all add: joins_def)
  ultimately show ?thesis unfolding represents_def by blast
qed

lemma represents_entry_ok:
  assumes "represents js (statics cs)" "\<forall>c \<in> set (statics cs). static_ok c" "x \<in> set js"
  shows "entry_ok (entry x)"
proof -
  have f: "find P xs = Some c \<Longrightarrow> c \<in> set xs \<and> P c" for P xs and c :: ngx_http_core_loc_conf_t
    by (induction xs) (auto split: if_splits)
  have c: "static_ok c \<and> lc_name c = lq_name x" if "exact x = Some c \<or> inclusive x = Some c" for c
  proof -
    have "exact_at (statics cs) (lq_name x) = Some c \<or> inclusive_at (statics cs) (lq_name x) = Some c"
      using assms(1,3) that by (auto simp: represents_def)
    then have "c \<in> set (statics cs) \<and> lc_name c = lq_name x"
      unfolding exact_at_def inclusive_at_def using f by fastforce
    then show ?thesis using assms(2) by blast
  qed
  have ei: "exact x \<noteq> None \<or> inclusive x \<noteq> None" using assms(1,3) unfolding represents_def by blast
  then obtain c where "exact x = Some c \<or> inclusive x = Some c" by (metis not_None_eq)
  then have "nul_free (lq_name x)" "length (lq_name x) < 65536" using c [of c] by (metis static_ok_def)+
  moreover have "\<exists>u. lq_name x = slash u" if "entry_auto (entry x)"
    using that c unfolding entry_auto_def entry_sel static_ok_def by metis
  ultimately show ?thesis using ei by (simp add: entry_ok_def)
qed

lemma static_tree_lookup:
  assumes ok: "\<forall>c \<in> set cs. one_kind c" "\<forall>c \<in> set (statics cs). static_ok c"
  shows "case ngx_http_init_static_location_trees (static_queue (ngx_http_init_locations (location_queue cs))) of
      None \<Rightarrow> \<not> unique_names (statics cs)
    | Some t \<Rightarrow> unique_names (statics cs) \<and>
        (\<forall>u acc. nul_free u \<longrightarrow> find_static_location u t acc = Some (static_match (statics cs) u acc))"
proof -
  have q: "static_queue (ngx_http_init_locations (location_queue cs)) = sorted_statics cs"
    using ok(1) by (simp add: init_locations_eq location_queue_map sorted_statics_def)
  have js: "case ngx_http_join_exact_locations (sorted_statics cs) of
      None \<Rightarrow> \<not> unique_locations (sorted_statics cs)
    | Some js \<Rightarrow> unique_locations (sorted_statics cs) \<and> joins (sorted_statics cs) js"
  proof (rule join_spec)
    show "sorted_wrt before (sorted_statics cs)" by (rule sorted_statics_before [OF ok(2)])
    show "\<forall>x \<in> set (sorted_statics cs). nul_free (lq_name x) \<and> lq_list x = []"
      using ok(2) by (auto simp: set_sorted_statics static_ok_def)
    show "\<forall>x \<in> set (sorted_statics cs). exact x \<noteq> None \<or> inclusive x \<noteq> None" by (auto simp: set_sorted_statics)
    have "\<forall>x \<in> set (sorted_statics cs). exact x = None \<or> inclusive x = None" by (auto simp: set_sorted_statics)
    then show "\<forall>x \<in> set (tl (sorted_statics cs)). exact x = None \<or> inclusive x = None" by (metis list.sel(2) list.set_sel(2))
  qed
  show ?thesis
  proof (cases "ngx_http_join_exact_locations (sorted_statics cs)")
    case None
    then have "sorted_statics cs \<noteq> []" by auto
    then show ?thesis using None js unfolding q ngx_http_init_static_location_trees_def by (simp add: unique_sorted_statics)
  next
    case (Some J)
    then have u: "unique_names (statics cs)" and j: "joins (sorted_statics cs) J" using js by (auto simp: unique_sorted_statics)
    note r = joins_represents [OF j u]
    let ?N = "ngx_http_create_locations_list J"
    have fJ: "flat ?N = map entry J" using j by (simp add: joins_def flat_flat)
    have okJ: "entry_ok (entry x)" if "x \<in> set J" for x by (rule represents_entry_ok [OF r ok(2) that])
    have "nested ?N" using j okJ by (intro create_list_nested) (auto simp: joins_def entry_ok_def)
    moreover have "entries_sorted (flat ?N)" using r unfolding fJ by (simp add: sorted_wrt_map represents_def)
    ultimately have *: "find_static_location u (ngx_http_create_locations_tree ?N 0) acc = Some (static_match (statics cs) u acc)"
      if "nul_free u" for u acc
      using find_static_location_best [of ?N "[]" u acc] okJ that unfolding fJ best_static_match [OF r] by simp
    show ?thesis
    proof (cases "sorted_statics cs = []")
      case True
      then have "J = []" using Some by simp
      then have "ngx_http_create_locations_tree ?N 0 = NULL" by (subst ngx_http_create_locations_tree.simps) simp
      then show ?thesis using True u * unfolding q ngx_http_init_static_location_trees_def by simp
    next
      case False
      then show ?thesis using Some u * unfolding q ngx_http_init_static_location_trees_def by simp
    qed
  qed
qed

section \<open>Regular expressions and nested locations\<close>

lemma find_in: "find P xs = Some c \<Longrightarrow> c \<in> set xs"
  by (induction xs) (auto split: if_splits)

lemma longest_prefix_in: "longest_prefix cs u k = Some c \<Longrightarrow> c \<in> set cs"
  by (induction k) (auto simp: inclusive_at_def split: option.splits dest: find_in)

lemma static_match_in: "static_match cs u acc = (rc, c) \<Longrightarrow> (rc, c) = acc \<or> c \<in> set cs"
  by (auto simp: static_match_def redirect_at_def exact_at_def inclusive_at_def
      split: option.splits if_splits dest: find_in longest_prefix_in)

lemma find_regex_in: "find_regex re u (map Some cs) = Regex_ok c \<Longrightarrow> c \<in> set cs"
  by (induction cs) (auto simp: Let_def split: if_splits)

lemma size_locations: "c \<in> set (locations p) \<Longrightarrow> size c < size p"
  by (cases p) (auto dest: size_list_estimation' [of _ _ _ size] simp: less_Suc_eq_le)

text \<open>The rule, with the locations as they are written in the configuration.\<close>

function location_rule :: "(nat \<Rightarrow> byte list \<Rightarrow> ngx_int) \<Rightarrow> byte list \<Rightarrow> bool \<Rightarrow> ngx_http_core_loc_conf_t \<Rightarrow>
    ngx_int \<times> ngx_http_core_loc_conf_t" where
  "location_rule regex_exec u built p =
     (case (if built then static_match (statics (locations p)) u (NGX_DECLINED, p) else (NGX_DECLINED, p)) of (rc, c) \<Rightarrow>
      case (if rc = NGX_AGAIN then location_rule regex_exec u built c else (rc, c)) of (rc', c') \<Rightarrow>
        if rc' = NGX_OK \<or> rc' = NGX_DONE \<or> rc = NGX_AGAIN \<and> noregex c then (rc', c')
        else
          (case find_regex regex_exec u (map Some (filter (\<lambda>c. regex c \<noteq> None) (locations p))) of
             Regex_ok d \<Rightarrow>
               (case location_rule regex_exec u False d of (r, e) \<Rightarrow> (if r = NGX_ERROR then r else NGX_OK, e))
           | Regex_none \<Rightarrow> (rc', c')
           | Regex_error \<Rightarrow> (NGX_ERROR, c')))"
  by pat_completeness auto
termination
proof (relation "measure (\<lambda>(re, u, b, p). size p)"; (simp; fail)?)
  fix re :: "nat \<Rightarrow> byte list \<Rightarrow> ngx_int" and u built p rc c
  assume "(rc, c) = (if built then static_match (statics (locations p)) u (NGX_DECLINED, p) else (NGX_DECLINED, p))"
    "rc = NGX_AGAIN"
  then have "static_match (statics (locations p)) u (NGX_DECLINED, p) = (NGX_AGAIN, c)" by (auto split: if_splits)
  then have "c \<in> set (locations p)" using static_match_in by fastforce
  then show "((re, u, built, c), re, u, built, p) \<in> measure (\<lambda>(re, u, b, p). size p)" by (simp add: size_locations)
next
  fix re u built p x rc c xa rc' c' d
  assume "find_regex re u (map Some (filter (\<lambda>c. regex c \<noteq> None) (locations p))) = Regex_ok d"
  then have "d \<in> set (locations p)" using find_regex_in by fastforce
  then show "((re, u, False, d), re, u, built, p) \<in> measure (\<lambda>(re, u, b, p). size p)" by (simp add: size_locations)
qed

declare location_rule.simps [simp del]

fun conf_ok :: "ngx_http_core_loc_conf_t \<Rightarrow> bool" where
  "conf_ok (Loc_Conf n e nn nm r nr a ls) \<longleftrightarrow>
     (\<forall>c \<in> set ls. conf_ok c) \<and> (\<forall>c \<in> set ls. one_kind c) \<and> (\<forall>c \<in> set (statics ls). static_ok c) \<and> unique_names (statics ls)"

lemma conf_okD:
  assumes "conf_ok p"
  shows "\<forall>c \<in> set (locations p). conf_ok c" "\<forall>c \<in> set (locations p). one_kind c"
    "\<forall>c \<in> set (statics (locations p)). static_ok c" "unique_names (statics (locations p))"
  using assms by (cases p; simp)+

lemma find_static_locations:
  assumes "conf_ok p" "nul_free u"
  shows "find_static_location u (static_locations built p) acc =
    Some (if built then static_match (statics (locations p)) u acc else acc)"
proof (cases built)
  case True
  obtain t where "ngx_http_init_static_location_trees (static_queue (ngx_http_init_locations (location_queue (locations p)))) = Some t"
    "find_static_location u t acc = Some (static_match (statics (locations p)) u acc)"
    using static_tree_lookup [OF conf_okD(2,3) [OF assms(1)]] conf_okD(4) [OF assms(1)] assms(2)
    by (auto split: option.splits)
  then show ?thesis using True by (simp add: static_locations_def)
next
  case False
  then show ?thesis by (cases acc) (simp add: static_locations_def)
qed

lemma regexes_eq:
  assumes "conf_ok p"
  shows "regexes p = map Some (filter (\<lambda>c. regex c \<noteq> None) (locations p))"
proof -
  have r: "rank (queued c) = 1 \<longleftrightarrow> regex c \<noteq> None" if "one_kind c" for c
    using that by (auto simp: rank_def loc_key_def Let_def one_kind_def)
  have "regexes p = map exact (filter (\<lambda>x. rank x = 1) (map queued (locations p)))"
    unfolding regexes_def location_queue_map using conf_okD(2) [OF assms] by (subst init_locations_eq) auto
  also have "\<dots> = map (exact \<circ> queued) (filter (\<lambda>c. rank (queued c) = 1) (locations p))" by (simp add: filter_map o_def)
  also have "filter (\<lambda>c. rank (queued c) = 1) (locations p) = filter (\<lambda>c. regex c \<noteq> None) (locations p)"
    using r conf_okD(2) [OF assms] by (auto intro: filter_cong)
  finally show ?thesis by (auto simp: is_static_def)
qed

lemma find_location_rule:
  assumes "conf_ok p" "nul_free u"
  shows "ngx_http_core_find_location regex_exec u built p = Some (location_rule regex_exec u built p)"
  using assms(1)
proof (induction "size p" arbitrary: p built rule: less_induct)
  case less
  obtain rc c where s: "(if built then static_match (statics (locations p)) u (NGX_DECLINED, p) else (NGX_DECLINED, p)) = (rc, c)"
    by fastforce
  have IH: "ngx_http_core_find_location regex_exec u b d = Some (location_rule regex_exec u b d)"
    if "d \<in> set (locations p)" for b d
    using less.hyps [OF size_locations [OF that]] conf_okD(1) [OF less.prems] that by blast
  have c: "c \<in> set (locations p)" if "rc = NGX_AGAIN"
    using s that static_match_in [of "statics (locations p)" u "(NGX_DECLINED, p)" rc c] by (auto split: if_splits)
  have d: "d \<in> set (locations p)" if "find_regex regex_exec u (map Some (filter (\<lambda>c. regex c \<noteq> None) (locations p))) = Regex_ok d" for d
    using find_regex_in [OF that] by simp
  obtain rc' c' where n: "(if rc = NGX_AGAIN then location_rule regex_exec u built c else (rc, c)) = (rc', c')" by fastforce
  have n': "(if rc = NGX_AGAIN then ngx_http_core_find_location regex_exec u built c else Some (rc, c)) = Some (rc', c')"
    using n IH [OF c] by auto
  show ?case
    unfolding ngx_http_core_find_location.simps [of _ _ _ p] location_rule.simps [of _ _ _ p]
      find_static_locations [OF less.prems assms(2)] regexes_eq [OF less.prems] s
    using n n' IH [OF d] by (auto split: regex_result.splits prod.splits)
qed

section \<open>The directive\<close>

lemma location_directive_kind:
  assumes "ngx_http_core_location compile parent locs value = Some (clcf, locs')"
  shows "one_kind clcf" "locs' = locs @ [queued clcf]" "noregex clcf \<Longrightarrow> is_static clcf"
  using assms by (auto simp: ngx_http_core_location_def location_args_def bind_eq_Some_conv one_kind_def
      ngx_http_core_regex_location_def new_location_def exact_location_def noregex_location_def is_static_def
      ngx_http_add_location_def queued_def Let_def split: list.splits if_splits option.splits)

lemma filename_cmp_prefix:
  assumes "ngx_filename_cmp (a @ [0]) (b @ [0]) (length b) = Some 0" "nul_free b"
  shows "prefix b a"
  using assms
proof (induction b arbitrary: a)
  case (Cons y b)
  then have "y \<noteq> 0" by (auto simp: nul_free_def)
  obtain c s where a: "a @ [0] = c # s" by (cases "a @ [0]") auto
  show ?case
  proof (cases a)
    case Nil
    then show ?thesis using Cons.prems \<open>y \<noteq> 0\<close> by (auto dest: uint_pos)
  next
    case a: (Cons x a')
    have "x = y"
    proof (rule ccontr)
      assume n: "x \<noteq> y"
      show False
      proof (cases "x = 0")
        case True
        then show ?thesis using Cons.prems a n \<open>y \<noteq> 0\<close> by (auto simp: uint_0_iff)
      next
        case False
        then show ?thesis using Cons.prems a n \<open>y \<noteq> 0\<close> filename_cmp_less(2) [OF n] by (simp split: if_splits)
      qed
    qed
    then show ?thesis using Cons a \<open>y \<noteq> 0\<close> by (simp add: nul_free_def)
  qed
qed simp

lemma nested_location_prefix:
  assumes "ngx_http_core_location compile (Some pclcf) locs value = Some (clcf, locs')" "nul_free (lc_name pclcf)"
    "regex clcf = None"
  shows "prefix (lc_name pclcf) (lc_name clcf)"
  using assms filename_cmp_prefix [of "lc_name clcf" "lc_name pclcf"]
  by (auto simp: ngx_http_core_location_def nesting_allowed_def bind_eq_Some_conv split: if_splits)

text \<open>
  A prefix location inside a regex location passes the check of the directive when its name starts
  with the text of the expression, but it is in no tree: \<open>/a/b\<close> is served by the regex location.
\<close>

definition regex_parent :: ngx_http_core_loc_conf_t where
  "regex_parent = Loc_Conf (bytes ''/a'') False False False (Some 0) False False [new_location (bytes ''/a/b'')]"

definition example_server :: ngx_http_core_loc_conf_t where
  "example_server = Loc_Conf [] False False False None False False
     [regex_parent, exact_location (bytes ''/c''), new_location (bytes ''/''), noregex_location (bytes ''/x/'')]"

lemma example_server_ok: "conf_ok example_server"
  by (simp add: example_server_def regex_parent_def new_location_def exact_location_def noregex_location_def one_kind_def
      is_static_def static_ok_def unique_names_def nul_free_def)

lemma regex_nested_static_ignored:
  "ngx_http_core_location (\<lambda>_ _. Some 0) (Some regex_parent) [] [bytes ''location'', bytes ''/a/b''] \<noteq> None"
  "ngx_http_core_find_location (\<lambda>_ _. NGX_OK) (bytes ''/a/b'') True example_server = Some (NGX_OK, regex_parent)"
proof -
  show "ngx_http_core_location (\<lambda>_ _. Some 0) (Some regex_parent) [] [bytes ''location'', bytes ''/a/b''] \<noteq> None"
    by (simp add: ngx_http_core_location_def location_args_def nesting_allowed_def regex_parent_def new_location_def byte_at_def)
  have "location_rule (\<lambda>_ _. NGX_OK) (bytes ''/a/b'') True example_server = (NGX_OK, regex_parent)"
    by code_simp
  then show "ngx_http_core_find_location (\<lambda>_ _. NGX_OK) (bytes ''/a/b'') True example_server = Some (NGX_OK, regex_parent)"
    by (subst find_location_rule [OF example_server_ok]) (auto simp: nul_free_def)
qed

text \<open>
  C5. The tree of prefix locations answers as the configuration is written. The configuration is
  refused exactly when two \<open>=\<close> locations, or two others, have the same name. Otherwise the search in
  the tree reads nothing outside its strings and finds, for every URI without a zero byte: the \<open>=\<close>
  location of that name; else the prefix location of that name; else, as a redirect, the location
  named by the URI and a slash, if it asks for one; else the prefix location with the longest name
  that the URI starts with; else nothing.
\<close>

theorem static_location_rule:
  assumes "\<forall>c \<in> set cs. one_kind c" "\<forall>c \<in> set (statics cs). static_ok c"
  shows "case ngx_http_init_static_location_trees (static_queue (ngx_http_init_locations (location_queue cs))) of
      None \<Rightarrow> \<not> unique_names (statics cs)
    | Some t \<Rightarrow> unique_names (statics cs) \<and>
        (\<forall>u acc. nul_free u \<longrightarrow> find_static_location u t acc = Some (static_match (statics cs) u acc))"
  by (rule static_tree_lookup [OF assms])

theorem static_location_rule_witness:
  "\<exists>t. ngx_http_init_static_location_trees (static_queue (ngx_http_init_locations (location_queue (locations example_server)))) = Some t \<and>
    find_static_location (bytes ''/x/y'') t (NGX_DECLINED, example_server) = Some (NGX_AGAIN, noregex_location (bytes ''/x/''))"
proof -
  have u: "unique_names (statics (locations example_server))" by (rule conf_okD [OF example_server_ok])
  have "static_match (statics (locations example_server)) (bytes ''/x/y'') (NGX_DECLINED, example_server) =
      (NGX_AGAIN, noregex_location (bytes ''/x/''))" by code_simp
  moreover have "nul_free (bytes ''/x/y'')" by (simp add: nul_free_def)
  ultimately show ?thesis using u static_location_rule [OF conf_okD(2,3) [OF example_server_ok]]
    by (auto split: option.splits)
qed

text \<open>
  C2. The look-up of a location ends, is memory safe and follows the rule, with nested locations and
  regular expressions: the best prefix location is looked for, then inside it; unless that gave an
  exact match or a redirect, or the prefix location forbids it, the regex locations of this level are
  tried in the order of the configuration and the first match wins, with the locations inside it
  searched in turn; an error of the matcher is returned.
\<close>

theorem location_lookup:
  assumes "conf_ok p" "nul_free u"
  shows "ngx_http_core_find_location regex_exec u built p = Some (location_rule regex_exec u built p)"
  by (rule find_location_rule [OF assms])

theorem location_lookup_witness:
  "ngx_http_core_find_location (\<lambda>_ _. NGX_OK) (bytes ''/x/y'') True example_server =
     Some (NGX_DECLINED, noregex_location (bytes ''/x/''))"
proof -
  have "location_rule (\<lambda>_ _. NGX_OK) (bytes ''/x/y'') True example_server = (NGX_DECLINED, noregex_location (bytes ''/x/''))"
    by code_simp
  moreover have "nul_free (bytes ''/x/y'')" by (simp add: nul_free_def)
  ultimately show ?thesis using location_lookup [OF example_server_ok] by simp
qed

end
