(* ===== verification/Ngx_Rbtree.thy ===== *)
theory Ngx_Rbtree
  imports Ngx_Queue
begin

text \<open>
  The red-black tree of \<^verbatim>\<open>src/core/ngx_rbtree.c\<close> and \<^verbatim>\<open>src/core/ngx_rbtree.h\<close>: the operations, the
  relation between the heap and trees, and the correctness of insertion. Deletion and the walk along
  the tree are in \<^verbatim>\<open>Ngx_Rbtree_Delete\<close>, the timers that use the tree in \<^verbatim>\<open>Ngx_Event_Timer\<close>.

  The heap has one field per member of \<open>ngx_rbtree_node_t\<close>; \<open>alive\<close> is the set of the addresses that are
  nodes, and an access through any other address gives \<open>None\<close>, as does a loop that does not end. \<open>root\<close>
  is the member of the \<open>ngx_rbtree_t\<close>; its sentinel and its insertion function are arguments. The
  sentinel is a node of the heap: its parent link is written and followed by the deletion.

  A tree in the heap is described at a focus: \<open>rep z s k t\<close> says that the subtree \<open>t\<close> hangs in the
  context \<open>k\<close>, a list of the frames from the focus up to the root. The statements of the rotations and
  of the changes of colour are proved once for every focus, with the pointers spelled out; the
  fix-up loops are then steps from one focus to another.
\<close>

section \<open>The heap and the operations\<close>

record rbheap =
  alive :: "ptr set"
  key :: "ptr \<Rightarrow> 64 word"
  left :: "ptr \<Rightarrow> ptr"
  right :: "ptr \<Rightarrow> ptr"
  parent :: "ptr \<Rightarrow> ptr"
  red :: "ptr \<Rightarrow> bool"
  root :: ptr

definition rd :: "('a rbheap_scheme \<Rightarrow> ptr \<Rightarrow> 'b) \<Rightarrow> ptr \<Rightarrow> 'a rbheap_scheme \<Rightarrow> 'b option" where
  "rd f x s = (if x \<in> alive s then Some (f s x) else None)"

definition set_key :: "ptr \<Rightarrow> 64 word \<Rightarrow> 'a rbheap_scheme \<Rightarrow> 'a rbheap_scheme option" where
  "set_key x v s = (if x \<in> alive s then Some (s\<lparr>key := (key s)(x := v)\<rparr>) else None)"

definition set_left :: "ptr \<Rightarrow> ptr \<Rightarrow> 'a rbheap_scheme \<Rightarrow> 'a rbheap_scheme option" where
  "set_left x v s = (if x \<in> alive s then Some (s\<lparr>left := (left s)(x := v)\<rparr>) else None)"

definition set_right :: "ptr \<Rightarrow> ptr \<Rightarrow> 'a rbheap_scheme \<Rightarrow> 'a rbheap_scheme option" where
  "set_right x v s = (if x \<in> alive s then Some (s\<lparr>right := (right s)(x := v)\<rparr>) else None)"

definition set_parent :: "ptr \<Rightarrow> ptr \<Rightarrow> 'a rbheap_scheme \<Rightarrow> 'a rbheap_scheme option" where
  "set_parent x v s = (if x \<in> alive s then Some (s\<lparr>parent := (parent s)(x := v)\<rparr>) else None)"

definition set_red :: "ptr \<Rightarrow> bool \<Rightarrow> 'a rbheap_scheme \<Rightarrow> 'a rbheap_scheme option" where
  "set_red x v s = (if x \<in> alive s then Some (s\<lparr>red := (red s)(x := v)\<rparr>) else None)"

definition ngx_rbt_red :: "ptr \<Rightarrow> 'a rbheap_scheme \<Rightarrow> 'a rbheap_scheme option" where
  "ngx_rbt_red x = set_red x True"

definition ngx_rbt_black :: "ptr \<Rightarrow> 'a rbheap_scheme \<Rightarrow> 'a rbheap_scheme option" where
  "ngx_rbt_black x = set_red x False"

definition ngx_rbt_is_red :: "ptr \<Rightarrow> 'a rbheap_scheme \<Rightarrow> bool option" where
  "ngx_rbt_is_red x s = rd red x s"

definition ngx_rbt_copy_color :: "ptr \<Rightarrow> ptr \<Rightarrow> 'a rbheap_scheme \<Rightarrow> 'a rbheap_scheme option" where
  "ngx_rbt_copy_color n1 n2 s = do { c \<leftarrow> rd red n2 s; set_red n1 c s }"

definition ngx_rbtree_init :: "ptr \<Rightarrow> 'a rbheap_scheme \<Rightarrow> 'a rbheap_scheme option" where
  "ngx_rbtree_init sentinel s = do { s \<leftarrow> ngx_rbt_black sentinel s; Some (s\<lparr>root := sentinel\<rparr>) }"

partial_function (option) ngx_rbtree_min :: "ptr \<Rightarrow> ptr \<Rightarrow> 'a rbheap_scheme \<Rightarrow> ptr option" where
  "ngx_rbtree_min node sentinel s = do {
     l \<leftarrow> rd left node s;
     if l \<noteq> sentinel then ngx_rbtree_min l sentinel s else Some node }"

definition ngx_rbtree_left_rotate :: "ptr \<Rightarrow> ptr \<Rightarrow> 'a rbheap_scheme \<Rightarrow> 'a rbheap_scheme option" where
  "ngx_rbtree_left_rotate sentinel node s = do {
     temp \<leftarrow> rd right node s;
     tl \<leftarrow> rd left temp s;
     s \<leftarrow> set_right node tl s;
     s \<leftarrow> (if tl \<noteq> sentinel then set_parent tl node s else Some s);
     np \<leftarrow> rd parent node s;
     s \<leftarrow> set_parent temp np s;
     s \<leftarrow> (if node = root s then Some (s\<lparr>root := temp\<rparr>)
          else do {
            npl \<leftarrow> rd left np s;
            if node = npl then set_left np temp s else set_right np temp s });
     s \<leftarrow> set_left temp node s;
     set_parent node temp s }"

definition ngx_rbtree_right_rotate :: "ptr \<Rightarrow> ptr \<Rightarrow> 'a rbheap_scheme \<Rightarrow> 'a rbheap_scheme option" where
  "ngx_rbtree_right_rotate sentinel node s = do {
     temp \<leftarrow> rd left node s;
     tr \<leftarrow> rd right temp s;
     s \<leftarrow> set_left node tr s;
     s \<leftarrow> (if tr \<noteq> sentinel then set_parent tr node s else Some s);
     np \<leftarrow> rd parent node s;
     s \<leftarrow> set_parent temp np s;
     s \<leftarrow> (if node = root s then Some (s\<lparr>root := temp\<rparr>)
          else do {
            npr \<leftarrow> rd right np s;
            if node = npr then set_right np temp s else set_left np temp s });
     s \<leftarrow> set_right temp node s;
     set_parent node temp s }"

text \<open>
  The two insertion functions differ in the comparison; \<open>lt\<close> is \<open>node->key < temp->key\<close>, or the same
  with wrap-around.
\<close>

partial_function (option) insert_loop ::
  "(64 word \<Rightarrow> 64 word \<Rightarrow> bool) \<Rightarrow> ptr \<Rightarrow> ptr \<Rightarrow> ptr \<Rightarrow> 'a rbheap_scheme \<Rightarrow> 'a rbheap_scheme option" where
  "insert_loop lt temp node sentinel s = do {
     kn \<leftarrow> rd key node s;
     kt \<leftarrow> rd key temp s;
     p \<leftarrow> (if lt kn kt then rd left temp s else rd right temp s);
     if p = sentinel then do {
       s \<leftarrow> (if lt kn kt then set_left temp node s else set_right temp node s);
       s \<leftarrow> set_parent node temp s;
       s \<leftarrow> set_left node sentinel s;
       s \<leftarrow> set_right node sentinel s;
       ngx_rbt_red node s }
     else insert_loop lt p node sentinel s }"

definition value_less :: "64 word \<Rightarrow> 64 word \<Rightarrow> bool" where
  "value_less a b \<longleftrightarrow> a < b"

definition timer_less :: "64 word \<Rightarrow> 64 word \<Rightarrow> bool" where
  "timer_less a b \<longleftrightarrow> sint (a - b) < 0"

definition ngx_rbtree_insert_value :: "ptr \<Rightarrow> ptr \<Rightarrow> ptr \<Rightarrow> 'a rbheap_scheme \<Rightarrow> 'a rbheap_scheme option" where
  "ngx_rbtree_insert_value = insert_loop value_less"

definition ngx_rbtree_insert_timer_value :: "ptr \<Rightarrow> ptr \<Rightarrow> ptr \<Rightarrow> 'a rbheap_scheme \<Rightarrow> 'a rbheap_scheme option" where
  "ngx_rbtree_insert_timer_value = insert_loop timer_less"

partial_function (option) insert_fixup :: "ptr \<Rightarrow> ptr \<Rightarrow> 'a rbheap_scheme \<Rightarrow> 'a rbheap_scheme option" where
  "insert_fixup sentinel node s =
     (if node = root s then ngx_rbt_black (root s) s
      else do {
        np \<leftarrow> rd parent node s;
        r \<leftarrow> ngx_rbt_is_red np s;
        if \<not> r then ngx_rbt_black (root s) s
        else do {
          npp \<leftarrow> rd parent np s;
          nppl \<leftarrow> rd left npp s;
          if np = nppl then do {
            temp \<leftarrow> rd right npp s;
            r \<leftarrow> ngx_rbt_is_red temp s;
            if r then do {
              s \<leftarrow> ngx_rbt_black np s;
              s \<leftarrow> ngx_rbt_black temp s;
              s \<leftarrow> ngx_rbt_red npp s;
              insert_fixup sentinel npp s }
            else do {
              npr \<leftarrow> rd right np s;
              (node, s) \<leftarrow> (if node = npr then do { s \<leftarrow> ngx_rbtree_left_rotate sentinel np s; Some (np, s) }
                            else Some (node, s));
              np \<leftarrow> rd parent node s;
              s \<leftarrow> ngx_rbt_black np s;
              npp \<leftarrow> rd parent np s;
              s \<leftarrow> ngx_rbt_red npp s;
              s \<leftarrow> ngx_rbtree_right_rotate sentinel npp s;
              insert_fixup sentinel node s } }
          else do {
            temp \<leftarrow> rd left npp s;
            r \<leftarrow> ngx_rbt_is_red temp s;
            if r then do {
              s \<leftarrow> ngx_rbt_black np s;
              s \<leftarrow> ngx_rbt_black temp s;
              s \<leftarrow> ngx_rbt_red npp s;
              insert_fixup sentinel npp s }
            else do {
              npl \<leftarrow> rd left np s;
              (node, s) \<leftarrow> (if node = npl then do { s \<leftarrow> ngx_rbtree_right_rotate sentinel np s; Some (np, s) }
                            else Some (node, s));
              np \<leftarrow> rd parent node s;
              s \<leftarrow> ngx_rbt_black np s;
              npp \<leftarrow> rd parent np s;
              s \<leftarrow> ngx_rbt_red npp s;
              s \<leftarrow> ngx_rbtree_left_rotate sentinel npp s;
              insert_fixup sentinel node s } } } })"

definition ngx_rbtree_insert :: "(ptr \<Rightarrow> ptr \<Rightarrow> ptr \<Rightarrow> 'a rbheap_scheme \<Rightarrow> 'a rbheap_scheme option) \<Rightarrow>
  ptr \<Rightarrow> ptr \<Rightarrow> 'a rbheap_scheme \<Rightarrow> 'a rbheap_scheme option" where
  "ngx_rbtree_insert ins sentinel node s =
     (if root s = sentinel then do {
        s \<leftarrow> set_parent node 0 s;
        s \<leftarrow> set_left node sentinel s;
        s \<leftarrow> set_right node sentinel s;
        s \<leftarrow> ngx_rbt_black node s;
        Some (s\<lparr>root := node\<rparr>) }
      else do {
        s \<leftarrow> ins (root s) node sentinel s;
        insert_fixup sentinel node s })"

text \<open>The lines marked \<open>DEBUG stuff\<close>.\<close>

definition clear_node :: "ptr \<Rightarrow> 'a rbheap_scheme \<Rightarrow> 'a rbheap_scheme option" where
  "clear_node node s = do {
     s \<leftarrow> set_left node 0 s;
     s \<leftarrow> set_right node 0 s;
     s \<leftarrow> set_parent node 0 s;
     set_key node 0 s }"

text \<open>
  The body of the fix-up loop when \<open>temp\<close> is a left child: a red sibling \<open>w\<close> is turned into a black one, and
  then the colours of the children of \<open>w\<close> decide. The other branch of the code is the mirror image.
\<close>

definition fixup_sibling_left :: "ptr \<Rightarrow> ptr \<Rightarrow> 'a rbheap_scheme \<Rightarrow> (ptr \<times> 'a rbheap_scheme) option" where
  "fixup_sibling_left sentinel temp s = do {
     tp \<leftarrow> rd parent temp s;
     w \<leftarrow> rd right tp s;
     r \<leftarrow> ngx_rbt_is_red w s;
     if r then do {
       s \<leftarrow> ngx_rbt_black w s;
       s \<leftarrow> ngx_rbt_red tp s;
       s \<leftarrow> ngx_rbtree_left_rotate sentinel tp s;
       tp \<leftarrow> rd parent temp s;
       w \<leftarrow> rd right tp s;
       Some (w, s) }
     else Some (w, s) }"

definition fixup_black_left :: "ptr \<Rightarrow> ptr \<Rightarrow> ptr \<Rightarrow> 'a rbheap_scheme \<Rightarrow> (ptr \<times> 'a rbheap_scheme) option" where
  "fixup_black_left sentinel temp w s = do {
     near \<leftarrow> rd left w s;
     far \<leftarrow> rd right w s;
     rn \<leftarrow> ngx_rbt_is_red near s;
     rf \<leftarrow> ngx_rbt_is_red far s;
     if \<not> rn \<and> \<not> rf then do {
       s \<leftarrow> ngx_rbt_red w s;
       tp \<leftarrow> rd parent temp s;
       Some (tp, s) }
     else do {
       (w, s) \<leftarrow>
         (if \<not> rf then do {
            s \<leftarrow> ngx_rbt_black near s;
            s \<leftarrow> ngx_rbt_red w s;
            s \<leftarrow> ngx_rbtree_right_rotate sentinel w s;
            tp \<leftarrow> rd parent temp s;
            w \<leftarrow> rd right tp s;
            Some (w, s) }
          else Some (w, s));
       tp \<leftarrow> rd parent temp s;
       s \<leftarrow> ngx_rbt_copy_color w tp s;
       s \<leftarrow> ngx_rbt_black tp s;
       far \<leftarrow> rd right w s;
       s \<leftarrow> ngx_rbt_black far s;
       s \<leftarrow> ngx_rbtree_left_rotate sentinel tp s;
       Some (root s, s) } }"

definition fixup_sibling_right :: "ptr \<Rightarrow> ptr \<Rightarrow> 'a rbheap_scheme \<Rightarrow> (ptr \<times> 'a rbheap_scheme) option" where
  "fixup_sibling_right sentinel temp s = do {
     tp \<leftarrow> rd parent temp s;
     w \<leftarrow> rd left tp s;
     r \<leftarrow> ngx_rbt_is_red w s;
     if r then do {
       s \<leftarrow> ngx_rbt_black w s;
       s \<leftarrow> ngx_rbt_red tp s;
       s \<leftarrow> ngx_rbtree_right_rotate sentinel tp s;
       tp \<leftarrow> rd parent temp s;
       w \<leftarrow> rd left tp s;
       Some (w, s) }
     else Some (w, s) }"

definition fixup_black_right :: "ptr \<Rightarrow> ptr \<Rightarrow> ptr \<Rightarrow> 'a rbheap_scheme \<Rightarrow> (ptr \<times> 'a rbheap_scheme) option" where
  "fixup_black_right sentinel temp w s = do {
     near \<leftarrow> rd right w s;
     far \<leftarrow> rd left w s;
     rn \<leftarrow> ngx_rbt_is_red near s;
     rf \<leftarrow> ngx_rbt_is_red far s;
     if \<not> rn \<and> \<not> rf then do {
       s \<leftarrow> ngx_rbt_red w s;
       tp \<leftarrow> rd parent temp s;
       Some (tp, s) }
     else do {
       (w, s) \<leftarrow>
         (if \<not> rf then do {
            s \<leftarrow> ngx_rbt_black near s;
            s \<leftarrow> ngx_rbt_red w s;
            s \<leftarrow> ngx_rbtree_left_rotate sentinel w s;
            tp \<leftarrow> rd parent temp s;
            w \<leftarrow> rd left tp s;
            Some (w, s) }
          else Some (w, s));
       tp \<leftarrow> rd parent temp s;
       s \<leftarrow> ngx_rbt_copy_color w tp s;
       s \<leftarrow> ngx_rbt_black tp s;
       far \<leftarrow> rd left w s;
       s \<leftarrow> ngx_rbt_black far s;
       s \<leftarrow> ngx_rbtree_right_rotate sentinel tp s;
       Some (root s, s) } }"

partial_function (option) delete_fixup :: "ptr \<Rightarrow> ptr \<Rightarrow> 'a rbheap_scheme \<Rightarrow> 'a rbheap_scheme option" where
  "delete_fixup sentinel temp s =
     (if temp = root s then ngx_rbt_black temp s
      else do {
        r \<leftarrow> ngx_rbt_is_red temp s;
        if r then ngx_rbt_black temp s
        else do {
          tp \<leftarrow> rd parent temp s;
          tpl \<leftarrow> rd left tp s;
          (temp, s) \<leftarrow>
            (if temp = tpl then do { (w, s) \<leftarrow> fixup_sibling_left sentinel temp s; fixup_black_left sentinel temp w s }
             else do { (w, s) \<leftarrow> fixup_sibling_right sentinel temp s; fixup_black_right sentinel temp w s });
          delete_fixup sentinel temp s } })"

text \<open>The lines of \<open>ngx_rbtree_delete\<close> that put \<open>subst\<close> in the place of \<open>node\<close>.\<close>

definition substitute :: "ptr \<Rightarrow> ptr \<Rightarrow> ptr \<Rightarrow> 'a rbheap_scheme \<Rightarrow> 'a rbheap_scheme option" where
  "substitute sentinel node subst s = do {
     nl \<leftarrow> rd left node s;
     s \<leftarrow> set_left subst nl s;
     nr \<leftarrow> rd right node s;
     s \<leftarrow> set_right subst nr s;
     np \<leftarrow> rd parent node s;
     s \<leftarrow> set_parent subst np s;
     s \<leftarrow> ngx_rbt_copy_color subst node s;
     s \<leftarrow> (if node = root s then Some (s\<lparr>root := subst\<rparr>)
          else do {
            np \<leftarrow> rd parent node s;
            npl \<leftarrow> rd left np s;
            if node = npl then set_left np subst s else set_right np subst s });
     sl \<leftarrow> rd left subst s;
     s \<leftarrow> (if sl \<noteq> sentinel then set_parent sl subst s else Some s);
     sr \<leftarrow> rd right subst s;
     if sr \<noteq> sentinel then set_parent sr subst s else Some s }"

definition ngx_rbtree_delete :: "ptr \<Rightarrow> ptr \<Rightarrow> 'a rbheap_scheme \<Rightarrow> 'a rbheap_scheme option" where
  "ngx_rbtree_delete sentinel node s = do {
     nl \<leftarrow> rd left node s;
     nr \<leftarrow> rd right node s;
     (temp, subst) \<leftarrow>
       (if nl = sentinel then Some (nr, node)
        else if nr = sentinel then Some (nl, node)
        else do {
          subst \<leftarrow> ngx_rbtree_min nr sentinel s;
          temp \<leftarrow> rd right subst s;
          Some (temp, subst) });
     if subst = root s then do {
       s \<leftarrow> ngx_rbt_black temp (s\<lparr>root := temp\<rparr>);
       clear_node node s }
     else do {
       r \<leftarrow> ngx_rbt_is_red subst s;
       sp \<leftarrow> rd parent subst s;
       spl \<leftarrow> rd left sp s;
       s \<leftarrow> (if subst = spl then set_left sp temp s else set_right sp temp s);
       s \<leftarrow>
         (if subst = node then do { sp \<leftarrow> rd parent subst s; set_parent temp sp s }
          else do {
            sp \<leftarrow> rd parent subst s;
            s \<leftarrow> (if sp = node then set_parent temp subst s else set_parent temp sp s);
            substitute sentinel node subst s });
       s \<leftarrow> clear_node node s;
       if r then Some s else delete_fixup sentinel temp s } }"

partial_function (option) next_loop :: "ptr \<Rightarrow> 'a rbheap_scheme \<Rightarrow> ptr option" where
  "next_loop node s = do {
     p \<leftarrow> rd parent node s;
     if node = root s then Some 0
     else do {
       pl \<leftarrow> rd left p s;
       if node = pl then Some p else next_loop p s } }"

definition ngx_rbtree_next :: "ptr \<Rightarrow> ptr \<Rightarrow> 'a rbheap_scheme \<Rightarrow> ptr option" where
  "ngx_rbtree_next sentinel node s = do {
     r \<leftarrow> rd right node s;
     if r \<noteq> sentinel then ngx_rbtree_min r sentinel s else next_loop node s }"

section \<open>Trees and contexts\<close>

datatype rbt = Leaf | Node rbt ptr bool rbt

datatype frame = LeftOf ptr bool rbt | RightOf rbt ptr bool

primrec fill :: "frame \<Rightarrow> rbt \<Rightarrow> rbt" where
  "fill (LeftOf x c r) t = Node t x c r"
| "fill (RightOf l x c) t = Node l x c t"

primrec plug :: "frame list \<Rightarrow> rbt \<Rightarrow> rbt" where
  "plug [] t = t"
| "plug (F # k) t = plug k (fill F t)"

primrec fnode :: "frame \<Rightarrow> ptr" where
  "fnode (LeftOf x c r) = x"
| "fnode (RightOf l x c) = x"

primrec nodes :: "rbt \<Rightarrow> ptr list" where
  "nodes Leaf = []"
| "nodes (Node l x c r) = nodes l @ x # nodes r"

text \<open>The nodes of a context that come before and after those of the focus.\<close>

primrec before :: "frame list \<Rightarrow> ptr list" where
  "before [] = []"
| "before (F # k) = before k @ (case F of LeftOf x c r \<Rightarrow> [] | RightOf l x c \<Rightarrow> nodes l @ [x])"

primrec after :: "frame list \<Rightarrow> ptr list" where
  "after [] = []"
| "after (F # k) = (case F of LeftOf x c r \<Rightarrow> x # nodes r | RightOf l x c \<Rightarrow> []) @ after k"

lemma nodes_plug: "nodes (plug k t) = before k @ nodes t @ after k"
  by (induction k arbitrary: t) (auto split: frame.split)

lemma plug_append: "plug (j @ k) t = plug k (plug j t)"
  by (induction j arbitrary: t) auto

lemma before_append: "before (j @ k) = before k @ before j"
  by (induction j) auto

lemma after_append: "after (j @ k) = after j @ after k"
  by (induction j) auto

primrec addr :: "ptr \<Rightarrow> rbt \<Rightarrow> ptr" where
  "addr z Leaf = z"
| "addr z (Node l x c r) = x"

primrec is_red :: "rbt \<Rightarrow> bool" where
  "is_red Leaf = False"
| "is_red (Node l x c r) = c"

primrec paint :: "bool \<Rightarrow> rbt \<Rightarrow> rbt" where
  "paint c Leaf = Leaf"
| "paint c (Node l x d r) = Node l x c r"

lemma nodes_paint [simp]: "nodes (paint c t) = nodes t"
  by (cases t) auto

lemma top_paint [simp]: "addr z (paint c t) = addr z t"
  by (cases t) auto

section \<open>A tree and a context in the heap\<close>

primrec linked :: "ptr \<Rightarrow> 'a rbheap_scheme \<Rightarrow> ptr \<Rightarrow> rbt \<Rightarrow> bool" where
  "linked z s p Leaf \<longleftrightarrow> True"
| "linked z s p (Node l x c r) \<longleftrightarrow> x \<in> alive s \<and> left s x = addr z l \<and> right s x = addr z r \<and>
     parent s x = p \<and> red s x = c \<and> linked z s x l \<and> linked z s x r"

primrec linkedc :: "ptr \<Rightarrow> 'a rbheap_scheme \<Rightarrow> frame list \<Rightarrow> ptr \<Rightarrow> ptr \<Rightarrow> bool" where
  "linkedc z s [] p q \<longleftrightarrow> root s = q"
| "linkedc z s (F # k) p q \<longleftrightarrow> p = fnode F \<and> p \<in> alive s \<and> linkedc z s k (parent s p) p \<and>
     (case F of
        LeftOf x c r \<Rightarrow> left s x = q \<and> right s x = addr z r \<and> red s x = c \<and> linked z s x r
      | RightOf l x c \<Rightarrow> left s x = addr z l \<and> right s x = q \<and> red s x = c \<and> linked z s x l)"

definition sentinel_ok :: "ptr \<Rightarrow> 'a rbheap_scheme \<Rightarrow> bool" where
  "sentinel_ok z s \<longleftrightarrow> z \<in> alive s \<and> \<not> red s z"

definition rep :: "ptr \<Rightarrow> 'a rbheap_scheme \<Rightarrow> frame list \<Rightarrow> rbt \<Rightarrow> bool" where
  "rep z s k t \<longleftrightarrow> (\<exists>p. linkedc z s k p (addr z t) \<and> linked z s p t) \<and>
     distinct (z # nodes (plug k t)) \<and> sentinel_ok z s"

lemma rep_fill: "rep z s (F # k) t \<longleftrightarrow> rep z s k (fill F t)"
  by (cases F) (auto simp: rep_def)

lemma rep_plug: "rep z s k t \<longleftrightarrow> rep z s [] (plug k t)"
  by (induction k arbitrary: t) (simp_all add: rep_fill)

lemmas rep_left [simp] = rep_fill [of _ _ "LeftOf x c r" for x c r, simplified]
lemmas rep_right [simp] = rep_fill [of _ _ "RightOf l x c" for l x c, simplified]

text \<open>A part of the heap that an operation did not touch is still the same tree, or context.\<close>

definition unchanged :: "'a rbheap_scheme \<Rightarrow> 'a rbheap_scheme \<Rightarrow> ptr set \<Rightarrow> bool" where
  "unchanged s s' A \<longleftrightarrow> alive s' = alive s \<and> (\<forall>x\<in>A. left s' x = left s x \<and> right s' x = right s x \<and>
     parent s' x = parent s x \<and> red s' x = red s x)"

lemma unchanged_Un [simp]: "unchanged s s' (A \<union> C) \<longleftrightarrow> unchanged s s' A \<and> unchanged s s' C"
  by (auto simp: unchanged_def)

lemma unchanged_insert [simp]: "unchanged s s' (insert x A) \<longleftrightarrow> alive s' = alive s \<and> left s' x = left s x \<and>
    right s' x = right s x \<and> parent s' x = parent s x \<and> red s' x = red s x \<and> unchanged s s' A"
  by (auto simp: unchanged_def)

lemma unchanged_alive: "unchanged s s' A \<Longrightarrow> alive s' = alive s"
  by (simp add: unchanged_def)

lemma linked_cong:
  "unchanged s s' (set (nodes t)) \<Longrightarrow> linked z s' p t = linked z s p t"
  by (induction t arbitrary: p) auto

lemma linkedc_cong:
  "unchanged s s' (set (before k) \<union> set (after k)) \<Longrightarrow> root s' = root s \<Longrightarrow>
   linkedc z s' k p q = linkedc z s k p q"
proof (induction k arbitrary: p q)
  case (Cons F k)
  then show ?case
    by (cases F) (auto simp: linked_cong)
qed simp

lemma linked_top_cong:
  assumes "unchanged s s' (set (nodes t) - {addr z t})"
    and "t \<noteq> Leaf \<Longrightarrow> left s' (addr z t) = left s (addr z t) \<and> right s' (addr z t) = right s (addr z t) \<and>
         red s' (addr z t) = red s (addr z t) \<and> parent s' (addr z t) = p'"
    and "distinct (nodes t)"
    and "linked z s p t"
  shows "linked z s' p' t"
proof (cases t)
  case (Node l x c r)
  have "linked z s' x l = linked z s x l" "linked z s' x r = linked z s x r"
    using assms(1,3) Node by (auto intro!: linked_cong simp: Un_Diff)
  then show ?thesis using assms Node by (auto simp: unchanged_def)
qed simp

text \<open>The pointer to the focus: \<open>*root\<close>, or the field of the parent that points to it.\<close>

definition set_link :: "ptr \<Rightarrow> ptr \<Rightarrow> ptr \<Rightarrow> 'a rbheap_scheme \<Rightarrow> 'a rbheap_scheme" where
  "set_link p q q' s = (if q = root s then s\<lparr>root := q'\<rparr>
     else if q = left s p then s\<lparr>left := (left s)(p := q')\<rparr> else s\<lparr>right := (right s)(p := q')\<rparr>)"

lemma linkedc_parent_alive: "linkedc z s k p q \<Longrightarrow> k \<noteq> [] \<Longrightarrow> p \<in> alive s"
  by (cases k) auto

lemma root_in_context: "linkedc z s k p q \<Longrightarrow> k \<noteq> [] \<Longrightarrow> root s \<in> set (before k @ after k)"
proof (induction k arbitrary: p q)
  case (Cons F k)
  then show ?case by (cases "k = []"; cases F) auto
qed simp

lemma addr_in: "t \<noteq> Leaf \<Longrightarrow> addr z t \<in> set (nodes t)"
  by (cases t) auto

lemma addr_cases: "addr z t = z \<or> addr z t \<in> set (nodes t)"
  by (cases t) auto

lemma root_is_focus:
  assumes "linkedc z s k p q" "q \<notin> set (before k @ after k)"
  shows "q = root s \<longleftrightarrow> k = []"
  using root_in_context[OF assms(1)] assms by (cases k) auto

lemma left_is_focus:
  assumes "linkedc z s (F # k) p q" "q \<notin> set (before (F # k) @ after (F # k))" "q \<noteq> z"
  shows "q = left s p \<longleftrightarrow> (\<exists>x c r. F = LeftOf x c r)"
proof (cases F)
  case (RightOf l x c)
  then show ?thesis using assms addr_cases[of z l] by auto
qed (use assms in auto)

lemma right_is_focus:
  assumes "linkedc z s (F # k) p q" "q \<notin> set (before (F # k) @ after (F # k))" "q \<noteq> z"
  shows "q = right s p \<longleftrightarrow> (\<exists>l x c. F = RightOf l x c)"
proof (cases F)
  case (LeftOf x c r)
  then show ?thesis using assms addr_cases[of z r] by auto
qed (use assms in auto)

lemma set_link_fields [simp]:
  "alive (set_link p q q' s) = alive s" "key (set_link p q q' s) = key s"
  "parent (set_link p q q' s) = parent s" "red (set_link p q q' s) = red s"
  "rbheap.more (set_link p q q' s) = rbheap.more s"
  "x \<noteq> p \<Longrightarrow> left (set_link p q q' s) x = left s x"
  "x \<noteq> p \<Longrightarrow> right (set_link p q q' s) x = right s x"
  "root (set_link p q q' s) = (if q = root s then q' else root s)"
  by (auto simp: set_link_def)

lemma set_link_root [simp]:
  "q = root s \<Longrightarrow> left (set_link p q q' s) = left s" "q = root s \<Longrightarrow> right (set_link p q q' s) = right s"
  by (auto simp: set_link_def)

lemma set_link_context:
  assumes c: "linkedc z s k p q" and d: "distinct (before k @ after k)"
    and q: "q \<notin> set (before k @ after k)" "q \<noteq> z"
  shows "linkedc z (set_link p q q' s) k p q'"
proof (cases k)
  case Nil
  then show ?thesis using c by simp
next
  case (Cons F j)
  have r: "q \<noteq> root s" using root_is_focus[OF c q(1)] Cons by simp
  have l: "q = left s p \<longleftrightarrow> (\<exists>x c r. F = LeftOf x c r)" using left_is_focus[OF c[unfolded Cons]] q Cons by simp
  let ?s = "set_link p q q' s"
  have u: "unchanged s ?s A" if "p \<notin> A" for A
    using that by (auto simp: unchanged_def) (metis set_link_fields(6), metis set_link_fields(7))
  have o: "linkedc z ?s j (parent s p) p = linkedc z s j (parent s p) p"
    using c d Cons r by (intro linkedc_cong u) (auto split: frame.splits)
  have t: "linked z ?s x t = linked z s x t" if "p \<notin> set (nodes t)" for t x
    using that by (intro linked_cong u)
  show ?thesis
  proof (cases F)
    case (LeftOf x c' t)
    then show ?thesis using c d Cons r l o t[of t] by (auto simp: set_link_def)
  next
    case (RightOf t x c')
    then show ?thesis using c d Cons r l o t[of t] by (auto simp: set_link_def)
  qed
qed

text \<open>What a rotation and a change of colour keep.\<close>

definition kept :: "ptr \<Rightarrow> 'a rbheap_scheme \<Rightarrow> 'a rbheap_scheme \<Rightarrow> bool" where
  "kept z s s' \<longleftrightarrow> alive s' = alive s \<and> key s' = key s \<and> rbheap.more s' = rbheap.more s \<and> parent s' z = parent s z"

lemma kept_refl [simp]: "kept z s s"
  by (simp add: kept_def)

lemma kept_trans [trans]: "kept z s s' \<Longrightarrow> kept z s' s'' \<Longrightarrow> kept z s s''"
  by (simp add: kept_def)

lemma linkedc_parent_in: "linkedc z s k p q \<Longrightarrow> k \<noteq> [] \<Longrightarrow> p \<in> set (before k @ after k)"
  by (cases k; auto split: frame.splits)

lemma set_link_outside:
  assumes "linkedc z s k p q" "w \<notin> set (before k @ after k)"
  shows "left (set_link p q q' s) w = left s w" "right (set_link p q q' s) w = right s w"
proof -
  have "q = root s \<or> w \<noteq> p"
    using assms linkedc_parent_in[OF assms(1)] by (cases "k = []") auto
  then show "left (set_link p q q' s) w = left s w" "right (set_link p q q' s) w = right s w" by auto
qed

lemma set_link_unchanged:
  assumes "linkedc z s k p q" "A \<inter> set (before k @ after k) = {}"
  shows "unchanged s (set_link p q q' s) A"
  using assms set_link_outside[OF assms(1)] unfolding unchanged_def by (simp add: disjoint_iff)

lemmas rotate_simps = rd_def set_left_def set_right_def set_parent_def

lemma left_rotate:
  assumes r: "rep z s k (Node a x c (Node b y d e))"
  shows "\<exists>s'. ngx_rbtree_left_rotate z x s = Some s' \<and> rep z s' k (Node (Node a x c b) y d e) \<and> kept z s s'"
proof -
  obtain p where k: "linkedc z s k p x" and t: "linked z s p (Node a x c (Node b y d e))"
    and dis: "distinct (z # nodes (plug k (Node a x c (Node b y d e))))" and z: "sentinel_ok z s"
    using r by (auto simp: rep_def)
  have d: "distinct (z # before k @ (nodes a @ x # nodes b @ y # nodes e) @ after k)"
    using dis by (simp add: nodes_plug)
  define s1 where "s1 = s\<lparr>right := (right s)(x := addr z b),
    parent := (if b = Leaf then parent s else (parent s)(addr z b := x))(y := p)\<rparr>"
  define s2 where "s2 = set_link p x y s1"
  define s' where "s' = s2\<lparr>left := (left s2)(y := x), parent := (parent s2)(x := y)\<rparr>"
  have b: "b \<noteq> Leaf \<Longrightarrow> addr z b \<in> set (nodes b) \<and> addr z b \<in> alive s" "addr z b = z \<longleftrightarrow> b = Leaf"
    using t d by (cases b; auto)+
  have a1: "linkedc z s1 k p x"
    using k d b by (subst linkedc_cong[of s]) (auto simp: s1_def unchanged_def)
  have a2: "linkedc z s2 k p y"
    unfolding s2_def using a1 d by (intro set_link_context) auto
  have a3: "linkedc z s' k p y"
    using a2 d by (subst linkedc_cong[of s2]) (auto simp: s'_def unchanged_def)
  have ev: "ngx_rbtree_left_rotate z x s = Some s'"
  proof -
    have "k \<noteq> [] \<Longrightarrow> p \<in> alive s" using k by (rule linkedc_parent_alive)
    moreover have "x = root s \<longleftrightarrow> k = []" using root_is_focus[OF k] d by auto
    moreover have "x \<noteq> addr z b" using b d by (cases b) auto
    ultimately show ?thesis
      using t d b by (auto simp: ngx_rbtree_left_rotate_def rotate_simps s'_def s2_def s1_def set_link_def Let_def)
  qed
  have f: "left s' w = (if w = y then x else left s w)" "right s' w = (if w = x then addr z b else right s w)"
    "parent s' w = (if w = x then y else if w = y then p else if b \<noteq> Leaf \<and> w = addr z b then x else parent s w)"
    "red s' w = red s w" if "w \<notin> set (before k @ after k)" for w
    using set_link_outside[OF a1 that, of y] by (auto simp: s'_def s2_def s1_def)
  have al: "alive s' = alive s" by (simp add: s'_def s2_def s1_def)
  have u: "unchanged s s' A" if "A \<inter> set (before k @ x # y # after k) = {}" "b \<noteq> Leaf \<Longrightarrow> addr z b \<notin> A" for A
    unfolding unchanged_def
  proof (intro conjI[OF al] ballI)
    fix w assume "w \<in> A"
    then have "w \<notin> set (before k @ after k)" "w \<noteq> x" "w \<noteq> y" "b \<noteq> Leaf \<Longrightarrow> w \<noteq> addr z b"
      using that by (auto simp: disjoint_iff)
    then show "left s' w = left s w \<and> right s' w = right s w \<and> parent s' w = parent s w \<and> red s' w = red s w"
      using f[of w] by auto
  qed
  have dj: "set (nodes a) \<inter> set (before k @ x # y # after k) = {}" "set (nodes e) \<inter> set (before k @ x # y # after k) = {}"
    "set (nodes b) \<inter> set (before k @ x # y # after k) = {}"
    "b \<noteq> Leaf \<Longrightarrow> addr z b \<notin> set (nodes a)" "b \<noteq> Leaf \<Longrightarrow> addr z b \<notin> set (nodes e)"
    "x \<notin> set (before k @ after k)" "y \<notin> set (before k @ after k)" "x \<noteq> y"
    using d b(1) by (auto simp: disjoint_iff)
  have "linked z s' x a"
    using t by (simp add: linked_cong[OF u[OF dj(1,4)]])
  moreover have "linked z s' y e"
    using t by (simp add: linked_cong[OF u[OF dj(2,5)]])
  moreover have "linked z s' x b"
  proof (rule linked_top_cong[of s _ b _ _ y])
    show "unchanged s s' (set (nodes b) - {addr z b})"
      using dj(3) by (intro u) auto
    show "linked z s y b" "distinct (nodes b)" using t d by auto
    assume "b \<noteq> Leaf"
    then have "addr z b \<notin> set (before k @ after k)" "addr z b \<noteq> x" "addr z b \<noteq> y" using b(1) dj(3) by auto
    then show "left s' (addr z b) = left s (addr z b) \<and> right s' (addr z b) = right s (addr z b) \<and>
         red s' (addr z b) = red s (addr z b) \<and> parent s' (addr z b) = x"
      using f[of "addr z b"] \<open>b \<noteq> Leaf\<close> by simp
  qed
  ultimately have t': "linked z s' p (Node (Node a x c b) y d e)"
    using t f[OF dj(6)] f[OF dj(7)] dj(8) by (simp add: al)
  have kp: "kept z s s'"
    using d b(2) by (auto simp: kept_def s'_def s2_def s1_def)
  have "rep z s' k (Node (Node a x c b) y d e)"
    unfolding rep_def
  proof (intro conjI)
    show "\<exists>p. linkedc z s' k p (addr z (Node (Node a x c b) y d e)) \<and> linked z s' p (Node (Node a x c b) y d e)"
      using a3 t' by auto
    show "distinct (z # nodes (plug k (Node (Node a x c b) y d e)))" using d by (simp add: nodes_plug)
    show "sentinel_ok z s'" using z f(4)[of z] d by (simp add: sentinel_ok_def al)
  qed
  then show ?thesis using ev kp by blast
qed


section \<open>The mirror image\<close>

definition flip :: "'a rbheap_scheme \<Rightarrow> 'a rbheap_scheme" where
  "flip s = s\<lparr>left := right s, right := left s\<rparr>"

primrec mirror :: "rbt \<Rightarrow> rbt" where
  "mirror Leaf = Leaf"
| "mirror (Node l x c r) = Node (mirror r) x c (mirror l)"

primrec mirror_frame :: "frame \<Rightarrow> frame" where
  "mirror_frame (LeftOf x c r) = RightOf (mirror r) x c"
| "mirror_frame (RightOf l x c) = LeftOf x c (mirror l)"

lemma mirror_mirror [simp]: "mirror (mirror t) = t"
  by (induction t) auto

lemma mirror_frame_mirror [simp]: "mirror_frame (mirror_frame F) = F"
  by (cases F) auto

lemma mirror_frames_mirror [simp]: "map mirror_frame (map mirror_frame k) = k"
  by (simp add: comp_def)

lemma mirror_eq_leaf [simp]: "mirror t = Leaf \<longleftrightarrow> t = Leaf"
  by (cases t) auto

lemma addr_mirror [simp]: "addr z (mirror t) = addr z t"
  by (cases t) auto

lemma nodes_mirror [simp]: "nodes (mirror t) = rev (nodes t)"
  by (induction t) auto

lemma plug_mirror: "plug (map mirror_frame k) (mirror t) = mirror (plug k t)"
proof (induction k arbitrary: t)
  case (Cons F k)
  have "fill (mirror_frame F) (mirror t) = mirror (fill F t)" by (cases F) auto
  then show ?case using Cons by simp
qed simp

lemma flip_fields [simp]:
  "left (flip s) = right s" "right (flip s) = left s" "parent (flip s) = parent s" "red (flip s) = red s"
  "alive (flip s) = alive s" "key (flip s) = key s" "root (flip s) = root s" "rbheap.more (flip s) = rbheap.more s"
  by (simp_all add: flip_def)

lemma flip_flip [simp]: "flip (flip s) = s"
  by (simp add: flip_def)

lemma linked_flip [simp]: "linked z (flip s) p (mirror t) = linked z s p t"
  by (induction t arbitrary: p) auto

lemma linkedc_flip [simp]: "linkedc z (flip s) (map mirror_frame k) p q = linkedc z s k p q"
proof (induction k arbitrary: p q)
  case (Cons F k)
  then show ?case by (cases F) auto
qed simp

lemma rep_flip [simp]: "rep z (flip s) (map mirror_frame k) (mirror t) = rep z s k t"
  by (simp add: rep_def sentinel_ok_def plug_mirror)

lemma kept_flip [simp]: "kept z (flip s) (flip s') = kept z s s'"
  by (simp add: kept_def)

lemma right_rotate_flip:
  "ngx_rbtree_right_rotate z x s = map_option flip (ngx_rbtree_left_rotate z x (flip s))"
  by (auto simp: ngx_rbtree_right_rotate_def ngx_rbtree_left_rotate_def rotate_simps flip_def Let_def)

lemma right_rotate:
  assumes "rep z s k (Node (Node a x c b) y d e)"
  shows "\<exists>s'. ngx_rbtree_right_rotate z y s = Some s' \<and> rep z s' k (Node a x c (Node b y d e)) \<and> kept z s s'"
proof -
  have "rep z (flip s) (map mirror_frame k) (Node (mirror e) y d (Node (mirror b) x c (mirror a)))"
    using assms rep_flip[of z s k "Node (Node a x c b) y d e"] by simp
  from left_rotate[OF this] obtain s' where s': "ngx_rbtree_left_rotate z y (flip s) = Some s'"
    "rep z s' (map mirror_frame k) (mirror (Node a x c (Node b y d e)))" "kept z (flip s) s'" by auto
  have "rep z (flip s') k (Node a x c (Node b y d e))"
    using rep_flip[of z s' "map mirror_frame k" "mirror (Node a x c (Node b y d e))"] s'(2)
    by (simp add: comp_def)
  moreover have "kept z s (flip s')" using kept_flip[of z s "flip s'"] s'(3) by simp
  ultimately show ?thesis using s'(1) by (auto simp: right_rotate_flip)
qed

section \<open>Colours\<close>

lemma set_red_focus:
  assumes r: "rep z s k (Node l x c r)"
  shows "\<exists>s'. set_red x c' s = Some s' \<and> rep z s' k (Node l x c' r) \<and> kept z s s'"
proof -
  obtain p where k: "linkedc z s k p x" and t: "linked z s p (Node l x c r)"
    and dis: "distinct (z # nodes (plug k (Node l x c r)))" and z: "sentinel_ok z s"
    using r by (auto simp: rep_def)
  have d: "distinct (z # before k @ (nodes l @ x # nodes r) @ after k)"
    using dis by (simp add: nodes_plug)
  define s' where "s' = s\<lparr>red := (red s)(x := c')\<rparr>"
  have ev: "set_red x c' s = Some s'" using t by (simp add: set_red_def s'_def)
  have u: "unchanged s s' A" if "x \<notin> A" for A
    using that by (auto simp: unchanged_def s'_def)
  have "linkedc z s' k p x"
    using k d by (subst linkedc_cong[OF u]) (auto simp: s'_def)
  moreover have "linked z s' x l" "linked z s' x r"
    using t d by (auto simp: linked_cong[OF u])
  then have "linked z s' p (Node l x c' r)" using t by (simp add: s'_def)
  ultimately have "rep z s' k (Node l x c' r)"
    using d z by (auto simp: rep_def nodes_plug sentinel_ok_def s'_def)
  moreover have "kept z s s'" by (simp add: kept_def s'_def)
  ultimately show ?thesis using ev by blast
qed

section \<open>The red-black invariants\<close>

primrec no_red_red :: "rbt \<Rightarrow> bool" where
  "no_red_red Leaf \<longleftrightarrow> True"
| "no_red_red (Node l x c r) \<longleftrightarrow> (c \<longrightarrow> \<not> is_red l \<and> \<not> is_red r) \<and> no_red_red l \<and> no_red_red r"

primrec black_height :: "rbt \<Rightarrow> nat" where
  "black_height Leaf = 0"
| "black_height (Node l x c r) = black_height l + (if c then 0 else 1)"

primrec balanced :: "rbt \<Rightarrow> bool" where
  "balanced Leaf \<longleftrightarrow> True"
| "balanced (Node l x c r) \<longleftrightarrow> black_height l = black_height r \<and> balanced l \<and> balanced r"

definition red_black :: "rbt \<Rightarrow> bool" where
  "red_black t \<longleftrightarrow> no_red_red t \<and> balanced t \<and> \<not> is_red t"

text \<open>
  The same for a context: \<open>c\<close> is the colour of the tree in the hole, \<open>h\<close> its black height.
\<close>

primrec fits_colour :: "frame list \<Rightarrow> bool \<Rightarrow> bool" where
  "fits_colour [] c \<longleftrightarrow> True"
| "fits_colour (F # k) c \<longleftrightarrow> (case F of
     LeftOf x d r \<Rightarrow> (d \<longrightarrow> \<not> c \<and> \<not> is_red r) \<and> no_red_red r \<and> fits_colour k d
   | RightOf l x d \<Rightarrow> (d \<longrightarrow> \<not> c \<and> \<not> is_red l) \<and> no_red_red l \<and> fits_colour k d)"

primrec fits_height :: "frame list \<Rightarrow> nat \<Rightarrow> bool" where
  "fits_height [] h \<longleftrightarrow> True"
| "fits_height (F # k) h \<longleftrightarrow> (case F of
     LeftOf x d r \<Rightarrow> black_height r = h \<and> balanced r \<and> fits_height k (h + (if d then 0 else 1))
   | RightOf l x d \<Rightarrow> black_height l = h \<and> balanced l \<and> fits_height k (h + (if d then 0 else 1)))"

primrec fcolour :: "frame \<Rightarrow> bool" where
  "fcolour (LeftOf x c r) = c"
| "fcolour (RightOf l x c) = c"

definition root_black :: "frame list \<Rightarrow> bool" where
  "root_black k \<longleftrightarrow> k = [] \<or> \<not> fcolour (List.last k)"

lemma root_black_simps [simp]: "root_black []" "root_black [F] \<longleftrightarrow> \<not> fcolour F"
  "k \<noteq> [] \<Longrightarrow> root_black (F # k) \<longleftrightarrow> root_black k"
  by (auto simp: root_black_def)

lemma is_red_fill [simp]: "is_red (fill F t) = fcolour F"
  by (cases F) auto

lemma is_red_plug: "is_red (plug k t) \<longleftrightarrow> (if k = [] then is_red t else \<not> root_black k)"
  by (induction k arbitrary: t) (simp_all add: root_black_def)

lemma no_red_red_plug: "no_red_red (plug k t) \<longleftrightarrow> no_red_red t \<and> fits_colour k (is_red t)"
proof (induction k arbitrary: t)
  case (Cons F k)
  then show ?case by (cases F) auto
qed simp

lemma balanced_plug: "balanced (plug k t) \<longleftrightarrow> balanced t \<and> fits_height k (black_height t)"
proof (induction k arbitrary: t)
  case (Cons F k)
  show ?case by (cases F; simp only: plug.simps fill.simps fits_height.simps frame.case Cons.IH balanced.simps
      black_height.simps) metis+
qed simp

lemma fits_colour_black: "fits_colour k c \<Longrightarrow> fits_colour k False"
  by (cases k) (auto split: frame.splits)

lemma no_red_red_paint: "no_red_red t \<Longrightarrow> no_red_red (paint False t)"
  by (cases t) auto

lemma balanced_paint [simp]: "balanced (paint c t) = balanced t"
  by (cases t) auto

lemma is_red_paint_black [simp]: "\<not> is_red (paint False t)"
  by (cases t) auto

lemma black_height_paint_black: "black_height (paint False t) = black_height t + (if is_red t then 1 else 0)"
  by (cases t) auto

lemma red_black_plug: "red_black (plug k t) \<longleftrightarrow> no_red_red t \<and> fits_colour k (is_red t) \<and> balanced t \<and>
    fits_height k (black_height t) \<and> root_black k \<and> (k = [] \<longrightarrow> \<not> is_red t)"
  by (auto simp: red_black_def no_red_red_plug balanced_plug is_red_plug)

section \<open>Reading the fields at the focus\<close>

lemma rd_red: "sentinel_ok z s \<Longrightarrow> linked z s p t \<Longrightarrow> rd red (addr z t) s = Some (is_red t)"
  by (cases t) (auto simp: rd_def sentinel_ok_def)

lemma rd_parent: "linked z s p t \<Longrightarrow> t \<noteq> Leaf \<Longrightarrow> rd parent (addr z t) s = Some p"
  by (cases t) (auto simp: rd_def)

lemma rep_node:
  assumes "rep z s k (Node l x c r)"
  shows "rd left x s = Some (addr z l)" "rd right x s = Some (addr z r)" "rd red x s = Some c"
    "rd red (addr z l) s = Some (is_red l)" "rd red (addr z r) s = Some (is_red r)"
    "l \<noteq> Leaf \<Longrightarrow> rd parent (addr z l) s = Some x" "r \<noteq> Leaf \<Longrightarrow> rd parent (addr z r) s = Some x"
    "x \<in> alive s" "x \<noteq> z" "addr z l \<noteq> x" "addr z r \<noteq> x" "addr z l = addr z r \<longleftrightarrow> l = Leaf \<and> r = Leaf"
proof -
  obtain p where 1: "linked z s p (Node l x c r)" "sentinel_ok z s"
    and d: "distinct (z # nodes (plug k (Node l x c r)))"
    using assms by (auto simp: rep_def)
  show "rd left x s = Some (addr z l)" "rd right x s = Some (addr z r)" "rd red x s = Some c" "x \<in> alive s"
    using 1 by (auto simp: rd_def)
  show "rd red (addr z l) s = Some (is_red l)" "rd red (addr z r) s = Some (is_red r)"
    using 1 by (auto intro!: rd_red)
  show "l \<noteq> Leaf \<Longrightarrow> rd parent (addr z l) s = Some x" "r \<noteq> Leaf \<Longrightarrow> rd parent (addr z r) s = Some x"
    using 1 by (auto intro!: rd_parent)
  have d': "distinct (z # nodes l @ x # nodes r)" using d by (auto simp: nodes_plug)
  then show "x \<noteq> z" "addr z l \<noteq> x" "addr z r \<noteq> x"
    using addr_cases[of z l] addr_cases[of z r] by auto
  show "addr z l = addr z r \<longleftrightarrow> l = Leaf \<and> r = Leaf"
    using d' by (cases l; cases r) auto
qed

lemma rep_root:
  assumes "rep z s k (Node l x c r)"
  shows "root s = x \<longleftrightarrow> k = []"
proof -
  obtain p where "linkedc z s k p x" "distinct (z # nodes (plug k (Node l x c r)))"
    using assms by (auto simp: rep_def)
  then show ?thesis using root_is_focus[of z s k p x] by (auto simp: nodes_plug)
qed

lemma rep_root_addr: "rep z s k t \<Longrightarrow> root s = addr z (plug k t)"
  by (subst (asm) rep_plug) (auto simp: rep_def)

lemma rep_sentinel: "rep z s k t \<Longrightarrow> z \<in> alive s \<and> \<not> red s z"
  by (simp add: rep_def sentinel_ok_def)

lemma rep_parent:
  assumes "rep z s (F # k) (Node l x c r)"
  shows "rd parent x s = Some (fnode F)"
  using assms rep_node(6)[of z s k "Node l x c r"] rep_node(7)[of z s k _ _ _ "Node l x c r"] by (cases F) auto

section \<open>The insertion fix-up\<close>

lemma black_root:
  assumes "rep z s k t" "plug k t \<noteq> Leaf"
  shows "\<exists>s'. ngx_rbt_black (root s) s = Some s' \<and> rep z s' [] (paint False (plug k t)) \<and> kept z s s'"
proof -
  obtain l x c r where t: "plug k t = Node l x c r" using assms(2) by (cases "plug k t") auto
  have "rep z s [] (Node l x c r)" using assms(1) t rep_plug[of z s k t] by simp
  then show ?thesis
    using set_red_focus[of z s "[]" l x c r False] rep_root_addr[OF assms(1)] t by (simp add: ngx_rbt_black_def)
qed

lemma fixup_red_uncle_left:
  assumes r: "rep z s k (Node (Node pl p True pr) g c u)" and u: "is_red u"
    and x: "rd parent x s = Some p" "root s \<noteq> x"
  shows "\<exists>s'. insert_fixup z x s = insert_fixup z g s' \<and>
    rep z s' k (Node (Node pl p False pr) g True (paint False u)) \<and> kept z s s'"
proof -
  obtain ul q ud ur where u': "u = Node ul q ud ur" "ud" using u by (cases u) auto
  obtain s1 where 1: "ngx_rbt_black p s = Some s1" "rep z s1 k (Node (Node pl p False pr) g c u)" "kept z s s1"
    using set_red_focus[of z s "LeftOf g c u # k" pl p True pr False] r by (auto simp: ngx_rbt_black_def)
  obtain s2 where 2: "ngx_rbt_black q s1 = Some s2" "rep z s2 k (Node (Node pl p False pr) g c (paint False u))" "kept z s1 s2"
    using set_red_focus[of z s1 "RightOf (Node pl p False pr) g c # k" ul q ud ur False] 1 u' by (auto simp: ngx_rbt_black_def)
  obtain s3 where 3: "ngx_rbt_red g s2 = Some s3" "rep z s3 k (Node (Node pl p False pr) g True (paint False u))" "kept z s2 s3"
    using set_red_focus[of z s2 k "Node pl p False pr" g c "paint False u" True] 2 by (auto simp: ngx_rbt_red_def)
  have "insert_fixup z x s = insert_fixup z g s3"
    using rep_node[OF r] rep_node[of z s "LeftOf g c u # k" pl p True pr] r x 1 2 3 u'
    apply (subst insert_fixup.simps) 
    apply (simp add: ngx_rbt_is_red_def)
 done
  then show ?thesis using 3 1 2 kept_trans by blast
qed

lemma fixup_red_uncle_right:
  assumes r: "rep z s k (Node u g c (Node pl p True pr))" and u: "is_red u"
    and x: "rd parent x s = Some p" "root s \<noteq> x"
  shows "\<exists>s'. insert_fixup z x s = insert_fixup z g s' \<and>
    rep z s' k (Node (paint False u) g True (Node pl p False pr)) \<and> kept z s s'"
proof -
  obtain ul q ud ur where u': "u = Node ul q ud ur" "ud" using u by (cases u) auto
  obtain s1 where 1: "ngx_rbt_black p s = Some s1" "rep z s1 k (Node u g c (Node pl p False pr))" "kept z s s1"
    using set_red_focus[of z s "RightOf u g c # k" pl p True pr False] r by (auto simp: ngx_rbt_black_def)
  obtain s2 where 2: "ngx_rbt_black q s1 = Some s2" "rep z s2 k (Node (paint False u) g c (Node pl p False pr))" "kept z s1 s2"
    using set_red_focus[of z s1 "LeftOf g c (Node pl p False pr) # k" ul q ud ur False] 1 u' by (auto simp: ngx_rbt_black_def)
  obtain s3 where 3: "ngx_rbt_red g s2 = Some s3" "rep z s3 k (Node (paint False u) g True (Node pl p False pr))" "kept z s2 s3"
    using set_red_focus[of z s2 k "paint False u" g c "Node pl p False pr" True] 2 by (auto simp: ngx_rbt_red_def)
  have "insert_fixup z x s = insert_fixup z g s3"
    using rep_node[OF r] rep_node[of z s "RightOf u g c # k" pl p True pr] r x 1 2 3 u'
    by (subst insert_fixup.simps) (auto simp: ngx_rbt_is_red_def)
  then show ?thesis using 3 1 2 kept_trans by blast
qed

text \<open>The outer child: one rotation; the parent of the node is then black.\<close>

lemma recolour_rotate_right:
  assumes r: "rep z s k (Node (Node pl p pc pr) g c u)"
  shows "\<exists>s1 s2 s3. ngx_rbt_black p s = Some s1 \<and> ngx_rbt_red g s1 = Some s2 \<and> rd parent p s1 = Some g \<and>
    ngx_rbtree_right_rotate z g s2 = Some s3 \<and> rep z s3 k (Node pl p False (Node pr g True u)) \<and> kept z s s3"
proof -
  obtain s1 where 1: "ngx_rbt_black p s = Some s1" "rep z s1 k (Node (Node pl p False pr) g c u)" "kept z s s1"
    using set_red_focus[of z s "LeftOf g c u # k" pl p pc pr False] r by (auto simp: ngx_rbt_black_def)
  obtain s2 where 2: "ngx_rbt_red g s1 = Some s2" "rep z s2 k (Node (Node pl p False pr) g True u)" "kept z s1 s2"
    using set_red_focus[of z s1 k "Node pl p False pr" g c u True] 1 by (auto simp: ngx_rbt_red_def)
  obtain s3 where 3: "ngx_rbtree_right_rotate z g s2 = Some s3" "rep z s3 k (Node pl p False (Node pr g True u))" "kept z s2 s3"
    using right_rotate[OF 2(2)] by auto
  show ?thesis using 1 2 3 rep_node[OF 1(2)] kept_trans by (metis addr.simps(2) rbt.distinct(1))
qed

lemma recolour_rotate_left:
  assumes r: "rep z s k (Node u g c (Node pl p pc pr))"
  shows "\<exists>s1 s2 s3. ngx_rbt_black p s = Some s1 \<and> ngx_rbt_red g s1 = Some s2 \<and> rd parent p s1 = Some g \<and>
    ngx_rbtree_left_rotate z g s2 = Some s3 \<and> rep z s3 k (Node (Node u g True pl) p False pr) \<and> kept z s s3"
proof -
  obtain s1 where 1: "ngx_rbt_black p s = Some s1" "rep z s1 k (Node u g c (Node pl p False pr))" "kept z s s1"
    using set_red_focus[of z s "RightOf u g c # k" pl p pc pr False] r by (auto simp: ngx_rbt_black_def)
  obtain s2 where 2: "ngx_rbt_red g s1 = Some s2" "rep z s2 k (Node u g True (Node pl p False pr))" "kept z s1 s2"
    using set_red_focus[of z s1 k u g c "Node pl p False pr" True] 1 by (auto simp: ngx_rbt_red_def)
  obtain s3 where 3: "ngx_rbtree_left_rotate z g s2 = Some s3" "rep z s3 k (Node (Node u g True pl) p False pr)" "kept z s2 s3"
    using left_rotate[OF 2(2)] by auto
  show ?thesis using 1 2 3 rep_node[OF 1(2)] kept_trans by (metis addr.simps(2) rbt.distinct(1))
qed

lemma fixup_outer_left:
  assumes r: "rep z s k (Node (Node (Node l x True t) p True pr) g c u)" and u: "\<not> is_red u"
  shows "\<exists>s'. insert_fixup z x s = insert_fixup z x s' \<and>
    rep z s' k (Node (Node l x True t) p False (Node pr g True u)) \<and> kept z s s'"
proof -
  have p: "rep z s (LeftOf g c u # k) (Node (Node l x True t) p True pr)" using r by simp
  have x: "rep z s (LeftOf p True pr # LeftOf g c u # k) (Node l x True t)" using r by simp
  obtain s1 s2 s3 where s: "ngx_rbt_black p s = Some s1" "ngx_rbt_red g s1 = Some s2" "rd parent p s1 = Some g"
    "ngx_rbtree_right_rotate z g s2 = Some s3" "rep z s3 k (Node (Node l x True t) p False (Node pr g True u))" "kept z s s3"
    using recolour_rotate_right[OF r] by auto
  have "insert_fixup z x s = insert_fixup z x s3"
    using rep_node[OF r] rep_node[OF p] rep_root[OF x] rep_parent[OF x] rep_parent[OF p] s u
    by (subst insert_fixup.simps) (auto simp: ngx_rbt_is_red_def)
  then show ?thesis using s by blast
qed

lemma fixup_outer_right:
  assumes r: "rep z s k (Node u g c (Node pl p True (Node l x True t)))" and u: "\<not> is_red u"
  shows "\<exists>s'. insert_fixup z x s = insert_fixup z x s' \<and>
    rep z s' k (Node (Node u g True pl) p False (Node l x True t)) \<and> kept z s s'"
proof -
  have p: "rep z s (RightOf u g c # k) (Node pl p True (Node l x True t))" using r by simp
  have x: "rep z s (RightOf pl p True # RightOf u g c # k) (Node l x True t)" using r by simp
  obtain s1 s2 s3 where s: "ngx_rbt_black p s = Some s1" "ngx_rbt_red g s1 = Some s2" "rd parent p s1 = Some g"
    "ngx_rbtree_left_rotate z g s2 = Some s3" "rep z s3 k (Node (Node u g True pl) p False (Node l x True t))" "kept z s s3"
    using recolour_rotate_left[OF r] by auto
  have "insert_fixup z x s = insert_fixup z x s3"
    using rep_node[OF r] rep_node[OF p] rep_root[OF x] rep_parent[OF x] rep_parent[OF p] s u
    by (subst insert_fixup.simps) (auto simp: ngx_rbt_is_red_def)
  then show ?thesis using s by blast
qed

text \<open>The inner child: the rotation that makes it the outer one comes first.\<close>

lemma fixup_inner_left:
  assumes r: "rep z s k (Node (Node pl p True (Node l x True t)) g c u)" and u: "\<not> is_red u"
  shows "\<exists>s'. insert_fixup z x s = insert_fixup z p s' \<and>
    rep z s' k (Node (Node pl p True l) x False (Node t g True u)) \<and> kept z s s'"
proof -
  have p: "rep z s (LeftOf g c u # k) (Node pl p True (Node l x True t))" using r by simp
  have x: "rep z s (RightOf pl p True # LeftOf g c u # k) (Node l x True t)" using r by simp
  obtain s0 where s0: "ngx_rbtree_left_rotate z p s = Some s0" "rep z s0 k (Node (Node (Node pl p True l) x True t) g c u)" "kept z s s0"
    using left_rotate[OF p] by auto
  have p0: "rep z s0 (LeftOf x True t # LeftOf g c u # k) (Node pl p True l)" using s0 by simp
  obtain s1 s2 s3 where s: "ngx_rbt_black x s0 = Some s1" "ngx_rbt_red g s1 = Some s2" "rd parent x s1 = Some g"
    "ngx_rbtree_right_rotate z g s2 = Some s3" "rep z s3 k (Node (Node pl p True l) x False (Node t g True u))" "kept z s0 s3"
    using recolour_rotate_right[OF s0(2)] by auto
  have "insert_fixup z x s = insert_fixup z p s3"
    using rep_node[OF r] rep_node[OF p] rep_root[OF x] rep_parent[OF x] rep_parent[OF p] rep_parent[OF p0] s s0 u
    by (subst insert_fixup.simps) (auto simp: ngx_rbt_is_red_def)
  then show ?thesis using s s0 kept_trans by blast
qed

lemma fixup_inner_right:
  assumes r: "rep z s k (Node u g c (Node (Node l x True t) p True pr))" and u: "\<not> is_red u"
  shows "\<exists>s'. insert_fixup z x s = insert_fixup z p s' \<and>
    rep z s' k (Node (Node u g True l) x False (Node t p True pr)) \<and> kept z s s'"
proof -
  have p: "rep z s (RightOf u g c # k) (Node (Node l x True t) p True pr)" using r by simp
  have x: "rep z s (LeftOf p True pr # RightOf u g c # k) (Node l x True t)" using r by simp
  obtain s0 where s0: "ngx_rbtree_right_rotate z p s = Some s0" "rep z s0 k (Node u g c (Node l x True (Node t p True pr)))" "kept z s s0"
    using right_rotate[OF p] by auto
  have p0: "rep z s0 (RightOf l x True # RightOf u g c # k) (Node t p True pr)" using s0 by simp
  obtain s1 s2 s3 where s: "ngx_rbt_black x s0 = Some s1" "ngx_rbt_red g s1 = Some s2" "rd parent x s1 = Some g"
    "ngx_rbtree_left_rotate z g s2 = Some s3" "rep z s3 k (Node (Node u g True l) x False (Node t p True pr))" "kept z s0 s3"
    using recolour_rotate_left[OF s0(2)] by auto
  have "insert_fixup z x s = insert_fixup z p s3"
    using rep_node[OF r] rep_node[OF p] rep_root[OF x] rep_parent[OF x] rep_parent[OF p] rep_parent[OF p0] s s0 u
    by (subst insert_fixup.simps) (auto simp: ngx_rbt_is_red_def)
  then show ?thesis using s s0 kept_trans by blast
qed

text \<open>The loop ends at the root or below a black parent.\<close>

lemma fixup_end:
  assumes r: "rep z s k (Node l x c t)" and k: "\<And>F j. k = F # j \<Longrightarrow> \<not> fcolour F"
  shows "\<exists>s'. insert_fixup z x s = Some s' \<and> rep z s' [] (paint False (plug k (Node l x c t))) \<and> kept z s s'"
proof -
  have "plug k (Node l x c t) \<noteq> Leaf"
    by (metis in_set_conv_decomp append_is_Nil_conv list.discI nodes.simps nodes_plug)
  then obtain s' where s': "ngx_rbt_black (root s) s = Some s'"
    "rep z s' [] (paint False (plug k (Node l x c t)))" "kept z s s'"
    using black_root[OF r] by blast
  have "insert_fixup z x s = ngx_rbt_black (root s) s"
  proof (cases k)
    case Nil
    then show ?thesis using rep_root[OF r] by (subst insert_fixup.simps) auto
  next
    case (Cons F j)
    obtain l' r' where f: "fill F (Node l x c t) = Node l' (fnode F) False r'"
      using k[OF Cons] by (cases F) auto
    then have "rd red (fnode F) s = Some False" using r Cons rep_fill rep_node(3) by metis
    then show ?thesis using rep_root[OF r] rep_parent[OF r[unfolded Cons]] Cons
      by (subst insert_fixup.simps) (auto simp: ngx_rbt_is_red_def)
  qed
  then show ?thesis using s' by simp
qed

definition fixed :: "ptr \<Rightarrow> 'a rbheap_scheme \<Rightarrow> ptr list \<Rightarrow> 'a rbheap_scheme option \<Rightarrow> bool" where
  "fixed z s xs res \<longleftrightarrow> (\<exists>s' T. res = Some s' \<and> rep z s' [] T \<and> nodes T = xs \<and> red_black T \<and> kept z s s')"

lemma fixed_step: "kept z s s1 \<Longrightarrow> fixed z s1 xs res \<Longrightarrow> fixed z s xs res"
  unfolding fixed_def using kept_trans by blast

lemma fixed_end:
  assumes r: "rep z s k (Node l x c t)" and k: "\<And>F j. k = F # j \<Longrightarrow> \<not> fcolour F"
    and i: "red_black (paint False (plug k (Node l x c t)))"
  shows "fixed z s (nodes (plug k (Node l x c t))) (insert_fixup z x s)"
proof -
  obtain s' where "insert_fixup z x s = Some s'" "rep z s' [] (paint False (plug k (Node l x c t)))" "kept z s s'"
    using fixup_end[OF r] k by blast
  then show ?thesis unfolding fixed_def using i nodes_paint by blast
qed

lemma red_black_paint:
  assumes "no_red_red t" "balanced t" shows "red_black (paint False t)"
  using assms by (simp add: red_black_def no_red_red_paint)

lemma insert_fixup_correct:
  assumes "rep z s k (Node l x True r)"
    and "no_red_red (Node l x True r)" "fits_colour k False"
    and "balanced (Node l x True r)" "fits_height k (black_height l)" "root_black k"
  shows "fixed z s (nodes (plug k (Node l x True r))) (insert_fixup z x s)"
  using assms
proof (induction "List.length k" arbitrary: s k l x r rule: less_induct)
  case less
  note r = less.prems(1)
  show ?case
  proof (cases "\<exists>F j. k = F # j \<and> fcolour F")
    case False
    then have "no_red_red (plug k (Node l x True r))" "balanced (plug k (Node l x True r))"
      using less.prems by (auto simp: no_red_red_plug balanced_plug) (cases k; auto split: frame.splits)
    then show ?thesis using False r by (intro fixed_end red_black_paint) auto
  next
    case True
    then obtain F G j where k: "k = F # G # j" "fcolour F"
      using less.prems(6) by (metis neq_Nil_conv root_black_simps(2))
    have IH: "fixed z s (nodes (plug k (Node l x True r))) (insert_fixup z x s)"
      if "insert_fixup z x s = insert_fixup z g s'" "rep z s' j (Node a g True b)" "kept z s s'"
        "no_red_red (Node a g True b)" "fits_colour j False" "balanced (Node a g True b)"
        "fits_height j (black_height a)" "nodes (Node a g True b) = nodes (plug [F, G] (Node l x True r))" for g s' a b
    proof -
      have "root_black j" using less.prems(6) k by (cases "j = []") auto
      then have "fixed z s' (nodes (plug j (Node a g True b))) (insert_fixup z g s')"
        using that k by (intro less.hyps) auto
      moreover have "nodes (plug k (Node l x True r)) = nodes (plug j (Node a g True b))"
        using that(8) k by (simp only: plug.simps nodes_plug[of j])
      ultimately show ?thesis using that(1,3) fixed_step by metis
    qed
    have E: "fixed z s (nodes (plug k (Node l x True r))) (insert_fixup z x s)"
      if "insert_fixup z x s = insert_fixup z y s'" "rep z s' (F' # j) (Node a y True b)" "kept z s s'" "\<not> fcolour F'"
        "no_red_red (plug (F' # j) (Node a y True b))" "balanced (plug (F' # j) (Node a y True b))"
        "nodes (fill F' (Node a y True b)) = nodes (plug [F, G] (Node l x True r))" for y s' a b F'
    proof -
      have "fixed z s' (nodes (plug (F' # j) (Node a y True b))) (insert_fixup z y s')"
        using that by (intro fixed_end red_black_paint) auto
      moreover have "nodes (plug k (Node l x True r)) = nodes (plug (F' # j) (Node a y True b))"
        using that(7) k by (simp only: plug.simps nodes_plug[of j])
      ultimately show ?thesis using that(1,3) fixed_step by metis
    qed
    show ?thesis
    proof (cases G)
      case G: (LeftOf g c u)
      show ?thesis
      proof (cases F)
        case F: (LeftOf p d w)
        have r': "rep z s j (Node (Node (Node l x True r) p True w) g c u)" using r k F G by simp
        show ?thesis
        proof (cases "is_red u")
          case True
          with fixup_red_uncle_left[OF r' True] rep_parent[OF r[unfolded k]] rep_root[OF r] k F
          obtain s' where "insert_fixup z x s = insert_fixup z g s'"
            "rep z s' j (Node (Node (Node l x True r) p False w) g True (paint False u))" "kept z s s'" by auto
          then show ?thesis
            by (rule IH) (use less.prems k F G True in \<open>auto simp: no_red_red_paint black_height_paint_black\<close>)
        next
          case False
          obtain s' where "insert_fixup z x s = insert_fixup z x s'"
            "rep z s' (LeftOf p False (Node w g True u) # j) (Node l x True r)" "kept z s s'"
            using fixup_outer_left[OF r' False] by auto
          then show ?thesis
            by (rule E) (use less.prems k F G False in \<open>auto simp: no_red_red_plug balanced_plug\<close>)
        qed
      next
        case F: (RightOf w p d)
        have r': "rep z s j (Node (Node w p True (Node l x True r)) g c u)" using r k F G by simp
        show ?thesis
        proof (cases "is_red u")
          case True
          with fixup_red_uncle_left[OF r' True] rep_parent[OF r[unfolded k]] rep_root[OF r] k F
          obtain s' where "insert_fixup z x s = insert_fixup z g s'"
            "rep z s' j (Node (Node w p False (Node l x True r)) g True (paint False u))" "kept z s s'" by auto
          then show ?thesis
            by (rule IH) (use less.prems k F G True in \<open>auto simp: no_red_red_paint black_height_paint_black\<close>)
        next
          case False
          obtain s' where "insert_fixup z x s = insert_fixup z p s'"
            "rep z s' (LeftOf x False (Node r g True u) # j) (Node w p True l)" "kept z s s'"
            using fixup_inner_left[OF r' False] by auto
          then show ?thesis
            by (rule E) (use less.prems k F G False in \<open>auto simp: no_red_red_plug balanced_plug\<close>)
        qed
      qed
    next
      case G: (RightOf u g c)
      show ?thesis
      proof (cases F)
        case F: (LeftOf p d w)
        have r': "rep z s j (Node u g c (Node (Node l x True r) p True w))" using r k F G by simp
        show ?thesis
        proof (cases "is_red u")
          case True
          with fixup_red_uncle_right[OF r' True] rep_parent[OF r[unfolded k]] rep_root[OF r] k F
          obtain s' where "insert_fixup z x s = insert_fixup z g s'"
            "rep z s' j (Node (paint False u) g True (Node (Node l x True r) p False w))" "kept z s s'" by auto
          then show ?thesis
            by (rule IH) (use less.prems k F G True in \<open>auto simp: no_red_red_paint black_height_paint_black\<close>)
        next
          case False
          obtain s' where "insert_fixup z x s = insert_fixup z p s'"
            "rep z s' (RightOf (Node u g True l) x False # j) (Node r p True w)" "kept z s s'"
            using fixup_inner_right[OF r' False] by auto
          then show ?thesis
            by (rule E) (use less.prems k F G False in \<open>auto simp: no_red_red_plug balanced_plug\<close>)
        qed
      next
        case F: (RightOf w p d)
        have r': "rep z s j (Node u g c (Node w p True (Node l x True r)))" using r k F G by simp
        show ?thesis
        proof (cases "is_red u")
          case True
          with fixup_red_uncle_right[OF r' True] rep_parent[OF r[unfolded k]] rep_root[OF r] k F
          obtain s' where "insert_fixup z x s = insert_fixup z g s'"
            "rep z s' j (Node (paint False u) g True (Node w p False (Node l x True r)))" "kept z s s'" by auto
          then show ?thesis
            by (rule IH) (use less.prems k F G True in \<open>auto simp: no_red_red_paint black_height_paint_black\<close>)
        next
          case False
          obtain s' where "insert_fixup z x s = insert_fixup z x s'"
            "rep z s' (RightOf (Node u g True w) p False # j) (Node l x True r)" "kept z s s'"
            using fixup_outer_right[OF r' False] by auto
          then show ?thesis
            by (rule E) (use less.prems k F G False in \<open>auto simp: no_red_red_plug balanced_plug\<close>)
        qed
      qed
    qed
  qed
qed

section \<open>The search for the place of a new node\<close>

primrec descend :: "(ptr \<Rightarrow> bool) \<Rightarrow> rbt \<Rightarrow> frame list \<Rightarrow> frame list" where
  "descend g Leaf k = k"
| "descend g (Node l x c r) k = (if g x then descend g l (LeftOf x c r # k) else descend g r (RightOf l x c # k))"

lemma plug_descend: "plug (descend g t k) Leaf = plug k t"
  by (induction t arbitrary: k) auto

lemma descend_nodes:
  "sorted_wrt (\<lambda>a b. g a \<longrightarrow> g b) (nodes t) \<Longrightarrow>
   before (descend g t k) = before k @ filter (\<lambda>a. \<not> g a) (nodes t) \<and>
   after (descend g t k) = filter g (nodes t) @ after k"
proof (induction t arbitrary: k)
  case (Node l x c r)
  have "g x \<Longrightarrow> filter g (nodes r) = nodes r \<and> filter (\<lambda>a. \<not> g a) (nodes r) = []"
    "\<not> g x \<Longrightarrow> filter g (nodes l) = [] \<and> filter (\<lambda>a. \<not> g a) (nodes l) = nodes l"
    using Node.prems by (auto simp: sorted_wrt_append filter_empty_conv filter_id_conv)
  then show ?case using Node.prems Node.IH(1)[of "LeftOf x c r # k"] Node.IH(2)[of "RightOf l x c # k"]
    by (cases "g x") (simp_all add: sorted_wrt_append)
qed simp

lemma attach:
  assumes r: "rep z s (F # k) Leaf" and x: "x \<in> alive s" "x \<notin> set (nodes (plug (F # k) Leaf))" "x \<noteq> z"
    and s': "left s' = (if \<exists>y c r. F = LeftOf y c r then (left s)(fnode F := x, x := z) else (left s)(x := z))"
      "right s' = (if \<exists>y c r. F = LeftOf y c r then (right s)(x := z) else (right s)(fnode F := x, x := z))"
      "parent s' = (parent s)(x := fnode F)" "red s' = (red s)(x := True)"
      "alive s' = alive s" "root s' = root s" "key s' = key s" "rbheap.more s' = rbheap.more s"
  shows "rep z s' (F # k) (Node Leaf x True Leaf) \<and> kept z s s'"
proof -
  have d: "distinct (z # before (F # k) @ after (F # k))" "sentinel_ok z s"
    using r nodes_plug[of "F # k" Leaf] by (simp_all add: rep_def del: plug.simps before.simps after.simps)
  obtain p where c: "linkedc z s (F # k) p z"
    using r by (auto simp: rep_def)
  have xn: "x \<notin> set (before (F # k) @ after (F # k))" using x by (simp add: nodes_plug del: plug.simps)
  have u: "unchanged s s' A" if "x \<notin> A" "fnode F \<notin> A" for A
    using that by (auto simp: unchanged_def s')
  have p: "p = fnode F" using c by simp
  have "linkedc z s' (F # k) p x"
  proof (cases F)
    case (LeftOf y c' t)
    have "linkedc z s' k (parent s p) p = linkedc z s k (parent s p) p"
      using d xn LeftOf p by (intro linkedc_cong u) (auto simp: s')
    moreover have "linked z s' y t = linked z s y t"
      using d xn LeftOf p by (intro linked_cong u) auto
    ultimately show ?thesis using c LeftOf p xn by (auto simp: s')
  next
    case (RightOf t y c')
    have "linkedc z s' k (parent s p) p = linkedc z s k (parent s p) p"
      using d xn RightOf p by (intro linkedc_cong u) (auto simp: s')
    moreover have "linked z s' y t = linked z s y t"
      using d xn RightOf p by (intro linked_cong u) auto
    ultimately show ?thesis using c RightOf p xn by (auto simp: s')
  qed
  moreover have "linked z s' p (Node Leaf x True Leaf)" using x p by (auto simp: s')
  moreover have "distinct (z # nodes (plug (F # k) (Node Leaf x True Leaf)))"
    using d xn x unfolding nodes_plug by auto
  moreover have "sentinel_ok z s'" using d x by (auto simp: sentinel_ok_def s')
  ultimately have "rep z s' (F # k) (Node Leaf x True Leaf)" unfolding rep_def by auto
  moreover have "kept z s s'" using x by (auto simp: kept_def s')
  ultimately show ?thesis by simp
qed

lemma insert_loop_place:
  assumes "rep z s k t" "t \<noteq> Leaf" "x \<in> alive s" "x \<notin> set (nodes (plug k t))" "x \<noteq> z"
  shows "\<exists>s'. insert_loop lt (addr z t) x z s = Some s' \<and> kept z s s' \<and>
    rep z s' (descend (\<lambda>a. lt (key s x) (key s a)) t k) (Node Leaf x True Leaf)"
  using assms
proof (induction t arbitrary: k)
  case (Node l y c r)
  note n = rep_node[OF Node.prems(1)]
  have y: "y \<noteq> x" using Node.prems(4) by (auto simp: nodes_plug)
  let ?g = "lt (key s x) (key s y)"
  let ?F = "if ?g then LeftOf y c r else RightOf l y c" and ?t = "if ?g then l else r"
  have f: "rep z s (?F # k) ?t" "plug (?F # k) ?t = plug k (Node l y c r)" using Node.prems(1) by auto
  show ?case
  proof (cases "?t = Leaf")
    case True
    have x: "x \<notin> set (nodes (plug (?F # k) Leaf))" using Node.prems(4) f(2) True by simp
    define s' where "s' = s\<lparr>parent := (parent s)(x := y),
      left := (if ?g then (left s)(y := x, x := z) else (left s)(x := z)),
      right := (if ?g then (right s)(x := z) else (right s)(y := x, x := z)), red := (red s)(x := True)\<rparr>"
    have s': "insert_loop lt y x z s = Some s'"
      using n(1,2,8) Node.prems(3) True y
      by (subst insert_loop.simps, cases ?g)
        (simp_all add: s'_def rd_def set_left_def set_right_def set_parent_def set_red_def ngx_rbt_red_def)
    have e: "left s' = (if \<exists>y c r. ?F = LeftOf y c r then (left s)(fnode ?F := x, x := z) else (left s)(x := z))"
      "right s' = (if \<exists>y c r. ?F = LeftOf y c r then (right s)(x := z) else (right s)(fnode ?F := x, x := z))"
      "parent s' = (parent s)(x := fnode ?F)" "red s' = (red s)(x := True)"
      "alive s' = alive s" "root s' = root s" "key s' = key s" "rbheap.more s' = rbheap.more s"
      by (cases ?g; simp add: s'_def)+
    show ?thesis
      using attach[OF f(1)[unfolded True] Node.prems(3) x Node.prems(5) e] s' True by auto
  next
    case False
    then have z: "addr z ?t \<noteq> z" using f(1) by (cases ?t) (auto dest!: rep_node(9))
    have "insert_loop lt y x z s = insert_loop lt (addr z ?t) x z s"
      using n Node.prems z by (subst insert_loop.simps) (auto simp: rd_def)
    then show ?thesis
      using Node.IH(1)[of "?F # k"] Node.IH(2)[of "?F # k"] f False Node.prems by (auto split: if_splits)
  qed
qed simp

section \<open>The search tree\<close>

text \<open>
  The nodes in order: what a client of the tree sees. The order of the keys is a strict weak order on the
  set \<open>K\<close> of the keys in use.
\<close>

definition is_rbtree :: "ptr \<Rightarrow> 'a rbheap_scheme \<Rightarrow> ptr list \<Rightarrow> bool" where
  "is_rbtree z s xs \<longleftrightarrow> (\<exists>t. rep z s [] t \<and> red_black t \<and> nodes t = xs)"

lemma is_rbtree_distinct: "is_rbtree z s xs \<Longrightarrow> distinct (z # xs)"
  by (auto simp: is_rbtree_def rep_def)

lemma linked_alive: "linked z s p t \<Longrightarrow> x \<in> set (nodes t) \<Longrightarrow> x \<in> alive s"
  by (induction t arbitrary: p) auto

lemma is_rbtree_alive: "is_rbtree z s xs \<Longrightarrow> set (z # xs) \<subseteq> alive s"
  by (auto simp: is_rbtree_def rep_def sentinel_ok_def linked_alive)

lemma is_rbtree_empty: "is_rbtree z s xs \<Longrightarrow> root s = z \<longleftrightarrow> xs = []"
proof -
  assume "is_rbtree z s xs"
  then obtain t where t: "root s = addr z t" "z \<notin> set (nodes t)" "nodes t = xs"
    by (auto simp: is_rbtree_def rep_def)
  then show ?thesis by (cases t) auto
qed

lemma init_rbtree:
  "z \<in> alive s \<Longrightarrow> \<exists>s'. ngx_rbtree_init z s = Some s' \<and> is_rbtree z s' [] \<and>
     alive s' = alive s \<and> key s' = key s \<and> rbheap.more s' = rbheap.more s"
  by (auto simp: ngx_rbtree_init_def ngx_rbt_black_def set_red_def is_rbtree_def rep_def red_black_def
      sentinel_ok_def intro!: exI[of _ Leaf])

definition ordered :: "(64 word \<Rightarrow> 64 word \<Rightarrow> bool) \<Rightarrow> (ptr \<Rightarrow> 64 word) \<Rightarrow> ptr list \<Rightarrow> bool" where
  "ordered lt f xs \<longleftrightarrow> sorted_wrt (\<lambda>a b. \<not> lt (f b) (f a)) xs"

text \<open>The list after an insertion: behind the nodes whose key is not greater.\<close>

definition insert_behind :: "(64 word \<Rightarrow> 64 word \<Rightarrow> bool) \<Rightarrow> (ptr \<Rightarrow> 64 word) \<Rightarrow> ptr \<Rightarrow> ptr list \<Rightarrow> ptr list" where
  "insert_behind lt f x xs = filter (\<lambda>a. \<not> lt (f x) (f a)) xs @ x # filter (\<lambda>a. lt (f x) (f a)) xs"

locale key_order =
  fixes lt :: "64 word \<Rightarrow> 64 word \<Rightarrow> bool" and K :: "64 word set"
  assumes asym: "a \<in> K \<Longrightarrow> b \<in> K \<Longrightarrow> lt a b \<Longrightarrow> \<not> lt b a"
    and ntrans: "a \<in> K \<Longrightarrow> b \<in> K \<Longrightarrow> c \<in> K \<Longrightarrow> \<not> lt b a \<Longrightarrow> \<not> lt c b \<Longrightarrow> \<not> lt c a"
begin

lemma trans_less: "a \<in> K \<Longrightarrow> b \<in> K \<Longrightarrow> c \<in> K \<Longrightarrow> lt a b \<Longrightarrow> \<not> lt c b \<Longrightarrow> lt a c"
  using ntrans by blast

lemma ordered_insert_behind:
  assumes "ordered lt f xs" "f ` set (x # xs) \<subseteq> K"
  shows "ordered lt f (insert_behind lt f x xs)"
proof -
  have "ordered lt f (filter P xs)" for P using assms(1) by (simp add: ordered_def sorted_wrt_filter)
  moreover have "\<not> lt (f b) (f a)" if "a \<in> set xs" "b \<in> set xs" "\<not> lt (f x) (f a)" "lt (f x) (f b)" for a b
    using that assms(2) asym[of "f x" "f b"] ntrans[of "f a" "f x" "f b"] by auto
  moreover have "\<not> lt (f b) (f x)" if "b \<in> set xs" "lt (f x) (f b)" for b
    using that assms(2) asym[of "f x" "f b"] by auto
  ultimately show ?thesis by (auto simp: insert_behind_def ordered_def sorted_wrt_append)
qed

lemma insert_value:
  assumes t: "is_rbtree z s xs" "ordered lt (key s) xs"
    and x: "x \<in> alive s" "x \<notin> set (z # xs)" and K: "key s ` set (x # xs) \<subseteq> K"
  shows "\<exists>s'. ngx_rbtree_insert (insert_loop lt) z x s = Some s' \<and>
    is_rbtree z s' (insert_behind lt (key s) x xs) \<and> ordered lt (key s) (insert_behind lt (key s) x xs) \<and>
    alive s' = alive s \<and> key s' = key s \<and> rbheap.more s' = rbheap.more s"
proof -
  obtain t where t: "rep z s [] t" "red_black t" "nodes t = xs" using t by (auto simp: is_rbtree_def)
  have "ordered lt (key s) (insert_behind lt (key s) x xs)"
    using assms by (intro ordered_insert_behind) auto
  moreover have "\<exists>s'. ngx_rbtree_insert (insert_loop lt) z x s = Some s' \<and>
    is_rbtree z s' (insert_behind lt (key s) x xs) \<and> kept z s s'"
  proof (cases t)
    case Leaf
    then show ?thesis using t x by (auto simp: ngx_rbtree_insert_def rep_def set_parent_def set_left_def set_right_def
      ngx_rbt_black_def set_red_def is_rbtree_def red_black_def insert_behind_def kept_def sentinel_ok_def
      intro!: exI[of _ "Node Leaf x False Leaf"])
  next
    case (Node l y c r)
    let ?g = "\<lambda>a. lt (key s x) (key s a)" and ?n = "Node Leaf x True Leaf"
    obtain s1 where 1: "insert_loop lt (addr z t) x z s = Some s1" "kept z s s1" "rep z s1 (descend ?g t []) ?n"
      using insert_loop_place[OF t(1), of x lt] Node x t(3) by auto
    have rb: "red_black (plug (descend ?g t []) Leaf)" using t(2) by (simp add: plug_descend)
    have "sorted_wrt (\<lambda>a b. ?g a \<longrightarrow> ?g b) xs"
      using assms(2) unfolding ordered_def
      by (rule sorted_wrt_mono_rel[rotated]) (use K in \<open>auto dest: trans_less\<close>)
    from descend_nodes[OF this[folded t(3)]] have n: "nodes (plug (descend ?g t []) ?n) = insert_behind lt (key s) x xs"
      by (simp add: nodes_plug insert_behind_def t(3))
    have "fixed z s1 (nodes (plug (descend ?g t []) ?n)) (insert_fixup z x s1)"
      using 1(3) rb by (intro insert_fixup_correct) (auto simp: red_black_plug)
    then have "fixed z s (insert_behind lt (key s) x xs) (insert_fixup z x s1)"
      using 1(2) n fixed_step by metis
    moreover have "root s = addr z t" "addr z t \<noteq> z"
      using rep_root_addr[OF t(1)] rep_node(9)[OF t(1)[unfolded Node]] Node by auto
    ultimately show ?thesis using 1(1)
      by (auto simp: fixed_def is_rbtree_def ngx_rbtree_insert_def)
  qed
  ultimately show ?thesis by (auto simp: kept_def)
qed

end

section \<open>The two orders of keys\<close>

text \<open>
  Time in milliseconds wraps around. Two times are comparable when both lie in a window of \<open>2^63\<close>
  milliseconds that starts at some \<open>b\<close>.
\<close>

definition timer_window :: "64 word \<Rightarrow> 64 word set" where
  "timer_window b = {k. uint (k - b) < 2 ^ 63}"

lemma sint_diff_window:
  assumes "a \<in> timer_window b" "c \<in> timer_window b"
  shows "sint (a - c) = uint (a - b) - uint (c - b)"
proof -
  let ?i = "uint (a - b) - uint (c - b)"
  have "a - c = (a - b) - (c - b)" by simp
  also have "\<dots> = word_of_int ?i" by simp
  finally have "sint (a - c) = signed_take_bit 63 ?i" using sint_sbintrunc'[of ?i, where 'a = 64] by simp
  moreover have "- (2 ^ 63) \<le> ?i" "?i < 2 ^ 63"
    using assms uint_nonnegative[of "a - b"] uint_nonnegative[of "c - b"]
    unfolding timer_window_def mem_Collect_eq by linarith+
  ultimately show ?thesis by (simp add: signed_take_bit_int_eq_self)
qed

lemma timer_less_window:
  "a \<in> timer_window b \<Longrightarrow> c \<in> timer_window b \<Longrightarrow> timer_less a c \<longleftrightarrow> uint (a - b) < uint (c - b)"
  using sint_diff_window[of a b c] by (auto simp: timer_less_def)

interpretation timer: key_order timer_less "timer_window b" for b
  by unfold_locales (auto simp: timer_less_window)

interpretation by_value: key_order value_less UNIV
  by unfold_locales (auto simp: value_less_def)

section \<open>The footprint of insertion\<close>

text \<open>
  \<open>local_op f g\<close>: a run of \<open>f\<close> writes no field of an address that is not a node of its heap, and \<open>g\<close> does the same on a
  heap with more nodes. With \<open>f = g\<close> this is the frame property: the run on the nodes of one tree is the run on the whole
  heap.
\<close>

definition local_at :: "('a rbheap_scheme \<Rightarrow> 'a rbheap_scheme option) \<Rightarrow> 'a rbheap_scheme \<Rightarrow> 'a rbheap_scheme \<Rightarrow> bool" where
  "local_at g s s' \<longleftrightarrow> alive s' = alive s \<and> unchanged s s' (- alive s) \<and>
     (\<forall>C. alive s \<subseteq> C \<longrightarrow> g (s\<lparr>alive := C\<rparr>) = Some (s'\<lparr>alive := C\<rparr>))"

definition local_op :: "('a rbheap_scheme \<Rightarrow> 'a rbheap_scheme option) \<Rightarrow> ('a rbheap_scheme \<Rightarrow> 'a rbheap_scheme option) \<Rightarrow> bool" where
  "local_op f g \<longleftrightarrow> (\<forall>s s'. f s = Some s' \<longrightarrow> local_at g s s')"

lemma local_rd:
  assumes "\<And>v. local_op (f v) (g v)" "\<And>s C. k (s\<lparr>alive := C\<rparr>) = k s"
  shows "local_op (\<lambda>s. rd k x s \<bind> (\<lambda>v. f v s)) (\<lambda>s. rd k x s \<bind> (\<lambda>v. g v s))"
  using assms(1) unfolding local_op_def local_at_def by (auto simp: rd_def subset_iff assms(2) split: if_splits)

lemma local_rd_if:
  assumes "\<And>v. local_op (f v) (g v)" "\<And>s C. k (s\<lparr>alive := C\<rparr>) = k s" "\<And>s C. l (s\<lparr>alive := C\<rparr>) = l s"
  shows "local_op (\<lambda>s. (if b then rd k x s else rd l x s) \<bind> (\<lambda>v. f v s)) (\<lambda>s. (if b then rd k x s else rd l x s) \<bind> (\<lambda>v. g v s))"
  using local_rd[of f g k x] local_rd[of f g l x] assms by (cases b) simp_all

lemma local_bind:
  assumes "local_op f f'" "local_op g g'"
  shows "local_op (\<lambda>s. f s \<bind> g) (\<lambda>s. f' s \<bind> g')"
  unfolding local_op_def
proof (intro allI impI)
  fix s s' assume "f s \<bind> g = Some s'"
  then obtain s1 where "f s = Some s1" "g s1 = Some s'" by (auto simp: Option.bind_eq_Some_conv)
  then have "local_at f' s s1" "local_at g' s1 s'" using assms by (simp_all add: local_op_def)
  then show "local_at (\<lambda>s. f' s \<bind> g') s s'" by (simp add: local_at_def unchanged_def)
qed

lemma local_if:
  assumes "local_op f f'" "local_op g g'"
  shows "local_op (\<lambda>s. if b then f s else g s) (\<lambda>s. if b then f' s else g' s)"
    "local_op (\<lambda>s. if x = root s then f s else g s) (\<lambda>s. if x = root s then f' s else g' s)"
  using assms unfolding local_op_def local_at_def by simp_all

lemma local_some: "local_op Some Some" "local_op (\<lambda>s. Some (s\<lparr>root := t\<rparr>)) (\<lambda>s. Some (s\<lparr>root := t\<rparr>))"
  by (simp_all add: local_op_def local_at_def unchanged_def)

lemma local_set:
  "local_op (set_left x v) (set_left x v)" "local_op (set_right x v) (set_right x v)"
  "local_op (set_parent x v) (set_parent x v)" "local_op (set_red x b) (set_red x b)"
  "local_op (ngx_rbt_red x) (ngx_rbt_red x)" "local_op (ngx_rbt_black x) (ngx_rbt_black x)"
  "local_op (\<lambda>s. ngx_rbt_black (root s) s) (\<lambda>s. ngx_rbt_black (root s) s)"
  by (auto simp: local_op_def local_at_def unchanged_def set_left_def set_right_def set_parent_def set_red_def
      ngx_rbt_red_def ngx_rbt_black_def split: if_splits)

text \<open>The step that may rotate first and then continues at another node.\<close>

lemma local_rotated:
  assumes "local_op f f'" "\<And>n. local_op (g n) (g' n)"
  shows "local_op (\<lambda>s. (if b then f s \<bind> (\<lambda>s. Some (x, s)) else Some (y, s)) \<bind> (\<lambda>(n, s). g n s))
    (\<lambda>s. (if b then f' s \<bind> (\<lambda>s. Some (x, s)) else Some (y, s)) \<bind> (\<lambda>(n, s). g' n s))"
  using local_bind[OF assms(1) assms(2)[of x]] assms(2)[of y] by (cases b) simp_all

lemmas local_ops = local_rd local_rd_if local_rotated local_bind local_if local_some local_set

lemma rotate_local:
  "local_op (ngx_rbtree_left_rotate z x) (ngx_rbtree_left_rotate z x)"
  "local_op (ngx_rbtree_right_rotate z x) (ngx_rbtree_right_rotate z x)"
  unfolding ngx_rbtree_left_rotate_def[abs_def] ngx_rbtree_right_rotate_def[abs_def]
  by (intro local_ops; simp)+

lemma insert_loop_local: "local_op (insert_loop lt x n z) (insert_loop lt x n z)"
proof -
  have "\<forall>lt x n z. local_op (insert_loop lt x n z) (insert_loop lt x n z :: 'a rbheap_scheme \<Rightarrow> 'a rbheap_scheme option)"
  proof (rule insert_loop.fixp_induct[where P="\<lambda>f. \<forall>lt x n z. local_op (f lt x n z) (insert_loop lt x n z)"])
    show "option.admissible (\<lambda>f :: _ \<Rightarrow> 'a rbheap_scheme option. \<forall>lt x n z. local_op (curry (curry (curry (curry f))) lt x n z) (insert_loop lt x n z))"
      using option_admissible[of "\<lambda>((((lt, x), n), z), s). local_at (insert_loop lt x n z) s"] by (simp add: local_op_def)
    show "\<forall>lt x n z. local_op (\<lambda>s. None) (insert_loop lt x n z)" by (simp add: local_op_def)
  qed (subst insert_loop.simps[abs_def], auto intro!: local_ops)
  then show ?thesis by blast
qed

lemma insert_fixup_local: "local_op (insert_fixup z x) (insert_fixup z x)"
proof -
  have "\<forall>z x. local_op (insert_fixup z x) (insert_fixup z x :: 'a rbheap_scheme \<Rightarrow> 'a rbheap_scheme option)"
  proof (rule insert_fixup.fixp_induct[where P="\<lambda>f. \<forall>z x. local_op (f z x) (insert_fixup z x)"])
    show "option.admissible (\<lambda>f :: _ \<Rightarrow> 'a rbheap_scheme option. \<forall>z x. local_op (curry (curry f) z x) (insert_fixup z x))"
      using option_admissible[of "\<lambda>((z, x), s). local_at (insert_fixup z x) s"] by (simp add: local_op_def)
    show "\<forall>z x. local_op (\<lambda>s. None) (insert_fixup z x)" by (simp add: local_op_def)
  qed (subst insert_fixup.simps[abs_def], unfold ngx_rbt_is_red_def,
      auto intro!: local_ops rotate_local)
  then show ?thesis by blast
qed

lemma insert_local: "local_op (ngx_rbtree_insert (insert_loop lt) z x) (ngx_rbtree_insert (insert_loop lt) z x)"
proof -
  have eq: "ngx_rbtree_insert (insert_loop lt) z x = (\<lambda>s. if z = root s
      then do { s \<leftarrow> set_parent x 0 s; s \<leftarrow> set_left x z s; s \<leftarrow> set_right x z s; s \<leftarrow> ngx_rbt_black x s; Some (s\<lparr>root := x\<rparr>) }
      else do { s \<leftarrow> insert_loop lt (root s) x z s; insert_fixup z x s })"
    by (rule ext) (auto simp: ngx_rbtree_insert_def)
  have rec: "local_op (\<lambda>s. insert_loop lt (root s) x z s \<bind> insert_fixup z x) (\<lambda>s. insert_loop lt (root s) x z s \<bind> insert_fixup z x)"
  proof (rule local_bind[OF _ insert_fixup_local])
    show "local_op (\<lambda>s. insert_loop lt (root s) x z s) (\<lambda>s. insert_loop lt (root s) x z s)"
      unfolding local_op_def
    proof (intro allI impI)
      fix s s' assume "insert_loop lt (root s) x z s = Some s'"
      then have "local_at (insert_loop lt (root s) x z) s s'"
        using insert_loop_local[of lt "root s" x z] unfolding local_op_def by blast
      then show "local_at (\<lambda>s. insert_loop lt (root s) x z s) s s'" by (simp add: local_at_def)
    qed
  qed
  show ?thesis unfolding eq by (rule local_if(2)[OF _ rec]) (intro local_ops)
qed

lemma is_rbtree_restrict: "set (z # xs) \<subseteq> C \<Longrightarrow> is_rbtree z s xs \<Longrightarrow> is_rbtree z (s\<lparr>alive := C\<rparr>) xs"
proof -
  have "linked z s p t \<Longrightarrow> set (nodes t) \<subseteq> C \<Longrightarrow> linked z (s\<lparr>alive := C\<rparr>) p t" for p t
    by (induction t arbitrary: p) auto
  then show "set (z # xs) \<subseteq> C \<Longrightarrow> is_rbtree z s xs \<Longrightarrow> is_rbtree z (s\<lparr>alive := C\<rparr>) xs"
    unfolding is_rbtree_def by (fastforce simp: rep_def sentinel_ok_def)
qed

text \<open>Insertion reads and writes only the sentinel, the nodes of the tree and the new node.\<close>

lemma insert_frame:
  assumes "key_order lt K" "is_rbtree z s xs" "ordered lt (key s) xs" "x \<in> alive s" "x \<notin> set (z # xs)"
    "key s ` set (x # xs) \<subseteq> K" "ngx_rbtree_insert (insert_loop lt) z x s = Some s'"
  shows "unchanged s s' (- set (z # x # xs))"
proof -
  let ?C = "set (z # x # xs)" and ?r = "s\<lparr>alive := set (z # x # xs)\<rparr>"
  have "is_rbtree z ?r xs" using assms(2) by (intro is_rbtree_restrict) auto
  then obtain r' where r': "ngx_rbtree_insert (insert_loop lt) z x ?r = Some r'"
    using key_order.insert_value[OF assms(1), of z ?r xs x] assms(3,5,6) by auto
  moreover have "?C \<subseteq> alive s" using is_rbtree_alive[OF assms(2)] assms(4) by auto
  ultimately have "unchanged ?r r' (- ?C)" "ngx_rbtree_insert (insert_loop lt) z x (?r\<lparr>alive := alive s\<rparr>) = Some (r'\<lparr>alive := alive s\<rparr>)"
    using insert_local[of lt z x] unfolding local_op_def local_at_def by fastforce+
  then show ?thesis using assms(7) by (auto simp: unchanged_def)
qed

section \<open>Insertion\<close>

text \<open>
  C10. Insertion by value into a tree of any size: the function returns, the heap again holds a
  red-black tree, its nodes in order are those of before with the new node behind all nodes
  whose key is not greater, and keys are in order. No key has changed, no other field of the records, and no link or
  colour of an address that is not the sentinel, the new node or a node of the tree.
\<close>

theorem rbtree_insert_ok:
  assumes "is_rbtree z s xs" "ordered value_less (key s) xs" "x \<in> alive s" "x \<notin> set (z # xs)"
  shows "\<exists>s'. ngx_rbtree_insert ngx_rbtree_insert_value z x s = Some s' \<and>
    is_rbtree z s' (insert_behind value_less (key s) x xs) \<and>
    ordered value_less (key s') (insert_behind value_less (key s) x xs) \<and>
    alive s' = alive s \<and> key s' = key s \<and> rbheap.more s' = rbheap.more s \<and>
    (\<forall>y. y \<notin> set (z # x # xs) \<longrightarrow> left s' y = left s y \<and> right s' y = right s y \<and> parent s' y = parent s y \<and> red s' y = red s y)"
proof -
  obtain s' where s': "ngx_rbtree_insert (insert_loop value_less) z x s = Some s'"
    "is_rbtree z s' (insert_behind value_less (key s) x xs)" "ordered value_less (key s) (insert_behind value_less (key s) x xs)"
    "alive s' = alive s" "key s' = key s" "rbheap.more s' = rbheap.more s"
    using by_value.insert_value[OF assms subset_UNIV] by blast
  have "unchanged s s' (- set (z # x # xs))"
    by (rule insert_frame[OF by_value.key_order_axioms assms subset_UNIV s'(1)])
  then show ?thesis using s' by (simp add: ngx_rbtree_insert_value_def unchanged_def)
qed

text \<open>A tree of three nodes, and a fourth node with the key of the second.\<close>

definition example_tree :: rbheap where
  "example_tree = \<lparr>alive = {1, 2, 3, 4, 9}, key = (\<lambda>_. 0)(1 := 10, 2 := 20, 3 := 30, 4 := 20),
     left = (\<lambda>_. 9)(2 := 1), right = (\<lambda>_. 9)(2 := 3), parent = (\<lambda>_. 2)(2 := 0), red = (\<lambda>x. x = 1 \<or> x = 3), root = 2\<rparr>"

lemma example_rbtree: "is_rbtree 9 example_tree [1, 2, 3]" "ordered value_less (key example_tree) [1, 2, 3]"
proof -
  have "rep 9 example_tree [] (Node (Node Leaf 1 True Leaf) 2 False (Node Leaf 3 True Leaf))"
    by (simp add: rep_def sentinel_ok_def example_tree_def)
  moreover have "red_black (Node (Node Leaf 1 True Leaf) 2 False (Node Leaf 3 True Leaf))"
    by (simp add: red_black_def)
  ultimately show "is_rbtree 9 example_tree [1, 2, 3]"
    unfolding is_rbtree_def by (intro exI[of _ "Node (Node Leaf 1 True Leaf) 2 False (Node Leaf 3 True Leaf)"]) simp
  show "ordered value_less (key example_tree) [1, 2, 3]"
    by (simp add: ordered_def value_less_def example_tree_def)
qed

theorem rbtree_insert_ok_witness:
  "\<exists>s'. ngx_rbtree_insert ngx_rbtree_insert_value 9 4 example_tree = Some s' \<and> is_rbtree 9 s' [1, 2, 4, 3] \<and>
     parent s' 7 = parent example_tree 7"
proof -
  have "insert_behind value_less (key example_tree) 4 [1, 2, 3] = [1, 2, 4, 3]"
    by (simp add: insert_behind_def value_less_def example_tree_def)
  then show ?thesis
    using rbtree_insert_ok[OF example_rbtree, of 4] by (auto simp: example_tree_def)
qed

section \<open>The height of the tree\<close>

primrec tree_height :: "rbt \<Rightarrow> nat" where
  "tree_height Leaf = 0"
| "tree_height (Node l x c r) = max (tree_height l) (tree_height r) + 1"

lemma height_black_height:
  "no_red_red t \<Longrightarrow> balanced t \<Longrightarrow> tree_height t \<le> 2 * black_height t + (if is_red t then 1 else 0)"
  by (induction t) (auto split: if_splits)

lemma black_height_nodes: "balanced t \<Longrightarrow> 2 ^ black_height t \<le> List.length (nodes t) + 1"
proof (induction t)
  case (Node l x c r)
  then have "2 ^ black_height l \<le> List.length (nodes l) + 1" "2 ^ black_height l \<le> List.length (nodes r) + 1" by auto
  then show ?case by auto
qed simp

lemma red_black_height:
  assumes "red_black t" shows "2 ^ tree_height t \<le> (List.length (nodes t) + 1) ^ 2"
proof -
  have "tree_height t \<le> 2 * black_height t" using height_black_height[of t] assms by (simp add: red_black_def)
  then have "(2::nat) ^ tree_height t \<le> 2 ^ (2 * black_height t)" by simp
  also have "\<dots> = (2 ^ black_height t) ^ 2" by (simp add: power_mult mult.commute)
  also have "\<dots> \<le> (List.length (nodes t) + 1) ^ 2"
    using black_height_nodes[of t] assms by (intro power_mono) (auto simp: red_black_def)
  finally show ?thesis .
qed

end
