(* ===== verification/Ngx_Rbtree_Delete.thy ===== *)
theory Ngx_Rbtree_Delete
  imports Ngx_Rbtree
begin

text \<open>
  The walk along a red-black tree (\<open>ngx_rbtree_min\<close>, \<open>ngx_rbtree_next\<close>) and its deletion: \<open>delete_root\<close>,
  \<open>delete_one\<close> and \<open>delete_two\<close> state what the first half of \<open>ngx_rbtree_delete\<close> leaves in the heap,
  \<open>body_left\<close> and \<open>body_right\<close> one round of the fix-up loop, and \<open>delete_fixup_correct\<close> the loop. The round
  for a right child is derived from the one for a left child by exchanging the fields \<open>left\<close> and
  \<open>right\<close> of the heap.
\<close>

section \<open>The first node and the next node\<close>

lemma rep_eq: "rep z s k t \<longleftrightarrow> (\<exists>p. linkedc z s k p (addr z t) \<and> linked z s p t) \<and>
    distinct (z # before k @ nodes t @ after k) \<and> sentinel_ok z s"
  by (simp add: rep_def nodes_plug)

lemma hooked_fill: "(\<exists>p. linkedc z s (F # k) p (addr z t) \<and> linked z s p t) \<longleftrightarrow>
   (\<exists>p. linkedc z s k p (fnode F) \<and> linked z s p (fill F t))"
  by (cases F) auto

lemma addr_fill [simp]: "addr z (fill F t) = fnode F"
  by (cases F) auto

lemma hooked_plug: "(\<exists>p. linkedc z s (j @ k) p (addr z t) \<and> linked z s p t) \<longleftrightarrow>
   (\<exists>p. linkedc z s k p (addr z (plug j t)) \<and> linked z s p (plug j t))"
proof (induction j arbitrary: t)
  case (Cons F j)
  then show ?case using hooked_fill[of z s F "j @ k" t] Cons[of "fill F t"] by simp
qed simp

lemma rep_append: "rep z s (j @ k) t \<longleftrightarrow> rep z s k (plug j t)"
  by (simp add: rep_def plug_append hooked_plug)

lemma rep_addr: "rep z s k t \<Longrightarrow> t \<noteq> Leaf \<Longrightarrow> addr z t \<noteq> z"
  using addr_in[of t z] by (auto simp: rep_eq)

lemma leftmost:
  "rep z s k t \<Longrightarrow> t \<noteq> Leaf \<Longrightarrow>
   \<exists>j y d r. t = plug j (Node Leaf y d r) \<and> before j = [] \<and> ngx_rbtree_min (addr z t) z s = Some y"
proof (induction t arbitrary: k)
  case (Node l x c r)
  note n = rep_node[OF Node.prems(1)]
  show ?case
  proof (cases "l = Leaf")
    case True
    then have "ngx_rbtree_min x z s = Some x" using n by (subst ngx_rbtree_min.simps) simp
    then show ?thesis using True by (auto intro!: exI[of _ "[]"])
  next
    case False
    have r: "rep z s (LeftOf x c r # k) l" using Node.prems(1) by simp
    then have "addr z l \<noteq> z" using False by (rule rep_addr)
    then have "ngx_rbtree_min x z s = ngx_rbtree_min (addr z l) z s"
      using n by (subst ngx_rbtree_min.simps) simp
    moreover obtain j y d r' where "l = plug j (Node Leaf y d r')" "before j = []" "ngx_rbtree_min (addr z l) z s = Some y"
      using Node.IH(1)[OF r False] by auto
    ultimately show ?thesis
      by (intro exI[of _ "j @ [LeftOf x c r]"]) (auto simp: plug_append before_append)
  qed
qed simp

lemma next_loop:
  "rep z s k (Node l x c r) \<Longrightarrow> next_loop x s = Some (case after k of [] \<Rightarrow> 0 | y # ys \<Rightarrow> y)"
proof (induction k arbitrary: l x c r)
  case Nil
  then show ?case using rep_root[OF Nil.prems] rep_node(8)[OF Nil.prems] by (subst next_loop.simps) (auto simp: rd_def)
next
  case (Cons F k)
  have p: "rd parent x s = Some (fnode F)" "root s \<noteq> x" using rep_parent[OF Cons.prems] rep_root[OF Cons.prems] by auto
  show ?case
  proof (cases F)
    case (LeftOf y d t)
    then show ?thesis using p Cons.prems rep_node(1)[of z s k "Node l x c r" y d t] by (subst next_loop.simps) auto
  next
    case (RightOf t y d)
    have r: "rep z s k (Node t y d (Node l x c r))" using Cons.prems RightOf by simp
    then show ?thesis using p Cons.IH[OF r] rep_node(1,12)[OF r] RightOf
      by (subst next_loop.simps) auto
  qed
qed

lemma split_node: "x \<in> set (nodes t) \<Longrightarrow> \<exists>k l c r. t = plug k (Node l x c r)"
proof (induction t)
  case (Node l y c r)
  then consider "x = y" | "x \<in> set (nodes l)" | "x \<in> set (nodes r)" by auto
  then show ?case
  proof cases
    case 1
    then show ?thesis by (metis plug.simps(1))
  next
    case 2
    then obtain k l' c' r' where "l = plug k (Node l' x c' r')" using Node by blast
    then show ?thesis by (intro exI[of _ "k @ [LeftOf y c r]"]) (auto simp: plug_append)
  next
    case 3
    then obtain k l' c' r' where "r = plug k (Node l' x c' r')" using Node by blast
    then show ?thesis by (intro exI[of _ "k @ [RightOf l y c]"]) (auto simp: plug_append)
  qed
qed simp

lemma min_first:
  assumes "is_rbtree z s xs" "xs \<noteq> []"
  shows "ngx_rbtree_min (root s) z s = Some (hd xs)"
proof -
  obtain t where t: "rep z s [] t" "nodes t = xs" using assms(1) by (auto simp: is_rbtree_def)
  then have "t \<noteq> Leaf" using assms(2) by auto
  from leftmost[OF t(1) this] obtain j y d r where "t = plug j (Node Leaf y d r)" "before j = []"
    "ngx_rbtree_min (addr z t) z s = Some y" by blast
  then show ?thesis using t rep_root_addr[OF t(1)] by (auto simp: nodes_plug)
qed

lemma split_at_eq: "as @ x # bs = cs @ x # ds \<Longrightarrow> x \<notin> set as \<Longrightarrow> x \<notin> set cs \<Longrightarrow> as = cs \<and> bs = ds"
  by (induction as arbitrary: cs; case_tac cs; auto)

lemma next_node:
  assumes t: "is_rbtree z s (xs @ x # ys)"
  shows "ngx_rbtree_next z x s = Some (case ys of [] \<Rightarrow> 0 | y # _ \<Rightarrow> y)"
proof -
  obtain t where t: "rep z s [] t" "nodes t = xs @ x # ys" using t by (auto simp: is_rbtree_def)
  obtain k l c r where k: "t = plug k (Node l x c r)" using split_node[of x t] t(2) by auto
  have r: "rep z s k (Node l x c r)" using t(1) k rep_append[of z s k "[]"] by simp
  have d: "distinct (nodes t)" using t(1) by (auto simp: rep_def)
  have "(before k @ nodes l) @ x # (nodes r @ after k) = xs @ x # ys" using t(2) k by (simp add: nodes_plug)
  moreover have "x \<notin> set (before k @ nodes l)" "x \<notin> set xs"
    using d[unfolded k] d[unfolded t(2)] by (auto simp: nodes_plug)
  ultimately have ys: "ys = nodes r @ after k" using split_at_eq by metis
  note n = rep_node[OF r]
  show ?thesis
  proof (cases "r = Leaf")
    case True
    then show ?thesis using n next_loop[OF r] ys by (simp add: ngx_rbtree_next_def)
  next
    case False
    have rr: "rep z s (RightOf l x c # k) r" using r by simp
    from leftmost[OF rr False] obtain j y d r' where "r = plug j (Node Leaf y d r')" "before j = []"
      "ngx_rbtree_min (addr z r) z s = Some y" by blast
    then show ?thesis using n ys rep_addr[OF rr False] by (simp add: ngx_rbtree_next_def nodes_plug)
  qed
qed

section \<open>Removing a node from its place\<close>

lemma unlink:
  assumes c: "linkedc z s k p x" and t: "linked z s p (Node l x c r)"
    and q: "l = Leaf \<and> q = r \<or> r = Leaf \<and> q = l"
    and d: "distinct (z # before k @ nodes (Node l x c r) @ after k)"
    and s': "s' = (set_link p x (addr z q) s)\<lparr>parent := (parent s)(addr z q := p')\<rparr>"
  shows "linkedc z s' k p (addr z q) \<and> linked z s' p' q"
proof -
  let ?s = "set_link p x (addr z q) s"
  have 1: "linkedc z ?s k p (addr z q)"
    using c d by (intro set_link_context) auto
  have a: "addr z q \<notin> set (before k @ after k)"
    using q d addr_cases[of z q] by auto
  have "linkedc z s' k p (addr z q)"
    using 1 a by (subst linkedc_cong[of ?s]) (auto simp: s' unchanged_def)
  moreover have "linked z s' p' q"
  proof (rule linked_top_cong[of s _ q _ _ x])
    have dj: "set (nodes q) \<inter> set (before k @ after k) = {}" using q d by auto
    have f: "left s' w = left s w" "right s' w = right s w" if "w \<in> set (nodes q)" for w
      using set_link_outside[OF c, of w "addr z q"] that dj by (auto simp: s')
    show "unchanged s s' (set (nodes q) - {addr z q})"
      using f unfolding unchanged_def by (auto simp: s')
    show "distinct (nodes q)" "linked z s x q" using q d t by auto
    assume "q \<noteq> Leaf"
    then show "left s' (addr z q) = left s (addr z q) \<and> right s' (addr z q) = right s (addr z q) \<and>
      red s' (addr z q) = red s (addr z q) \<and> parent s' (addr z q) = p'"
      using f[OF addr_in] by (simp add: s')
  qed
  ultimately show ?thesis by simp
qed


text \<open>The node \<open>y\<close> takes the place of \<open>x\<close>; the parents of the two subtrees are set on the way.\<close>

definition replaced :: "ptr \<Rightarrow> ptr \<Rightarrow> ptr \<Rightarrow> 'a rbheap_scheme \<Rightarrow> 'a rbheap_scheme" where
  "replaced z x y s =
    (let s = set_link (parent s x) x y (s\<lparr>left := (left s)(y := left s x), right := (right s)(y := right s x),
       parent := (parent s)(y := parent s x), red := (red s)(y := red s x)\<rparr>);
       s = (if left s y \<noteq> z then s\<lparr>parent := (parent s)(left s y := y)\<rparr> else s)
     in if right s y \<noteq> z then s\<lparr>parent := (parent s)(right s y := y)\<rparr> else s)"

lemma replace_node:
  assumes c: "linkedc z s k p x" and p: "parent s x = p" and x: "x \<in> alive s" "left s x = addr z l" "right s x = addr z r" "red s x = c"
    and l: "linked z s p1 l" and r: "linked z s p2 r"
    and d: "distinct (z # y # before k @ (nodes l @ x # nodes r) @ after k)" and y: "y \<in> alive s"
  shows "linkedc z (replaced z x y s) k p y" "linked z (replaced z x y s) p (Node l y c r)"
    "alive (replaced z x y s) = alive s" "key (replaced z x y s) = key s" "rbheap.more (replaced z x y s) = rbheap.more s"
    "parent (replaced z x y s) z = parent s z" "red (replaced z x y s) z = red s z"
    "root (replaced z x y s) = (if x = root s then y else root s)"
proof -
  define s1 where "s1 = s\<lparr>left := (left s)(y := left s x), right := (right s)(y := right s x),
       parent := (parent s)(y := parent s x), red := (red s)(y := red s x)\<rparr>"
  define s2 where "s2 = set_link p x y s1"
  let ?s = "replaced z x y s"
  have c1: "linkedc z s1 k p x"
    using c d by (subst linkedc_cong[of s]) (auto simp: s1_def unchanged_def)
  have c2: "linkedc z s2 k p y"
    unfolding s2_def using c1 d by (intro set_link_context) auto
  have o: "left s2 w = (if w = y then addr z l else left s w)" "right s2 w = (if w = y then addr z r else right s w)"
    if "w \<notin> set (before k @ after k)" for w
    using set_link_outside[OF c1 that, of y] x by (auto simp: s2_def s1_def)
  have y2: "left s2 y = addr z l" "right s2 y = addr z r" using o[of y] d by auto
  have a: "addr z l = z \<longleftrightarrow> l = Leaf" "addr z r = z \<longleftrightarrow> r = Leaf"
    using addr_in[of l z] addr_in[of r z] d by auto
  have s: "?s = s2\<lparr>parent := (let f = (if l \<noteq> Leaf then (parent s2)(addr z l := y) else parent s2)
     in if r \<noteq> Leaf then f(addr z r := y) else f)\<rparr>"
  proof -
    have "?s = (let s = (if left s2 y \<noteq> z then s2\<lparr>parent := (parent s2)(left s2 y := y)\<rparr> else s2)
      in if right s y \<noteq> z then s\<lparr>parent := (parent s)(right s y := y)\<rparr> else s)"
      by (simp only: replaced_def s2_def s1_def p Let_def)
    then show ?thesis using y2 a by (simp add: Let_def)
  qed
  have par: "parent ?s w = (if r \<noteq> Leaf \<and> w = addr z r \<or> l \<noteq> Leaf \<and> w = addr z l then y else if w = y then p else parent s w)" for w
    using p by (auto simp: s s2_def s1_def Let_def)
  have dj: "set (nodes l) \<inter> set (before k @ y # after k) = {}" "set (nodes r) \<inter> set (before k @ y # after k) = {}"
    "y \<notin> set (before k @ after k)" "set (nodes l) \<inter> set (nodes r) = {}"
    using d by auto
  show "linkedc z ?s k p y"
    using c2 dj addr_in[of l z] addr_in[of r z] by (subst linkedc_cong[of s2]) (auto simp: s unchanged_def Let_def)
  have f: "left ?s w = (if w = y then addr z l else left s w)" "right ?s w = (if w = y then addr z r else right s w)"
    "red ?s w = (if w = y then c else red s w)" if "w \<notin> set (before k @ after k)" for w
    using o[OF that] x by (auto simp: s s2_def s1_def)
  show al: "alive ?s = alive s" "key ?s = key s" "rbheap.more ?s = rbheap.more s"
    "root ?s = (if x = root s then y else root s)"
    by (auto simp: s s2_def s1_def)
  show "parent ?s z = parent s z" "red ?s z = red s z"
    using par[of z] f(3)[of z] a d by auto
  have sub: "linked z ?s y t" if "t = l \<or> t = r" "linked z s p' t" for t p'
  proof (rule linked_top_cong[of s _ t _ _ p'])
    have tn: "w \<notin> set (before k @ after k) \<and> w \<noteq> y" if "w \<in> set (nodes t)" for w
      using that dj \<open>t = l \<or> t = r\<close> by auto
    show "unchanged s ?s (set (nodes t) - {addr z t})"
      unfolding unchanged_def
    proof (intro conjI ballI)
      fix w assume w: "w \<in> set (nodes t) - {addr z t}"
      then have "\<not> (r \<noteq> Leaf \<and> w = addr z r \<or> l \<noteq> Leaf \<and> w = addr z l)"
        using dj(4) that(1) addr_in[of l z] addr_in[of r z] by auto
      then show "left ?s w = left s w" "right ?s w = right s w" "parent ?s w = parent s w" "red ?s w = red s w"
        using f[of w] par[of w] tn[of w] w by auto
    qed (simp_all add: al)
    show "linked z s p' t" "distinct (nodes t)" using that d by auto
    assume "t \<noteq> Leaf"
    then show "left ?s (addr z t) = left s (addr z t) \<and> right ?s (addr z t) = right s (addr z t) \<and>
      red ?s (addr z t) = red s (addr z t) \<and> parent ?s (addr z t) = y"
      using f[of "addr z t"] par[of "addr z t"] tn[OF addr_in] that(1) by auto
  qed
  show "linked z ?s p (Node l y c r)"
    using sub[OF _ l] sub[OF _ r] f[OF dj(3)] par[of y] y al dj addr_in[of l z] addr_in[of r z] by auto
qed

lemma substitute_code:
  assumes "x \<in> alive s" "y \<in> alive s" "x \<noteq> y" "parent s x \<in> alive s \<or> x = root s"
    "left s x \<in> alive s" "right s x \<in> alive s" "parent s x \<noteq> y \<or> x = root s"
  shows "substitute z x y s = Some (replaced z x y s)"
proof -
  define s1 where "s1 = s\<lparr>left := (left s)(y := left s x), right := (right s)(y := right s x),
       parent := (parent s)(y := parent s x), red := (red s)(y := red s x)\<rparr>"
  define s2 where "s2 = set_link (parent s x) x y s1"
  have s1: "alive s1 = alive s" "root s1 = root s" "parent s1 x = parent s x" "x = root s \<or> parent s x \<noteq> y"
    using assms by (auto simp: s1_def)
  have l: "left s2 y = left s x" "right s2 y = right s x" "alive s2 = alive s"
    using s1(4) by (auto simp: s2_def set_link_def s1_def)
  have a: "(if x = root s1 then Some (s1\<lparr>root := y\<rparr>)
          else do {
            np \<leftarrow> rd parent x s1;
            npl \<leftarrow> rd left np s1;
            if x = npl then set_left np y s1 else set_right np y s1 }) = Some s2"
    using assms(1,4) s1 by (auto simp: s2_def set_link_def rd_def set_left_def set_right_def)
  have "substitute z x y s = do {
     s \<leftarrow> Some s2;
     sl \<leftarrow> rd left y s;
     s \<leftarrow> (if sl \<noteq> z then set_parent sl y s else Some s);
     sr \<leftarrow> rd right y s;
     if sr \<noteq> z then set_parent sr y s else Some s }"
    unfolding a[symmetric] using assms(1-3)
    by (simp add: substitute_def rd_def set_left_def set_right_def set_parent_def ngx_rbt_copy_color_def
      set_red_def s1_def)
  also have "\<dots> = Some (let s = (if left s2 y \<noteq> z then s2\<lparr>parent := (parent s2)(left s2 y := y)\<rparr> else s2)
      in if right s y \<noteq> z then s\<lparr>parent := (parent s)(right s y := y)\<rparr> else s)"
    using assms(2,5,6) l by (simp add: rd_def set_parent_def Let_def)
  also have "\<dots> = Some (replaced z x y s)"
    by (simp only: replaced_def s2_def s1_def Let_def)
  finally show ?thesis .
qed

lemma clear_rep:
  assumes "rep z s k t" "x \<in> alive s" "x \<notin> set (nodes (plug k t))" "x \<noteq> z"
  shows "\<exists>s'. clear_node x s = Some s' \<and> rep z s' k t \<and> alive s' = alive s \<and> rbheap.more s' = rbheap.more s \<and>
    key s' = (key s)(x := 0) \<and> (\<forall>w. w \<noteq> x \<longrightarrow> parent s' w = parent s w)"
proof -
  let ?s = "s\<lparr>key := (key s)(x := 0), left := (left s)(x := 0), right := (right s)(x := 0), parent := (parent s)(x := 0)\<rparr>"
  have ev: "clear_node x s = Some ?s"
    using assms(2) by (simp add: clear_node_def set_left_def set_right_def set_parent_def set_key_def)
  have u: "unchanged s ?s A" if "x \<notin> A" for A using that by (auto simp: unchanged_def)
  have "linkedc z ?s k p q = linkedc z s k p q" for p q
    using assms(3) by (intro linkedc_cong u) (auto simp: nodes_plug)
  moreover have "linked z ?s p t = linked z s p t" for p
    using assms(3) by (intro linked_cong u) (auto simp: nodes_plug)
  ultimately have "rep z ?s k t" using assms(1) by (simp add: rep_def sentinel_ok_def)
  then show ?thesis using ev by auto
qed


text \<open>
  What the first half of the deletion leaves: the tree without \<open>x\<close>, whose focus \<open>q\<close> is one black node short
  when the node that left its place was black.
\<close>

definition unlinked :: "ptr \<Rightarrow> ptr \<Rightarrow> 'a rbheap_scheme \<Rightarrow> frame list \<Rightarrow> rbt \<Rightarrow> 'a rbheap_scheme \<Rightarrow> bool" where
  "unlinked z x s k q s' \<longleftrightarrow> rep z s' k q \<and> (k \<noteq> [] \<longrightarrow> parent s' (addr z q) = fnode (hd k)) \<and>
     alive s' = alive s \<and> rbheap.more s' = rbheap.more s \<and> key s' = (key s)(x := 0)"

lemma delete_root:
  assumes r: "rep z s [] (Node l x c r)" and q: "l = Leaf \<and> q = r \<or> r = Leaf \<and> q = l"
  shows "\<exists>s'. ngx_rbtree_delete z x s = Some s' \<and> unlinked z x s [] (paint False q) s'"
proof -
  note n = rep_node[OF r]
  have d: "distinct (z # nodes l @ x # nodes r)" "sentinel_ok z s" using r by (auto simp: rep_def)
  have lq: "linked z s x q" using r q by (auto simp: rep_def)
  have aq: "addr z q \<in> alive s" using lq d(2) by (cases q) (auto simp: sentinel_ok_def)
  define s1 where "s1 = s\<lparr>root := addr z q, red := (red s)(addr z q := False)\<rparr>"
  have "linked z s1 x (paint False q)"
  proof (cases q)
    case (Node ql y qc qr)
    have "unchanged s s1 (set (nodes t))" if "y \<notin> set (nodes t)" for t
      using that Node by (auto simp: unchanged_def s1_def)
    then have "linked z s1 y ql = linked z s y ql" "linked z s1 y qr = linked z s y qr"
      using d q Node by (auto intro!: linked_cong)
    then show ?thesis using lq Node by (simp add: s1_def)
  qed simp
  then have "rep z s1 [] (paint False q)"
    using d q by (auto simp: rep_def s1_def sentinel_ok_def)
  from clear_rep[OF this, of x] obtain s2 where s2: "clear_node x s1 = Some s2" "unlinked z x s [] (paint False q) s2"
    using n d q by (auto simp: s1_def unlinked_def)
  have "ngx_rbtree_delete z x s = clear_node x s1"
    using n rep_root[OF r] q aq
    by (auto simp: ngx_rbtree_delete_def ngx_rbt_black_def set_red_def s1_def)
  then show ?thesis using s2 by simp
qed

lemma delete_one:
  assumes r: "rep z s (F # k) (Node l x c r)" and q: "l = Leaf \<and> q = r \<or> r = Leaf \<and> q = l"
  shows "\<exists>s'. ngx_rbtree_delete z x s = (if c then Some s' else delete_fixup z (addr z q) s') \<and>
    unlinked z x s (F # k) q s'"
proof -
  note n = rep_node[OF r]
  obtain p where c: "linkedc z s (F # k) p x" and t: "linked z s p (Node l x c r)" and
    d: "distinct (z # before (F # k) @ nodes (Node l x c r) @ after (F # k))" and z: "sentinel_ok z s"
    using r unfolding rep_eq by auto
  have p: "p = fnode F" "p \<in> alive s" "parent s x = p" using c t by auto
  have px: "p \<noteq> x" "p \<noteq> addr z q"
    using linkedc_parent_in[OF c] d addr_cases[of z q] q by auto
  have aq: "addr z q \<in> alive s" using t q z by (cases q) (auto simp: sentinel_ok_def)
  define s1 where "s1 = (set_link p x (addr z q) s)\<lparr>parent := (parent s)(addr z q := p)\<rparr>"
  have u: "linkedc z s1 (F # k) p (addr z q)" "linked z s1 p q"
    using unlink[OF c t q d s1_def] by auto
  have "red s1 z = red s z" by (simp add: s1_def)
  then have "rep z s1 (F # k) q"
    unfolding rep_eq using u d q z by (auto simp: sentinel_ok_def s1_def)
  moreover have "x \<in> alive s1" "x \<noteq> z" "addr z q \<noteq> x" using n(8,9) d q addr_cases[of z q] by (auto simp: s1_def)
  moreover have "x \<notin> set (nodes (plug (F # k) q))" using d q unfolding nodes_plug by auto
  ultimately obtain s2 where s2: "clear_node x s1 = Some s2" "unlinked z x s (F # k) q s2"
    using clear_rep[of z s1 "F # k" q x] p(1) by (auto simp: s1_def unlinked_def)
  have rt: "root s \<noteq> x" using rep_root[OF r] by simp
  have "ngx_rbtree_delete z x s = do { s \<leftarrow> clear_node x s1; if c then Some s else delete_fixup z (addr z q) s }"
    using n(1-3,8) rt q aq p px
    by (auto simp: ngx_rbtree_delete_def rd_def set_left_def set_right_def set_parent_def s1_def set_link_def ngx_rbt_is_red_def)
  then show ?thesis using s2 by auto
qed


lemma delete_two:
  assumes r: "rep z s k (Node l x c (plug j (Node Leaf y d rr)))" and l: "l \<noteq> Leaf" and j: "before j = []"
    and y: "ngx_rbtree_min (addr z (plug j (Node Leaf y d rr))) z s = Some y"
  shows "\<exists>s'. ngx_rbtree_delete z x s = (if d then Some s' else delete_fixup z (addr z rr) s') \<and>
    unlinked z x s (j @ RightOf l y c # k) rr s'"
proof -
  let ?r = "plug j (Node Leaf y d rr)" and ?K = "j @ RightOf l x c # k" and ?K' = "j @ RightOf l y c # k"
  have rK: "rep z s ?K (Node Leaf y d rr)" using r by (simp add: rep_append)
  note n = rep_node[OF r] and ny = rep_node[OF rK]
  obtain sp where c: "linkedc z s ?K sp y" and t: "linked z s sp (Node Leaf y d rr)" and
    dis: "distinct (z # before ?K @ nodes (Node Leaf y d rr) @ after ?K)" and z: "sentinel_ok z s"
    using rK unfolding rep_eq by auto
  have sp: "sp = fnode (hd ?K)" "sp \<in> alive s" "parent s y = sp" using c t by (cases j; auto)+
  have spx: "sp = x \<longleftrightarrow> j = []"
  proof (cases j)
    case (Cons F j')
    have "fnode F \<in> set (before j @ after j)" using Cons by (cases F) auto
    then have "fnode F \<in> set (after j)" using j by simp
    then have "fnode F \<noteq> x" using dis by (auto simp: before_append after_append)
    then show ?thesis using sp(1) Cons by simp
  qed (use sp in simp)
  define p' where "p' = (if sp = x then y else sp)"
  define s1 where "s1 = (set_link sp y (addr z rr) s)\<lparr>parent := (parent s)(addr z rr := p')\<rparr>"
  have u: "linkedc z s1 ?K sp (addr z rr)" "linked z s1 p' rr"
    using unlink[OF c t _ dis s1_def] by auto
  have "\<exists>p2. linkedc z s1 (RightOf l x c # k) x (addr z (plug j rr)) \<and> linked z s1 p2 (plug j rr)"
  proof (cases "j = []")
    case True
    then show ?thesis using u sp by auto
  next
    case False
    then have "p' = sp" using spx by (simp add: p'_def)
    then show ?thesis using u hooked_plug[of z s1 j "RightOf l x c # k" rr] by auto
  qed
  then obtain p2 where c1: "linkedc z s1 (RightOf l x c # k) x (addr z (plug j rr))" and t1: "linked z s1 p2 (plug j rr)"
    by blast
  have x1: "x \<in> alive s1" "left s1 x = addr z l" "right s1 x = addr z (plug j rr)" "red s1 x = c" "linked z s1 x l"
    "linkedc z s1 k (parent s1 x) x" "alive s1 = alive s" "key s1 = key s" "rbheap.more s1 = rbheap.more s" "red s1 z = red s z"
    using c1 by (simp_all, simp_all add: s1_def)
  have d1: "distinct (z # y # before k @ (nodes l @ x # nodes (plug j rr)) @ after k)"
    using dis j by (auto simp: before_append after_append nodes_plug)
  have zs: "sentinel_ok z s1" using z x1 by (simp add: sentinel_ok_def)
  have al: "addr z t \<in> alive s1" if "linked z s1 p t" for t p
    using that zs by (cases t) (auto simp: sentinel_ok_def)
  have ya: "y \<in> alive s1" "y \<noteq> x" using ny(8) x1(7) d1 by auto
  have px: "parent s1 x \<in> alive s1 \<and> parent s1 x \<noteq> y \<or> x = root s1"
    using x1(6) linkedc_parent_alive[OF x1(6)] linkedc_parent_in[OF x1(6)] d1 by (cases "k = []") auto
  let ?s2 = "replaced z x y s1"
  have sub: "substitute z x y s1 = Some ?s2"
    using x1 ya px al[OF t1] al[OF x1(5)] by (intro substitute_code) auto
  note rn = replace_node[OF x1(6) refl x1(1-5) t1 d1 ya(1)]
  have "rep z ?s2 (RightOf l y c # k) (plug j rr)"
    unfolding rep_right rep_eq using rn d1 zs by (auto simp: sentinel_ok_def)
  then have r2: "rep z ?s2 ?K' rr" by (simp add: rep_append)
  have par: "parent ?s2 (addr z rr) = fnode (hd ?K')"
  proof (cases rr)
    case Leaf
    then have "parent ?s2 (addr z rr) = p'" using rn(6) by (simp add: s1_def)
    then show ?thesis using spx sp(1) by (cases j) (auto simp: p'_def)
  next
    case (Node a v b e)
    obtain F K where K: "?K' = F # K" by (cases ?K') auto
    then show ?thesis using rep_parent[of z ?s2 F K a v b e] r2 Node by (auto simp: rd_def split: if_splits)
  qed
  have "x \<in> alive ?s2" "x \<noteq> z" "addr z rr \<noteq> x" "x \<notin> set (nodes (plug ?K' rr))"
    using rn x1 d1 dis ya addr_cases[of z rr] by (auto simp: nodes_plug before_append after_append)
  with clear_rep[OF r2, of x] obtain s3 where s3: "clear_node x ?s2 = Some s3" "unlinked z x s ?K' rr s3"
    using par rn x1 by (auto simp: unlinked_def)
  have "nodes ?r \<noteq> []" by (simp add: nodes_plug)
  then have "?r \<noteq> Leaf" by auto
  then have lz: "addr z l \<noteq> z" "addr z ?r \<noteq> z"
    using rep_addr[of z s "LeftOf x c ?r # k" l] rep_addr[of z s "RightOf l x c # k" ?r] r l by simp_all
  have "root s \<noteq> y" using rep_root[OF rK] by simp
  then have lk: "(if y = left s sp then set_left sp (addr z rr) s else set_right sp (addr z rr) s)
      = Some (set_link sp y (addr z rr) s)"
    using sp(2) by (simp add: set_link_def set_left_def set_right_def)
  have "addr z rr \<in> alive s" using t z by (cases rr) (auto simp: sentinel_ok_def)
  then have pr: "(if sp = x then set_parent (addr z rr) y (set_link sp y (addr z rr) s)
      else set_parent (addr z rr) sp (set_link sp y (addr z rr) s)) = Some s1"
    by (simp add: set_parent_def s1_def p'_def)
  have rp: "rd parent y s = Some sp" "rd left sp s = Some (left s sp)" "rd parent y (set_link sp y (addr z rr) s) = Some sp"
    using sp ny(8) by (simp_all add: rd_def)
  have "ngx_rbtree_delete z x s = do { s \<leftarrow> substitute z x y s1; s \<leftarrow> clear_node x s;
      if d then Some s else delete_fixup z (addr z rr) s }"
    unfolding ngx_rbtree_delete_def n(1,2) ngx_rbt_is_red_def
    using \<open>root s \<noteq> y\<close>[symmetric] ya(2) ny(2,3) y lz
    by (simp del: if_split add: rp lk pr)
  then show ?thesis using s3 sub by auto
qed

lemma flip_ops:
  "rd left x (flip s) = rd right x s" "rd right x (flip s) = rd left x s" "rd parent x (flip s) = rd parent x s"
  "rd red x (flip s) = rd red x s" "ngx_rbt_is_red x (flip s) = ngx_rbt_is_red x s"
  "ngx_rbt_red x (flip s) = map_option flip (ngx_rbt_red x s)"
  "ngx_rbt_black x (flip s) = map_option flip (ngx_rbt_black x s)"
  "ngx_rbt_copy_color x y (flip s) = map_option flip (ngx_rbt_copy_color x y s)"
  by (auto simp: rd_def ngx_rbt_is_red_def ngx_rbt_red_def ngx_rbt_black_def ngx_rbt_copy_color_def set_red_def flip_def)

lemma rotate_flip:
  "ngx_rbtree_right_rotate z x (flip s) = map_option flip (ngx_rbtree_left_rotate z x s)"
  "ngx_rbtree_left_rotate z x (flip s) = map_option flip (ngx_rbtree_right_rotate z x s)"
  by (simp_all add: right_rotate_flip option.map_comp comp_def option.map_ident)

lemma bind_flip: "map_option f m \<bind> g = m \<bind> (\<lambda>x. g (f x))"
  by (cases m) auto

lemma map_bind: "map_option f (m \<bind> g) = m \<bind> (\<lambda>x. map_option f (g x))"
  by (cases m) auto

lemma if_bind: "(if b then m else m') \<bind> g = (if b then m \<bind> g else m' \<bind> (g :: _ \<Rightarrow> _ option))"
  by simp

lemma map_if: "map_option f (if b then m else m') = (if b then map_option f m else map_option f m')"
  by simp

lemma bind_assoc_option: "(m \<bind> f) \<bind> g = m \<bind> (\<lambda>x. f x \<bind> (g :: _ \<Rightarrow> _ option))"
  by (cases m) auto

lemma sibling_flip:
  "fixup_sibling_right z x s = map_option (map_prod id flip) (fixup_sibling_left z x (flip s))"
  unfolding fixup_sibling_right_def fixup_sibling_left_def flip_ops
  by (simp add: flip_ops rotate_flip bind_flip map_bind map_if if_bind bind_assoc_option cong: if_cong)

lemma black_flip:
  "fixup_black_right z x w s = map_option (map_prod id flip) (fixup_black_left z x w (flip s))"
  unfolding fixup_black_right_def fixup_black_left_def flip_ops
  by (simp add: flip_ops rotate_flip bind_flip map_bind map_if if_bind bind_assoc_option cong: if_cong)


section \<open>The deletion fix-up\<close>

text \<open>The focus, with the link to its parent that the code follows even from the sentinel.\<close>

definition focus :: "ptr \<Rightarrow> 'a rbheap_scheme \<Rightarrow> frame list \<Rightarrow> rbt \<Rightarrow> bool" where
  "focus z s k q \<longleftrightarrow> rep z s k q \<and> (k \<noteq> [] \<longrightarrow> rd parent (addr z q) s = Some (fnode (hd k)))"

lemma focus_node: "rep z s k (Node l x c r) \<Longrightarrow> focus z s k (Node l x c r)"
  using rep_parent[of z s _ _ l x c r] by (cases k) (auto simp: focus_def)

lemma focus_kept:
  assumes "focus z s k q" "rep z s' k' q" "kept z s s'" "k' = [] \<or> fnode (hd k') = fnode (hd k) \<and> k \<noteq> []"
  shows "focus z s' k' q"
proof (cases q)
  case Leaf
  then show ?thesis using assms by (auto simp: focus_def kept_def rd_def split: if_splits)
qed (use assms focus_node in auto)

lemma focus_flip [simp]: "focus z (flip s) (map mirror_frame k) (mirror q) = focus z s k q"
proof -
  have "fnode (mirror_frame F) = fnode F" for F by (cases F) auto
  then show ?thesis using rep_flip[of z s k q] by (cases k) (simp_all add: focus_def flip_ops del: rep_left rep_right)
qed

lemma sibling_left:
  assumes f: "focus z s (LeftOf p c (Node wl w d wr) # k) q" and d: "d \<Longrightarrow> \<not> c \<and> wl \<noteq> Leaf"
  shows "\<exists>s'. fixup_sibling_left z (addr z q) s = Some (if d then addr z wl else w, s') \<and> kept z s s' \<and>
    focus z s' (if d then LeftOf p True wl # LeftOf w False wr # k else LeftOf p c (Node wl w d wr) # k) q"
proof -
  have r: "rep z s k (Node q p c (Node wl w d wr))" and par: "rd parent (addr z q) s = Some p"
    using f by (auto simp: focus_def)
  note n = rep_node[OF r]
  show ?thesis
  proof (cases d)
    case False
    then show ?thesis using par n(2,5) f by (simp add: fixup_sibling_left_def ngx_rbt_is_red_def)
  next
    case True
    obtain s1 where 1: "ngx_rbt_black w s = Some s1" "rep z s1 k (Node q p c (Node wl w False wr))" "kept z s s1"
      using set_red_focus[of z s "RightOf q p c # k" wl w d wr False] r by (auto simp: ngx_rbt_black_def)
    obtain s2 where 2: "ngx_rbt_red p s1 = Some s2" "rep z s2 k (Node q p True (Node wl w False wr))" "kept z s1 s2"
      using set_red_focus[of z s1 k q p c "Node wl w False wr" True] 1 by (auto simp: ngx_rbt_red_def)
    obtain s3 where 3: "ngx_rbtree_left_rotate z p s2 = Some s3" "rep z s3 k (Node (Node q p True wl) w False wr)" "kept z s2 s3"
      using left_rotate[OF 2(2)] by auto
    have kp: "kept z s s3" using 1(3) 2(3) 3(3) kept_trans by blast
    have r3: "rep z s3 (LeftOf w False wr # k) (Node q p True wl)" using 3(2) by simp
    have f3: "focus z s3 (LeftOf p True wl # LeftOf w False wr # k) q"
      by (rule focus_kept[OF f _ kp]) (use 3(2) in auto)
    then have "rd parent (addr z q) s3 = Some p" by (simp add: focus_def)
    then show ?thesis using True par n(2,5) 1(1) 2(1) 3(1) f3 kp rep_node(2)[OF r3]
      by (simp add: fixup_sibling_left_def ngx_rbt_is_red_def)
  qed
qed

text \<open>What the second half of the body leaves: one level further up, or a finished subtree.\<close>

definition mended :: "rbt \<Rightarrow> rbt \<Rightarrow> bool" where
  "mended t T \<longleftrightarrow> nodes T = nodes t \<and> is_red T = is_red t \<and> no_red_red T \<and> balanced T \<and> T \<noteq> Leaf"

lemma far_red_left:
  assumes f: "focus z s (LeftOf p c (Node wl w d wr) # k) q" and wr: "is_red wr"
  shows "\<exists>s1 s2 s3 s4. ngx_rbt_copy_color w p s = Some s1 \<and> ngx_rbt_black p s1 = Some s2 \<and> rd right w s2 = Some (addr z wr) \<and>
    ngx_rbt_black (addr z wr) s2 = Some s3 \<and> ngx_rbtree_left_rotate z p s3 = Some s4 \<and> kept z s s4 \<and>
    rep z s4 k (Node (Node q p False wl) w c (paint False wr))"
proof -
  have r: "rep z s k (Node q p c (Node wl w d wr))" using f by (auto simp: focus_def)
  obtain rl y e rr where wr': "wr = Node rl y e rr" using wr by (cases wr) auto
  obtain s1 where 1: "set_red w c s = Some s1" "rep z s1 k (Node q p c (Node wl w c wr))" "kept z s s1"
    using set_red_focus[of z s "RightOf q p c # k" wl w d wr c] r by auto
  obtain s2 where 2: "ngx_rbt_black p s1 = Some s2" "rep z s2 k (Node q p False (Node wl w c wr))" "kept z s1 s2"
    using set_red_focus[of z s1 k q p c "Node wl w c wr" False] 1 by (auto simp: ngx_rbt_black_def)
  have r2: "rep z s2 (RightOf q p False # k) (Node wl w c wr)" using 2 by simp
  obtain s3 where 3: "ngx_rbt_black y s2 = Some s3" "rep z s3 k (Node q p False (Node wl w c (paint False wr)))" "kept z s2 s3"
    using set_red_focus[of z s2 "RightOf wl w c # RightOf q p False # k" rl y e rr False] 2 wr' by (auto simp: ngx_rbt_black_def)
  obtain s4 where 4: "ngx_rbtree_left_rotate z p s3 = Some s4" "rep z s4 k (Node (Node q p False wl) w c (paint False wr))" "kept z s3 s4"
    using left_rotate[OF 3(2)] by auto
  have "ngx_rbt_copy_color w p s = Some s1"
    using rep_node(3)[OF r] 1(1) by (simp add: ngx_rbt_copy_color_def)
  moreover have "kept z s s4" using 1(3) 2(3) 3(3) 4(3) kept_trans by blast
  ultimately show ?thesis using 2(1) 3(1) 4 rep_node(2)[OF r2] wr' by auto
qed

lemma black_left:
  assumes f: "focus z s (LeftOf p c (Node wl w False wr) # k) q"
    and i: "no_red_red wl" "no_red_red wr" "balanced wl" "balanced wr" "black_height wl = black_height wr"
      "\<not> is_red q" "no_red_red q" "balanced q" "black_height wl = black_height q"
  shows "\<exists>t s' T. fixup_black_left z (addr z q) w s = Some (t, s') \<and> kept z s s' \<and> rep z s' k T \<and>
    (t = p \<and> T = Node q p c (Node wl w True wr) \<and> \<not> is_red wl \<and> \<not> is_red wr \<or>
     t = root s' \<and> mended (Node q p c (Node wl w False wr)) T \<and> black_height T = black_height q + (if c then 1 else 2))"
proof -
  have r: "rep z s k (Node q p c (Node wl w False wr))" and par: "rd parent (addr z q) s = Some p"
    using f by (auto simp: focus_def)
  have rw: "rep z s (RightOf q p c # k) (Node wl w False wr)" using r by simp
  note n = rep_node[OF r] and nw = rep_node[OF rw]
  consider "\<not> is_red wl" "\<not> is_red wr" | "is_red wr" | "is_red wl" "\<not> is_red wr" by blast
  then show ?thesis
  proof cases
    case 1
    obtain s1 where s1: "ngx_rbt_red w s = Some s1" "rep z s1 k (Node q p c (Node wl w True wr))" "kept z s s1"
      using set_red_focus[OF rw, of True] by (auto simp: ngx_rbt_red_def)
    have "focus z s1 (LeftOf p c (Node wl w True wr) # k) q"
      by (rule focus_kept[OF f _ s1(3)]) (use s1(2) in auto)
    then have "rd parent (addr z q) s1 = Some p" by (simp add: focus_def)
    then have "fixup_black_left z (addr z q) w s = Some (p, s1)"
      using 1 nw(1,2,4,5) s1(1) by (simp add: fixup_black_left_def ngx_rbt_is_red_def)
    then show ?thesis using 1 s1(2,3) by blast
  next
    case 2
    then show ?thesis using far_red_left[OF f 2] nw(1,2,4,5) par i
      by (fastforce simp: fixup_black_left_def ngx_rbt_is_red_def mended_def no_red_red_paint black_height_paint_black)
  next
    case 3
    obtain a y e b where wl: "wl = Node a y e b" "e" using 3 by (cases wl) auto
    obtain s1 where 1: "ngx_rbt_black y s = Some s1" "rep z s1 k (Node q p c (Node (Node a y False b) w False wr))" "kept z s s1"
      using set_red_focus[of z s "LeftOf w False wr # RightOf q p c # k" a y e b False] r wl by (auto simp: ngx_rbt_black_def)
    obtain s2 where 2: "ngx_rbt_red w s1 = Some s2" "rep z s2 k (Node q p c (Node (Node a y False b) w True wr))" "kept z s1 s2"
      using set_red_focus[of z s1 "RightOf q p c # k" "Node a y False b" w False wr True] 1 by (auto simp: ngx_rbt_red_def)
    obtain s3 where 4: "ngx_rbtree_right_rotate z w s2 = Some s3" "rep z s3 k (Node q p c (Node a y False (Node b w True wr)))" "kept z s2 s3"
      using right_rotate[of z s2 "RightOf q p c # k" a y False b w True wr] 2 by auto
    have kp: "kept z s s3" using 1(3) 2(3) 4(3) kept_trans by blast
    have f3: "focus z s3 (LeftOf p c (Node a y False (Node b w True wr)) # k) q"
      by (rule focus_kept[OF f _ kp]) (use 4(2) in auto)
    then have p3: "rd parent (addr z q) s3 = Some p" by (simp add: focus_def)
    show ?thesis using far_red_left[OF f3] nw(1,2,4,5) p3 rep_node(2)[OF 4(2)] i 3 wl 1(1) 2(1) 4(1) kept_trans[OF kp]
      by (fastforce simp: fixup_black_left_def ngx_rbt_is_red_def mended_def)
  qed
qed


text \<open>Both halves, on either side.\<close>

lemma mirror_red [simp]: "is_red (mirror t) = is_red t"
  by (cases t) auto

lemma mirror_height [simp]: "balanced t \<Longrightarrow> black_height (mirror t) = black_height t"
  by (induction t) auto

lemma mirror_balanced [simp]: "balanced (mirror t) = balanced t"
proof (induction t)
  case (Node l x c r)
  then show ?case by (metis balanced.simps(2) mirror.simps(2) mirror_height)
qed simp

lemma mirror_no_red_red [simp]: "no_red_red (mirror t) = no_red_red t"
  by (induction t) auto

lemma mended_mirror: "mended t T \<Longrightarrow> mended (mirror t) (mirror T)"
  by (simp add: mended_def)

text \<open>
  Where the body leaves the loop: one level up, at the root with a finished tree, or at a red node that only
  has to be painted. \<open>t\<close> is the tree before, \<open>h\<close> the black height it has to have.
\<close>

definition body_result :: "ptr \<Rightarrow> frame list \<Rightarrow> rbt \<Rightarrow> nat \<Rightarrow> ptr \<times> 'a rbheap_scheme \<Rightarrow> bool" where
  "body_result z k t h = (\<lambda>(x, s).
     (\<exists>T. rep z s k T \<and> x = addr z T \<and> T \<noteq> Leaf \<and> nodes T = nodes t \<and> no_red_red (paint False T) \<and> balanced T \<and>
        Suc (black_height T) = h)
   \<or> (\<exists>T. rep z s k T \<and> x = root s \<and> mended t T \<and> black_height T = h)
   \<or> (\<exists>F T. rep z s (F # k) T \<and> x = addr z T \<and> is_red T \<and> \<not> fcolour F \<and> mended t (fill F (paint False T)) \<and>
        black_height (fill F (paint False T)) = h))"

lemma mirror_paint [simp]: "mirror (paint c t) = paint c (mirror t)"
  by (cases t) auto

lemma mirror_fill: "mirror (fill F t) = fill (mirror_frame F) (mirror t)"
  by (cases F) auto

lemma body_result_mirror:
  assumes "body_result z k t h (x, s)"
  shows "body_result z (map mirror_frame k) (mirror t) h (x, flip s)"
proof -
  consider (up) T where "rep z s k T" "x = addr z T" "T \<noteq> Leaf" "nodes T = nodes t" "no_red_red (paint False T)" "balanced T"
      "Suc (black_height T) = h"
    | (fin) T where "rep z s k T" "x = root s" "mended t T" "black_height T = h"
    | (red) F T where "rep z s (F # k) T" "x = addr z T" "is_red T" "\<not> fcolour F" "mended t (fill F (paint False T))"
      "black_height (fill F (paint False T)) = h"
    using assms by (auto simp: body_result_def)
  then show ?thesis
  proof cases
    case up
    then have "rep z (flip s) (map mirror_frame k) (mirror T) \<and> x = addr z (mirror T) \<and> mirror T \<noteq> Leaf \<and>
      nodes (mirror T) = nodes (mirror t) \<and> no_red_red (paint False (mirror T)) \<and> balanced (mirror T) \<and>
      Suc (black_height (mirror T)) = h"
      by (simp flip: mirror_paint)
    then show ?thesis unfolding body_result_def by blast
  next
    case fin
    then have "rep z (flip s) (map mirror_frame k) (mirror T) \<and> x = root (flip s) \<and> mended (mirror t) (mirror T) \<and>
      black_height (mirror T) = h"
      using mended_mirror by (auto simp: mended_def)
    then show ?thesis unfolding body_result_def by blast
  next
    case red
    have "fcolour (mirror_frame F) = fcolour F" by (cases F) auto
    moreover have "balanced (fill F (paint False T))" using red by (simp add: mended_def)
    ultimately have "rep z (flip s) (mirror_frame F # map mirror_frame k) (mirror T) \<and> x = addr z (mirror T) \<and> is_red (mirror T) \<and>
      \<not> fcolour (mirror_frame F) \<and> mended (mirror t) (fill (mirror_frame F) (paint False (mirror T))) \<and>
      black_height (fill (mirror_frame F) (paint False (mirror T))) = h"
      using red mended_mirror[OF red(5)] rep_flip[of z s "F # k" T] by (simp flip: mirror_paint mirror_fill)
    then show ?thesis unfolding body_result_def by blast
  qed
qed

lemma body_left:
  assumes f: "focus z s (LeftOf p c W # k) q"
    and i: "\<not> is_red q" "no_red_red q" "balanced q" "no_red_red W" "balanced W" "black_height W = Suc (black_height q)"
      "\<not> (c \<and> is_red W)"
  shows "\<exists>r. do { (w, s) \<leftarrow> fixup_sibling_left z (addr z q) s; fixup_black_left z (addr z q) w s } = Some r \<and>
    kept z s (snd r) \<and> body_result z k (Node q p c W) (black_height q + (if c then 1 else 2)) r"
proof -
  obtain wl w d wr where W: "W = Node wl w d wr" using i(6) by (cases W) auto
  show ?thesis
  proof (cases d)
    case False
    obtain s1 where 1: "fixup_sibling_left z (addr z q) s = Some (w, s1)" "kept z s s1" "focus z s1 (LeftOf p c W # k) q"
      using sibling_left[of z s p c wl w d wr k q] f False W by auto
    obtain t s2 T where 2: "fixup_black_left z (addr z q) w s1 = Some (t, s2)" "kept z s1 s2" "rep z s2 k T"
      "t = p \<and> T = Node q p c (Node wl w True wr) \<and> \<not> is_red wl \<and> \<not> is_red wr \<or>
       t = root s2 \<and> mended (Node q p c (Node wl w False wr)) T \<and> black_height T = black_height q + (if c then 1 else 2)"
      using black_left[of z s1 p c wl w wr k q] 1(3) i W False by auto
    have "body_result z k (Node q p c W) (black_height q + (if c then 1 else 2)) (t, s2)"
      using 2(4)
    proof
      assume "t = p \<and> T = Node q p c (Node wl w True wr) \<and> \<not> is_red wl \<and> \<not> is_red wr"
      then show ?thesis using 2(3) i W False unfolding body_result_def by (intro case_prodI disjI1 exI[of _ T]) auto
    next
      assume "t = root s2 \<and> mended (Node q p c (Node wl w False wr)) T \<and> black_height T = black_height q + (if c then 1 else 2)"
      then show ?thesis using 2(3) W False unfolding body_result_def by auto
    qed
    then show ?thesis using 1 2 kept_trans by fastforce
  next
    case True
    obtain a y e b where wl: "wl = Node a y e b" "\<not> e" using i W True by (cases wl) auto
    have nr: "\<not> c" "\<not> is_red wr" "black_height wr = Suc (black_height q)" "black_height a = black_height q" using i W True wl by auto
    obtain s1 where 1: "fixup_sibling_left z (addr z q) s = Some (y, s1)" "kept z s s1"
      "focus z s1 (LeftOf p True (Node a y False b) # LeftOf w False wr # k) q"
      using sibling_left[of z s p c wl w d wr k q] f True W wl nr by auto
    obtain t s2 T where 2: "fixup_black_left z (addr z q) y s1 = Some (t, s2)" "kept z s1 s2" "rep z s2 (LeftOf w False wr # k) T"
      "t = p \<and> T = Node q p True (Node a y True b) \<and> \<not> is_red a \<and> \<not> is_red b \<or>
       t = root s2 \<and> mended (Node q p True (Node a y False b)) T \<and> black_height T = black_height q + 1"
      using black_left[of z s1 p True a y b "LeftOf w False wr # k" q] 1(3) i W wl nr by auto
    have "body_result z k (Node q p c W) (black_height q + (if c then 1 else 2)) (t, s2)"
      using 2(4)
    proof
      assume "t = p \<and> T = Node q p True (Node a y True b) \<and> \<not> is_red a \<and> \<not> is_red b"
      then show ?thesis using 2(3) i W wl nr unfolding body_result_def
        by (intro case_prodI disjI2 exI[of _ "LeftOf w False wr"] exI[of _ T]) (auto simp: mended_def)
    next
      assume "t = root s2 \<and> mended (Node q p True (Node a y False b)) T \<and> black_height T = black_height q + 1"
      then show ?thesis using 2(3) W wl i nr unfolding body_result_def
        by (intro case_prodI disjI2 disjI1 exI[of _ "Node T w False wr"]) (auto simp: mended_def)
    qed
    then show ?thesis using 1 2 kept_trans by fastforce
  qed
qed

lemma body_right:
  assumes f: "focus z s (RightOf W p c # k) q"
    and i: "\<not> is_red q" "no_red_red q" "balanced q" "no_red_red W" "balanced W" "black_height W = Suc (black_height q)"
      "\<not> (c \<and> is_red W)"
  shows "\<exists>r. do { (w, s) \<leftarrow> fixup_sibling_right z (addr z q) s; fixup_black_right z (addr z q) w s } = Some r \<and>
    kept z s (snd r) \<and> body_result z k (Node W p c q) (black_height q + (if c then 1 else 2)) r"
proof -
  have f': "focus z (flip s) (LeftOf p c (mirror W) # map mirror_frame k) (mirror q)"
    using f focus_flip[of z s "RightOf W p c # k" q] by simp
  obtain t s' where 1: "do { (w, s) \<leftarrow> fixup_sibling_left z (addr z q) (flip s); fixup_black_left z (addr z q) w s } = Some (t, s')"
    "kept z (flip s) s'" "body_result z (map mirror_frame k) (Node (mirror q) p c (mirror W)) (black_height q + (if c then 1 else 2)) (t, s')"
    using body_left[OF f'] i by auto
  have "do { (w, s) \<leftarrow> fixup_sibling_right z (addr z q) s; fixup_black_right z (addr z q) w s } = Some (t, flip s')"
    using 1(1) by (auto simp: sibling_flip black_flip split: bind_splits)
  moreover have "kept z s (flip s')" using 1(2) kept_flip[of z s "flip s'"] by simp
  moreover have "body_result z k (Node W p c q) (black_height q + (if c then 1 else 2)) (t, flip s')"
    using body_result_mirror[OF 1(3)] by (simp add: comp_def)
  ultimately show ?thesis by fastforce
qed

lemma paint_focus:
  assumes "rep z s k q"
  shows "\<exists>s'. ngx_rbt_black (addr z q) s = Some s' \<and> rep z s' k (paint False q) \<and> kept z s s'"
proof (cases q)
  case Leaf
  let ?s = "s\<lparr>red := (red s)(z := False)\<rparr>"
  have z: "z \<in> alive s" "\<not> red s z" using rep_sentinel[OF assms] by auto
  then have "?s = s" by (metis (full_types) fun_upd_triv rbheap.surjective rbheap.update_convs(6))
  then show ?thesis using assms Leaf z by (auto simp: ngx_rbt_black_def set_red_def)
next
  case (Node l x c r)
  then show ?thesis using set_red_focus[of z s k l x c r False] assms by (auto simp: ngx_rbt_black_def)
qed

lemma rd_addr_red: "rep z s k q \<Longrightarrow> rd red (addr z q) s = Some (is_red q)"
  unfolding rep_eq using rd_red by blast

lemma plug_not_leaf: "t \<noteq> Leaf \<Longrightarrow> plug k t \<noteq> Leaf"
proof (induction k arbitrary: t)
  case (Cons F k)
  have "fill F t \<noteq> Leaf" by (cases F) auto
  then show ?case using Cons by simp
qed simp

lemma focus_not_root:
  assumes "rep z s (F # k) q" shows "addr z q \<noteq> root s"
proof -
  obtain p where "linkedc z s (F # k) p (addr z q)" "distinct (z # before (F # k) @ nodes q @ after (F # k))"
    using assms unfolding rep_eq by auto
  moreover from this(1) have "root s \<in> set (before (F # k) @ after (F # k))" by (rule root_in_context) simp
  ultimately show ?thesis using addr_cases[of z q] by (auto simp del: before.simps after.simps)
qed

lemma delete_fixup_stop:
  assumes r: "rep z s k q" and e: "k = [] \<or> is_red q" and i: "no_red_red (paint False q)" "balanced q"
    "fits_colour k False" "fits_height k (black_height (paint False q))" "root_black k"
  shows "fixed z s (nodes (plug k q)) (delete_fixup z (addr z q) s)"
proof -
  obtain s' where s': "ngx_rbt_black (addr z q) s = Some s'" "rep z s' k (paint False q)" "kept z s s'"
    using paint_focus[OF r] by auto
  have "delete_fixup z (addr z q) s = Some s'"
  proof (cases "addr z q = root s")
    case False
    then have "is_red q" using e rep_root_addr[OF r] by auto
    then show ?thesis using False s'(1) rd_addr_red[OF r] by (subst delete_fixup.simps) (simp add: ngx_rbt_is_red_def)
  qed (use s'(1) in \<open>subst delete_fixup.simps, simp\<close>)
  moreover have "rep z s' [] (plug k (paint False q))" using s'(2) rep_plug by blast
  moreover have "red_black (plug k (paint False q))" using i by (simp add: red_black_plug)
  moreover have "nodes (plug k (paint False q)) = nodes (plug k q)" by (simp add: nodes_plug)
  ultimately show ?thesis using s'(3) unfolding fixed_def by blast
qed

lemma delete_fixup_correct:
  assumes "focus z s k q" "no_red_red (paint False q)" "balanced q" "fits_colour k False"
    "fits_height k (Suc (black_height q))" "root_black k"
  shows "fixed z s (nodes (plug k q)) (delete_fixup z (addr z q) s)"
  using assms
proof (induction k arbitrary: q s)
  case Nil
  then show ?case by (intro delete_fixup_stop) (auto simp: focus_def)
next
  case (Cons F k)
  have r: "rep z s (F # k) q" and par: "rd parent (addr z q) s = Some (fnode F)"
    using Cons.prems(1) by (auto simp: focus_def)
  show ?case
  proof (cases "is_red q")
    case True
    then show ?thesis using Cons.prems r
      by (intro delete_fixup_stop) (simp_all add: black_height_paint_black del: fits_colour.simps fits_height.simps rep_left rep_right)
  next
    case q: False
    have rk: "root_black k" using Cons.prems(6) by (cases "k = []") auto
    have nq: "no_red_red q" using Cons.prems(2) q by (cases q) auto
    let ?h = "black_height q + (if fcolour F then 1 else 2)"
    define body where "body = (if \<exists>p c W. F = LeftOf p c W
      then do { (w, s) \<leftarrow> fixup_sibling_left z (addr z q) s; fixup_black_left z (addr z q) w s }
      else do { (w, s) \<leftarrow> fixup_sibling_right z (addr z q) s; fixup_black_right z (addr z q) w s })"
    have fk: "fits_colour k (fcolour F)" "fits_height k ?h"
      using Cons.prems(4,5) by (auto split: frame.splits)
    have W: "\<exists>r. body = Some r \<and> kept z s (snd r) \<and> body_result z k (fill F q) ?h r"
    proof (cases F)
      case (LeftOf p c W)
      then show ?thesis using body_left[of z s p c W k q] Cons.prems q nq by (auto simp: body_def)
    next
      case (RightOf W p c)
      then show ?thesis using body_right[of z s W p c k q] Cons.prems q nq by (auto simp: body_def)
    qed
    then obtain x s1 where b: "body = Some (x, s1)" "kept z s s1" "body_result z k (fill F q) ?h (x, s1)" by auto
    have bh: "F = LeftOf p c W \<or> F = RightOf W p c \<Longrightarrow> W \<noteq> Leaf" for p c W
      using Cons.prems(5) by auto
    have "delete_fixup z (addr z q) s = do { (t, s) \<leftarrow> body; delete_fixup z t s }"
    proof (cases F)
      case (LeftOf p c W)
      have r': "rep z s k (Node q p c W)" using r LeftOf by simp
      then show ?thesis using LeftOf q par focus_not_root[OF r] rd_addr_red[OF r] rep_node(1)[OF r']
        by (subst delete_fixup.simps) (auto simp: ngx_rbt_is_red_def body_def)
    next
      case (RightOf W p c)
      have r': "rep z s k (Node W p c q)" using r RightOf by simp
      then show ?thesis using RightOf q par focus_not_root[OF r] rd_addr_red[OF r] rep_node(1,12)[OF r'] bh[of p c W]
        by (subst delete_fixup.simps) (auto simp: ngx_rbt_is_red_def body_def)
    qed
    then have dx: "delete_fixup z (addr z q) s = delete_fixup z x s1" using b(1) by simp
    have nd: "nodes (plug (F # k) q) = nodes (plug k (fill F q))" by simp
    have "fixed z s1 (nodes (plug k (fill F q))) (delete_fixup z x s1)"
      using b(3) unfolding body_result_def prod.case
    proof (elim disjE exE conjE)
      fix T assume T: "rep z s1 k T" "x = addr z T" "T \<noteq> Leaf" "nodes T = nodes (fill F q)" "no_red_red (paint False T)"
        "balanced T" "Suc (black_height T) = ?h"
      have "focus z s1 k T" using T(1,3) focus_node by (cases T) auto
      then have "fixed z s1 (nodes (plug k T)) (delete_fixup z (addr z T) s1)"
        using T fk rk by (intro Cons.IH) (auto intro: fits_colour_black)
      then show ?thesis using T(2,4) by (simp add: nodes_plug)
    next
      fix T assume T: "rep z s1 k T" "x = root s1" "mended (fill F q) T" "black_height T = ?h"
      have "plug k T \<noteq> Leaf" using T(3) plug_not_leaf by (simp add: mended_def)
      then obtain s' where s': "ngx_rbt_black (root s1) s1 = Some s'" "rep z s' [] (paint False (plug k T))" "kept z s1 s'"
        using black_root[OF T(1)] by auto
      have "delete_fixup z x s1 = Some s'" using s'(1) T(2) by (subst delete_fixup.simps) simp
      moreover have "red_black (paint False (plug k T))"
        using T fk by (intro red_black_paint) (auto simp: no_red_red_plug balanced_plug mended_def)
      moreover have "nodes (paint False (plug k T)) = nodes (plug k (fill F q))"
        using T(3) by (simp add: nodes_plug mended_def)
      ultimately show ?thesis using s'(2,3) unfolding fixed_def by blast
    next
      fix G T assume T: "rep z s1 (G # k) T" "x = addr z T" "is_red T" "\<not> fcolour G" "mended (fill F q) (fill G (paint False T))"
        "black_height (fill G (paint False T)) = ?h"
      have "fixed z s1 (nodes (plug (G # k) T)) (delete_fixup z x s1)"
        unfolding T(2)
      proof (rule delete_fixup_stop[OF T(1)])
        show "no_red_red (paint False T)" "balanced T" using T(5) by (cases G; auto simp: mended_def)+
        have "no_red_red (plug k (fill G (paint False T)))" "balanced (plug k (fill G (paint False T)))"
          using T(5,6) fk by (auto simp: no_red_red_plug balanced_plug mended_def)
        then show "fits_colour (G # k) False" "fits_height (G # k) (black_height (paint False T))"
          using no_red_red_plug[of "G # k" "paint False T"] balanced_plug[of "G # k" "paint False T"] by auto
        show "root_black (G # k)" using rk T(4) by (cases "k = []") auto
      qed (use T in auto)
      moreover have "nodes (fill G T) = nodes (fill G (paint False T))" by (cases G) auto
      then have "nodes (plug (G # k) T) = nodes (plug k (fill F q))"
        using T(5) by (simp add: mended_def nodes_plug)
      ultimately show ?thesis by simp
    qed
    then show ?thesis using b(2) fixed_step dx nd by metis
  qed
qed

lemma fits_rename:
  "fits_colour (j @ RightOf l x c # k) b = fits_colour (j @ RightOf l y c # k) b"
  "fits_height (j @ RightOf l x c # k) h = fits_height (j @ RightOf l y c # k) h"
  "root_black (j @ RightOf l x c # k) = root_black (j @ RightOf l y c # k)"
proof -
  show "fits_colour (j @ RightOf l x c # k) b = fits_colour (j @ RightOf l y c # k) b"
    by (induction j arbitrary: b) (auto split: frame.splits)
  show "fits_height (j @ RightOf l x c # k) h = fits_height (j @ RightOf l y c # k) h"
    by (induction j arbitrary: h) (auto split: frame.splits)
  show "root_black (j @ RightOf l x c # k) = root_black (j @ RightOf l y c # k)"
    by (simp add: root_black_def)
qed

text \<open>The tree is short of a node of colour \<open>c\<close> at the focus.\<close>

lemma rebalanced:
  assumes u: "unlinked z x s k q s1" and k: "k \<noteq> []"
    and i: "no_red_red q" "balanced q" "c \<Longrightarrow> \<not> is_red q" "fits_colour k c" "fits_height k (black_height q + (if c then 0 else 1))"
      "root_black k"
  shows "\<exists>s'. (if c then Some s1 else delete_fixup z (addr z q) s1) = Some s' \<and> is_rbtree z s' (before k @ nodes q @ after k) \<and>
    alive s' = alive s \<and> rbheap.more s' = rbheap.more s \<and> key s' = (key s)(x := 0)"
proof (cases c)
  case True
  have r: "rep z s1 [] (plug k q)" using u rep_plug by (auto simp: unlinked_def)
  have "red_black (plug k q)" using i True k fits_colour_black by (auto simp: red_black_plug)
  then have "is_rbtree z s1 (before k @ nodes q @ after k)"
    unfolding is_rbtree_def using r nodes_plug by blast
  then show ?thesis using u True by (auto simp: unlinked_def)
next
  case False
  have r: "rep z s1 k q" using u by (simp add: unlinked_def)
  have "addr z q \<in> alive s1"
    using r by (cases q) (auto simp: rep_eq sentinel_ok_def)
  then have "focus z s1 k q" using u by (auto simp: unlinked_def focus_def rd_def)
  then have "fixed z s1 (nodes (plug k q)) (delete_fixup z (addr z q) s1)"
    using i False by (intro delete_fixup_correct) (auto simp: no_red_red_paint)
  then obtain s' T where "delete_fixup z (addr z q) s1 = Some s'" "rep z s' [] T" "nodes T = nodes (plug k q)" "red_black T" "kept z s1 s'"
    by (auto simp: fixed_def)
  moreover from this have "is_rbtree z s' (before k @ nodes q @ after k)"
    unfolding is_rbtree_def by (metis nodes_plug)
  ultimately show ?thesis using u False by (auto simp: unlinked_def kept_def)
qed

lemma delete_node:
  assumes t: "is_rbtree z s (xs @ x # ys)"
  shows "\<exists>s'. ngx_rbtree_delete z x s = Some s' \<and> is_rbtree z s' (xs @ ys) \<and>
    alive s' = alive s \<and> rbheap.more s' = rbheap.more s \<and> key s' = (key s)(x := 0)"
proof -
  obtain t where t: "rep z s [] t" "red_black t" "nodes t = xs @ x # ys" using t by (auto simp: is_rbtree_def)
  obtain k l c r where k: "t = plug k (Node l x c r)" using split_node[of x t] t(3) by auto
  have rp: "rep z s k (Node l x c r)" using t(1) k rep_plug by blast
  have d: "distinct (nodes t)" using t(1) by (auto simp: rep_def)
  have "(before k @ nodes l) @ x # (nodes r @ after k) = xs @ x # ys" using t(3) k by (simp add: nodes_plug)
  moreover have "x \<notin> set (before k @ nodes l)" "x \<notin> set xs"
    using d[unfolded k] d[unfolded t(3)] by (auto simp: nodes_plug)
  ultimately have xy: "xs = before k @ nodes l" "ys = nodes r @ after k" using split_at_eq by metis+
  have i: "no_red_red (Node l x c r)" "balanced (Node l x c r)" "fits_colour k c" "fits_height k (black_height l + (if c then 0 else 1))"
    "root_black k" "k = [] \<longrightarrow> \<not> c"
    using t(2) k by (auto simp: red_black_plug)
  show ?thesis
  proof (cases "l = Leaf \<or> r = Leaf")
    case True
    define q where "q = (if l = Leaf then r else l)"
    have q: "l = Leaf \<and> q = r \<or> r = Leaf \<and> q = l" using True by (auto simp: q_def)
    have n: "xs @ ys = before k @ nodes q @ after k" using q xy by auto
    have iq: "no_red_red q" "balanced q" "c \<Longrightarrow> \<not> is_red q" "black_height q = black_height l" using i q by auto
    show ?thesis
    proof (cases k)
      case Nil
      obtain s' where s': "ngx_rbtree_delete z x s = Some s'" "unlinked z x s [] (paint False q) s'"
        using delete_root[of z s l x c r q] rp q Nil by auto
      moreover have "is_rbtree z s' (xs @ ys)"
        unfolding is_rbtree_def using s'(2) n Nil iq red_black_paint[of q] by (auto simp: unlinked_def)
      ultimately show ?thesis by (auto simp: unlinked_def)
    next
      case (Cons F j)
      obtain s1 where s1: "ngx_rbtree_delete z x s = (if c then Some s1 else delete_fixup z (addr z q) s1)" "unlinked z x s k q s1"
        using delete_one[of z s F j l x c r q] rp q Cons by blast
      show ?thesis
        unfolding s1(1) n by (rule rebalanced[OF s1(2)]) (use iq i Cons in \<open>simp_all only:, simp_all\<close>)
    qed
  next
    case False
    have "rep z s (RightOf l x c # k) r" using rp by simp
    from leftmost[OF this] False obtain j y e rr where r: "r = plug j (Node Leaf y e rr)" "before j = []"
      "ngx_rbtree_min (addr z r) z s = Some y" by blast
    let ?K = "j @ RightOf l x c # k" and ?K' = "j @ RightOf l y c # k"
    obtain s1 where s1: "ngx_rbtree_delete z x s = (if e then Some s1 else delete_fixup z (addr z rr) s1)" "unlinked z x s ?K' rr s1"
      using delete_two[of z s k l x c j y e rr] rp r False by auto
    have "red_black (plug ?K (Node Leaf y e rr))" using t(2) k r by (simp add: plug_append)
    then have iq: "no_red_red rr" "balanced rr" "black_height rr = 0" "e \<Longrightarrow> \<not> is_red rr" "fits_colour ?K' e"
      "fits_height ?K' (black_height rr + (if e then 0 else 1))" "root_black ?K'"
      unfolding red_black_plug by (auto simp: fits_rename[where x = x and y = y])
    have "xs @ ys = before ?K' @ nodes rr @ after ?K'"
      using xy r by (simp add: nodes_plug before_append after_append)
    then show ?thesis using rebalanced[OF s1(2) _ iq(1,2,4,5,6,7)] s1(1) by simp
  qed
qed

section \<open>Deletion and walk\<close>

text \<open>
  C3. Deletion of any node of a tree of any size: the function returns, the heap again holds a
  red-black tree, its nodes in order are those of before without the deleted one, and the only
  key that changes is that of the deleted node, which is cleared.
\<close>

theorem rbtree_delete_ok:
  assumes "is_rbtree z s (xs @ x # ys)"
  shows "\<exists>s'. ngx_rbtree_delete z x s = Some s' \<and> is_rbtree z s' (xs @ ys) \<and>
    alive s' = alive s \<and> rbheap.more s' = rbheap.more s \<and> key s' = (key s)(x := 0)"
  using assms by (rule delete_node)

theorem rbtree_delete_ok_witness:
  "\<exists>s'. ngx_rbtree_delete 9 2 example_tree = Some s' \<and> is_rbtree 9 s' [1, 3]"
  using rbtree_delete_ok[of 9 example_tree "[1]" 2 "[3]"] example_rbtree by auto

text \<open>
  The walk: the minimum is the first node in order, and the successor of every node is the
  node behind it, or \<open>NULL\<close> for the last one.
\<close>

theorem rbtree_walk_ok:
  assumes "is_rbtree z s xs" "xs \<noteq> []"
  shows "ngx_rbtree_min (root s) z s = Some (xs ! 0) \<and>
    (\<forall>i < List.length xs. ngx_rbtree_next z (xs ! i) s = Some (if Suc i < List.length xs then xs ! Suc i else 0))"
proof (intro conjI allI impI)
  show "ngx_rbtree_min (root s) z s = Some (xs ! 0)" using min_first[OF assms] assms(2) by (simp add: hd_conv_nth)
  fix i assume i: "i < List.length xs"
  have "xs = take i xs @ xs ! i # drop (Suc i) xs" using i by (rule id_take_nth_drop)
  then have "ngx_rbtree_next z (xs ! i) s = Some (case drop (Suc i) xs of [] \<Rightarrow> 0 | y # _ \<Rightarrow> y)"
    using next_node assms(1) by metis
  then show "ngx_rbtree_next z (xs ! i) s = Some (if Suc i < List.length xs then xs ! Suc i else 0)"
    using i by (cases "drop (Suc i) xs") (auto simp: nth_via_drop)
qed

theorem rbtree_walk_ok_witness:
  "ngx_rbtree_min 2 9 example_tree = Some 1 \<and> ngx_rbtree_next 9 1 example_tree = Some 2"
  using rbtree_walk_ok[OF example_rbtree(1)] by (auto simp: example_tree_def)

end
