(* ===== verification/Ngx_Event_Timer.thy ===== *)
theory Ngx_Event_Timer
  imports Ngx_Rbtree_Delete "HOL-Library.Sublist"
begin

text \<open>
  The timers of events, \<^verbatim>\<open>src/event/ngx_event_timer.c\<close> and \<^verbatim>\<open>src/event/ngx_event_timer.h\<close>, a client of the
  red-black tree with the insertion function for times. An event is named by the address of its
  member \<open>timer\<close>, the node of the tree, so that \<open>ngx_rbtree_data\<close> is the identity. The flags of
  the event and the cached time are further fields of the heap. Handlers of events are an argument.
  Log messages and the assignments under \<open>NGX_DEBUG\<close>, which repeat those of the deletion, are left out.

  \<open>timers z b s xs\<close> is the contract: the tree holds the events \<open>xs\<close>, due in this order, \<open>timer_set\<close> says
  which events are in the tree, and all times lie in the window that starts at \<open>b\<close>. \<open>settling\<close> and \<open>removing\<close> are
  the contracts of the handlers, which may set and delete timers and advance the cached time.
\<close>

section \<open>The operations\<close>

record timer_heap = rbheap +
  timer_set :: "ptr \<Rightarrow> bool"
  timedout :: "ptr \<Rightarrow> bool"
  cancelable :: "ptr \<Rightarrow> bool"
  ngx_current_msec :: "64 word"

definition NGX_TIMER_INFINITE :: "64 word" where
  "NGX_TIMER_INFINITE = -1"

definition NGX_TIMER_LAZY_DELAY :: int where
  "NGX_TIMER_LAZY_DELAY = 300"

definition ngx_abs :: "64 word \<Rightarrow> 64 word" where
  "ngx_abs d = (if 0 \<le> sint d then d else - d)"

definition ngx_event_timer_init :: "ptr \<Rightarrow> 'a timer_heap_scheme \<Rightarrow> 'a timer_heap_scheme option" where
  "ngx_event_timer_init = ngx_rbtree_init"

definition ngx_event_find_timer :: "ptr \<Rightarrow> 'a timer_heap_scheme \<Rightarrow> 64 word option" where
  "ngx_event_find_timer sentinel s =
     (if root s = sentinel then Some NGX_TIMER_INFINITE
      else do {
        node \<leftarrow> ngx_rbtree_min (root s) sentinel s;
        k \<leftarrow> rd key node s;
        let timer = k - ngx_current_msec s;
        Some (if 0 < sint timer then timer else 0) })"

definition ngx_event_del_timer :: "ptr \<Rightarrow> ptr \<Rightarrow> 'a timer_heap_scheme \<Rightarrow> 'a timer_heap_scheme option" where
  "ngx_event_del_timer sentinel ev s = do {
     s \<leftarrow> ngx_rbtree_delete sentinel ev s;
     Some (s\<lparr>timer_set := (timer_set s)(ev := False)\<rparr>) }"

definition ngx_event_add_timer :: "ptr \<Rightarrow> ptr \<Rightarrow> 64 word \<Rightarrow> 'a timer_heap_scheme \<Rightarrow> 'a timer_heap_scheme option" where
  "ngx_event_add_timer sentinel ev timer s = do {
     let k = ngx_current_msec s + timer;
     is_set \<leftarrow> rd timer_set ev s;
     old \<leftarrow> rd key ev s;
     if is_set \<and> sint (ngx_abs (k - old)) < NGX_TIMER_LAZY_DELAY then Some s
     else do {
       s \<leftarrow> (if is_set then ngx_event_del_timer sentinel ev s else Some s);
       s \<leftarrow> set_key ev k s;
       s \<leftarrow> ngx_rbtree_insert ngx_rbtree_insert_timer_value sentinel ev s;
       Some (s\<lparr>timer_set := (timer_set s)(ev := True)\<rparr>) } }"

text \<open>The handlers of the events are an argument.\<close>

partial_function (option) ngx_event_expire_timers ::
  "(ptr \<Rightarrow> 'a timer_heap_scheme \<Rightarrow> 'a timer_heap_scheme option) \<Rightarrow> ptr \<Rightarrow> 'a timer_heap_scheme \<Rightarrow> 'a timer_heap_scheme option" where
  "ngx_event_expire_timers handler sentinel s =
     (if root s = sentinel then Some s
      else do {
        node \<leftarrow> ngx_rbtree_min (root s) sentinel s;
        k \<leftarrow> rd key node s;
        if 0 < sint (k - ngx_current_msec s) then Some s
        else do {
          s \<leftarrow> ngx_rbtree_delete sentinel node s;
          s \<leftarrow> handler node (s\<lparr>timer_set := (timer_set s)(node := False), timedout := (timedout s)(node := True)\<rparr>);
          ngx_event_expire_timers handler sentinel s } })"

partial_function (option) no_timers_loop :: "ptr \<Rightarrow> ptr \<Rightarrow> 'a timer_heap_scheme \<Rightarrow> ngx_int option" where
  "no_timers_loop sentinel node s =
     (if node = 0 then Some NGX_OK
      else do {
        c \<leftarrow> rd cancelable node s;
        if \<not> c then Some NGX_AGAIN
        else do {
          node \<leftarrow> ngx_rbtree_next sentinel node s;
          no_timers_loop sentinel node s } })"

definition ngx_event_no_timers_left :: "ptr \<Rightarrow> 'a timer_heap_scheme \<Rightarrow> ngx_int option" where
  "ngx_event_no_timers_left sentinel s =
     (if root s = sentinel then Some NGX_OK
      else do {
        node \<leftarrow> ngx_rbtree_min (root s) sentinel s;
        no_timers_loop sentinel node s })"

section \<open>The contract\<close>

definition expired :: "'a timer_heap_scheme \<Rightarrow> ptr \<Rightarrow> bool" where
  "expired s x \<longleftrightarrow> sint (key s x - ngx_current_msec s) \<le> 0"

text \<open>The timers in the tree, in the order in which they are due.\<close>

definition timers :: "ptr \<Rightarrow> 64 word \<Rightarrow> 'a timer_heap_scheme \<Rightarrow> ptr list \<Rightarrow> bool" where
  "timers z b s xs \<longleftrightarrow> is_rbtree z s xs \<and> ordered timer_less (key s) xs \<and>
     key s ` set xs \<subseteq> timer_window b \<and> ngx_current_msec s \<in> timer_window b \<and>
     0 \<notin> alive s \<and> (\<forall>x \<in> alive s. x \<noteq> z \<longrightarrow> (timer_set s x \<longleftrightarrow> x \<in> set xs))"

lemma is_rbtree_update [simp]:
  "is_rbtree z (timer_set_update f s) = is_rbtree z s" "is_rbtree z (timedout_update f s) = is_rbtree z s"
proof -
  have l: "linked z (timer_set_update f s) p t = linked z s p t" "linked z (timedout_update f s) p t = linked z s p t" for p t
    by (induction t arbitrary: p) auto
  then show "is_rbtree z (timer_set_update f s) = is_rbtree z s" "is_rbtree z (timedout_update f s) = is_rbtree z s"
    by (simp_all add: is_rbtree_def[abs_def] rep_def sentinel_ok_def)
qed

lemma linked_key [simp]: "linked z (key_update f s) p t = linked z s p t"
  by (induction t arbitrary: p) auto

lemma is_rbtree_key [simp]: "is_rbtree z (key_update f s) = is_rbtree z s"
  by (simp add: is_rbtree_def[abs_def] rep_def sentinel_ok_def)

lemma timer_more:
  fixes s s' :: "'a timer_heap_scheme"
  assumes "rbheap.more s' = rbheap.more s"
  shows "timer_set s' = timer_set s" "timedout s' = timedout s" "cancelable s' = cancelable s"
    "ngx_current_msec s' = ngx_current_msec s" "timer_heap.more s' = timer_heap.more s"
  using assms by (cases s; cases s'; simp)+

lemma window_current:
  assumes "timers z b s xs" "x \<in> set xs"
  shows "expired s x \<longleftrightarrow> uint (key s x - b) \<le> uint (ngx_current_msec s - b)"
proof -
  have "sint (key s x - ngx_current_msec s) = uint (key s x - b) - uint (ngx_current_msec s - b)"
    using assms by (intro sint_diff_window) (auto simp: timers_def)
  then show ?thesis by (simp add: expired_def)
qed

lemma first_timer:
  assumes t: "timers z b s (x # xs)" and y: "y \<in> set (x # xs)"
  shows "uint (key s x - b) \<le> uint (key s y - b)" "expired s y \<Longrightarrow> expired s x"
proof -
  have "\<not> timer_less (key s y) (key s x)" if "y \<noteq> x" using t y that by (auto simp: timers_def ordered_def)
  then show "uint (key s x - b) \<le> uint (key s y - b)"
    using t y timer_less_window[of "key s y" b "key s x"] by (cases "y = x") (auto simp: timers_def)
  then show "expired s y \<Longrightarrow> expired s x"
    using window_current[OF t y] window_current[OF t, of x] by simp
qed

lemma find_timer_value:
  assumes t: "timers z b s xs"
  shows "ngx_event_find_timer z s = Some (case xs of [] \<Rightarrow> NGX_TIMER_INFINITE
     | x # _ \<Rightarrow> if expired s x then 0 else key s x - ngx_current_msec s)"
proof (cases xs)
  case Nil
  then show ?thesis using t is_rbtree_empty[of z s xs] by (simp add: ngx_event_find_timer_def timers_def)
next
  case (Cons x ys)
  have r: "is_rbtree z s xs" using t by (simp add: timers_def)
  then have "ngx_rbtree_min (root s) z s = Some x" "root s \<noteq> z" "x \<in> alive s"
    using min_first[of z s xs] is_rbtree_empty[of z s xs] is_rbtree_alive[of z s xs] Cons by auto
  then show ?thesis using Cons by (auto simp: ngx_event_find_timer_def rd_def expired_def)
qed


lemma del_timer_timers:
  assumes t: "timers z b s (xs @ x # ys)"
  shows "\<exists>s'. ngx_event_del_timer z x s = Some s' \<and> timers z b s' (xs @ ys) \<and>
    alive s' = alive s \<and> key s' = (key s)(x := 0) \<and> timer_set s' = (timer_set s)(x := False) \<and>
    timedout s' = timedout s \<and> cancelable s' = cancelable s \<and>
    ngx_current_msec s' = ngx_current_msec s \<and> timer_heap.more s' = timer_heap.more s"
proof -
  have r: "is_rbtree z s (xs @ x # ys)" using t by (simp add: timers_def)
  then have d: "distinct (z # xs @ x # ys)" by (rule is_rbtree_distinct)
  obtain s1 where s1: "ngx_rbtree_delete z x s = Some s1" "is_rbtree z s1 (xs @ ys)"
    "alive s1 = alive s" "rbheap.more s1 = rbheap.more s" "key s1 = (key s)(x := 0)"
    using delete_node[OF r] by auto
  note m = timer_more[OF s1(4)]
  let ?s = "s1\<lparr>timer_set := (timer_set s1)(x := False)\<rparr>"
  have "ordered timer_less (key ?s) (xs @ ys)"
  proof -
    have "sorted_wrt (\<lambda>a c. \<not> timer_less (key s c) (key s a)) (xs @ ys)"
      using t by (simp add: timers_def ordered_def sorted_wrt_append)
    then show ?thesis unfolding ordered_def
      by (rule sorted_wrt_mono_rel[rotated]) (use d s1(5) in auto)
  qed
  moreover have "key ?s ` set (xs @ ys) \<subseteq> timer_window b" using t d s1(5) by (auto simp: timers_def)
  moreover have "\<forall>w \<in> alive ?s. w \<noteq> z \<longrightarrow> (timer_set ?s w \<longleftrightarrow> w \<in> set (xs @ ys))"
    using t d s1(3) m(1) by (auto simp: timers_def)
  ultimately have "timers z b ?s (xs @ ys)" using t s1 m by (simp add: timers_def)
  then show ?thesis using s1 m by (auto simp: ngx_event_del_timer_def)
qed


lemma ordered_cong:
  assumes "ordered lt f xs" "\<And>x. x \<in> set xs \<Longrightarrow> g x = f x" shows "ordered lt g xs"
  using assms(1) unfolding ordered_def by (rule sorted_wrt_mono_rel[rotated]) (use assms(2) in auto)

text \<open>An event that is not in the tree gets a timer.\<close>

lemma insert_timer_timers:
  assumes t: "timers z b s xs" and x: "x \<in> alive s" "x \<notin> set (z # xs)" and k: "k \<in> timer_window b"
  shows "\<exists>s'. do { s \<leftarrow> set_key x k s; s \<leftarrow> ngx_rbtree_insert ngx_rbtree_insert_timer_value z x s;
       Some (s\<lparr>timer_set := (timer_set s)(x := True)\<rparr>) } = Some s' \<and>
    timers z b s' (insert_behind timer_less (key s') x xs) \<and> key s' = (key s)(x := k) \<and>
    alive s' = alive s \<and> ngx_current_msec s' = ngx_current_msec s"
proof -
  let ?s = "s\<lparr>key := (key s)(x := k)\<rparr>"
  have o: "ordered timer_less (key ?s) xs"
    by (rule ordered_cong[of _ "key s"]) (use t x in \<open>auto simp: timers_def\<close>)
  have w: "key ?s ` set (x # xs) \<subseteq> timer_window b" using t k by (auto simp: timers_def)
  have r: "is_rbtree z ?s xs" "x \<in> alive ?s" using t x by (simp_all add: timers_def)
  obtain s1 where s1: "ngx_rbtree_insert (insert_loop timer_less) z x ?s = Some s1"
    "is_rbtree z s1 (insert_behind timer_less (key ?s) x xs)" "ordered timer_less (key ?s) (insert_behind timer_less (key ?s) x xs)"
    "alive s1 = alive ?s" "key s1 = key ?s" "rbheap.more s1 = rbheap.more ?s"
    using timer.insert_value[OF r(1) o r(2) x(2) w] by auto
  note m = timer_more[OF s1(6)]
  have st: "set (insert_behind timer_less f x xs) = insert x (set xs)" for f
    by (auto simp: insert_behind_def)
  have "timers z b (s1\<lparr>timer_set := (timer_set s1)(x := True)\<rparr>) (insert_behind timer_less (key ?s) x xs)"
  proof -
    have "key ?s ` set (insert_behind timer_less (key ?s) x xs) \<subseteq> timer_window b" using w st by simp
    moreover have "\<forall>y \<in> alive s. y \<noteq> z \<longrightarrow> (timer_set s y \<longleftrightarrow> y \<in> set xs)" using t by (simp add: timers_def)
    ultimately show ?thesis
      using s1(2-5) m st t x(2) unfolding timers_def by simp
  qed
  then show ?thesis using s1 m x(1) by (simp add: set_key_def ngx_rbtree_insert_timer_value_def)
qed

lemma filter_middle: "distinct (xs @ x # ys) \<Longrightarrow> filter (\<lambda>y. y \<noteq> x) (xs @ x # ys) = xs @ ys"
proof -
  assume "distinct (xs @ x # ys)"
  then have "filter (\<lambda>y. y \<noteq> x) xs = xs" "filter (\<lambda>y. y \<noteq> x) ys = ys" by (auto simp: filter_id_conv)
  then show ?thesis by simp
qed

lemma timers_distinct: "timers z b s xs \<Longrightarrow> distinct (z # xs)"
  unfolding timers_def using is_rbtree_distinct by blast

lemma sint_ngx_abs: "sint d \<noteq> - (2 ^ 63) \<Longrightarrow> sint (ngx_abs d) = \<bar>sint d\<bar>" for d :: "64 word"
  using sint_ge[of d] sint_lt[of d] by (auto simp: ngx_abs_def sint_word_ariths signed_take_bit_int_eq_self)

lemma lazy_abs:
  assumes "a \<in> timer_window b" "c \<in> timer_window b" shows "sint (ngx_abs (a - c)) = \<bar>sint (a - c)\<bar>"
proof (rule sint_ngx_abs)
  have "uint (c - b) < 2 ^ 63" using assms(2) by (simp add: timer_window_def)
  then show "sint (a - c) \<noteq> - (2 ^ 63)"
    using uint_nonnegative[of "a - b"] unfolding sint_diff_window[OF assms] by linarith
qed

lemma add_timer_timers:
  assumes t: "timers z b s xs" and x: "x \<in> alive s" "x \<noteq> z" and k: "ngx_current_msec s + delay \<in> timer_window b"
  shows "\<exists>s'. ngx_event_add_timer z x delay s = Some s' \<and>
    (if x \<in> set xs \<and> \<bar>sint (ngx_current_msec s + delay - key s x)\<bar> < 300 then s' = s
     else timers z b s' (insert_behind timer_less (key s') x (filter (\<lambda>y. y \<noteq> x) xs)) \<and>
          key s' = (key s)(x := ngx_current_msec s + delay) \<and> alive s' = alive s \<and> ngx_current_msec s' = ngx_current_msec s)"
proof (cases "x \<in> set xs")
  case False
  then have "\<not> timer_set s x" "filter (\<lambda>y. y \<noteq> x) xs = xs"
    using t x by (auto simp: timers_def filter_id_conv)
  then show ?thesis using insert_timer_timers[OF t x(1) _ k] False x
    by (simp add: ngx_event_add_timer_def rd_def)
next
  case True
  then have st: "timer_set s x" using t x by (auto simp: timers_def)
  have "key s x \<in> timer_window b" using t True by (auto simp: timers_def)
  note abs = lazy_abs[OF k this]
  show ?thesis
  proof (cases "\<bar>sint (ngx_current_msec s + delay - key s x)\<bar> < 300")
    case lazy: True
    then show ?thesis using st True x(1) by (simp add: ngx_event_add_timer_def rd_def NGX_TIMER_LAZY_DELAY_def abs)
  next
    case False
    obtain as bs where xs: "xs = as @ x # bs" using True by (meson split_list)
    have d: "distinct (as @ x # bs)" using timers_distinct[OF t] xs by simp
    obtain s1 where s1: "ngx_event_del_timer z x s = Some s1" "timers z b s1 (as @ bs)" "alive s1 = alive s"
      "key s1 = (key s)(x := 0)" "ngx_current_msec s1 = ngx_current_msec s"
      using del_timer_timers[OF t[unfolded xs]] by auto
    obtain s2 where s2: "do { s \<leftarrow> set_key x (ngx_current_msec s + delay) s1;
       s \<leftarrow> ngx_rbtree_insert ngx_rbtree_insert_timer_value z x s; Some (s\<lparr>timer_set := (timer_set s)(x := True)\<rparr>) } = Some s2"
      "timers z b s2 (insert_behind timer_less (key s2) x (as @ bs))" "key s2 = (key s1)(x := ngx_current_msec s + delay)"
      "alive s2 = alive s1" "ngx_current_msec s2 = ngx_current_msec s1"
      using insert_timer_timers[OF s1(2), of x "ngx_current_msec s + delay"] x s1(3) k d by auto
    have "ngx_event_add_timer z x delay s = Some s2"
      using False st x(1) s1(1) s2(1) by (simp add: ngx_event_add_timer_def rd_def NGX_TIMER_LAZY_DELAY_def abs)
    then show ?thesis using False s2 s1 filter_middle[OF d] xs by (simp add: fun_upd_idem_iff)
  qed
qed

text \<open>One round of the expiry loop.\<close>

lemma expire_round:
  assumes t: "timers z b s (x # xs)"
  shows "ngx_event_expire_timers h z s =
     (if expired s x
      then do { s \<leftarrow> ngx_event_del_timer z x s; s \<leftarrow> h x (s\<lparr>timedout := (timedout s)(x := True)\<rparr>);
                ngx_event_expire_timers h z s }
      else Some s)"
proof -
  have r: "is_rbtree z s (x # xs)" using t by (simp add: timers_def)
  have "ngx_rbtree_min (root s) z s = Some x" "root s \<noteq> z" "x \<in> alive s"
    using min_first[OF r] is_rbtree_empty[OF r] is_rbtree_alive[OF r] by auto
  then show ?thesis
    by (subst ngx_event_expire_timers.simps) (auto simp: rd_def expired_def ngx_event_del_timer_def)
qed

lemma timers_timedout [simp]: "timers z b (timedout_update f s) xs = timers z b s xs"
  by (simp add: timers_def)

lemma expired_timedout [simp]: "expired (timedout_update f s) = expired s"
  by (simp add: expired_def[abs_def])

lemma expire_end:
  assumes "timers z b s []" shows "ngx_event_expire_timers h z s = Some s"
  using assms is_rbtree_empty[of z s "[]"] by (subst ngx_event_expire_timers.simps) (simp add: timers_def)

lemma timers_after_del:
  assumes t: "timers z b s (x # xs)"
  obtains s' where "ngx_event_del_timer z x s = Some s'" "timers z b s' xs" "alive s' = alive s" "x \<in> alive s'"
    "\<And>y. y \<in> set xs \<Longrightarrow> expired s' y \<longleftrightarrow> expired s y" "ngx_current_msec s' = ngx_current_msec s"
    "timer_heap.more s' = timer_heap.more s" "x \<notin> set (z # xs)"
proof -
  have d: "distinct (z # x # xs)" using timers_distinct[OF t] .
  obtain s' where s': "ngx_event_del_timer z x s = Some s'" "timers z b s' xs" "alive s' = alive s"
    "key s' = (key s)(x := 0)" "ngx_current_msec s' = ngx_current_msec s" "timer_heap.more s' = timer_heap.more s"
    using del_timer_timers[of z b s "[]" x xs] t by auto
  have "x \<in> alive s" using is_rbtree_alive[of z s "x # xs"] t by (auto simp: timers_def)
  moreover have "expired s' y \<longleftrightarrow> expired s y" if "y \<in> set xs" for y
    using that s'(4,5) d by (auto simp: expired_def)
  ultimately show thesis using that[of s'] s' d by simp
qed

section \<open>Handlers\<close>

text \<open>
  What the expiry loop needs of the handlers. They may set and delete timers and advance the cached time, as long as the
  tree stays well formed; \<open>I\<close> is what their clients know of the clock and of the nodes. \<open>settling\<close>: no handler
  leaves more due timers than it found. \<open>removing\<close>: the due timers it leaves are those it found, in the same order, less
  the set \<open>D x s\<close> of those it deletes or puts off; in particular it sets no timer that is due at once.
\<close>

definition settling :: "ptr \<Rightarrow> 64 word \<Rightarrow> (64 word \<Rightarrow> ptr set \<Rightarrow> bool) \<Rightarrow>
    (ptr \<Rightarrow> 'a timer_heap_scheme \<Rightarrow> 'a timer_heap_scheme option) \<Rightarrow> bool" where
  "settling z b I h \<longleftrightarrow> (\<forall>x s ys. timers z b s ys \<longrightarrow> I (ngx_current_msec s) (alive s) \<longrightarrow> x \<in> alive s \<longrightarrow> x \<notin> set (z # ys) \<longrightarrow>
     (\<exists>s' zs. h x s = Some s' \<and> timers z b s' zs \<and> I (ngx_current_msec s') (alive s') \<and>
        length (filter (expired s') zs) \<le> length (filter (expired s) ys)))"

definition removing :: "ptr \<Rightarrow> 64 word \<Rightarrow> (64 word \<Rightarrow> ptr set \<Rightarrow> bool) \<Rightarrow>
    (ptr \<Rightarrow> 'a timer_heap_scheme \<Rightarrow> 'a timer_heap_scheme option) \<Rightarrow> (ptr \<Rightarrow> 'a timer_heap_scheme \<Rightarrow> ptr set) \<Rightarrow> bool" where
  "removing z b I h D \<longleftrightarrow> (\<forall>x s ys. timers z b s ys \<longrightarrow> I (ngx_current_msec s) (alive s) \<longrightarrow> x \<in> alive s \<longrightarrow> x \<notin> set (z # ys) \<longrightarrow>
     (\<exists>s' zs. h x s = Some s' \<and> timers z b s' zs \<and> I (ngx_current_msec s') (alive s') \<and>
        filter (expired s') zs = filter (\<lambda>y. y \<notin> D x s) (filter (expired s) ys)))"

lemma takeWhile_filter: "sorted_wrt (\<lambda>a c. P c \<longrightarrow> P a) xs \<Longrightarrow> takeWhile P xs = filter P xs"
  by (induction xs) (auto simp: filter_empty_conv)

lemma due_first:
  assumes t: "timers z b s xs" shows "takeWhile (expired s) xs = filter (expired s) xs"
proof (rule takeWhile_filter)
  have "sorted_wrt (\<lambda>x y. \<not> timer_less (key s y) (key s x)) xs" using t by (simp add: timers_def ordered_def)
  then show "sorted_wrt (\<lambda>x y. expired s y \<longrightarrow> expired s x) xs"
  proof (rule sorted_wrt_mono_rel[rotated])
    fix x y assume xy: "x \<in> set xs" "y \<in> set xs" "\<not> timer_less (key s y) (key s x)"
    have "key s x \<in> timer_window b" "key s y \<in> timer_window b" using t xy by (auto simp: timers_def)
    then have "uint (key s x - b) \<le> uint (key s y - b)" using xy(3) timer_less_window[of "key s y" b "key s x"] by simp
    then show "expired s y \<longrightarrow> expired s x" using window_current[OF t xy(1)] window_current[OF t xy(2)] by simp
  qed
qed

text \<open>One round with a due timer, up to the call of the handler.\<close>

lemma due_round:
  assumes t: "timers z b s (x # ys)" and e: "expired s x"
  obtains s1 where "ngx_event_del_timer z x s = Some s1" "timers z b (s1\<lparr>timedout := (timedout s1)(x := True)\<rparr>) ys"
    "alive s1 = alive s" "ngx_current_msec s1 = ngx_current_msec s" "x \<in> alive s1" "x \<notin> set (z # ys)"
    "filter (expired s) (x # ys) = x # filter (expired (s1\<lparr>timedout := (timedout s1)(x := True)\<rparr>)) ys"
    "\<And>h. ngx_event_expire_timers h z s = h x (s1\<lparr>timedout := (timedout s1)(x := True)\<rparr>) \<bind> ngx_event_expire_timers h z"
proof -
  obtain s1 where s1: "ngx_event_del_timer z x s = Some s1" "timers z b s1 ys" "alive s1 = alive s" "x \<in> alive s1"
    "\<And>y. y \<in> set ys \<Longrightarrow> expired s1 y \<longleftrightarrow> expired s y" "ngx_current_msec s1 = ngx_current_msec s" "x \<notin> set (z # ys)"
    using timers_after_del[OF t] by metis
  have "filter (expired s) ys = filter (expired s1) ys" using s1(5) by (intro filter_cong) auto
  then show thesis using that[of s1] s1 e expire_round[OF t] by simp
qed

lemma not_due_end:
  assumes t: "timers z b s xs" and e: "filter (expired s) xs = []"
  shows "ngx_event_expire_timers h z s = Some s"
proof (cases xs)
  case Nil
  then show ?thesis using t expire_end[of z b s h] by simp
next
  case (Cons x ys)
  then show ?thesis using t e expire_round[of z b s x ys h] by (auto split: if_splits)
qed

section \<open>The expiry of timers\<close>

text \<open>
  C19. \<open>ngx_event_expire_timers\<close> returns, and leaves a well-formed tree without a due timer, for all handlers
  that are \<open>settling\<close>: each returns, keeps the tree well formed and leaves no more due timers than it found, at the
  time it leaves. Such handlers set and delete timers and may advance the cached time. A handler that sets a timer of 0
  milliseconds again and again is not settling, and with it the loop does not end.
\<close>

theorem expire_timers_return:
  assumes "timers z b s xs" "I (ngx_current_msec s) (alive s)" "settling z b I handler"
  shows "\<exists>s' ys. ngx_event_expire_timers handler z s = Some s' \<and> timers z b s' ys \<and> (\<forall>y \<in> set ys. \<not> expired s' y)"
  using assms(1,2)
proof (induction "length (filter (expired s) xs)" arbitrary: s xs rule: less_induct)
  case less
  show ?case
  proof (cases "filter (expired s) xs = []")
    case True
    then show ?thesis using not_due_end[OF less.prems(1)] less.prems(1) by (auto simp: filter_empty_conv)
  next
    case False
    then obtain x ys where xs: "xs = x # ys" "expired s x"
      using due_first[OF less.prems(1)] by (cases xs) (auto split: if_splits)
    obtain s1 where s1: "timers z b (s1\<lparr>timedout := (timedout s1)(x := True)\<rparr>) ys"
      "alive s1 = alive s" "ngx_current_msec s1 = ngx_current_msec s" "x \<in> alive s1" "x \<notin> set (z # ys)"
      "filter (expired s) (x # ys) = x # filter (expired (s1\<lparr>timedout := (timedout s1)(x := True)\<rparr>)) ys"
      "ngx_event_expire_timers handler z s =
         handler x (s1\<lparr>timedout := (timedout s1)(x := True)\<rparr>) \<bind> ngx_event_expire_timers handler z"
      using due_round[of z b s x ys] less.prems(1) xs by metis
    obtain s2 zs where s2: "handler x (s1\<lparr>timedout := (timedout s1)(x := True)\<rparr>) = Some s2" "timers z b s2 zs"
      "I (ngx_current_msec s2) (alive s2)" "length (filter (expired s2) zs) < length (filter (expired s) xs)"
      using assms(3)[unfolded settling_def, rule_format, OF s1(1), of x] s1 less.prems(2) unfolding xs(1) s1(6) by auto
    then show ?thesis using less.hyps[OF s2(4,2,3)] s1(7) by simp
  qed
qed

text \<open>The specification: the handlers of the due events run in the order of the list, without those removed before their turn.\<close>

function run_due :: "(ptr \<Rightarrow> 'a timer_heap_scheme \<Rightarrow> 'a timer_heap_scheme option) \<Rightarrow> (ptr \<Rightarrow> 'a timer_heap_scheme \<Rightarrow> ptr set) \<Rightarrow>
    ptr \<Rightarrow> ptr list \<Rightarrow> 'a timer_heap_scheme \<Rightarrow> (ptr list \<times> 'a timer_heap_scheme) option" where
  "run_due h D z [] s = Some ([], s)"
| "run_due h D z (x # xs) s = do {
     s \<leftarrow> ngx_event_del_timer z x s;
     let s = s\<lparr>timedout := (timedout s)(x := True)\<rparr>;
     s' \<leftarrow> h x s;
     (ks, s'') \<leftarrow> run_due h D z (filter (\<lambda>y. y \<notin> D x s) xs) s';
     Some (x # ks, s'') }"
  by pat_completeness auto
termination by (relation "measure (\<lambda>(h, D, z, xs, s). length xs)") (auto simp: le_imp_less_Suc)

lemma run_due_order:
  "run_due h D z xs s = Some (ks, s') \<Longrightarrow> subseq ks xs \<and> ((\<forall>x s. D x s = {}) \<longrightarrow> ks = xs)"
proof (induction h D z xs s arbitrary: ks s' rule: run_due.induct)
  case (2 h D z x xs s)
  then obtain s1 s2 js where "ngx_event_del_timer z x s = Some s1" "h x (s1\<lparr>timedout := (timedout s1)(x := True)\<rparr>) = Some s2"
    "run_due h D z (filter (\<lambda>y. y \<notin> D x (s1\<lparr>timedout := (timedout s1)(x := True)\<rparr>)) xs) s2 = Some (js, s')" "ks = x # js"
    by (auto simp: Option.bind_eq_Some_conv Let_def)
  then show ?case using "2.IH"[of s1 _ s2 js s'] subseq_filter_left subseq_order.order_trans by fastforce
qed auto

text \<open>
  C34. The due events are handled in the order in which they are due, each at most once. For all handlers that are
  \<open>removing\<close> with \<open>D\<close>, the code does what \<open>run_due\<close> does on the due events of the tree: the first one's
  timer is deleted, its handler runs, and the rest follows without the events whose timers the handler has deleted or put off.
  If the handlers remove none, the events handled are exactly those that were due. In the end no timer of the tree is due.
\<close>

theorem expire_in_order:
  assumes "timers z b s xs" "I (ngx_current_msec s) (alive s)" "removing z b I handler D"
  shows "\<exists>ks s' ys. ngx_event_expire_timers handler z s = Some s' \<and>
    run_due handler D z (takeWhile (expired s) xs) s = Some (ks, s') \<and>
    subseq ks (takeWhile (expired s) xs) \<and> ((\<forall>x s. D x s = {}) \<longrightarrow> ks = takeWhile (expired s) xs) \<and>
    timers z b s' ys \<and> (\<forall>y \<in> set ys. \<not> expired s' y)"
proof -
  have "\<exists>ks s' ys. ngx_event_expire_timers handler z s = Some s' \<and>
    run_due handler D z (filter (expired s) xs) s = Some (ks, s') \<and> timers z b s' ys \<and> filter (expired s') ys = []"
    using assms(1,2)
  proof (induction "length (filter (expired s) xs)" arbitrary: s xs rule: less_induct)
    case less
    show ?case
    proof (cases "filter (expired s) xs = []")
      case True
      then show ?thesis using not_due_end[OF less.prems(1)] less.prems(1) by auto
    next
      case False
      then obtain x ys where xs: "xs = x # ys" "expired s x"
        using due_first[OF less.prems(1)] by (cases xs) (auto split: if_splits)
      obtain s1 where del: "ngx_event_del_timer z x s = Some s1" and s1: "timers z b (s1\<lparr>timedout := (timedout s1)(x := True)\<rparr>) ys"
        "alive s1 = alive s" "ngx_current_msec s1 = ngx_current_msec s" "x \<in> alive s1" "x \<notin> set (z # ys)"
        "filter (expired s) (x # ys) = x # filter (expired (s1\<lparr>timedout := (timedout s1)(x := True)\<rparr>)) ys"
        "ngx_event_expire_timers handler z s =
           handler x (s1\<lparr>timedout := (timedout s1)(x := True)\<rparr>) \<bind> ngx_event_expire_timers handler z"
        using due_round[of z b s x ys] less.prems(1) xs by metis
      let ?s = "s1\<lparr>timedout := (timedout s1)(x := True)\<rparr>"
      obtain s2 zs where s2: "handler x ?s = Some s2" "timers z b s2 zs" "I (ngx_current_msec s2) (alive s2)"
        "filter (expired s2) zs = filter (\<lambda>y. y \<notin> D x ?s) (filter (expired ?s) ys)"
        using assms(3)[unfolded removing_def, rule_format, OF s1(1), of x] s1(2-5) less.prems(2) by auto
      have "length (filter (expired s2) zs) < length (filter (expired s) xs)"
        unfolding s2(4) xs(1) s1(6) by (simp only: length_Cons less_Suc_eq_le length_filter_le)
      from less.hyps[OF this s2(2,3)] show ?thesis
        unfolding s1(7) xs(1) s1(6) s2(4) using del s2(1) by (auto simp: Let_def)
    qed
  qed
  then show ?thesis using due_first[OF assms(1)] run_due_order by (metis filter_empty_conv)
qed


section \<open>Only cancelable timers\<close>

lemma no_timers_walk:
  "timers z b s (xs @ x # ys) \<Longrightarrow> no_timers_loop z x s = Some (if \<forall>y \<in> set (x # ys). cancelable s y then NGX_OK else NGX_AGAIN)"
proof (induction ys arbitrary: xs x)
  case Nil
  have r: "is_rbtree z s (xs @ [x])" using Nil by (simp add: timers_def)
  then have a: "x \<in> alive s" using is_rbtree_alive[OF r] by auto
  have "0 \<notin> alive s" using Nil by (simp add: timers_def)
  with a have "x \<noteq> 0" by metis
  then show ?case using a next_node[OF r]
    by (subst no_timers_loop.simps) (auto simp: rd_def no_timers_loop.simps[of z 0])
next
  case (Cons y ys)
  have r: "is_rbtree z s (xs @ x # y # ys)" using Cons.prems by (simp add: timers_def)
  then have a: "x \<in> alive s" using is_rbtree_alive[OF r] by auto
  have "0 \<notin> alive s" using Cons.prems by (simp add: timers_def)
  with a have "x \<noteq> 0" by metis
  then show ?case using a next_node[OF r] Cons.IH[of "xs @ [x]" y] Cons.prems
    by (subst no_timers_loop.simps) (auto simp: rd_def)
qed

lemma no_timers_left_eq:
  assumes t: "timers z b s xs"
  shows "ngx_event_no_timers_left z s = Some (if \<forall>y \<in> set xs. cancelable s y then NGX_OK else NGX_AGAIN)"
proof (cases xs)
  case Nil
  then show ?thesis using t is_rbtree_empty[of z s xs] by (simp add: ngx_event_no_timers_left_def timers_def)
next
  case (Cons x ys)
  have r: "is_rbtree z s xs" using t by (simp add: timers_def)
  then have "ngx_rbtree_min (root s) z s = Some x" "root s \<noteq> z"
    using min_first[of z s xs] is_rbtree_empty[of z s xs] Cons by auto
  then show ?thesis using no_timers_walk[of z b s "[]" x ys] t Cons by (simp add: ngx_event_no_timers_left_def)
qed

section \<open>Well-formed timer trees\<close>

text \<open>
  The window of a running server starts \<open>2^62\<close> milliseconds before the current time: timers may be that late,
  and may be set for that far ahead.
\<close>

definition timers_wf :: "ptr \<Rightarrow> 'a timer_heap_scheme \<Rightarrow> bool" where
  "timers_wf z s \<longleftrightarrow> (\<exists>xs. timers z (ngx_current_msec s - 2 ^ 62) s xs)"

lemma add_in_window: "uint (d :: 64 word) < 2 ^ 62 \<Longrightarrow> now + d \<in> timer_window (now - 2 ^ 62)"
proof -
  assume d: "uint d < 2 ^ 62"
  have "uint (d + 2 ^ 62) = uint d + 2 ^ 62" using d by (simp add: uint_word_ariths)
  then show ?thesis using d by (simp add: timer_window_def algebra_simps)
qed

lemma wf_operations:
  assumes w: "timers_wf z s" and x: "x \<in> alive s" "x \<noteq> z"
  shows "uint delay < 2 ^ 62 \<Longrightarrow> \<exists>s'. ngx_event_add_timer z x delay s = Some s' \<and> timers_wf z s' \<and> timer_set s' x \<and>
        alive s' = alive s"
    and "timer_set s x \<Longrightarrow> \<exists>s'. ngx_event_del_timer z x s = Some s' \<and> timers_wf z s' \<and> \<not> timer_set s' x \<and> alive s' = alive s"
    and "\<exists>d. ngx_event_find_timer z s = Some d"
    and "\<exists>c. ngx_event_no_timers_left z s = Some c"
proof -
  let ?b = "ngx_current_msec s - 2 ^ 62"
  obtain xs where t: "timers z ?b s xs" using w by (auto simp: timers_wf_def)
  show "\<exists>d. ngx_event_find_timer z s = Some d" using find_timer_value[OF t] by blast
  show "\<exists>c. ngx_event_no_timers_left z s = Some c" using no_timers_left_eq[OF t] by blast
  show "\<exists>s'. ngx_event_del_timer z x s = Some s' \<and> timers_wf z s' \<and> \<not> timer_set s' x \<and> alive s' = alive s" if "timer_set s x"
  proof -
    have "x \<in> set xs" using that t x by (auto simp: timers_def)
    then obtain as bs where "xs = as @ x # bs" by (meson split_list)
    then show ?thesis using del_timer_timers[of z ?b s as x bs] t by (auto simp: timers_wf_def)
  qed
  show "\<exists>s'. ngx_event_add_timer z x delay s = Some s' \<and> timers_wf z s' \<and> timer_set s' x \<and> alive s' = alive s"
    if d: "uint delay < 2 ^ 62"
  proof -
    obtain s' where s': "ngx_event_add_timer z x delay s = Some s'"
      "if x \<in> set xs \<and> \<bar>sint (ngx_current_msec s + delay - key s x)\<bar> < 300 then s' = s
       else timers z ?b s' (insert_behind timer_less (key s') x (filter (\<lambda>y. y \<noteq> x) xs)) \<and>
          key s' = (key s)(x := ngx_current_msec s + delay) \<and> alive s' = alive s \<and> ngx_current_msec s' = ngx_current_msec s"
      using add_timer_timers[OF t x add_in_window[OF d]] by auto
    show ?thesis
    proof (cases "x \<in> set xs \<and> \<bar>sint (ngx_current_msec s + delay - key s x)\<bar> < 300")
      case True
      then show ?thesis using s' w t x by (auto simp: timers_def)
    next
      case False
      then have t': "timers z ?b s' (insert_behind timer_less (key s') x (filter (\<lambda>y. y \<noteq> x) xs))" "alive s' = alive s"
        "ngx_current_msec s' = ngx_current_msec s" using s'(2) by auto
      moreover have "timer_set s' x" using t' x by (auto simp: timers_def insert_behind_def)
      ultimately show ?thesis using s'(1) by (auto simp: timers_wf_def)
    qed
  qed
qed


text \<open>
  C20. Well-formedness of the timer tree is kept by every operation, none of which fails on a
  well-formed tree: adding a timer less than \<open>2^62\<close> milliseconds ahead, to an event that has one or has
  not; deleting the timer of an event that has one; asking for the next timer, and for timers that
  keep the worker from exiting.
\<close>

theorem timer_ops_wf:
  assumes "timers_wf z s" "x \<in> alive s" "x \<noteq> z"
  shows "(uint delay < 2 ^ 62 \<longrightarrow> (\<exists>s'. ngx_event_add_timer z x delay s = Some s' \<and> timers_wf z s' \<and> timer_set s' x \<and>
        alive s' = alive s)) \<and>
    (timer_set s x \<longrightarrow> (\<exists>s'. ngx_event_del_timer z x s = Some s' \<and> timers_wf z s' \<and> \<not> timer_set s' x \<and> alive s' = alive s)) \<and>
    (\<exists>d. ngx_event_find_timer z s = Some d) \<and> (\<exists>c. ngx_event_no_timers_left z s = Some c)"
  using wf_operations[OF assms] by blast

section \<open>A concrete tree\<close>

definition example_timers :: timer_heap where
  "example_timers = \<lparr>alive = {1, 2, 3, 4, 9}, key = (\<lambda>_. 0)(1 := 10, 2 := 20, 3 := 30),
     left = (\<lambda>_. 9)(2 := 1), right = (\<lambda>_. 9)(2 := 3), parent = (\<lambda>_. 2)(2 := 0), red = (\<lambda>x. x = 1 \<or> x = 3), root = 2,
     timer_set = (\<lambda>x. x \<in> {1, 2, 3}), timedout = (\<lambda>_. False), cancelable = (\<lambda>_. False), ngx_current_msec = 25\<rparr>"

lemma example_timers: "timers 9 (ngx_current_msec example_timers - 2 ^ 62) example_timers [1, 2, 3]"
proof -
  have "rep 9 example_timers [] (Node (Node Leaf 1 True Leaf) 2 False (Node Leaf 3 True Leaf))"
    by (simp add: rep_def sentinel_ok_def example_timers_def)
  moreover have "red_black (Node (Node Leaf 1 True Leaf) 2 False (Node Leaf 3 True Leaf))"
    by (simp add: red_black_def)
  ultimately have "is_rbtree 9 example_timers [1, 2, 3]"
    unfolding is_rbtree_def by (intro exI[of _ "Node (Node Leaf 1 True Leaf) 2 False (Node Leaf 3 True Leaf)"]) simp
  then show ?thesis
    by (simp add: timers_def ordered_def timer_less_def timer_window_def example_timers_def)
qed

theorem timer_ops_wf_witness:
  "\<exists>s'. ngx_event_add_timer 9 4 1000 example_timers = Some s' \<and> timers_wf 9 s' \<and> timer_set s' 4"
proof -
  have "timers_wf 9 example_timers" using example_timers by (auto simp: timers_wf_def)
  from timer_ops_wf[OF this, of 4 1000] show ?thesis by (auto simp: example_timers_def)
qed

text \<open>
  A handler that sets its timer again, one second ahead, and one that does so after the event 1 has deleted the timer of the
  event 2.
\<close>

definition rearm :: "ptr \<Rightarrow> ptr \<Rightarrow> 'a timer_heap_scheme \<Rightarrow> 'a timer_heap_scheme option" where
  "rearm z x s = ngx_event_add_timer z x 1000 s"

definition cancel_rearm :: "ptr \<Rightarrow> ptr \<Rightarrow> 'a timer_heap_scheme \<Rightarrow> 'a timer_heap_scheme option" where
  "cancel_rearm z x s = do {
     s \<leftarrow> (if x = 1 \<and> timer_set s 2 then ngx_event_del_timer z 2 s else Some s);
     rearm z x s }"

abbreviation example_known :: "64 word \<Rightarrow> ptr set \<Rightarrow> bool" where
  "example_known now A \<equiv> now = 25 \<and> A = {1, 2, 3, 4, 9}"

lemma rearm_due:
  assumes t: "timers 9 (25 - 2 ^ 62) s ys" and n: "ngx_current_msec s = 25" and x: "x \<in> alive s" "x \<notin> set (9 # ys)"
  obtains s' zs where "rearm 9 x s = Some s'" "timers 9 (25 - 2 ^ 62) s' zs" "ngx_current_msec s' = 25" "alive s' = alive s"
    "filter (expired s') zs = filter (expired s) ys"
proof -
  have w: "ngx_current_msec s + 1000 \<in> timer_window (25 - 2 ^ 62)" using n by (simp add: timer_window_def)
  obtain s' where s': "rearm 9 x s = Some s'" "key s' = (key s)(x := 1025)" "ngx_current_msec s' = 25" "alive s' = alive s"
    "timers 9 (25 - 2 ^ 62) s' (insert_behind timer_less (key s') x (filter (\<lambda>y. y \<noteq> x) ys))"
    using add_timer_timers[OF t x(1) _ w] x(2) n by (auto simp: rearm_def)
  let ?zs = "insert_behind timer_less (key s') x (filter (\<lambda>y. y \<noteq> x) ys)"
  have f: "filter (\<lambda>y. y \<noteq> x) ys = ys" using x(2) by (auto simp: filter_id_conv)
  have e: "\<not> expired s' x" "\<And>y. y \<in> set ys \<Longrightarrow> expired s' y \<longleftrightarrow> expired s y"
    using s'(2,3) n x(2) by (auto simp: expired_def)
  have "filter (expired s') ?zs = filter (expired s') (filter (\<lambda>a. \<not> timer_less (key s' x) (key s' a)) ys @
      filter (\<lambda>a. timer_less (key s' x) (key s' a)) ys)"
    unfolding insert_behind_def f using e(1) by simp
  also have "\<dots> = filter (expired s) ys"
  proof -
    have "\<not> timer_less (key s' x) (key s' a)" if "a \<in> set ys" "expired s' a" for a
    proof -
      have k: "key s' a \<in> timer_window (25 - 2 ^ 62)" "key s' x = 1025" using t that s'(2) x(2) by (auto simp: timers_def)
      have "uint (key s' a - (25 - 2 ^ 62)) \<le> uint ((25::64 word) - (25 - 2 ^ 62))"
        using window_current[of 9 "25 - 2 ^ 62" s' ?zs a] s'(3,5) that f by (auto simp: insert_behind_def)
      then show ?thesis
        using timer_less_window[of "key s' x" "25 - 2 ^ 62" "key s' a"] k by (simp add: timer_window_def)
    qed
    then have "filter (expired s') (filter (\<lambda>a. timer_less (key s' x) (key s' a)) ys) = []"
      "filter (expired s') (filter (\<lambda>a. \<not> timer_less (key s' x) (key s' a)) ys) = filter (expired s') ys"
      by (auto simp: filter_empty_conv intro: filter_cong)
    moreover have "filter (expired s') ys = filter (expired s) ys" using e(2) by (intro filter_cong) auto
    ultimately show ?thesis by (simp only: filter_append append_Nil2)
  qed
  finally show thesis using that s' by blast
qed

lemma cancel_rearm_removing: "removing 9 (25 - 2 ^ 62) example_known (cancel_rearm 9) (\<lambda>x s. if x = 1 then {2} else {})"
  unfolding removing_def
proof (intro allI impI)
  fix x and s :: "'a timer_heap_scheme" and ys
  assume t: "timers 9 (25 - 2 ^ 62) s ys" and k: "example_known (ngx_current_msec s) (alive s)" and x: "x \<in> alive s" "x \<notin> set (9 # ys)"
  have "\<exists>s1 zs. (if x = 1 \<and> timer_set s 2 then ngx_event_del_timer 9 2 s else Some s) = Some s1 \<and> timers 9 (25 - 2 ^ 62) s1 zs \<and>
      ngx_current_msec s1 = 25 \<and> alive s1 = alive s \<and> x \<notin> set (9 # zs) \<and>
      filter (expired s1) zs = filter (\<lambda>y. y \<notin> (if x = 1 then {2} else {})) (filter (expired s) ys)"
  proof (cases "x = 1 \<and> timer_set s 2")
    case True
    then have "2 \<in> set ys" using t k by (auto simp: timers_def)
    then obtain as bs where ys: "ys = as @ 2 # bs" by (meson split_list)
    have d: "distinct (9 # as @ 2 # bs)" using timers_distinct[OF t] ys by simp
    obtain s1 where s1: "ngx_event_del_timer 9 2 s = Some s1" "timers 9 (25 - 2 ^ 62) s1 (as @ bs)" "alive s1 = alive s"
      "key s1 = (key s)(2 := 0)" "ngx_current_msec s1 = ngx_current_msec s"
      using del_timer_timers[OF t[unfolded ys]] by auto
    have "filter (expired s1) (as @ bs) = filter (\<lambda>y. y \<noteq> 2) (filter (expired s) ys)"
    proof -
      have "filter (\<lambda>y. y \<noteq> 2) (filter (expired s) ys) = filter (expired s) (filter (\<lambda>y. y \<noteq> 2) ys)"
        by (simp add: filter_filter conj_commute)
      also have "\<dots> = filter (expired s) (as @ bs)" using filter_middle[of as 2 bs] d ys by simp
      also have "\<dots> = filter (expired s1) (as @ bs)" using s1(4,5) d by (intro filter_cong) (auto simp: expired_def)
      finally show ?thesis by simp
    qed
    then show ?thesis using True s1 k x ys by (intro exI[of _ s1] exI[of _ "as @ bs"]) simp
  next
    case False
    then have "x = 1 \<Longrightarrow> 2 \<notin> set ys" using t k by (auto simp: timers_def)
    then have "filter (\<lambda>y. y \<notin> (if x = 1 then {2} else {})) (filter (expired s) ys) = filter (expired s) ys"
      by (intro filter_True) auto
    then show ?thesis using False t k x by (intro exI[of _ s] exI[of _ ys]) auto
  qed
  then obtain s1 zs where s1: "(if x = 1 \<and> timer_set s 2 then ngx_event_del_timer 9 2 s else Some s) = Some s1"
    "timers 9 (25 - 2 ^ 62) s1 zs" "ngx_current_msec s1 = 25" "alive s1 = alive s" "x \<notin> set (9 # zs)"
    "filter (expired s1) zs = filter (\<lambda>y. y \<notin> (if x = 1 then {2} else {})) (filter (expired s) ys)" by blast
  have "x \<in> alive s1" using x(1) s1(4) by simp
  from rearm_due[OF s1(2,3) this s1(5)] obtain s2 us where "rearm 9 x s1 = Some s2" "timers 9 (25 - 2 ^ 62) s2 us"
    "ngx_current_msec s2 = 25" "alive s2 = alive s1" "filter (expired s2) us = filter (expired s1) zs" .
  then show "\<exists>s' zs. cancel_rearm 9 x s = Some s' \<and> timers 9 (25 - 2 ^ 62) s' zs \<and> example_known (ngx_current_msec s') (alive s') \<and>
      filter (expired s') zs = filter (\<lambda>y. y \<notin> (if x = 1 then {2} else {})) (filter (expired s) ys)"
    using s1 k by (auto simp: cancel_rearm_def)
qed

lemma example_clock: "example_known (ngx_current_msec example_timers) (alive example_timers)"
  by (simp add: example_timers_def)

theorem expire_in_order_witness:
  "\<exists>s'. ngx_event_expire_timers (cancel_rearm 9) 9 example_timers = Some s' \<and>
     run_due (cancel_rearm 9) (\<lambda>x s. if x = 1 then {2} else {}) 9 [1, 2] example_timers = Some ([1], s')"
proof -
  have "ngx_current_msec example_timers = 25" using example_clock by blast
  then have "timers 9 (25 - 2 ^ 62) example_timers [1, 2, 3]" using example_timers by simp
  from expire_in_order[OF this example_clock cancel_rearm_removing]
  obtain ks s' where "ngx_event_expire_timers (cancel_rearm 9) 9 example_timers = Some s'"
    "run_due (cancel_rearm 9) (\<lambda>x s. if x = 1 then {2} else {}) 9 (takeWhile (expired example_timers) [1, 2, 3]) example_timers = Some (ks, s')"
    by blast
  moreover have "takeWhile (expired example_timers) [1, 2, 3] = [1, 2]" by (simp add: expired_def example_timers_def)
  ultimately show ?thesis by (auto simp: Option.bind_eq_Some_conv Let_def)
qed

lemma rearm_settling: "settling 9 (25 - 2 ^ 62) example_known (rearm 9)"
  unfolding settling_def
proof (intro allI impI)
  fix x and s :: "'a timer_heap_scheme" and ys
  assume t: "timers 9 (25 - 2 ^ 62) s ys" and k: "example_known (ngx_current_msec s) (alive s)" and x: "x \<in> alive s" "x \<notin> set (9 # ys)"
  have n: "ngx_current_msec s = 25" using k by blast
  show "\<exists>s' zs. rearm 9 x s = Some s' \<and> timers 9 (25 - 2 ^ 62) s' zs \<and> example_known (ngx_current_msec s') (alive s') \<and>
      length (filter (expired s') zs) \<le> length (filter (expired s) ys)"
    by (rule rearm_due[OF t n x]) (use k in auto)
qed

theorem expire_timers_return_witness:
  "\<exists>s' ys. ngx_event_expire_timers (rearm 9) 9 example_timers = Some s' \<and>
     timers 9 (25 - 2 ^ 62) s' ys \<and> (\<forall>y \<in> set ys. \<not> expired s' y)"
proof -
  have "timers 9 (25 - 2 ^ 62) example_timers [1, 2, 3]" using example_timers example_clock by simp
  then show ?thesis by (rule expire_timers_return[OF _ example_clock rearm_settling])
qed

section \<open>Setting a timer\<close>

text \<open>
  \<open>ngx_event_add_timer\<close> puts the event behind all timers that are not due later, at the current
  time plus the delay, whether it had a timer or not; when the event has a timer less than 300
  milliseconds away from the new one, nothing changes.
\<close>

theorem add_timer_ok:
  assumes "timers z b s xs" "x \<in> alive s" "x \<noteq> z" "ngx_current_msec s + delay \<in> timer_window b"
  shows "\<exists>s'. ngx_event_add_timer z x delay s = Some s' \<and>
    (if x \<in> set xs \<and> \<bar>sint (ngx_current_msec s + delay - key s x)\<bar> < 300 then s' = s
     else timers z b s' (insert_behind timer_less (key s') x (filter (\<lambda>y. y \<noteq> x) xs)) \<and>
          key s' = (key s)(x := ngx_current_msec s + delay) \<and> alive s' = alive s \<and> ngx_current_msec s' = ngx_current_msec s)"
  using assms by (rule add_timer_timers)

theorem add_timer_ok_witness:
  "\<exists>s'. ngx_event_add_timer 9 1 1000 example_timers = Some s' \<and> timers 9 (25 - 2 ^ 62) s' [2, 3, 1]"
proof -
  have c: "ngx_current_msec example_timers = 25" "key example_timers = (\<lambda>_. 0)(1 := 10, 2 := 20, 3 := 30)"
    "alive example_timers = {1, 2, 3, 4, 9}"
    by (simp_all add: example_timers_def)
  have "ngx_current_msec example_timers + 1000 \<in> timer_window (25 - 2 ^ 62)" using c by (simp add: timer_window_def)
  from add_timer_ok[OF example_timers[unfolded c(1)] _ _ this, of 1]
  obtain s' where "ngx_event_add_timer 9 1 1000 example_timers = Some s'" "key s' = (key example_timers)(1 := 1025)"
    "timers 9 (25 - 2 ^ 62) s' (insert_behind timer_less (key s') 1 [2, 3])"
    using c by (auto split: if_splits)
  then show ?thesis using c by (auto simp: insert_behind_def timer_less_def)
qed

end
