(* ===== verification/Ngx_Upstream_Rr.thy ===== *)
theory Ngx_Upstream_Rr
  imports Ngx_Prelude "HOL-Library.Monad_Syntax"
begin

text \<open>
  The round robin balancer of \<^verbatim>\<open>src/http/ngx_http_upstream_round_robin.c\<close>: the groups of peers built from
  the configuration (\<open>ngx_http_upstream_init_round_robin\<close>) or for one request from resolved addresses
  (\<open>ngx_http_upstream_create_round_robin_peer\<close>), the data of a request with its bitmap of tried peers, the
  selection (\<open>ngx_http_upstream_get_round_robin_peer\<close> with \<open>ngx_http_upstream_get_peer\<close>) and the end of an
  attempt (\<open>ngx_http_upstream_free_round_robin_peer\<close>). A group is the list of its peers in the order of
  \<open>peer->next\<close>; the chain of a group and its backup is a list of groups, and a pointer to a group or to a peer is
  its index there. The model is of a worker whose upstreams are not in a shared memory zone (\<open>shpool\<close>, \<open>config\<close> and
  \<open>shm_zone\<close> are NULL: no locks, no run-time resolving, and nothing is freed when a reference is dropped), and
  whose allocations succeed. Counters are 64-bit words; the weights, their sums and the numbers of peers are unbounded. None
  as a result of a function is an access outside the bitmap or through a NULL pointer.

  The locale \<open>group_selector\<close> holds the way from group to group that this balancer shares with the one of the
  least connections; round robin is its first interpretation.
\<close>

section \<open>The data\<close>

text \<open>An address: the socket address and its text.\<close>

type_synonym ngx_addr = "byte list \<times> byte list"

record ngx_http_upstream_server =
  srv_name :: "byte list"
  addrs :: "ngx_addr list"
  srv_weight :: nat
  srv_max_conns :: "64 word"
  srv_max_fails :: "64 word"
  srv_fail_timeout :: int
  srv_down :: bool
  backup :: bool
  srv_host :: "byte list"

record rr_peer =
  sockaddr :: "byte list"
  peer_name :: "byte list"
  server :: "byte list"
  current_weight :: int
  effective_weight :: int
  weight :: int
  conns :: "64 word"
  max_conns :: "64 word"
  fails :: "64 word"
  accessed :: int
  checked :: int
  max_fails :: "64 word"
  fail_timeout :: int
  down :: bool
  refs :: "64 word"

record rr_peers =
  number :: nat
  total_weight :: nat
  peers_tries :: nat
  single :: bool
  weighted :: bool
  peers_name :: "byte list"
  peer_list :: "rr_peer list"

record rr_peer_data =
  rrp_peers :: nat
  rrp_current :: "nat option"
  tried :: "64 word list"

record peer_connection =
  pc_connection :: "nat option"
  pc_cached :: bool
  pc_sockaddr :: "byte list option"
  pc_name :: "byte list option"
  pc_tries :: nat

definition NGX_PEER_FAILED :: "64 word" where
  "NGX_PEER_FAILED = 4"

section \<open>Configuration\<close>

text \<open>The first loop over the servers: \<open>n\<close>, \<open>w\<close> and \<open>t\<close>.\<close>

fun count_servers :: "bool \<Rightarrow> ngx_http_upstream_server list \<Rightarrow> nat \<times> nat \<times> nat \<Rightarrow> nat \<times> nat \<times> nat" where
  "count_servers b [] (n, w, t) = (n, w, t)"
| "count_servers b (s # ss) (n, w, t) =
     (if backup s \<noteq> b then count_servers b ss (n, w, t)
      else count_servers b ss
        (n + length (addrs s), w + length (addrs s) * srv_weight s, if srv_down s then t else t + length (addrs s)))"

definition new_peer :: "ngx_http_upstream_server \<Rightarrow> ngx_addr \<Rightarrow> rr_peer" where
  "new_peer s a = \<lparr>sockaddr = fst a, peer_name = snd a, server = srv_name s,
     current_weight = 0, effective_weight = int (srv_weight s), weight = int (srv_weight s),
     conns = 0, max_conns = srv_max_conns s, fails = 0, accessed = 0, checked = 0,
     max_fails = srv_max_fails s, fail_timeout = srv_fail_timeout s, down = srv_down s, refs = 0\<rparr>"

fun fill_peers :: "bool \<Rightarrow> ngx_http_upstream_server list \<Rightarrow> rr_peer list" where
  "fill_peers b [] = []"
| "fill_peers b (s # ss) = (if backup s \<noteq> b then [] else map (new_peer s) (addrs s)) @ fill_peers b ss"

definition implicit_peer :: "ngx_addr \<Rightarrow> rr_peer" where
  "implicit_peer a = \<lparr>sockaddr = fst a, peer_name = snd a, server = [],
     current_weight = 0, effective_weight = 1, weight = 1, conns = 0, max_conns = 0, fails = 0, accessed = 0, checked = 0,
     max_fails = 1, fail_timeout = 10, down = False, refs = 0\<rparr>"

text \<open>
  The result is the chain of groups that starts at \<open>us->peer.data\<close>. \<open>resolve_host\<close> stands for the look-up
  of \<open>ngx_inet_resolve_host\<close>.
\<close>

definition ngx_http_upstream_init_round_robin ::
  "(byte list \<Rightarrow> nat \<Rightarrow> ngx_addr list option) \<Rightarrow> byte list \<Rightarrow> nat \<Rightarrow> ngx_http_upstream_server list option \<Rightarrow>
   ngx_int \<times> rr_peers list" where
  "ngx_http_upstream_init_round_robin resolve_host host port servers =
     (case servers of
        Some ss \<Rightarrow>
          (let (n, w, t) = count_servers False ss (0, 0, 0);
               (nb, wb, tb) = count_servers True ss (0, 0, 0);
               peers = \<lparr>number = n, total_weight = w, peers_tries = t, single = (n = 1), weighted = (w \<noteq> n),
                        peers_name = host, peer_list = fill_peers False ss\<rparr> in
           if \<exists>s \<in> set ss. srv_host s \<noteq> [] then (NGX_ERROR, [])
           else if n = 0 then (NGX_ERROR, [])
           else if nb = 0 then (NGX_OK, [peers])
           else (NGX_OK,
             [peers\<lparr>single := False\<rparr>,
              \<lparr>number = nb, total_weight = wb, peers_tries = tb, single = False, weighted = (wb \<noteq> nb),
               peers_name = host, peer_list = fill_peers True ss\<rparr>]))
      | None \<Rightarrow>
          if port = 0 then (NGX_ERROR, [])
          else
            (case resolve_host host port of
               None \<Rightarrow> (NGX_ERROR, [])
             | Some as \<Rightarrow>
                 (NGX_OK,
                  [\<lparr>number = length as, total_weight = length as, peers_tries = length as, single = (length as = 1),
                    weighted = False, peers_name = host, peer_list = map implicit_peer as\<rparr>])))"

section \<open>A request\<close>

definition ngx_http_upstream_tries :: "rr_peers list \<Rightarrow> nat" where
  "ngx_http_upstream_tries us = (case us of [] \<Rightarrow> 0 | p # ps \<Rightarrow> peers_tries p + (case ps of [] \<Rightarrow> 0 | q # _ \<Rightarrow> peers_tries q))"

definition ngx_http_upstream_init_round_robin_peer ::
  "rr_peers list \<Rightarrow> (rr_peer_data \<times> nat) option" where
  "ngx_http_upstream_init_round_robin_peer us =
     (case us of [] \<Rightarrow> None
      | p # ps \<Rightarrow>
          (let n = number p;
               n = (case ps of [] \<Rightarrow> n | q # _ \<Rightarrow> if number q > n then number q else n) in
           Some (\<lparr>rrp_peers = 0, rrp_current = None,
                  tried = (if n \<le> 64 then [0] else replicate ((n + 63) div 64) 0)\<rparr>,
                 ngx_http_upstream_tries us)))"

record upstream_resolved =
  ur_host :: "byte list"
  ur_port :: nat
  ur_naddrs :: nat
  ur_addrs :: "byte list list"
  ur_sockaddr :: "byte list option"
  ur_name :: "byte list option"

text \<open>
  \<open>set_port\<close> and \<open>ntop\<close> stand for \<open>ngx_inet_set_port\<close> and \<open>ngx_sock_ntop\<close>; the result is the group made
  for the request, its data and its tries.
\<close>

definition ngx_http_upstream_create_round_robin_peer ::
  "(byte list \<Rightarrow> nat \<Rightarrow> byte list) \<Rightarrow> (byte list \<Rightarrow> byte list) \<Rightarrow> upstream_resolved \<Rightarrow> (rr_peers list \<times> rr_peer_data \<times> nat) option" where
  "ngx_http_upstream_create_round_robin_peer set_port ntop ur = do {
     ps \<leftarrow> (case ur_sockaddr ur of
              Some sa \<Rightarrow> if ur_naddrs ur = 0 then None
                else Some [implicit_peer (sa, case ur_name ur of Some nm \<Rightarrow> nm | None \<Rightarrow> ur_host ur)]
            | None \<Rightarrow> if length (ur_addrs ur) < ur_naddrs ur then None
                else Some (map (\<lambda>a. let sa = set_port a (ur_port ur) in implicit_peer (sa, ntop sa)) (take (ur_naddrs ur) (ur_addrs ur))));
     let peers = \<lparr>number = ur_naddrs ur, total_weight = 0, peers_tries = ur_naddrs ur, single = (ur_naddrs ur = 1),
                  weighted = False, peers_name = ur_host ur, peer_list = ps\<rparr>;
     Some ([peers], \<lparr>rrp_peers = 0, rrp_current = None,
              tried = (if number peers \<le> 64 then [0] else replicate ((number peers + 63) div 64) 0)\<rparr>,
           ngx_http_upstream_tries [peers]) }"

definition ngx_bit :: "nat \<Rightarrow> 64 word" where
  "ngx_bit i = push_bit (i mod 64) 1"

definition ngx_http_upstream_rr_peer_ref :: "rr_peer \<Rightarrow> rr_peer" where
  "ngx_http_upstream_rr_peer_ref p = p\<lparr>refs := refs p + 1\<rparr>"

text \<open>Without a shared memory zone nothing is freed.\<close>

definition ngx_http_upstream_rr_peer_unref :: "rr_peer \<Rightarrow> rr_peer" where
  "ngx_http_upstream_rr_peer_unref p = p\<lparr>refs := refs p - 1\<rparr>"

text \<open>
  The loop of \<open>ngx_http_upstream_get_peer\<close> over the peers from index \<open>i\<close> on; \<open>best\<close> is the index of
  the best peer so far with its \<open>current_weight\<close>.
\<close>

fun get_peer_loop :: "int \<Rightarrow> 64 word list \<Rightarrow> nat \<Rightarrow> rr_peer list \<Rightarrow> int \<Rightarrow> (nat \<times> int) option \<Rightarrow>
  (rr_peer list \<times> int \<times> (nat \<times> int) option) option" where
  "get_peer_loop now tr i [] tot best = Some ([], tot, best)"
| "get_peer_loop now tr i (p # ps) tot best =
     (let n = i div 64; m = ngx_bit i in
      if length tr \<le> n then None
      else if tr ! n AND m \<noteq> 0 \<or> down p
           \<or> (max_fails p \<noteq> 0 \<and> max_fails p \<le> fails p \<and> now - checked p \<le> fail_timeout p)
           \<or> (max_conns p \<noteq> 0 \<and> max_conns p \<le> conns p)
      then map_option (\<lambda>(ps, r). (p # ps, r)) (get_peer_loop now tr (Suc i) ps tot best)
      else
        (let cw = current_weight p + effective_weight p;
             tot = tot + effective_weight p;
             q = p\<lparr>current_weight := cw,
                   effective_weight := (if effective_weight p < weight p then effective_weight p + 1 else effective_weight p)\<rparr>;
             best = (case best of None \<Rightarrow> Some (i, cw) | Some (j, v) \<Rightarrow> if v < cw then Some (i, cw) else Some (j, v)) in
         map_option (\<lambda>(ps, r). (q # ps, r)) (get_peer_loop now tr (Suc i) ps tot best)))"

definition ngx_http_upstream_get_peer ::
  "int \<Rightarrow> rr_peer list \<Rightarrow> rr_peer_data \<Rightarrow> (nat option \<times> rr_peer list \<times> rr_peer_data) option" where
  "ngx_http_upstream_get_peer now ps rrp = do {
     (ps, tot, best) \<leftarrow> get_peer_loop now (tried rrp) 0 ps 0 None;
     (case best of
        None \<Rightarrow> Some (None, ps, rrp)
      | Some (p, _) \<Rightarrow>
          (let n = p div 64; m = ngx_bit p;
               q = ngx_http_upstream_rr_peer_ref (ps ! p);
               q = q\<lparr>current_weight := current_weight q - tot,
                     checked := (if now - checked q > fail_timeout q then now else checked q)\<rparr> in
           Some (Some p, ps[p := q],
                 rrp\<lparr>rrp_current := Some p, tried := (tried rrp)[n := (tried rrp ! n) OR m]\<rparr>))) }"

text \<open>
  \<open>ngx_http_upstream_get_round_robin_peer\<close> up to the label \<open>failed\<close>: the index of the peer and the group after
  the selection.
\<close>

definition select_peer :: "int \<Rightarrow> rr_peers \<Rightarrow> rr_peer_data \<Rightarrow> (nat option \<times> rr_peers \<times> rr_peer_data) option" where
  "select_peer now peers rrp =
     (if single peers
      then (case peer_list peers of
              [] \<Rightarrow> None
            | p # ps \<Rightarrow>
                if down p \<or> (max_conns p \<noteq> 0 \<and> max_conns p \<le> conns p) then Some (None, peers, rrp)
                else Some (Some 0, peers\<lparr>peer_list := ngx_http_upstream_rr_peer_ref p # ps\<rparr>, rrp\<lparr>rrp_current := Some 0\<rparr>))
      else
        (case ngx_http_upstream_get_peer now (peer_list peers) rrp of
           None \<Rightarrow> None
         | Some (sel, ps, rrp) \<Rightarrow> Some (sel, peers\<lparr>peer_list := ps\<rparr>, rrp)))"

function ngx_http_upstream_get_round_robin_peer ::
  "int \<Rightarrow> rr_peers list \<Rightarrow> rr_peer_data \<Rightarrow> peer_connection \<Rightarrow>
   (ngx_int \<times> rr_peers list \<times> rr_peer_data \<times> peer_connection) option" where
  "ngx_http_upstream_get_round_robin_peer now us rrp pc0 =
     (let pc = pc0\<lparr>pc_cached := False, pc_connection := None\<rparr> in
      if length us \<le> rrp_peers rrp then None
      else
        (case select_peer now (us ! rrp_peers rrp) rrp of
           None \<Rightarrow> None
         | Some (Some i, peers, rrp') \<Rightarrow>
             (let p = peer_list peers ! i in
              Some (NGX_OK, us[rrp_peers rrp := peers\<lparr>peer_list := (peer_list peers)[i := p\<lparr>conns := conns p + 1\<rparr>]\<rparr>], rrp',
                    pc\<lparr>pc_sockaddr := Some (sockaddr p), pc_name := Some (peer_name p)\<rparr>))
         | Some (None, peers, rrp') \<Rightarrow>
             if Suc (rrp_peers rrp) < length us
             then
               (let n = (number (us ! Suc (rrp_peers rrp)) + 63) div 64 in
                if length (tried rrp') < n then None
                else
                  (case ngx_http_upstream_get_round_robin_peer now (us[rrp_peers rrp := peers])
                          \<lparr>rrp_peers = Suc (rrp_peers rrp), rrp_current = rrp_current rrp',
                           tried = replicate n 0 @ drop n (tried rrp')\<rparr> pc of
                     None \<Rightarrow> None
                   | Some (rc, us', rrp'', pc') \<Rightarrow>
                       if rc \<noteq> NGX_BUSY then Some (rc, us', rrp'', pc')
                       else Some (NGX_BUSY, us', rrp'', pc'\<lparr>pc_name := Some (peers_name peers)\<rparr>)))
             else Some (NGX_BUSY, us[rrp_peers rrp := peers], rrp', pc\<lparr>pc_name := Some (peers_name peers)\<rparr>)))"
  by pat_completeness auto

termination
  by (relation "measure (\<lambda>(now, us, rrp, pc). length us - rrp_peers rrp)") auto

declare ngx_http_upstream_get_round_robin_peer.simps [simp del]

definition ngx_http_upstream_free_round_robin_peer ::
  "int \<Rightarrow> 64 word \<Rightarrow> rr_peers list \<Rightarrow> rr_peer_data \<Rightarrow> peer_connection \<Rightarrow> (rr_peers list \<times> peer_connection) option" where
  "ngx_http_upstream_free_round_robin_peer now st us rrp pc =
     (case rrp_current rrp of
        None \<Rightarrow> None
      | Some i \<Rightarrow>
          if length us \<le> rrp_peers rrp \<or> length (peer_list (us ! rrp_peers rrp)) \<le> i then None
          else
            (let peers = us ! rrp_peers rrp;
                 p = peer_list peers ! i;
                 put = (\<lambda>p. us[rrp_peers rrp := peers\<lparr>peer_list := (peer_list peers)[i := p]\<rparr>]) in
             if single peers
             then Some (put (ngx_http_upstream_rr_peer_unref (p\<lparr>fails := 0, conns := conns p - 1\<rparr>)), pc\<lparr>pc_tries := 0\<rparr>)
             else
               (let p =
                  (if st AND NGX_PEER_FAILED \<noteq> 0
                   then
                     (let ew = (if max_fails p \<noteq> 0 then effective_weight p - weight p div uint (max_fails p)
                                else effective_weight p) in
                      p\<lparr>fails := fails p + 1, accessed := now, checked := now,
                        effective_weight := (if ew < 0 then 0 else ew)\<rparr>)
                   else if accessed p < checked p then p\<lparr>fails := 0\<rparr> else p) in
                Some (put (ngx_http_upstream_rr_peer_unref (p\<lparr>conns := conns p - 1\<rparr>)),
                      pc\<lparr>pc_tries := (if pc_tries pc \<noteq> 0 then pc_tries pc - 1 else 0)\<rparr>))))"

section \<open>The selection\<close>

text \<open>The condition under which the loop looks at a peer, and what it does to it.\<close>

definition eligible :: "int \<Rightarrow> 64 word list \<Rightarrow> nat \<Rightarrow> rr_peer \<Rightarrow> bool" where
  "eligible now tr i p \<longleftrightarrow> tr ! (i div 64) AND ngx_bit i = 0 \<and> \<not> down p \<and>
     \<not> (max_fails p \<noteq> 0 \<and> max_fails p \<le> fails p \<and> now - checked p \<le> fail_timeout p) \<and>
     \<not> (max_conns p \<noteq> 0 \<and> max_conns p \<le> conns p)"

definition raise :: "rr_peer \<Rightarrow> rr_peer" where
  "raise p = p\<lparr>current_weight := current_weight p + effective_weight p,
     effective_weight := (if effective_weight p < weight p then effective_weight p + 1 else effective_weight p)\<rparr>"

definition best_so_far :: "(nat \<times> int) option \<Rightarrow> (nat \<times> int) option \<Rightarrow> int \<Rightarrow> 64 word list \<Rightarrow> nat \<Rightarrow> rr_peer list \<Rightarrow> bool" where
  "best_so_far best best' now tr i ps \<longleftrightarrow>
     (best' = best \<or> (\<exists>m < length ps. eligible now tr (i + m) (ps ! m) \<and> best' = Some (i + m, current_weight (raise (ps ! m))))) \<and>
     (\<forall>m < length ps. eligible now tr (i + m) (ps ! m) \<longrightarrow> (\<exists>j v. best' = Some (j, v) \<and> current_weight (raise (ps ! m)) \<le> v)) \<and>
     (\<forall>j v. best = Some (j, v) \<longrightarrow> (\<exists>j' v'. best' = Some (j', v') \<and> v \<le> v'))"

lemma best_so_far_Cons:
  assumes r: "best_so_far b best' now tr (Suc i) ps"
    and b: "b = (if eligible now tr i p then (case best of None \<Rightarrow> Some (i, current_weight (raise p))
        | Some (j, v) \<Rightarrow> if v < current_weight (raise p) then Some (i, current_weight (raise p)) else Some (j, v)) else best)"
  shows "best_so_far best best' now tr i (p # ps)"
proof -
  have s: "(\<exists>m < length (p # ps). P m) \<longleftrightarrow> P 0 \<or> (\<exists>m < length ps. P (Suc m))"
    "(\<forall>m < length (p # ps). P m) \<longleftrightarrow> P 0 \<and> (\<forall>m < length ps. P (Suc m))" for P
    by (simp_all add: Ex_less_Suc2 All_less_Suc2)
  have "best' = best \<or> eligible now tr i p \<and> best' = Some (i, current_weight (raise p)) \<or>
    (\<exists>m < length ps. eligible now tr (i + Suc m) (ps ! m) \<and> best' = Some (i + Suc m, current_weight (raise (ps ! m))))"
    using r b unfolding best_so_far_def by (auto split: option.splits if_splits)
  moreover have "eligible now tr i p \<longrightarrow> (\<exists>j v. best' = Some (j, v) \<and> current_weight (raise p) \<le> v)"
    using r b unfolding best_so_far_def by (fastforce split: option.splits if_splits)
  moreover have "\<forall>j v. best = Some (j, v) \<longrightarrow> (\<exists>j' v'. best' = Some (j', v') \<and> v \<le> v')"
    using r b unfolding best_so_far_def by (fastforce split: option.splits if_splits)
  moreover have "\<forall>m < length ps. eligible now tr (i + Suc m) (ps ! m) \<longrightarrow> (\<exists>j v. best' = Some (j, v) \<and> current_weight (raise (ps ! m)) \<le> v)"
    using r unfolding best_so_far_def by auto
  ultimately show ?thesis unfolding best_so_far_def s by auto
qed

text \<open>The peers and the sum of the weights after the loop.\<close>

definition raise_all :: "int \<Rightarrow> 64 word list \<Rightarrow> nat \<Rightarrow> rr_peer list \<Rightarrow> rr_peer list" where
  "raise_all now tr i ps = map (\<lambda>(j, p). if eligible now tr j p then raise p else p) (enumerate i ps)"

definition eligible_weight :: "int \<Rightarrow> 64 word list \<Rightarrow> nat \<Rightarrow> rr_peer list \<Rightarrow> int" where
  "eligible_weight now tr i ps = (\<Sum>(j, p)\<leftarrow>enumerate i ps. if eligible now tr j p then effective_weight p else 0)"

lemma get_peer_loop_spec:
  "(\<forall>m < length ps. (i + m) div 64 < length tr) \<Longrightarrow>
   \<exists>best'. get_peer_loop now tr i ps tot best = Some (raise_all now tr i ps, tot + eligible_weight now tr i ps, best') \<and>
     best_so_far best best' now tr i ps"
proof (induction ps arbitrary: i tot best)
  case Nil
  then show ?case by (simp add: raise_all_def eligible_weight_def best_so_far_def)
next
  case (Cons p ps)
  have t: "i div 64 < length tr" "\<forall>m < length ps. (Suc i + m) div 64 < length tr"
    using Cons.prems by (force, force)
  show ?case
  proof (cases "eligible now tr i p")
    case False
    obtain best' where b: "get_peer_loop now tr (Suc i) ps tot best =
        Some (raise_all now tr (Suc i) ps, tot + eligible_weight now tr (Suc i) ps, best')"
      "best_so_far best best' now tr (Suc i) ps"
      using Cons.IH[OF t(2)] by blast
    have "get_peer_loop now tr i (p # ps) tot best = Some (raise_all now tr i (p # ps), tot + eligible_weight now tr i (p # ps), best')"
      using False t(1) b(1) by (auto simp: Let_def eligible_def raise_all_def eligible_weight_def)
    moreover have "best_so_far best best' now tr i (p # ps)"
      by (rule best_so_far_Cons[OF b(2)]) (simp add: False)
    ultimately show ?thesis by blast
  next
    case True
    let ?cw = "current_weight (raise p)"
    define b1 where "b1 = (case best of None \<Rightarrow> Some (i, ?cw) | Some (j, v) \<Rightarrow> if v < ?cw then Some (i, ?cw) else Some (j, v))"
    obtain best' where b: "get_peer_loop now tr (Suc i) ps (tot + effective_weight p) b1 =
        Some (raise_all now tr (Suc i) ps, tot + effective_weight p + eligible_weight now tr (Suc i) ps, best')"
      "best_so_far b1 best' now tr (Suc i) ps"
      using Cons.IH[OF t(2)] by blast
    have c: "?cw = current_weight p + effective_weight p" by (simp add: raise_def)
    have "get_peer_loop now tr i (p # ps) tot best = Some (raise_all now tr i (p # ps), tot + eligible_weight now tr i (p # ps), best')"
      using True t(1) b(1) unfolding b1_def c
      by (auto simp: Let_def eligible_def raise_all_def eligible_weight_def raise_def)
    moreover have "best_so_far best best' now tr i (p # ps)"
      by (rule best_so_far_Cons[OF b(2)]) (simp add: True b1_def)
    ultimately show ?thesis by blast
  qed
qed

lemma length_raise_all [simp]: "length (raise_all now tr i ps) = length ps"
  by (simp add: raise_all_def)

lemma nth_raise_all [simp]:
  "m < length ps \<Longrightarrow> raise_all now tr i ps ! m = (if eligible now tr (i + m) (ps ! m) then raise (ps ! m) else ps ! m)"
  by (simp add: raise_all_def nth_enumerate_eq)

lemma raise_all_none: "\<forall>m < length ps. \<not> eligible now tr (i + m) (ps ! m) \<Longrightarrow> raise_all now tr i ps = ps"
  by (rule nth_equalityI) auto

text \<open>The chosen peer: its current weight is lowered by the sum of the weights.\<close>

definition charge :: "int \<Rightarrow> int \<Rightarrow> rr_peer \<Rightarrow> rr_peer" where
  "charge now tot q = q\<lparr>refs := refs q + 1, current_weight := current_weight q - tot,
     checked := (if now - checked q > fail_timeout q then now else checked q)\<rparr>"

lemma get_peer_none:
  assumes "length ps \<le> 64 * length (tried rrp)" "\<forall>m < length ps. \<not> eligible now (tried rrp) m (ps ! m)"
  shows "ngx_http_upstream_get_peer now ps rrp = Some (None, ps, rrp)"
proof -
  have "\<forall>m < length ps. (0 + m) div 64 < length (tried rrp)" using assms(1) by auto
  from get_peer_loop_spec[OF this, of now 0 None] obtain best' where
    b: "get_peer_loop now (tried rrp) 0 ps 0 None = Some (raise_all now (tried rrp) 0 ps, 0 + eligible_weight now (tried rrp) 0 ps, best')"
      "best_so_far None best' now (tried rrp) 0 ps" by blast
  then have "best' = None" using assms(2) by (auto simp: best_so_far_def)
  then show ?thesis using b(1) raise_all_none[of ps now "tried rrp" 0] assms(2) by (simp add: ngx_http_upstream_get_peer_def)
qed

lemma get_peer_some:
  assumes l: "length ps \<le> 64 * length (tried rrp)" and e: "m < length ps" "eligible now (tried rrp) m (ps ! m)"
  shows "\<exists>k < length ps. eligible now (tried rrp) k (ps ! k) \<and>
    (\<forall>j < length ps. eligible now (tried rrp) j (ps ! j) \<longrightarrow> current_weight (raise (ps ! j)) \<le> current_weight (raise (ps ! k))) \<and>
    ngx_http_upstream_get_peer now ps rrp =
      Some (Some k, (raise_all now (tried rrp) 0 ps)[k := charge now (eligible_weight now (tried rrp) 0 ps) (raise (ps ! k))],
        rrp\<lparr>rrp_current := Some k, tried := (tried rrp)[k div 64 := (tried rrp ! (k div 64)) OR ngx_bit k]\<rparr>)"
proof -
  have "\<forall>m < length ps. (0 + m) div 64 < length (tried rrp)" using l by auto
  from get_peer_loop_spec[OF this, of now 0 None] obtain best' where
    b: "get_peer_loop now (tried rrp) 0 ps 0 None = Some (raise_all now (tried rrp) 0 ps, 0 + eligible_weight now (tried rrp) 0 ps, best')"
      "best_so_far None best' now (tried rrp) 0 ps" by blast
  have "best' \<noteq> None" using b(2) e by (auto simp: best_so_far_def)
  then obtain k where k: "k < length ps" "eligible now (tried rrp) k (ps ! k)" "best' = Some (k, current_weight (raise (ps ! k)))"
    using b(2) by (auto simp: best_so_far_def)
  have "\<forall>j < length ps. eligible now (tried rrp) j (ps ! j) \<longrightarrow> current_weight (raise (ps ! j)) \<le> current_weight (raise (ps ! k))"
    using b(2) k(3) by (auto simp: best_so_far_def)
  moreover have "ngx_http_upstream_get_peer now ps rrp =
      Some (Some k, (raise_all now (tried rrp) 0 ps)[k := charge now (eligible_weight now (tried rrp) 0 ps) (raise (ps ! k))],
        rrp\<lparr>rrp_current := Some k, tried := (tried rrp)[k div 64 := (tried rrp ! (k div 64)) OR ngx_bit k]\<rparr>)"
    using b(1) k by (simp add: ngx_http_upstream_get_peer_def charge_def ngx_http_upstream_rr_peer_ref_def Let_def)
  ultimately show ?thesis using k by blast
qed

lemma sum_list_pos: "xs \<noteq> [] \<Longrightarrow> \<forall>x \<in> set xs. 0 < x \<Longrightarrow> 0 < sum_list (xs :: int list)"
proof (induction xs)
  case (Cons x xs)
  then show ?case by (cases xs) auto
qed simp

section \<open>The choice of a peer\<close>

definition available :: "int \<Rightarrow> 64 word list \<Rightarrow> rr_peers \<Rightarrow> nat \<Rightarrow> bool" where
  "available now tr peers i \<longleftrightarrow> i < length (peer_list peers) \<and>
     (let p = peer_list peers ! i in
      if single peers then i = 0 \<and> \<not> down p \<and> \<not> (max_conns p \<noteq> 0 \<and> max_conns p \<le> conns p)
      else eligible now tr i p)"

text \<open>The bitmap fits every group from the current one on.\<close>

definition rrp_ok :: "rr_peers list \<Rightarrow> rr_peer_data \<Rightarrow> bool" where
  "rrp_ok us rrp \<longleftrightarrow> rrp_peers rrp < length us \<and> (\<forall>g < length us. single (us ! g) \<longrightarrow> Suc g = length us) \<and>
     (\<forall>g < length us. number (us ! g) = length (peer_list (us ! g)) \<and> peer_list (us ! g) \<noteq> [] \<and>
        number (us ! g) \<le> 64 * length (tried rrp))"

definition bitmap :: "rr_peer_data \<Rightarrow> nat \<Rightarrow> 64 word list" where
  "bitmap rrp g = (if g = rrp_peers rrp then tried rrp else replicate (length (tried rrp)) 0)"

lemma available_cong:
  "(\<And>i. i < length (peer_list peers) \<Longrightarrow> tr ! (i div 64) = tr' ! (i div 64)) \<Longrightarrow> available now tr peers = available now tr' peers"
  by (auto simp: available_def eligible_def fun_eq_iff Let_def)

lemma select_none:
  assumes "length (peer_list peers) \<le> 64 * length (tried rrp)" "peer_list peers \<noteq> []" "\<nexists>i. available now (tried rrp) peers i"
  shows "select_peer now peers rrp = Some (None, peers, rrp)"
proof (cases "single peers")
  case True
  obtain p ps where ps: "peer_list peers = p # ps" using assms(2) by (cases "peer_list peers") auto
  have "\<not> available now (tried rrp) peers 0" using assms(3) by blast
  then show ?thesis using True ps by (auto simp: select_peer_def available_def)
next
  case False
  have "\<forall>m < length (peer_list peers). \<not> eligible now (tried rrp) m (peer_list peers ! m)"
    using assms(3) False by (auto simp: available_def)
  then show ?thesis using get_peer_none[OF assms(1), of now] False by (simp add: select_peer_def)
qed

text \<open>What a selection in one group changes.\<close>

definition same_group :: "rr_peers \<Rightarrow> rr_peers \<Rightarrow> bool" where
  "same_group p p' \<longleftrightarrow> number p' = number p \<and> single p' = single p \<and> total_weight p' = total_weight p \<and>
     map weight (peer_list p') = map weight (peer_list p)"

lemma same_group_length: "same_group p p' \<Longrightarrow> length (peer_list p') = length (peer_list p)"
  using map_eq_imp_length_eq by (auto simp: same_group_def)

definition selected :: "rr_peers \<Rightarrow> nat \<Rightarrow> rr_peer_data \<Rightarrow> rr_peers \<Rightarrow> rr_peer_data \<Rightarrow> bool" where
  "selected peers k rrp peers' rrp' \<longleftrightarrow> same_group peers peers' \<and> rrp_peers rrp' = rrp_peers rrp \<and> rrp_current rrp' = Some k \<and>
     sockaddr (peer_list peers' ! k) = sockaddr (peer_list peers ! k) \<and> conns (peer_list peers' ! k) = conns (peer_list peers ! k) \<and>
     tried rrp' = (if single peers then tried rrp else (tried rrp)[k div 64 := (tried rrp ! (k div 64)) OR ngx_bit k])"

text \<open>A peer of the greatest current weight after the round.\<close>

definition heaviest :: "int \<Rightarrow> 64 word list \<Rightarrow> rr_peers \<Rightarrow> nat \<Rightarrow> bool" where
  "heaviest now tr peers k \<longleftrightarrow> single peers \<or> (\<forall>j. available now tr peers j \<longrightarrow>
     current_weight (raise (peer_list peers ! j)) \<le> current_weight (raise (peer_list peers ! k)))"

lemma weight_raise_all [simp]: "map weight (raise_all now tr i ps) = map weight ps"
  by (rule nth_equalityI) (auto simp: raise_def)

lemma select_single:
  assumes "single peers" "available now (tried rrp) peers m"
  shows "\<exists>peers' rrp'. select_peer now peers rrp = Some (Some 0, peers', rrp') \<and> available now (tried rrp) peers 0 \<and>
    selected peers 0 rrp peers' rrp'"
proof -
  have m: "m = 0" "available now (tried rrp) peers 0" using assms by (auto simp: available_def Let_def)
  then obtain p ps where ps: "peer_list peers = p # ps" by (cases "peer_list peers") (auto simp: available_def)
  have "select_peer now peers rrp = Some (Some 0, peers\<lparr>peer_list := ngx_http_upstream_rr_peer_ref p # ps\<rparr>, rrp\<lparr>rrp_current := Some 0\<rparr>)"
    using m ps assms(1) by (auto simp: select_peer_def available_def)
  then show ?thesis using m ps assms(1) by (simp add: ngx_http_upstream_rr_peer_ref_def selected_def same_group_def)
qed

lemma select_some:
  assumes "length (peer_list peers) \<le> 64 * length (tried rrp)" "available now (tried rrp) peers m"
  shows "\<exists>k peers' rrp'. select_peer now peers rrp = Some (Some k, peers', rrp') \<and> available now (tried rrp) peers k \<and>
    heaviest now (tried rrp) peers k \<and> selected peers k rrp peers' rrp'"
proof (cases "single peers")
  case True
  then show ?thesis using select_single[OF True assms(2)] by (auto simp: heaviest_def)
next
  case False
  let ?ps = "peer_list peers"
  have e: "m < length ?ps" "eligible now (tried rrp) m (?ps ! m)" using assms(2) False by (auto simp: available_def)
  from get_peer_some[OF assms(1) e] obtain k where k: "k < length ?ps" "eligible now (tried rrp) k (?ps ! k)"
    "\<forall>j < length ?ps. eligible now (tried rrp) j (?ps ! j) \<longrightarrow> current_weight (raise (?ps ! j)) \<le> current_weight (raise (?ps ! k))"
    and g: "ngx_http_upstream_get_peer now ?ps rrp =
      Some (Some k, (raise_all now (tried rrp) 0 ?ps)[k := charge now (eligible_weight now (tried rrp) 0 ?ps) (raise (?ps ! k))],
        rrp\<lparr>rrp_current := Some k, tried := (tried rrp)[k div 64 := (tried rrp ! (k div 64)) OR ngx_bit k]\<rparr>)"
    by blast
  let ?peers = "peers\<lparr>peer_list := (raise_all now (tried rrp) 0 ?ps)[k := charge now (eligible_weight now (tried rrp) 0 ?ps) (raise (?ps ! k))]\<rparr>"
  have "available now (tried rrp) peers k" "heaviest now (tried rrp) peers k"
    using k False by (auto simp: available_def heaviest_def)
  moreover have "map weight (peer_list ?peers) = map weight ?ps"
    using k(1) by (simp add: map_update charge_def raise_def list_update_same_conv)
  then have "selected peers k rrp ?peers (rrp\<lparr>rrp_current := Some k, tried := (tried rrp)[k div 64 := (tried rrp ! (k div 64)) OR ngx_bit k]\<rparr>)"
    using k(1) False by (simp add: selected_def same_group_def charge_def raise_def)
  ultimately show ?thesis using g False by (auto simp: select_peer_def)
qed

text \<open>
  The peer handed out is one of the first group from \<open>g0\<close> on that has an available peer (\<open>A\<close>), and there
  one that the balancer prefers (\<open>P\<close>); the request is refused exactly when there is none.
\<close>

definition first_choice :: "nat \<Rightarrow> (nat \<Rightarrow> nat \<Rightarrow> bool) \<Rightarrow> (nat \<Rightarrow> nat \<Rightarrow> bool) \<Rightarrow> rr_peers list \<Rightarrow> ngx_int \<Rightarrow> rr_peers list \<Rightarrow>
  rr_peer_data \<Rightarrow> peer_connection \<Rightarrow> bool" where
  "first_choice g0 A P us rc us' rrp' pc' \<longleftrightarrow>
     (if \<exists>g i. g0 \<le> g \<and> g < length us \<and> A g i
      then rc = NGX_OK \<and>
        (\<exists>g i. rrp_peers rrp' = g \<and> rrp_current rrp' = Some i \<and> g0 \<le> g \<and> g < length us \<and> A g i \<and> P g i \<and>
           (\<forall>h j. g0 \<le> h \<and> h < g \<longrightarrow> \<not> A h j) \<and>
           pc_sockaddr pc' = Some (sockaddr (peer_list (us ! g) ! i)) \<and>
           conns (peer_list (us' ! g) ! i) = conns (peer_list (us ! g) ! i) + 1)
      else rc = NGX_BUSY)"

lemma first_choice_later:
  assumes c: "first_choice (Suc g0) D Q us rc us' rrp' pc'" and n: "\<And>j. \<not> A g0 j"
    and e: "\<And>h. Suc g0 \<le> h \<Longrightarrow> h < length us \<Longrightarrow> A h = D h \<and> P h = Q h"
  shows "first_choice g0 A P us rc us' rrp' pc'"
proof (cases "\<exists>g i. Suc g0 \<le> g \<and> g < length us \<and> D g i")
  case False
  then have "\<not> A g i" if "g0 \<le> g" "g < length us" for g i
    using that n e[of g] by (cases "g = g0") auto
  then show ?thesis using False c by (auto simp: first_choice_def)
next
  case True
  then obtain g i where "rc = NGX_OK" and g: "rrp_peers rrp' = g" "rrp_current rrp' = Some i" "Suc g0 \<le> g" "g < length us" "D g i" "Q g i"
    "\<forall>h j. Suc g0 \<le> h \<and> h < g \<longrightarrow> \<not> D h j" "pc_sockaddr pc' = Some (sockaddr (peer_list (us ! g) ! i))"
    "conns (peer_list (us' ! g) ! i) = conns (peer_list (us ! g) ! i) + 1"
    using c unfolding first_choice_def by (simp only: if_True) blast
  moreover have "A g i" "P g i" using e[OF g(3,4)] g(5,6) by simp_all
  moreover have "\<not> A h j" if "g0 \<le> h" "h < g" for h j
    using that n e[of h] g(4,7) by (cases "h = g0") auto
  ultimately show ?thesis unfolding first_choice_def by (simp only: if_split) (metis Suc_leD)
qed

lemma first_choice_now:
  assumes "g0 < length us" "A g0 k" "P g0 k" "rrp_peers rrp' = g0" "rrp_current rrp' = Some k"
    "pc_sockaddr pc' = Some (sockaddr (peer_list (us ! g0) ! k))"
    "conns (peer_list (us' ! g0) ! k) = conns (peer_list (us ! g0) ! k) + 1"
  shows "first_choice g0 A P us NGX_OK us' rrp' pc'"
  using assms unfolding first_choice_def by auto

section \<open>The bitmap\<close>

lemma ngx_bit_eq: "x AND ngx_bit i \<noteq> 0 \<longleftrightarrow> bit x (i mod 64)" for x :: "64 word"
proof -
  have "x AND ngx_bit i = (if bit x (i mod 64) then ngx_bit i else 0)"
    by (rule bit_word_eqI) (auto simp: ngx_bit_def bit_simps)
  moreover have "ngx_bit i \<noteq> 0" by (simp add: ngx_bit_def push_bit_eq_mult)
  ultimately show ?thesis by simp
qed

lemma ngx_bit_nth: "bit (ngx_bit i) (i mod 64)"
  by (simp add: ngx_bit_def bit_simps)

definition marked :: "rr_peer_data \<Rightarrow> nat \<Rightarrow> bool" where
  "marked rrp i \<longleftrightarrow> bit (tried rrp ! (i div 64)) (i mod 64)"

lemma available_not_marked: "\<not> single peers \<Longrightarrow> available now (tried rrp) peers i \<Longrightarrow> \<not> marked rrp i"
  using ngx_bit_eq[of "tried rrp ! (i div 64)" i] by (auto simp: available_def eligible_def marked_def)


lemma available_bound: "available now tr peers i \<Longrightarrow> i < length (peer_list peers)"
  by (auto simp: available_def)

lemma marked_after:
  assumes t: "tried rrp' = (tried rrp)[k div 64 := (tried rrp ! (k div 64)) OR ngx_bit k]" and k: "k < 64 * length (tried rrp)"
  shows "marked rrp' k" "marked rrp i \<Longrightarrow> marked rrp' i"
proof -
  have l: "k div 64 < length (tried rrp)" using k by auto
  then show "marked rrp' k" by (simp add: marked_def t bit_or_iff ngx_bit_nth)
  show "marked rrp' i" if "marked rrp i"
    using that l by (cases "i div 64 = k div 64") (auto simp: marked_def t bit_or_iff)
qed

text \<open>The groups keep their form.\<close>

definition same_groups :: "rr_peers list \<Rightarrow> rr_peers list \<Rightarrow> bool" where
  "same_groups us us' \<longleftrightarrow> list_all2 same_group us us'"

lemma same_group_refl [simp]: "same_group p p"
  by (simp add: same_group_def)

lemma same_groups_refl [simp]: "same_groups us us"
  by (simp add: same_groups_def list_all2_refl)

lemma same_groups_trans: "same_groups us vs \<Longrightarrow> same_groups vs ws \<Longrightarrow> same_groups us ws"
  unfolding same_groups_def by (rule list_all2_trans[of same_group same_group same_group]) (auto simp: same_group_def)

lemma same_groups_nth: "same_groups us us' \<Longrightarrow> g < length us \<Longrightarrow> same_group (us ! g) (us' ! g)"
  by (simp add: same_groups_def list_all2_conv_all_nth)

lemma same_groups_length: "same_groups us us' \<Longrightarrow> length us' = length us"
  by (simp add: same_groups_def list_all2_lengthD)

lemma same_groups_update: "g < length us \<Longrightarrow> same_group (us ! g) p \<Longrightarrow> same_groups us (us[g := p])"
  by (simp add: same_groups_def list_all2_conv_all_nth nth_list_update)

lemma rrp_ok_same:
  assumes s: "same_groups us us'" and o: "rrp_ok us rrp" and t: "rrp_peers rrp' < length us" "length (tried rrp') = length (tried rrp)"
  shows "rrp_ok us' rrp'"
proof -
  have l: "length us' = length us" using same_groups_length[OF s] .
  have e: "number (us' ! g) = number (us ! g)" "single (us' ! g) = single (us ! g)"
    "length (peer_list (us' ! g)) = length (peer_list (us ! g))" "peer_list (us' ! g) = [] \<longleftrightarrow> peer_list (us ! g) = []"
    if "g < length us" for g
    using same_groups_nth[OF s that] same_group_length[of "us ! g" "us' ! g"] by (auto simp: same_group_def)
  show ?thesis using o t unfolding rrp_ok_def l by (auto simp: e)
qed

text \<open>What an attempt to get a peer does to the request.\<close>

definition took :: "rr_peers list \<Rightarrow> rr_peer_data \<Rightarrow> ngx_int \<Rightarrow> rr_peers list \<Rightarrow> rr_peer_data \<Rightarrow> bool" where
  "took us rrp rc us' rrp' \<longleftrightarrow> same_groups us us' \<and> length (tried rrp') = length (tried rrp) \<and> (rc = NGX_OK \<or> rc = NGX_BUSY) \<and>
     rrp_peers rrp \<le> rrp_peers rrp' \<and> rrp_peers rrp' < length us \<and>
     (rc = NGX_OK \<longrightarrow> (\<exists>k. rrp_current rrp' = Some k \<and> k < length (peer_list (us ! rrp_peers rrp')) \<and> marked rrp' k \<and>
        (rrp_peers rrp' = rrp_peers rrp \<longrightarrow> \<not> marked rrp k \<and> (\<forall>i. marked rrp i \<longrightarrow> marked rrp' i))))"

section \<open>Balancers that choose group by group\<close>

text \<open>
  The shape that \<open>ngx_http_upstream_get_round_robin_peer\<close> shares with the function of the least connections
  module: a selection in the current group, and the next group when that finds nothing.
\<close>

type_synonym selector = "int \<Rightarrow> rr_peers \<Rightarrow> rr_peer_data \<Rightarrow> (nat option \<times> rr_peers \<times> rr_peer_data) option"

type_synonym 'd balance = "int \<Rightarrow> rr_peers list \<Rightarrow> 'd \<Rightarrow> peer_connection \<Rightarrow> (ngx_int \<times> rr_peers list \<times> 'd \<times> peer_connection) option"

definition cleared :: "peer_connection \<Rightarrow> peer_connection" where
  "cleared pc = pc\<lparr>pc_cached := False, pc_connection := None\<rparr>"

definition next_group :: "rr_peers list \<Rightarrow> rr_peer_data \<Rightarrow> rr_peer_data" where
  "next_group us rrp =
     (let n = (number (us ! Suc (rrp_peers rrp)) + 63) div 64 in
      \<lparr>rrp_peers = Suc (rrp_peers rrp), rrp_current = rrp_current rrp, tried = replicate n 0 @ drop n (tried rrp)\<rparr>)"

definition current_group :: "rr_peers list \<Rightarrow> rr_peer_data \<Rightarrow> rr_peers" where
  "current_group us rrp = us ! rrp_peers rrp"

definition taken_from :: "rr_peers list \<Rightarrow> rr_peer_data \<Rightarrow> nat \<Rightarrow> rr_peers \<Rightarrow> rr_peers list" where
  "taken_from us rrp k peers =
     us[rrp_peers rrp := peers\<lparr>peer_list := (peer_list peers)[k := (peer_list peers ! k)\<lparr>conns := conns (peer_list peers ! k) + 1\<rparr>]\<rparr>]"

lemma rrp_okD:
  assumes "rrp_ok us rrp"
  shows "rrp_peers rrp < length us" "length (peer_list (current_group us rrp)) \<le> 64 * length (tried rrp)"
    "peer_list (current_group us rrp) \<noteq> []" "single (current_group us rrp) \<Longrightarrow> Suc (rrp_peers rrp) = length us"
  using assms by (auto simp: rrp_ok_def current_group_def)

lemma next_group_ok:
  assumes ok: "rrp_ok us rrp" and g: "Suc (rrp_peers rrp) < length us"
  shows "rrp_ok us (next_group us rrp)" "rrp_peers (next_group us rrp) = Suc (rrp_peers rrp)"
    "length (tried (next_group us rrp)) = length (tried rrp)"
    "i < number (us ! Suc (rrp_peers rrp)) \<Longrightarrow> tried (next_group us rrp) ! (i div 64) = 0"
proof -
  let ?n = "(number (us ! Suc (rrp_peers rrp)) + 63) div 64"
  have n: "?n \<le> length (tried rrp)" using ok g by (auto simp: rrp_ok_def)
  then show lt: "length (tried (next_group us rrp)) = length (tried rrp)" by (simp add: next_group_def Let_def)
  show p: "rrp_peers (next_group us rrp) = Suc (rrp_peers rrp)" by (simp add: next_group_def Let_def)
  show "rrp_ok us (next_group us rrp)" using ok g unfolding rrp_ok_def lt p by auto
  show "tried (next_group us rrp) ! (i div 64) = 0" if "i < number (us ! Suc (rrp_peers rrp))"
  proof -
    have "i div 64 < ?n" using that by (simp add: less_eq_Suc_le flip: div_add_self2)
    then show ?thesis using n by (simp add: next_group_def Let_def nth_append)
  qed
qed

lemma taken_from_same:
  assumes "rrp_peers rrp < length us" "same_group (current_group us rrp) peers" "k < length (peer_list peers)"
  shows "same_groups us (taken_from us rrp k peers)" "conns (peer_list (taken_from us rrp k peers ! rrp_peers rrp) ! k) = conns (peer_list peers ! k) + 1"
proof -
  let ?p = "peers\<lparr>peer_list := (peer_list peers)[k := (peer_list peers ! k)\<lparr>conns := conns (peer_list peers ! k) + 1\<rparr>]\<rparr>"
  have "map weight (peer_list ?p) = map weight (peer_list peers)"
    using assms(3) by (simp add: map_update list_update_same_conv)
  then have "same_group (us ! rrp_peers rrp) ?p"
    using assms(2) by (simp add: same_group_def current_group_def)
  then show "same_groups us (taken_from us rrp k peers)"
    unfolding taken_from_def using assms(1) by (rule same_groups_update[rotated])
  show "conns (peer_list (taken_from us rrp k peers ! rrp_peers rrp) ! k) = conns (peer_list peers ! k) + 1"
    using assms(1,3) by (simp add: taken_from_def)
qed

locale group_selector =
  fixes sel :: selector and get :: "rr_peer_data balance" and best :: "int \<Rightarrow> 64 word list \<Rightarrow> rr_peers \<Rightarrow> nat \<Rightarrow> bool"
  assumes got: "rrp_ok us rrp \<Longrightarrow> sel now (current_group us rrp) rrp = Some (Some k, peers, rrp') \<Longrightarrow>
      \<exists>pc'. get now us rrp pc = Some (NGX_OK, taken_from us rrp k peers, rrp', pc') \<and>
        pc_sockaddr pc' = Some (sockaddr (peer_list peers ! k))"
    and busy: "rrp_ok us rrp \<Longrightarrow> sel now (current_group us rrp) rrp = Some (None, current_group us rrp, rrp) \<Longrightarrow>
      Suc (rrp_peers rrp) = length us \<Longrightarrow> \<exists>pc'. get now us rrp pc = Some (NGX_BUSY, us, rrp, pc')"
    and later: "rrp_ok us rrp \<Longrightarrow> sel now (current_group us rrp) rrp = Some (None, current_group us rrp, rrp) \<Longrightarrow>
      Suc (rrp_peers rrp) < length us \<Longrightarrow> get now us (next_group us rrp) (cleared pc) = Some (rc, us', rrp', pc') \<Longrightarrow>
      \<exists>pc''. get now us rrp pc = Some (rc, us', rrp', pc'') \<and> pc_sockaddr pc'' = pc_sockaddr pc'"
    and none: "length (peer_list peers) \<le> 64 * length (tried rrp) \<Longrightarrow> peer_list peers \<noteq> [] \<Longrightarrow>
      \<nexists>i. available now (tried rrp) peers i \<Longrightarrow> sel now peers rrp = Some (None, peers, rrp)"
    and some: "length (peer_list peers) \<le> 64 * length (tried rrp) \<Longrightarrow> available now (tried rrp) peers m \<Longrightarrow>
      \<exists>k peers' rrp'. sel now peers rrp = Some (Some k, peers', rrp') \<and> available now (tried rrp) peers k \<and>
        best now (tried rrp) peers k \<and> selected peers k rrp peers' rrp'"
    and best_cong: "(\<And>i. i < length (peer_list peers) \<Longrightarrow> tr ! (i div 64) = tr' ! (i div 64)) \<Longrightarrow> best now tr peers k = best now tr' peers k"
begin

lemma get_now:
  assumes ok: "rrp_ok us rrp" and a: "available now (tried rrp) (current_group us rrp) m"
  shows "\<exists>k us' rrp' pc'. get now us rrp pc = Some (NGX_OK, us', rrp', pc') \<and>
    available now (tried rrp) (current_group us rrp) k \<and> best now (tried rrp) (current_group us rrp) k \<and>
    rrp_peers rrp' = rrp_peers rrp \<and> rrp_current rrp' = Some k \<and> same_groups us us' \<and>
    pc_sockaddr pc' = Some (sockaddr (peer_list (current_group us rrp) ! k)) \<and>
    conns (peer_list (us' ! rrp_peers rrp) ! k) = conns (peer_list (current_group us rrp) ! k) + 1 \<and>
    tried rrp' = (if single (current_group us rrp) then tried rrp
      else (tried rrp)[k div 64 := (tried rrp ! (k div 64)) OR ngx_bit k])"
proof -
  let ?p = "current_group us rrp"
  from some[OF rrp_okD(2)[OF ok] a] obtain k peers' rrp' where s: "sel now ?p rrp = Some (Some k, peers', rrp')"
    and k: "available now (tried rrp) ?p k" "best now (tried rrp) ?p k" "selected ?p k rrp peers' rrp'"
    by blast
  have sg: "same_group ?p peers'" using k(3) by (simp add: selected_def)
  have kl: "k < length (peer_list peers')" using available_bound[OF k(1)] same_group_length[OF sg] by simp
  from got[OF ok s, of pc] obtain pc' where "get now us rrp pc = Some (NGX_OK, taken_from us rrp k peers', rrp', pc')"
    "pc_sockaddr pc' = Some (sockaddr (peer_list peers' ! k))" by blast
  then show ?thesis
    using k taken_from_same[OF rrp_okD(1)[OF ok] sg kl] unfolding selected_def by (intro exI[of _ k]) auto
qed

lemma choice:
  assumes "rrp_ok us rrp"
  shows "\<exists>rc us' rrp' pc'. get now us rrp pc = Some (rc, us', rrp', pc') \<and>
    first_choice (rrp_peers rrp) (\<lambda>g. available now (bitmap rrp g) (us ! g)) (\<lambda>g. best now (bitmap rrp g) (us ! g)) us rc us' rrp' pc'"
  using assms
proof (induction "length us - rrp_peers rrp" arbitrary: rrp pc rule: less_induct)
  case less
  note ok = less.prems
  let ?g = "rrp_peers rrp" and ?A = "\<lambda>g. available now (bitmap rrp g) (us ! g)" and ?P = "\<lambda>g. best now (bitmap rrp g) (us ! g)"
  have A: "?A ?g = available now (tried rrp) (current_group us rrp)" "?P ?g = best now (tried rrp) (current_group us rrp)"
    by (simp_all add: bitmap_def current_group_def)
  have g: "?g < length us" using rrp_okD(1)[OF ok] .
  show ?case
  proof (cases "\<exists>i. available now (tried rrp) (current_group us rrp) i")
    case True
    then obtain m where "available now (tried rrp) (current_group us rrp) m" by blast
    from get_now[OF ok this, of pc] obtain k us' rrp' pc' where r: "get now us rrp pc = Some (NGX_OK, us', rrp', pc')"
      and k: "?A ?g k" "?P ?g k" "rrp_peers rrp' = ?g" "rrp_current rrp' = Some k"
      "pc_sockaddr pc' = Some (sockaddr (peer_list (us ! ?g) ! k))"
      "conns (peer_list (us' ! ?g) ! k) = conns (peer_list (us ! ?g) ! k) + 1"
      unfolding A current_group_def by blast
    have "first_choice ?g ?A ?P us NGX_OK us' rrp' pc'"
      using first_choice_now[of ?g us ?A k ?P rrp' pc' us', OF g k] .
    then show ?thesis using r by blast
  next
    case False
    have ng: "\<not> ?A ?g j" for j using False A by simp
    note sn = none[OF rrp_okD(2,3)[OF ok] False]
    show ?thesis
    proof (cases "Suc ?g < length us")
      case last: False
      have "first_choice (Suc ?g) ?A ?P us NGX_BUSY us rrp pc'" for pc' using last by (auto simp: first_choice_def)
      then have "first_choice ?g ?A ?P us NGX_BUSY us rrp pc'" for pc' by (rule first_choice_later) (use ng in simp_all)
      then show ?thesis using busy[OF ok sn, of pc] g last by force
    next
      case True
      note no = next_group_ok[OF ok True]
      have av: "?A h = available now (bitmap (next_group us rrp) h) (us ! h) \<and> ?P h = best now (bitmap (next_group us rrp) h) (us ! h)"
        if h: "Suc ?g \<le> h" "h < length us" for h
      proof (cases "h = Suc ?g")
        case True
        have "length (peer_list (us ! h)) = number (us ! h)" using ok h(2) by (auto simp: rrp_ok_def)
        moreover have "length (peer_list (us ! h)) \<le> 64 * length (tried rrp)" using ok h(2) by (auto simp: rrp_ok_def)
        ultimately have "bitmap rrp h ! (i div 64) = bitmap (next_group us rrp) h ! (i div 64)" if "i < length (peer_list (us ! h))" for i
          using no(2,4) True that by (auto simp: bitmap_def)
        then show ?thesis using best_cong available_cong by blast
      next
        case False
        then show ?thesis using h no(2,3) by (simp add: bitmap_def)
      qed
      have "length us - rrp_peers (next_group us rrp) < length us - ?g" using g no(2) by simp
      from less.hyps[OF this no(1), of "cleared pc"] obtain rc us' rrp' pc' where
        i: "get now us (next_group us rrp) (cleared pc) = Some (rc, us', rrp', pc')"
        "first_choice (Suc ?g) (\<lambda>g. available now (bitmap (next_group us rrp) g) (us ! g))
           (\<lambda>g. best now (bitmap (next_group us rrp) g) (us ! g)) us rc us' rrp' pc'"
        unfolding no(2) by blast
      obtain pc'' where pc: "get now us rrp pc = Some (rc, us', rrp', pc'')"
        "pc_sockaddr pc'' = pc_sockaddr pc'" using later[OF ok sn True i(1)] by blast
      have "first_choice (Suc ?g) (\<lambda>g. available now (bitmap (next_group us rrp) g) (us ! g))
           (\<lambda>g. best now (bitmap (next_group us rrp) g) (us ! g)) us rc us' rrp' pc''"
        using i(2) pc(2) unfolding first_choice_def by (simp only:)
      then have "first_choice ?g ?A ?P us rc us' rrp' pc''"
        by (rule first_choice_later) (use ng av in simp_all)
      then show ?thesis using pc(1) by blast
    qed
  qed
qed

lemma get_took:
  assumes "rrp_ok us rrp" "\<forall>g \<in> set us. \<not> single g"
  shows "\<exists>rc us' rrp' pc'. get now us rrp pc = Some (rc, us', rrp', pc') \<and> took us rrp rc us' rrp'"
  using assms(1)
proof (induction "length us - rrp_peers rrp" arbitrary: rrp pc rule: less_induct)
  case less
  note ok = less.prems
  let ?P = "current_group us rrp"
  have ns: "\<not> single ?P" using assms(2) rrp_okD(1)[OF ok] by (simp add: current_group_def)
  show ?case
  proof (cases "\<exists>i. available now (tried rrp) ?P i")
    case True
    then obtain m where "available now (tried rrp) ?P m" by blast
    from get_now[OF ok this, of pc] obtain k us' rrp' pc' where
      r: "get now us rrp pc = Some (NGX_OK, us', rrp', pc')"
      and k: "available now (tried rrp) ?P k" "rrp_peers rrp' = rrp_peers rrp" "rrp_current rrp' = Some k" "same_groups us us'"
      and t: "tried rrp' = (tried rrp)[k div 64 := (tried rrp ! (k div 64)) OR ngx_bit k]"
      using ns by auto
    have kb: "k < length (peer_list ?P)" using available_bound[OF k(1)] .
    then have "k < 64 * length (tried rrp)" using rrp_okD(2)[OF ok] by simp
    note marked_after[OF t this]
    moreover have "\<not> marked rrp k" using available_not_marked[OF ns k(1)] .
    ultimately have "took us rrp NGX_OK us' rrp'"
      unfolding took_def using k(2-4) t rrp_okD(1)[OF ok] kb by (auto simp: current_group_def)
    then show ?thesis using r by blast
  next
    case False
    note sn = none[OF rrp_okD(2,3)[OF ok] False]
    show ?thesis
    proof (cases "Suc (rrp_peers rrp) < length us")
      case last: False
      then have "took us rrp NGX_BUSY us rrp" using rrp_okD(1)[OF ok] by (simp add: took_def)
      then show ?thesis using busy[OF ok sn, of pc] rrp_okD(1)[OF ok] last by force
    next
      case True
      note no = next_group_ok[OF ok True]
      have "length us - rrp_peers (next_group us rrp) < length us - rrp_peers rrp" using True no(2) by simp
      from less.hyps[OF this no(1), of "cleared pc"] obtain rc us' rrp' pc' where
        i: "get now us (next_group us rrp) (cleared pc) = Some (rc, us', rrp', pc')" "took us (next_group us rrp) rc us' rrp'"
        by blast
      have "took us rrp rc us' rrp'" using i(2) unfolding took_def no(2,3) by auto
      then show ?thesis using later[OF ok sn True i(1)] by blast
    qed
  qed
qed

end

section \<open>Round robin as such a balancer\<close>

interpretation rr: group_selector select_peer ngx_http_upstream_get_round_robin_peer heaviest
proof
  fix us :: "rr_peers list" and rrp rrp' rrp'' :: rr_peer_data and now :: int and k m :: nat and peers :: rr_peers
    and pc pc' :: peer_connection and rc us'
  assume ok: "rrp_ok us rrp"
  note g = rrp_okD(1)[OF ok]
  show "\<exists>pc'. ngx_http_upstream_get_round_robin_peer now us rrp pc = Some (NGX_OK, taken_from us rrp k peers, rrp', pc') \<and>
      pc_sockaddr pc' = Some (sockaddr (peer_list peers ! k))"
    if "select_peer now (current_group us rrp) rrp = Some (Some k, peers, rrp')"
    using that g unfolding current_group_def taken_from_def
    by (subst ngx_http_upstream_get_round_robin_peer.simps) (simp add: Let_def)
  show "\<exists>pc'. ngx_http_upstream_get_round_robin_peer now us rrp pc = Some (NGX_BUSY, us, rrp, pc')"
    if "select_peer now (current_group us rrp) rrp = Some (None, current_group us rrp, rrp)" "Suc (rrp_peers rrp) = length us"
    using that unfolding current_group_def by (subst ngx_http_upstream_get_round_robin_peer.simps) simp
  show "\<exists>pc''. ngx_http_upstream_get_round_robin_peer now us rrp pc = Some (rc, us', rrp'', pc'') \<and> pc_sockaddr pc'' = pc_sockaddr pc'"
    if s: "select_peer now (current_group us rrp) rrp = Some (None, current_group us rrp, rrp)" "Suc (rrp_peers rrp) < length us"
      "ngx_http_upstream_get_round_robin_peer now us (next_group us rrp) (cleared pc) = Some (rc, us', rrp'', pc')"
  proof -
    have "(number (us ! Suc (rrp_peers rrp)) + 63) div 64 \<le> length (tried rrp)" using ok s(2) by (auto simp: rrp_ok_def)
    then show ?thesis
      using s g unfolding next_group_def current_group_def cleared_def Let_def
      by (subst ngx_http_upstream_get_round_robin_peer.simps) (simp add: Let_def)
  qed
next
  fix peers :: rr_peers and tr tr' :: "64 word list" and now k
  assume "\<And>i. i < length (peer_list peers) \<Longrightarrow> tr ! (i div 64) = tr' ! (i div 64)"
  then show "heaviest now tr peers k = heaviest now tr' peers k"
    unfolding heaviest_def using available_cong by metis
qed (use select_none select_some in blast)+

text \<open>The weights of a group add up.\<close>

definition weighed :: "rr_peers \<Rightarrow> bool" where
  "weighed peers \<longleftrightarrow> (\<forall>p \<in> set (peer_list peers). 0 < weight p) \<and>
     int (total_weight peers) = sum_list (map weight (peer_list peers)) \<and> 0 < total_weight peers"

lemma weighed_same: "same_group p p' \<Longrightarrow> weighed p \<Longrightarrow> weighed p'"
proof -
  assume s: "same_group p p'" and w: "weighed p"
  have "weight ` set (peer_list p') = weight ` set (peer_list p)"
    using s by (metis same_group_def set_map)
  then have "(\<forall>q \<in> set (peer_list p'). 0 < weight q) \<longleftrightarrow> (\<forall>q \<in> set (peer_list p). 0 < weight q)"
    by (metis (no_types, lifting) imageE image_eqI)
  then show ?thesis using s w by (simp add: weighed_def same_group_def)
qed

section \<open>The configured groups\<close>

lemma count_servers_eq:
  "count_servers b ss (n, w, t) = (n + length (fill_peers b ss), w + nat (sum_list (map weight (fill_peers b ss))),
     t + length (filter (\<lambda>p. \<not> down p) (fill_peers b ss)))"
proof (induction ss arbitrary: n w t)
  case (Cons s ss)
  have f: "filter (\<lambda>p. \<not> down p) (map (new_peer s) as) = (if srv_down s then [] else map (new_peer s) as)" for as
    by (induction as) (auto simp: new_peer_def)
  have w: "sum_list (map weight (map (new_peer s) as)) = int (length as * srv_weight s)" for as
    by (induction as) (auto simp: new_peer_def algebra_simps)
  have "0 \<le> sum_list (map weight (fill_peers b ss))"
    by (rule sum_list_nonneg) (induction ss, auto simp: new_peer_def split: if_splits)
  then show ?case using Cons.IH f[of "addrs s"] w[of "addrs s"] by (auto simp: nat_add_distrib nat_mult_distrib)
qed simp

text \<open>A configuration as \<open>ngx_http_upstream_init_round_robin\<close> makes it.\<close>

definition configured :: "rr_peers list \<Rightarrow> bool" where
  "configured us \<longleftrightarrow> us \<noteq> [] \<and> length us \<le> 2 \<and> (\<forall>g < length us. single (us ! g) \<longrightarrow> Suc g = length us) \<and>
     (\<forall>g \<in> set us. number g = length (peer_list g) \<and> peer_list g \<noteq> [] \<and>
        total_weight g = nat (sum_list (map weight (peer_list g))))"

lemma init_configured:
  assumes "ngx_http_upstream_init_round_robin rh host port (Some ss) = (NGX_OK, us)"
  shows "configured us" "peer_list (hd us) = fill_peers False ss"
    "\<not> single (hd us) \<Longrightarrow> \<forall>g \<in> set us. \<not> single g" "2 \<le> number (hd us) \<Longrightarrow> \<not> single (hd us)"
    "\<forall>g \<in> set us. peer_list g = fill_peers False ss \<or> peer_list g = fill_peers True ss"
  using assms
  by (auto simp: configured_def ngx_http_upstream_init_round_robin_def count_servers_eq Let_def nth_Cons' split: if_splits)

lemma fill_weight: "p \<in> set (fill_peers b ss) \<Longrightarrow> \<exists>s \<in> set ss. weight p = int (srv_weight s)"
  by (induction ss) (auto simp: new_peer_def split: if_splits)

lemma configured_weighed:
  assumes "ngx_http_upstream_init_round_robin rh host port (Some ss) = (NGX_OK, us)" "\<forall>s \<in> set ss. 0 < srv_weight s" "g \<in> set us"
  shows "weighed g"
proof -
  have c: "peer_list g \<noteq> []" "total_weight g = nat (sum_list (map weight (peer_list g)))"
    using init_configured(1)[OF assms(1)] assms(3) by (auto simp: configured_def)
  obtain b where "peer_list g = fill_peers b ss" using init_configured(5)[OF assms(1)] assms(3) by blast
  then have p: "\<forall>p \<in> set (peer_list g). 0 < weight p" using fill_weight assms(2) by fastforce
  then have "0 < sum_list (map weight (peer_list g))" using c(1) by (intro sum_list_pos) auto
  then show ?thesis using p c(2) by (simp add: weighed_def)
qed

lemma configured_same:
  assumes s: "same_groups us us'" and c: "configured us"
  shows "configured us'" "\<forall>g \<in> set us. \<not> single g \<Longrightarrow> \<forall>g \<in> set us'. \<not> single g" "\<forall>g \<in> set us. weighed g \<Longrightarrow> \<forall>g \<in> set us'. weighed g"
proof -
  have l: "length us' = length us" using same_groups_length[OF s] .
  have e: "same_group (us ! g) (us' ! g)" if "g < length us" for g using same_groups_nth[OF s that] .
  have f: "number (us' ! g) = number (us ! g)" "single (us' ! g) = single (us ! g)" "total_weight (us' ! g) = total_weight (us ! g)"
    "map weight (peer_list (us' ! g)) = map weight (peer_list (us ! g))"
    "length (peer_list (us' ! g)) = length (peer_list (us ! g))" "peer_list (us' ! g) = [] \<longleftrightarrow> peer_list (us ! g) = []"
    if "g < length us" for g
    using e[OF that] same_group_length[OF e[OF that]] by (auto simp: same_group_def)
  have "us' \<noteq> [] \<longleftrightarrow> us \<noteq> []" using l by auto
  then show "configured us'" using c unfolding configured_def all_set_conv_all_nth l by (simp add: f)
  show "\<forall>g \<in> set us'. \<not> single g" if "\<forall>g \<in> set us. \<not> single g"
    using that unfolding all_set_conv_all_nth l by (simp add: f)
  show "\<forall>g \<in> set us'. weighed g" if "\<forall>g \<in> set us. weighed g"
    using that e weighed_same unfolding all_set_conv_all_nth l by blast
qed

lemma init_peer_ok:
  assumes i: "ngx_http_upstream_init_round_robin_peer us = Some (rrp, n)" and c: "configured us"
  shows "rrp_ok us rrp" "rrp_peers rrp = 0" "tried rrp = replicate (length (tried rrp)) 0"
proof -
  obtain p ps where us: "us = p # ps" using i by (cases us) (auto simp: ngx_http_upstream_init_round_robin_peer_def)
  define N where "N = (case ps of [] \<Rightarrow> number p | q # _ \<Rightarrow> if number q > number p then number q else number p)"
  have r: "rrp_peers rrp = 0" "tried rrp = (if N \<le> 64 then [0] else replicate ((N + 63) div 64) 0)"
    using i unfolding us ngx_http_upstream_init_round_robin_peer_def N_def by (auto simp: Let_def split: list.splits)
  then show "rrp_peers rrp = 0" "tried rrp = replicate (length (tried rrp)) 0" by auto
  have "N \<le> 64 * ((N + 63) div 64)" by presburger
  then have "N \<le> 64 * length (tried rrp)" unfolding r(2) by simp
  moreover have "\<forall>g \<in> set us. number g \<le> N" using c unfolding configured_def us N_def by (cases ps) auto
  ultimately have "\<forall>g \<in> set us. number g \<le> 64 * length (tried rrp)" by force
  then show "rrp_ok us rrp"
    using c r(1) unfolding rrp_ok_def configured_def by (simp add: all_set_conv_all_nth)
qed

section \<open>The choice\<close>

text \<open>
  C13. \<open>ngx_http_upstream_get_round_robin_peer\<close> never reads the bitmap of tried peers out of its bounds, and it hands
  out the peer it should: if a group from the current one on has an available peer (not yet tried, not down, below its
  limits of failures and connections), the request gets a peer of the first such group, there one of the greatest current
  weight after the round, with its address in the connection and its count of connections raised; if there is none,
  the request is refused with NGX_BUSY.
\<close>

theorem rr_choice:
  assumes "rrp_ok us rrp"
  shows "\<exists>rc us' rrp' pc'. ngx_http_upstream_get_round_robin_peer now us rrp pc = Some (rc, us', rrp', pc') \<and>
    first_choice (rrp_peers rrp) (\<lambda>g. available now (bitmap rrp g) (us ! g)) (\<lambda>g. heaviest now (bitmap rrp g) (us ! g)) us rc us' rrp' pc'"
  by (rule rr.choice[OF assms])

section \<open>An example\<close>

text \<open>Two servers of weights 2 and 1 and a backup.\<close>

definition demo_servers :: "ngx_http_upstream_server list" where
  "demo_servers = [
     \<lparr>srv_name = bytes ''a'', addrs = [([1], bytes ''a'')], srv_weight = 2, srv_max_conns = 0, srv_max_fails = 1,
      srv_fail_timeout = 10, srv_down = False, backup = False, srv_host = []\<rparr>,
     \<lparr>srv_name = bytes ''b'', addrs = [([2], bytes ''b'')], srv_weight = 1, srv_max_conns = 0, srv_max_fails = 1,
      srv_fail_timeout = 10, srv_down = False, backup = False, srv_host = []\<rparr>,
     \<lparr>srv_name = bytes ''c'', addrs = [([3], bytes ''c'')], srv_weight = 1, srv_max_conns = 0, srv_max_fails = 1,
      srv_fail_timeout = 10, srv_down = False, backup = True, srv_host = []\<rparr>]"

definition demo_upstream :: "rr_peers list" where
  "demo_upstream = snd (ngx_http_upstream_init_round_robin (\<lambda>_ _. None) (bytes ''u'') 0 (Some demo_servers))"

abbreviation demo_data :: rr_peer_data where
  "demo_data \<equiv> \<lparr>rrp_peers = 0, rrp_current = None, tried = [0]\<rparr>"

abbreviation demo_pc :: peer_connection where
  "demo_pc \<equiv> \<lparr>pc_connection = None, pc_cached = False, pc_sockaddr = None, pc_name = None, pc_tries = 3\<rparr>"

lemma demo_upstream_init:
  "ngx_http_upstream_init_round_robin (\<lambda>_ _. None) (bytes ''u'') 0 (Some demo_servers) = (NGX_OK, demo_upstream)"
  "length demo_upstream = 2" "number (hd demo_upstream) = 2" "total_weight (hd demo_upstream) = 3"
  "\<not> single (hd demo_upstream)" "map weight (peer_list (hd demo_upstream)) = [2, 1]"
  "\<forall>s \<in> set demo_servers. 0 < srv_weight s"
  by (simp_all add: demo_upstream_def demo_servers_def ngx_http_upstream_init_round_robin_def new_peer_def)

lemma demo_data_init: "ngx_http_upstream_init_round_robin_peer demo_upstream = Some (demo_data, 3)"
  by code_simp

lemma demo_rrp_ok: "rrp_ok demo_upstream demo_data"
  using init_peer_ok(1)[OF demo_data_init] init_configured(1)[OF demo_upstream_init(1)] by blast

theorem rr_choice_witness:
  "\<exists>rc us' rrp' pc'. ngx_http_upstream_get_round_robin_peer 100 demo_upstream demo_data demo_pc = Some (rc, us', rrp', pc') \<and>
    first_choice (rrp_peers demo_data) (\<lambda>g. available 100 (bitmap demo_data g) (demo_upstream ! g))
      (\<lambda>g. heaviest 100 (bitmap demo_data g) (demo_upstream ! g)) demo_upstream rc us' rrp' pc'"
  by (rule rr_choice[OF demo_rrp_ok])

end
