(* ===== verification/Ngx_Upstream_Rr_Fair.thy ===== *)
theory Ngx_Upstream_Rr_Fair
  imports Ngx_Upstream_Rr
begin

text \<open>
  The smooth weighted round robin of \<^verbatim>\<open>src/http/ngx_http_upstream_round_robin.c\<close> over many requests: an
  invariant of the current weights (\<open>balanced_rr\<close>), which every request and every successful end of a request keeps,
  and its consequence after a whole cycle.
\<close>

section \<open>Fairness\<close>

text \<open>
  Events on a running server: a request that gets a peer with a fresh bitmap, and the end without
  failure of a request on a peer of the first group.
\<close>

datatype rr_event = Request int | Finish int nat

definition rr_request :: "int \<Rightarrow> rr_peers list \<Rightarrow> ((nat \<times> nat) \<times> rr_peers list) option" where
  "rr_request now us = do {
     (rrp, tries) \<leftarrow> ngx_http_upstream_init_round_robin_peer us;
     (rc, us, rrp, pc) \<leftarrow> ngx_http_upstream_get_round_robin_peer now us rrp \<lparr>pc_connection = None, pc_cached = False, pc_sockaddr = None, pc_name = None, pc_tries = tries\<rparr>;
     i \<leftarrow> rrp_current rrp;
     if rc = NGX_OK then Some ((rrp_peers rrp, i), us) else None }"

definition rr_finish :: "int \<Rightarrow> nat \<Rightarrow> rr_peers list \<Rightarrow> rr_peers list option" where
  "rr_finish now i us = map_option fst
     (ngx_http_upstream_free_round_robin_peer now 0 us \<lparr>rrp_peers = 0, rrp_current = Some i, tried = [0]\<rparr>
        \<lparr>pc_connection = None, pc_cached = False, pc_sockaddr = None, pc_name = None, pc_tries = 1\<rparr>)"

fun rr_run :: "rr_event list \<Rightarrow> rr_peers list \<Rightarrow> ((nat \<times> nat) list \<times> rr_peers list) option" where
  "rr_run [] us = Some ([], us)"
| "rr_run (Request now # es) us = do {
     (c, us) \<leftarrow> rr_request now us; (cs, us) \<leftarrow> rr_run es us; Some (c # cs, us) }"
| "rr_run (Finish now i # es) us = do { us \<leftarrow> rr_finish now i us; rr_run es us }"

text \<open>
  Every peer of the first group is usable, and after \<open>cs\<close> its current weight is what the rounds have
  added minus what its selections have taken away. Weights are above minus the sum of all weights.
\<close>

definition usable :: "rr_peer \<Rightarrow> bool" where
  "usable p \<longleftrightarrow> \<not> down p \<and> fails p = 0 \<and> max_conns p = 0 \<and> effective_weight p = weight p \<and> 0 < weight p"

definition balanced_rr :: "int list \<Rightarrow> nat list \<Rightarrow> rr_peers list \<Rightarrow> bool" where
  "balanced_rr ws cs us \<longleftrightarrow> (\<exists>g r. us = g # r \<and> \<not> single g \<and> number g = length (peer_list g) \<and> map weight (peer_list g) = ws \<and>
     ws \<noteq> [] \<and> (\<forall>p \<in> set (peer_list g). usable p) \<and> sum_list (map current_weight (peer_list g)) = 0 \<and>
     (\<forall>i < length ws. current_weight (peer_list g ! i) = int (length cs) * ws ! i - sum_list ws * int (count_list cs i) \<and>
        - sum_list ws < current_weight (peer_list g ! i)))"

lemma ngx_bit_0: "(0 :: 64 word) AND ngx_bit i = 0"
  by simp

lemma fresh_bitmap:
  assumes "ngx_http_upstream_init_round_robin_peer (g # r) = Some (rrp, n)"
  shows "number g \<le> 64 * length (tried rrp)" "\<forall>i < 64 * length (tried rrp). tried rrp ! (i div 64) = 0"
    "rrp_peers rrp = 0"
  using assms by (auto simp: ngx_http_upstream_init_round_robin_peer_def Let_def split: list.splits if_splits)

lemma eligible_usable: "tr ! (i div 64) = 0 \<Longrightarrow> usable p \<Longrightarrow> eligible now tr i p"
  by (auto simp: eligible_def usable_def)


lemma raise_usable: "usable p \<Longrightarrow> raise p = p\<lparr>current_weight := current_weight p + weight p\<rparr>"
  by (simp add: usable_def raise_def)

lemma sum_list_change:
  fixes xs :: "int list"
  shows "k < length xs \<Longrightarrow> sum_list (xs[k := y]) = sum_list xs - xs ! k + y"
  by (induction xs arbitrary: k) (auto split: nat.split)

lemma some_positive:
  fixes xs :: "int list"
  assumes "0 < sum_list xs" shows "\<exists>i < length xs. 0 < xs ! i"
proof (rule ccontr)
  assume "\<not> ?thesis"
  then have "\<forall>x \<in> set xs. x \<le> 0" by (metis in_set_conv_nth linorder_not_less)
  then have "sum_list xs \<le> 0" using sum_list_nonpos[of xs] by blast
  then show False using assms by simp
qed

lemma eligible_weight_all:
  "(\<forall>m < length ps. eligible now tr (i + m) (ps ! m)) \<Longrightarrow> eligible_weight now tr i ps = sum_list (map effective_weight ps)"
proof (induction ps arbitrary: i)
  case (Cons p ps)
  then have "eligible now tr i p" "\<forall>m < length ps. eligible now tr (Suc i + m) (ps ! m)" by (force, force)
  then show ?case using Cons.IH[of "Suc i"] by (simp add: eligible_weight_def)
qed (simp add: eligible_weight_def)

lemma request_round:
  assumes b: "balanced_rr ws cs us"
  shows "\<exists>k us'. rr_request now us = Some ((0, k), us') \<and> k < length ws \<and> balanced_rr ws (cs @ [k]) us'"
proof -
  obtain g r where us: "us = g # r" and sg: "\<not> single g" and n: "number g = length (peer_list g)" and ws: "map weight (peer_list g) = ws" "ws \<noteq> []"
    and u: "\<forall>p \<in> set (peer_list g). usable p" and z: "sum_list (map current_weight (peer_list g)) = 0"
    and cw': "\<forall>i < length ws. current_weight (peer_list g ! i) = int (length cs) * ws ! i - sum_list ws * int (count_list cs i) \<and>
      - sum_list ws < current_weight (peer_list g ! i)"
    using b unfolding balanced_rr_def by blast
  then have cw: "current_weight (peer_list g ! i) = int (length cs) * ws ! i - sum_list ws * int (count_list cs i)"
      "- sum_list ws < current_weight (peer_list g ! i)" if "i < length ws" for i using that by auto
  define ps where "ps = peer_list g"
  have l: "length ps = length ws" using ws(1) by (auto simp: ps_def)
  have us': "usable (ps ! i)" "weight (ps ! i) = ws ! i" if "i < length ps" for i
    using u that ws(1) by (auto simp: ps_def)
  have W: "0 < sum_list ws" using ws u by (intro sum_list_pos) (auto simp: usable_def)
  obtain rrp tries where rrp: "ngx_http_upstream_init_round_robin_peer us = Some (rrp, tries)"
    by (auto simp: ngx_http_upstream_init_round_robin_peer_def Let_def us split: list.splits)
  note fb = fresh_bitmap[OF rrp[unfolded us]]
  have e: "eligible now (tried rrp) m (ps ! m)" if "m < length ps" for m
    using that fb(1,2) n us'(1)[OF that] by (intro eligible_usable) (auto simp: ps_def)
  have ra: "raise_all now (tried rrp) 0 ps = map raise ps" using e by (intro nth_equalityI) auto
  have ew: "eligible_weight now (tried rrp) 0 ps = sum_list ws"
  proof -
    have "map effective_weight ps = ws"
      unfolding ws(1)[symmetric] ps_def using u by (auto simp: usable_def)
    then show ?thesis using eligible_weight_all[of ps now "tried rrp" 0] e by simp
  qed
  have "0 < length ps" using ws(2) l by simp
  obtain k where k: "k < length ps" "\<forall>j < length ps. current_weight (raise (ps ! j)) \<le> current_weight (raise (ps ! k))"
    "ngx_http_upstream_get_peer now ps rrp = Some (Some k, (map raise ps)[k := charge now (sum_list ws) (raise (ps ! k))],
        rrp\<lparr>rrp_current := Some k, tried := (tried rrp)[k div 64 := (tried rrp ! (k div 64)) OR ngx_bit k]\<rparr>)"
    using get_peer_some[of ps rrp 0 now] e[OF \<open>0 < length ps\<close>] \<open>0 < length ps\<close> fb(1) n e unfolding ra ew
    by (auto simp: ps_def)
  define q where "q = (let p = charge now (sum_list ws) (raise (ps ! k)) in p\<lparr>conns := conns p + 1\<rparr>)"
  define g' where "g' = g\<lparr>peer_list := (map raise ps)[k := q]\<rparr>"
  have req: "rr_request now us = Some ((0, k), g' # r)"
    using rrp k(1,3) fb(3) sg
    by (simp add: rr_request_def ngx_http_upstream_get_round_robin_peer.simps[of now "g # r"] us select_peer_def ps_def[symmetric] g'_def q_def Let_def)
  have rs: "raise (ps ! i) = (ps ! i)\<lparr>current_weight := current_weight (ps ! i) + ws ! i\<rparr>" if "i < length ps" for i
    using raise_usable us'[OF that] by simp
  have q: "usable q" "weight q = ws ! k" "current_weight q = current_weight (ps ! k) + ws ! k - sum_list ws"
    using us'[OF k(1)] rs[OF k(1)] by (auto simp: q_def charge_def Let_def usable_def)
  have up: "usable (raise p)" "weight (raise p) = weight p" if "p \<in> set ps" for p
    using u that raise_usable[of p] by (auto simp: ps_def usable_def)
  have s: "sum_list (map current_weight (map raise ps)) = sum_list ws"
  proof -
    have "map current_weight (map raise ps) = map (\<lambda>p. current_weight p + weight p) ps"
      using u raise_usable by (auto simp: ps_def)
    then have "sum_list (map current_weight (map raise ps)) = sum_list (map current_weight ps) + sum_list (map weight ps)"
      by (simp only: sum_list_addf)
    then show ?thesis using z ws(1) by (simp add: ps_def)
  qed
  obtain j where j: "j < length ps" "0 < current_weight (raise (ps ! j))"
    using some_positive[of "map current_weight (map raise ps)"] s W by auto
  then have pos: "0 < current_weight (raise (ps ! k))" using k(2) by force
  have "balanced_rr ws (cs @ [k]) (g' # r)"
    unfolding balanced_rr_def
  proof (intro exI[of _ g'] exI[of _ r] conjI refl ballI allI impI)
    show "\<not> single g'" "number g' = length (peer_list g')" "ws \<noteq> []" using sg n ws(2) by (simp_all add: g'_def ps_def)
    show "map weight (peer_list g') = ws"
    proof (rule nth_equalityI)
      show "length (map weight (peer_list g')) = length ws" using l by (simp add: g'_def)
      fix i assume "i < length (map weight (peer_list g'))"
      then have "i < length ps" by (simp add: g'_def)
      then show "map weight (peer_list g') ! i = ws ! i"
        using q(2) up(2)[of "ps ! i"] us'(2)[of i] k(1) by (cases "i = k") (auto simp: g'_def)
    qed
    show "usable p" if "p \<in> set (peer_list g')" for p
      using that set_update_subset_insert[of "map raise ps" k q] q(1) up(1) by (auto simp: g'_def)
    show "sum_list (map current_weight (peer_list g')) = 0"
      using s k(1) rs[OF k(1)] q(3) by (simp add: g'_def map_update sum_list_change)
    fix i assume i: "i < length ws"
    show "current_weight (peer_list g' ! i) = int (length (cs @ [k])) * ws ! i - sum_list ws * int (count_list (cs @ [k]) i)"
      using cw(1)[OF i] i l rs[of i] q(3) k(1) unfolding ps_def[symmetric]
      by (cases "i = k") (auto simp: g'_def algebra_simps)
    show "- sum_list ws < current_weight (peer_list g' ! i)"
    proof (cases "i = k")
      case True
      then show ?thesis using q(3) pos rs[OF k(1)] i l k(1) by (simp add: g'_def)
    next
      case False
      have "0 < ws ! i" using us'[of i] i l by (simp add: usable_def)
      then show ?thesis using False cw(2)[OF i] rs[of i] i l by (simp add: g'_def ps_def[symmetric])
    qed
  qed
  then show ?thesis using req k(1) l by auto
qed

lemma finish_round:
  assumes b: "balanced_rr ws cs us" and i: "i < length ws"
  shows "\<exists>us'. rr_finish now i us = Some us' \<and> balanced_rr ws cs us'"
proof -
  obtain g r where us: "us = g # r" and sg: "\<not> single g" and n: "number g = length (peer_list g)" and ws: "map weight (peer_list g) = ws" "ws \<noteq> []"
    and u: "\<forall>p \<in> set (peer_list g). usable p" and z: "sum_list (map current_weight (peer_list g)) = 0"
    and cw: "\<forall>i < length ws. current_weight (peer_list g ! i) = int (length cs) * ws ! i - sum_list ws * int (count_list cs i) \<and>
      - sum_list ws < current_weight (peer_list g ! i)"
    using b unfolding balanced_rr_def by blast
  have l: "i < length (peer_list g)" using i ws(1) by auto
  define q where "q = (let p = peer_list g ! i; p = (if accessed p < checked p then p\<lparr>fails := 0\<rparr> else p) in ngx_http_upstream_rr_peer_unref (p\<lparr>conns := conns p - 1\<rparr>))"
  have q: "current_weight q = current_weight (peer_list g ! i)" "weight q = weight (peer_list g ! i)" "usable q"
    using u l by (auto simp: q_def Let_def usable_def ngx_http_upstream_rr_peer_unref_def)
  let ?g = "g\<lparr>peer_list := (peer_list g)[i := q]\<rparr>"
  have m: "map current_weight (peer_list ?g) = map current_weight (peer_list g)" "map weight (peer_list ?g) = ws"
  proof -
    have "map f (peer_list ?g) = map f (peer_list g)" if "f q = f (peer_list g ! i)" for f :: "rr_peer \<Rightarrow> int"
      using that l by (simp add: map_update) (metis list_update_id nth_map)
    then show "map current_weight (peer_list ?g) = map current_weight (peer_list g)" "map weight (peer_list ?g) = ws"
      using q(1,2) ws(1) by simp_all
  qed
  have "rr_finish now i us = Some (?g # r)"
    using l sg by (simp add: rr_finish_def ngx_http_upstream_free_round_robin_peer_def us q_def Let_def NGX_PEER_FAILED_def)
  moreover have "balanced_rr ws cs (?g # r)"
    unfolding balanced_rr_def
  proof (intro exI[of _ ?g] exI[of _ r] conjI refl ballI)
    show "usable p" if "p \<in> set (peer_list ?g)" for p
      using that set_update_subset_insert[of "peer_list g" i q] q(3) u by auto
    have "current_weight (peer_list ?g ! j) = current_weight (peer_list g ! j)" if "j < length ws" for j
      using q(1) l by (cases "j = i") auto
    then show "\<forall>j < length ws. current_weight (peer_list ?g ! j) = int (length cs) * ws ! j - sum_list ws * int (count_list cs j) \<and>
      - sum_list ws < current_weight (peer_list ?g ! j)"
      using cw by (metis (no_types, lifting))
    show "sum_list (map current_weight (peer_list ?g)) = 0" "map weight (peer_list ?g) = ws" unfolding m using z by simp_all
  qed (use sg n ws in simp_all)
  ultimately show ?thesis by blast
qed


lemma run_rounds:
  assumes "balanced_rr ws cs us" "\<forall>e \<in> set es. case e of Request now \<Rightarrow> True | Finish now i \<Rightarrow> i < length ws"
  shows "\<exists>ks us'. rr_run es us = Some (map (Pair 0) ks, us') \<and> set ks \<subseteq> {..<length ws} \<and>
    length ks = length (filter (\<lambda>e. \<exists>now. e = Request now) es) \<and> balanced_rr ws (cs @ ks) us'"
  using assms
proof (induction es arbitrary: cs us)
  case Nil
  then show ?case by (intro exI[of _ "[]"] exI[of _ us]) auto
next
  case (Cons e es)
  show ?case
  proof (cases e)
    case (Request now)
    obtain k us1 where 1: "rr_request now us = Some ((0, k), us1)" "k < length ws" "balanced_rr ws (cs @ [k]) us1"
      using request_round[OF Cons.prems(1)] by blast
    obtain ks us2 where 2: "rr_run es us1 = Some (map (Pair 0) ks, us2)" "set ks \<subseteq> {..<length ws}"
      "length ks = length (filter (\<lambda>e. \<exists>now. e = Request now) es)" "balanced_rr ws ((cs @ [k]) @ ks) us2"
      using Cons.IH[OF 1(3)] Cons.prems(2) by auto
    then show ?thesis using Request 1 by (intro exI[of _ "k # ks"] exI[of _ us2]) auto
  next
    case (Finish now i)
    obtain us1 where 1: "rr_finish now i us = Some us1" "balanced_rr ws cs us1"
      using finish_round[OF Cons.prems(1), of i now] Cons.prems(2) Finish by auto
    then show ?thesis using Cons.IH[OF 1(2)] Cons.prems(2) Finish by auto
  qed
qed

lemma balanced_cycle:
  assumes b: "balanced_rr ws cs us" and l: "int (length cs) = sum_list ws"
  shows "\<forall>i < length ws. int (count_list cs i) = ws ! i" "\<forall>p \<in> set (peer_list (hd us)). current_weight p = 0"
proof -
  let ?W = "sum_list ws"
  obtain g r where us: "us = g # r" and ws: "map weight (peer_list g) = ws" "ws \<noteq> []" and u: "\<forall>p \<in> set (peer_list g). usable p"
    and z: "sum_list (map current_weight (peer_list g)) = 0"
    and cw: "\<forall>i < length ws. current_weight (peer_list g ! i) = int (length cs) * ws ! i - ?W * int (count_list cs i) \<and>
      - ?W < current_weight (peer_list g ! i)"
    using b unfolding balanced_rr_def by blast
  have W: "0 < ?W" using ws u by (intro sum_list_pos) (auto simp: usable_def)
  have len: "length (peer_list g) = length ws" using ws(1) by auto
  have c: "current_weight (peer_list g ! i) = ?W * (ws ! i - int (count_list cs i))" if "i < length ws" for i
    using cw that l by (simp add: algebra_simps)
  have le: "0 \<le> current_weight (peer_list g ! i)" if "i < length ws" for i
  proof -
    have "?W * (- 1) < ?W * (ws ! i - int (count_list cs i))" using cw that c[OF that] by (metis mult_minus1_right)
    then have "- 1 < ws ! i - int (count_list cs i)" using W by (simp only: mult_less_cancel_left_pos)
    then show ?thesis using c[OF that] W by simp
  qed
  have "\<forall>x \<in> set (map current_weight (peer_list g)). 0 \<le> x" using le len by (auto simp: in_set_conv_nth)
  then have "\<forall>x \<in> set (map current_weight (peer_list g)). x = 0" using z sum_list_nonneg_eq_0_iff by blast
  then have 0: "current_weight p = 0" if "p \<in> set (peer_list g)" for p using that by simp
  then show "\<forall>p \<in> set (peer_list (hd us)). current_weight p = 0" using us by simp
  show "\<forall>i < length ws. int (count_list cs i) = ws ! i" using 0 c W len by auto
qed

lemma fill_usable:
  assumes "\<forall>s \<in> set ss. backup s \<or> (\<not> srv_down s \<and> 0 < srv_weight s \<and> srv_max_conns s = 0)" "p \<in> set (fill_peers False ss)"
  shows "usable p" "current_weight p = 0"
  using assms by (induction ss) (auto simp: new_peer_def usable_def split: if_splits)

lemma init_balanced:
  assumes i: "ngx_http_upstream_init_round_robin rh host port (Some ss) = (NGX_OK, us)" "\<not> single (hd us)"
    and s: "\<forall>s \<in> set ss. backup s \<or> (\<not> srv_down s \<and> 0 < srv_weight s \<and> srv_max_conns s = 0)"
  shows "balanced_rr (map weight (peer_list (hd us))) [] us"
proof -
  note c = init_configured[OF i(1)]
  obtain g r where us: "us = g # r" using c(1) by (cases us) (auto simp: configured_def)
  have n: "number g = length (peer_list g)" "peer_list g \<noteq> []" using c(1) us by (auto simp: configured_def)
  have u: "usable p" "current_weight p = 0" if "p \<in> set (peer_list g)" for p
    using fill_usable[OF s, of p] c(2) that us by auto
  have W: "0 < sum_list (map weight (peer_list g))"
    using n(2) u(1) by (intro sum_list_pos) (auto simp: usable_def)
  have z: "map current_weight (peer_list g) = map (\<lambda>_. 0) (peer_list g)" using u(2) by simp
  have "sum_list (map current_weight (peer_list g)) = 0" unfolding z by simp
  then show ?thesis using us i(2) n u W unfolding balanced_rr_def
    by (intro exI[of _ g] exI[of _ r]) auto
qed

lemma sum_list_lower:
  fixes f :: "'a \<Rightarrow> int"
  shows "(\<And>x. x \<in> set xs \<Longrightarrow> a \<le> f x) \<Longrightarrow> a * int (length xs) \<le> sum_list (map f xs)"
  by (induction xs) (fastforce simp: algebra_simps)+

lemma balanced_bounds:
  assumes b: "balanced_rr ws cs us" and p: "p \<in> set (peer_list (hd us))"
  shows "- sum_list ws < current_weight p" "current_weight p < int (length ws) * sum_list ws"
proof -
  let ?W = "sum_list ws"
  obtain g r where us: "us = g # r" and ws: "map weight (peer_list g) = ws" "ws \<noteq> []" and u: "\<forall>p \<in> set (peer_list g). usable p"
    and z: "sum_list (map current_weight (peer_list g)) = 0"
    and cw: "\<forall>i < length ws. current_weight (peer_list g ! i) = int (length cs) * ws ! i - ?W * int (count_list cs i) \<and>
      - ?W < current_weight (peer_list g ! i)"
    using b unfolding balanced_rr_def by blast
  have len: "length (peer_list g) = length ws" using ws(1) by auto
  have W: "0 < ?W" using ws u by (intro sum_list_pos) (auto simp: usable_def)
  have lo: "- ?W < current_weight q" if "q \<in> set (peer_list g)" for q
    using that cw len by (auto simp: in_set_conv_nth)
  then show "- ?W < current_weight p" using p us by simp
  obtain xs ys where sp: "peer_list g = xs @ p # ys" using p us by (auto simp: in_set_conv_decomp)
  have "(- ?W) * int (length (xs @ ys)) \<le> sum_list (map current_weight (xs @ ys))"
    using lo unfolding sp by (intro sum_list_lower less_imp_le) auto
  then have "current_weight p \<le> ?W * int (length (xs @ ys))" using z sp by simp
  also have "\<dots> < ?W * int (length ws)" using len W unfolding sp by (intro mult_strict_left_mono) simp_all
  finally show "current_weight p < int (length ws) * ?W" by (simp only: mult.commute)
qed

text \<open>
  C9. Smooth weighted round robin is fair and its weights stay small. Let a fresh configuration with a server list
  have a first group of several peers, and let every server that is not a backup be up, with a positive weight and
  without max_conns. Over any sequence of requests (each with a fresh bitmap) and successful ends of requests on peers of
  the first group, every request gets a peer of the first group, and every current weight stays above minus the sum W of the
  weights and below number * W. When the sequence has exactly W requests, each peer of the first group has been chosen
  exactly as often as its weight says, and all current weights are 0 again.
\<close>

theorem rr_fair:
  assumes "ngx_http_upstream_init_round_robin rh host port (Some ss) = (NGX_OK, us)" "\<not> single (hd us)"
    and "\<forall>s \<in> set ss. backup s \<or> (\<not> srv_down s \<and> 0 < srv_weight s \<and> srv_max_conns s = 0)"
    and "\<forall>e \<in> set es. case e of Request now \<Rightarrow> True | Finish now i \<Rightarrow> i < number (hd us)"
  shows "\<exists>ks us'. rr_run es us = Some (map (Pair 0) ks, us') \<and>
    length ks = length (filter (\<lambda>e. \<exists>now. e = Request now) es) \<and> set ks \<subseteq> {..<number (hd us)} \<and>
    (\<forall>p \<in> set (peer_list (hd us')). - int (total_weight (hd us)) < current_weight p \<and>
       current_weight p < int (number (hd us) * total_weight (hd us))) \<and>
    (length ks = total_weight (hd us) \<longrightarrow>
       (\<forall>i < number (hd us). int (count_list ks i) = weight (peer_list (hd us) ! i)) \<and>
       (\<forall>p \<in> set (peer_list (hd us')). current_weight p = 0))"
proof -
  let ?ws = "map weight (peer_list (hd us))"
  note c = init_configured[OF assms(1)]
  have n: "number (hd us) = length ?ws" "total_weight (hd us) = nat (sum_list ?ws)"
    using c(1) by (auto simp: configured_def)
  have "0 \<le> sum_list ?ws"
    using fill_usable[OF assms(3)] c(2) by (intro sum_list_nonneg) (auto simp: usable_def less_imp_le)
  then have W: "int (total_weight (hd us)) = sum_list ?ws" using n(2) by simp
  obtain ks us' where r: "rr_run es us = Some (map (Pair 0) ks, us')" "set ks \<subseteq> {..<length ?ws}"
    "length ks = length (filter (\<lambda>e. \<exists>now. e = Request now) es)" "balanced_rr ?ws ks us'"
    using run_rounds[OF init_balanced[OF assms(1-3)], of es] assms(4) unfolding n(1) by auto
  have cycle: "(\<forall>i < number (hd us). int (count_list ks i) = weight (peer_list (hd us) ! i)) \<and>
      (\<forall>p \<in> set (peer_list (hd us')). current_weight p = 0)" if "length ks = total_weight (hd us)"
    using balanced_cycle[OF r(4)] that W n(1) by simp
  show ?thesis using r(1-3) balanced_bounds[OF r(4)] cycle by (intro exI[of _ ks] exI[of _ us']) (simp add: n(1) W[symmetric])
qed

theorem rr_fair_witness:
  "\<exists>ks us'. rr_run [Request 100, Finish 100 0, Request 100, Request 101] demo_upstream = Some (map (Pair 0) ks, us') \<and>
    length ks = total_weight (hd demo_upstream) \<and> set ks \<subseteq> {..<number (hd demo_upstream)} \<and>
    (\<forall>i < number (hd demo_upstream). int (count_list ks i) = weight (peer_list (hd demo_upstream) ! i)) \<and>
    (\<forall>p \<in> set (peer_list (hd us')). current_weight p = 0)"
proof -
  let ?es = "[Request 100, Finish 100 0, Request 100, Request 101]"
  have "\<forall>s \<in> set demo_servers. backup s \<or> (\<not> srv_down s \<and> 0 < srv_weight s \<and> srv_max_conns s = 0)"
    by (simp add: demo_servers_def)
  moreover have "\<forall>e \<in> set ?es. case e of Request now \<Rightarrow> True | Finish now i \<Rightarrow> i < number (hd demo_upstream)"
    by (simp add: demo_upstream_init)
  ultimately obtain ks us' where "rr_run ?es demo_upstream = Some (map (Pair 0) ks, us')" "length ks = 3"
    "set ks \<subseteq> {..<number (hd demo_upstream)}"
    "length ks = total_weight (hd demo_upstream) \<longrightarrow>
       (\<forall>i < number (hd demo_upstream). int (count_list ks i) = weight (peer_list (hd demo_upstream) ! i)) \<and>
       (\<forall>p \<in> set (peer_list (hd us')). current_weight p = 0)"
    using rr_fair[OF demo_upstream_init(1,5), of ?es] by auto
  then show ?thesis using demo_upstream_init(4) by (intro exI[of _ ks] exI[of _ us']) simp
qed

lemma demo_choices:
  "map_option fst (rr_run [Request 100, Request 100, Finish 101 0, Request 101, Request 102] demo_upstream) =
     Some [(0, 0), (0, 1), (0, 0), (0, 0)]"
  by code_simp

end
