(* ===== verification/Ngx_Upstream_Least_Conn.thy ===== *)
theory Ngx_Upstream_Least_Conn
  imports Ngx_Upstream_Rr Complex_Main
begin

text \<open>
  The balancer of \<^verbatim>\<open>src/http/modules/ngx_http_upstream_least_conn_module.c\<close>: of the available peers the one with
  the fewest connections for its weight, compared by 64-bit products, with round robin among equals.
\<close>

section \<open>The function\<close>

definition skipped :: "int \<Rightarrow> rr_peer \<Rightarrow> bool" where
  "skipped now p \<longleftrightarrow>
     (max_fails p \<noteq> 0 \<and> max_fails p \<le> fails p \<and> now - checked p \<le> fail_timeout p)
     \<or> (max_conns p \<noteq> 0 \<and> max_conns p \<le> conns p)"

text \<open>The two sides of the comparison of connections per weight, as unsigned products.\<close>

definition load :: "rr_peer \<Rightarrow> rr_peer \<Rightarrow> 64 word" where
  "load p q = conns p * word_of_int (weight q)"

text \<open>The first loop: the index of the first best peer, that peer, and \<open>many\<close>.\<close>

fun least_loop :: "int \<Rightarrow> 64 word list \<Rightarrow> nat \<Rightarrow> rr_peer list \<Rightarrow> (nat \<times> rr_peer \<times> bool) option \<Rightarrow> (nat \<times> rr_peer \<times> bool) option option" where
  "least_loop now tr i [] best = Some best"
| "least_loop now tr i (p # ps) best =
     (if length tr \<le> i div 64 then None
      else if tr ! (i div 64) AND ngx_bit i \<noteq> 0 \<or> down p \<or> skipped now p then least_loop now tr (Suc i) ps best
      else
        (case best of
           None \<Rightarrow> least_loop now tr (Suc i) ps (Some (i, p, False))
         | Some (j, b, many) \<Rightarrow>
             if load p b < load b p then least_loop now tr (Suc i) ps (Some (i, p, False))
             else if load p b = load b p then least_loop now tr (Suc i) ps (Some (j, b, True))
             else least_loop now tr (Suc i) ps (Some (j, b, many))))"

text \<open>The second loop, over the peers from index \<open>i\<close> on: round robin among the peers with the load of the best one.\<close>

fun many_loop :: "int \<Rightarrow> 64 word list \<Rightarrow> nat \<Rightarrow> rr_peer list \<Rightarrow> int \<Rightarrow> nat \<times> rr_peer \<Rightarrow> (rr_peer list \<times> int \<times> nat) option" where
  "many_loop now tr i [] tot (j, b) = Some ([], tot, j)"
| "many_loop now tr i (p # ps) tot (j, b) =
     (if length tr \<le> i div 64 then None
      else if tr ! (i div 64) AND ngx_bit i \<noteq> 0 \<or> down p \<or> load p b \<noteq> load b p \<or> skipped now p
      then map_option (\<lambda>(ps, r). (p # ps, r)) (many_loop now tr (Suc i) ps tot (j, b))
      else
        (let q = p\<lparr>current_weight := current_weight p + effective_weight p,
                   effective_weight := (if effective_weight p < weight p then effective_weight p + 1 else effective_weight p)\<rparr>;
             b = (if i = j then q else b) in
         map_option (\<lambda>(ps, r). (q # ps, r))
           (many_loop now tr (Suc i) ps (tot + effective_weight p) (if current_weight b < current_weight q then (i, q) else (j, b)))))"

text \<open>The selection in a group that is not \<open>single\<close>; the count of connections is raised by the caller.\<close>

definition select_least :: selector where
  "select_least now peers rrp = do {
     best \<leftarrow> least_loop now (tried rrp) 0 (peer_list peers) None;
     (case best of
        None \<Rightarrow> Some (None, peers, rrp)
      | Some (p, b, many) \<Rightarrow> do {
          (ps, tot, p) \<leftarrow> (if many then map_option (\<lambda>(ps, r). (take p (peer_list peers) @ ps, r))
                                       (many_loop now (tried rrp) p (drop p (peer_list peers)) 0 (p, b))
                         else Some (peer_list peers, 0, p));
          let q = ps ! p;
          let q = q\<lparr>current_weight := current_weight q - tot, checked := (if now - checked q > fail_timeout q then now else checked q)\<rparr>;
          let q = ngx_http_upstream_rr_peer_ref q;
          Some (Some p, peers\<lparr>peer_list := ps[p := q]\<rparr>,
                rrp\<lparr>rrp_current := Some p, tried := (tried rrp)[p div 64 := (tried rrp ! (p div 64)) OR ngx_bit p]\<rparr>) }) }"

function ngx_http_upstream_get_least_conn_peer :: "rr_peer_data balance" where
  "ngx_http_upstream_get_least_conn_peer now us rrp pc0 =
     (if length us \<le> rrp_peers rrp then None
      else if single (us ! rrp_peers rrp) then ngx_http_upstream_get_round_robin_peer now us rrp pc0
      else
        (let pc = pc0\<lparr>pc_cached := False, pc_connection := None\<rparr> in
         case select_least now (us ! rrp_peers rrp) rrp of
           None \<Rightarrow> None
         | Some (Some i, peers, rrp') \<Rightarrow>
             (let p = peer_list peers ! i in
              Some (NGX_OK, us[rrp_peers rrp := peers\<lparr>peer_list := (peer_list peers)[i := p\<lparr>conns := conns p + 1\<rparr>]\<rparr>], rrp',
                    pc\<lparr>pc_sockaddr := Some (sockaddr p), pc_name := Some (peer_name p)\<rparr>))
         | Some (None, peers, rrp') \<Rightarrow>
             if Suc (rrp_peers rrp) < length us
             then
               (let n = (number (us ! Suc (rrp_peers rrp)) + 63) div 64 in
                if length (tried rrp') < n then None
                else
                  (case ngx_http_upstream_get_least_conn_peer now (us[rrp_peers rrp := peers])
                          \<lparr>rrp_peers = Suc (rrp_peers rrp), rrp_current = rrp_current rrp',
                           tried = replicate n 0 @ drop n (tried rrp')\<rparr> pc of
                     None \<Rightarrow> None
                   | Some (rc, us', rrp'', pc') \<Rightarrow>
                       if rc \<noteq> NGX_BUSY then Some (rc, us', rrp'', pc')
                       else Some (NGX_BUSY, us', rrp'', pc'\<lparr>pc_name := Some (peers_name peers)\<rparr>)))
             else Some (NGX_BUSY, us[rrp_peers rrp := peers], rrp', pc\<lparr>pc_name := Some (peers_name peers)\<rparr>)))"
  by pat_completeness auto

termination
  by (relation "measure (\<lambda>(now, us, rrp, pc). length us - rrp_peers rrp)") auto

declare ngx_http_upstream_get_least_conn_peer.simps [simp del]

section \<open>The loops\<close>

lemma eligible_skipped:
  "eligible now tr i p \<longleftrightarrow> \<not> (tr ! (i div 64) AND ngx_bit i \<noteq> 0 \<or> down p \<or> skipped now p)"
  by (auto simp: eligible_def skipped_def)

text \<open>
  What the first loop holds: the best peer is an eligible one, none before it is better; \<open>L p q\<close> is the strict order by
  load.
\<close>

definition least_so_far :: "int \<Rightarrow> 64 word list \<Rightarrow> nat \<Rightarrow> rr_peer list \<Rightarrow> (nat \<times> rr_peer \<times> bool) option \<Rightarrow> bool" where
  "least_so_far now tr n ps best \<longleftrightarrow>
     (case best of
        None \<Rightarrow> \<forall>m < n. \<not> eligible now tr m (ps ! m)
      | Some (j, b, many) \<Rightarrow> j < n \<and> b = ps ! j \<and> eligible now tr j b)"

lemma least_loop_some:
  "least_so_far now tr i ps best \<Longrightarrow> i \<le> length ps \<Longrightarrow> length ps \<le> 64 * length tr \<Longrightarrow>
   \<exists>best'. least_loop now tr i (drop i ps) best = Some best' \<and> least_so_far now tr (length ps) ps best'"
proof (induction "length ps - i" arbitrary: i best)
  case 0
  then show ?case by auto
next
  case (Suc n)
  then have i: "i < length ps" "n = length ps - Suc i" by auto
  have d: "drop i ps = ps ! i # drop (Suc i) ps" using Cons_nth_drop_Suc[OF i(1)] by simp
  have t: "i div 64 < length tr" using i(1) Suc.prems(3) by auto
  note IH = Suc.hyps(1)[OF i(2) _ _ Suc.prems(3)]
  show ?case
  proof (cases "eligible now tr i (ps ! i)")
    case False
    then have "least_so_far now tr (Suc i) ps best"
      using Suc.prems(1) by (auto simp: least_so_far_def less_Suc_eq split: option.splits)
    from IH[OF this] False show ?thesis using i(1) t by (auto simp: d eligible_skipped)
  next
    case True
    have *: "least_so_far now tr (Suc i) ps (Some (i, ps ! i, False))" using True by (simp add: least_so_far_def)
    show ?thesis
    proof (cases best)
      case None
      then show ?thesis using IH[OF *] True i(1) t by (auto simp: d eligible_skipped)
    next
      case (Some y)
      obtain j b many where b: "best = Some (j, b, many)" using Some by (cases y) auto
      have "least_so_far now tr (Suc i) ps (Some (j, b, many'))" for many'
        using Suc.prems(1) b by (auto simp: least_so_far_def)
      from IH[OF *] IH[OF this, of True] IH[OF this, of many] show ?thesis
        using True i(1) t b by (auto simp: d eligible_skipped)
    qed
  qed
qed

section \<open>The load of a peer\<close>

text \<open>Connections per weight, and the configurations in which the products of the comparison do not overflow.\<close>

definition rank :: "rr_peer \<Rightarrow> rat" where
  "rank p = of_int (uint (conns p)) / of_int (weight p)"

definition light :: "rr_peer list \<Rightarrow> bool" where
  "light ps \<longleftrightarrow> (\<forall>p \<in> set ps. 0 < weight p \<and> (\<forall>q \<in> set ps. uint (conns p) * weight q < 2 ^ 64))"

lemma uint_load:
  assumes "0 < weight q" "uint (conns p) * weight q < 2 ^ 64"
  shows "uint (load p q) = uint (conns p) * weight q"
proof -
  have "load p q = word_of_int (uint (conns p) * weight q)" by (simp add: load_def)
  then have "uint (load p q) = take_bit 64 (uint (conns p) * weight q)" by (simp only: unsigned_of_int) simp
  moreover have "0 \<le> uint (conns p) * weight q" using assms(1) by simp
  ultimately show ?thesis using assms(2) take_bit_int_eq_self by metis
qed

lemma load_rank:
  assumes "light ps" "p \<in> set ps" "q \<in> set ps"
  shows "load p q < load q p \<longleftrightarrow> rank p < rank q" "load p q = load q p \<longleftrightarrow> rank p = rank q"
proof -
  have w: "0 < weight p" "0 < weight q" using assms by (auto simp: light_def)
  have u: "uint (load p q) = uint (conns p) * weight q" "uint (load q p) = uint (conns q) * weight p"
    using assms unfolding light_def by (metis uint_load)+
  have l: "rank p < rank q \<longleftrightarrow> uint (conns p) * weight q < uint (conns q) * weight p"
    if "0 < weight p" "0 < weight q" for p q
  proof -
    have "rank p < rank q \<longleftrightarrow> (of_int (uint (conns p) * weight q) :: rat) < of_int (uint (conns q) * weight p)"
      unfolding rank_def using that by (simp add: divide_less_eq less_divide_eq mult.commute)
    then show ?thesis by (simp only: of_int_less_iff)
  qed
  show "load p q < load q p \<longleftrightarrow> rank p < rank q"
    unfolding l[OF w] word_less_def using u by simp
  show "load p q = load q p \<longleftrightarrow> rank p = rank q"
  proof -
    have "load p q = load q p \<longleftrightarrow> uint (load p q) = uint (load q p)" by (simp add: word_uint_eq_iff)
    also have "\<dots> \<longleftrightarrow> \<not> rank p < rank q \<and> \<not> rank q < rank p" unfolding l[OF w] l[OF w(2,1)] using u by linarith
    finally show ?thesis by linarith
  qed
qed

lemma rank_raise [simp]: "rank (raise p) = rank p"
  by (simp add: rank_def raise_def)

lemma light_subset: "light ps \<Longrightarrow> set qs \<subseteq> set ps \<Longrightarrow> light qs"
  by (auto simp: light_def)

lemma light_raise: "light (p # ps) \<Longrightarrow> light (raise p # ps)"
  by (simp add: light_def raise_def)

section \<open>The peer of the least load\<close>

definition least_rank :: "int \<Rightarrow> 64 word list \<Rightarrow> nat \<Rightarrow> rr_peer list \<Rightarrow> (nat \<times> rr_peer \<times> bool) option \<Rightarrow> bool" where
  "least_rank now tr n ps best \<longleftrightarrow>
     (case best of
        None \<Rightarrow> True
      | Some (j, b, many) \<Rightarrow> \<forall>m < n. eligible now tr m (ps ! m) \<longrightarrow>
          rank b \<le> rank (ps ! m) \<and> (m < j \<longrightarrow> rank b < rank (ps ! m)) \<and> (\<not> many \<longrightarrow> m \<noteq> j \<longrightarrow> rank b < rank (ps ! m)))"

lemma least_loop_rank:
  "light ps \<Longrightarrow> least_so_far now tr i ps best \<Longrightarrow> least_rank now tr i ps best \<Longrightarrow> i \<le> length ps \<Longrightarrow>
   least_loop now tr i (drop i ps) best = Some best' \<Longrightarrow> least_rank now tr (length ps) ps best'"
proof (induction "length ps - i" arbitrary: i best)
  case 0
  then show ?case by auto
next
  case (Suc n)
  then have i: "i < length ps" "n = length ps - Suc i" by auto
  have d: "drop i ps = ps ! i # drop (Suc i) ps" using Cons_nth_drop_Suc[OF i(1)] by simp
  note IH = Suc.hyps(1)[OF i(2) Suc.prems(1)]
  have t: "i div 64 < length tr" using Suc.prems(5) by (auto simp: d split: if_splits)
  show ?case
  proof (cases "eligible now tr i (ps ! i)")
    case False
    then have "least_so_far now tr (Suc i) ps best" "least_rank now tr (Suc i) ps best"
      using Suc.prems(2,3) by (auto simp: least_so_far_def least_rank_def less_Suc_eq split: option.splits)
    then show ?thesis using IH[of best] Suc.prems(5) False i(1) t by (simp add: d eligible_skipped)
  next
    case True
    have n: "least_so_far now tr (Suc i) ps (Some (i, ps ! i, False))" using True by (simp add: least_so_far_def)
    show ?thesis
    proof (cases best)
      case None
      then have "least_rank now tr (Suc i) ps (Some (i, ps ! i, False))"
        using Suc.prems(2) by (auto simp: least_rank_def least_so_far_def less_Suc_eq)
      then show ?thesis using IH[OF n] Suc.prems(5) True None i(1) t by (simp add: d eligible_skipped)
    next
      case (Some y)
      obtain j b many where b: "best = Some (j, b, many)" using Some by (cases y) auto
      have s: "least_so_far now tr (Suc i) ps (Some (j, b, many'))" for many'
        using Suc.prems(2) b by (auto simp: least_so_far_def)
      have j: "b = ps ! j" "j < i" using Suc.prems(2) b by (auto simp: least_so_far_def)
      have r: "load (ps ! i) b < load b (ps ! i) \<longleftrightarrow> rank (ps ! i) < rank b" "load (ps ! i) b = load b (ps ! i) \<longleftrightarrow> rank (ps ! i) = rank b"
        using load_rank[OF Suc.prems(1), of "ps ! i" b] i(1) j by auto
      have h: "\<forall>m < i. eligible now tr m (ps ! m) \<longrightarrow>
          rank b \<le> rank (ps ! m) \<and> (m < j \<longrightarrow> rank b < rank (ps ! m)) \<and> (\<not> many \<longrightarrow> m \<noteq> j \<longrightarrow> rank b < rank (ps ! m))"
        using Suc.prems(3) b by (simp add: least_rank_def)
      consider "rank (ps ! i) < rank b" | "rank (ps ! i) = rank b" | "rank b < rank (ps ! i)" by linarith
      then show ?thesis
      proof cases
        case 1
        then have "least_rank now tr (Suc i) ps (Some (i, ps ! i, False))" using h by (fastforce simp: least_rank_def less_Suc_eq)
        then show ?thesis using IH[OF n] Suc.prems(5) True b 1 r i(1) t by (simp add: d eligible_skipped)
      next
        case 2
        then have "least_rank now tr (Suc i) ps (Some (j, b, True))" using h j(2) by (fastforce simp: least_rank_def less_Suc_eq)
        then show ?thesis using IH[OF s] Suc.prems(5) True b 2 r i(1) t by (simp add: d eligible_skipped)
      next
        case 3
        then have "least_rank now tr (Suc i) ps (Some (j, b, many))" using h by (fastforce simp: least_rank_def less_Suc_eq)
        then show ?thesis using IH[OF s] Suc.prems(5) True b 3 r i(1) t by (simp add: d eligible_skipped)
      qed
    qed
  qed
qed

definition same_peer :: "rr_peer \<Rightarrow> rr_peer \<Rightarrow> bool" where
  "same_peer p q \<longleftrightarrow> sockaddr q = sockaddr p \<and> conns q = conns p \<and> weight q = weight p"

lemma same_peer_simps [simp]: "same_peer p p" "same_peer p (raise p)"
  by (simp_all add: same_peer_def raise_def)

lemma many_loop_raise:
  "many_loop now tr i (p # ps) tot (j, b) =
     (if length tr \<le> i div 64 then None
      else if \<not> eligible now tr i p \<or> load p b \<noteq> load b p
      then map_option (\<lambda>(ps, r). (p # ps, r)) (many_loop now tr (Suc i) ps tot (j, b))
      else
        (let b = (if i = j then raise p else b) in
         map_option (\<lambda>(ps, r). (raise p # ps, r))
           (many_loop now tr (Suc i) ps (tot + effective_weight p)
              (if current_weight b < current_weight (raise p) then (i, raise p) else (j, b)))))"
  by (auto simp: eligible_skipped Let_def raise_def)

declare many_loop.simps(2) [simp del]

lemma many_loop_some:
  "j < i \<Longrightarrow> \<forall>m < length ps. (i + m) div 64 < length tr \<Longrightarrow>
   \<exists>ps' tot' k b'. many_loop now tr i ps tot (j, b) = Some (ps', tot', k) \<and> list_all2 same_peer ps ps' \<and>
     (k = j \<and> b' = b \<or> (\<exists>m < length ps. k = i + m \<and> eligible now tr k (ps ! m) \<and> b' = raise (ps ! m))) \<and>
     (light (b # ps) \<longrightarrow> rank b' = rank b \<and> current_weight b \<le> current_weight b' \<and>
        (\<forall>m < length ps. eligible now tr (i + m) (ps ! m) \<and> rank (ps ! m) = rank b \<longrightarrow>
           current_weight (raise (ps ! m)) \<le> current_weight b'))"
proof (induction ps arbitrary: i tot j b)
  case Nil
  then show ?case by auto
next
  case (Cons p ps)
  have t: "i div 64 < length tr" "\<forall>m < length ps. (Suc i + m) div 64 < length tr" using Cons.prems(2) by force+
  have s: "(\<exists>m < length (p # ps). P m) \<longleftrightarrow> P 0 \<or> (\<exists>m < length ps. P (Suc m))"
    "(\<forall>m < length (p # ps). P m) \<longleftrightarrow> P 0 \<and> (\<forall>m < length ps. P (Suc m))" for P
    by (simp_all add: Ex_less_Suc2 All_less_Suc2)
  have sub: "light (b # ps) \<and> light (raise p # ps) \<and> (load p b = load b p \<longleftrightarrow> rank p = rank b)" if "light (b # p # ps)"
    using light_subset[OF that, of "b # ps"] light_raise[of p ps] light_subset[OF that, of "p # ps"] load_rank(2)[OF that, of p b] by auto
  define keep where "keep \<longleftrightarrow> \<not> eligible now tr i p \<or> load p b \<noteq> load b p"
  define jb where "jb = (if keep \<or> \<not> current_weight b < current_weight (raise p) then (j, b) else (i, raise p))"
  define tot1 where "tot1 = (if keep then tot else tot + effective_weight p)"
  obtain j1 b1 where j1: "jb = (j1, b1)" by (cases jb)
  have "j1 < Suc i" using Cons.prems(1) j1 by (auto simp: jb_def split: if_splits)
  from Cons.IH[OF this t(2), of tot1 b1] obtain ps' tot' k b' where
    r: "many_loop now tr (Suc i) ps tot1 (j1, b1) = Some (ps', tot', k)" "list_all2 same_peer ps ps'"
      "k = j1 \<and> b' = b1 \<or> (\<exists>m < length ps. k = Suc i + m \<and> eligible now tr k (ps ! m) \<and> b' = raise (ps ! m))"
      "light (b1 # ps) \<longrightarrow> rank b' = rank (b1) \<and> current_weight (b1) \<le> current_weight b' \<and>
        (\<forall>m < length ps. eligible now tr (Suc i + m) (ps ! m) \<and> rank (ps ! m) = rank (b1) \<longrightarrow>
           current_weight (raise (ps ! m)) \<le> current_weight b')"
    by blast
  let ?q = "if keep then p else raise p"
  have "many_loop now tr i (p # ps) tot (j, b) = Some (?q # ps', tot', k)"
    using r(1) t(1) Cons.prems(1) unfolding j1[symmetric] by (auto simp: many_loop_raise keep_def jb_def tot1_def)
  moreover have "list_all2 same_peer (p # ps) (?q # ps')" using r(2) by simp
  moreover have "k = j \<and> b' = b \<or> (\<exists>m < length (p # ps). k = i + m \<and> eligible now tr k ((p # ps) ! m) \<and> b' = raise ((p # ps) ! m))"
    using r(3) j1 unfolding s by (auto simp: jb_def keep_def split: if_splits)
  moreover have "rank b' = rank b \<and> current_weight b \<le> current_weight b' \<and>
        (\<forall>m < length (p # ps). eligible now tr (i + m) ((p # ps) ! m) \<and> rank ((p # ps) ! m) = rank b \<longrightarrow>
           current_weight (raise ((p # ps) ! m)) \<le> current_weight b')" if l: "light (b # p # ps)"
  proof -
    have "rank (b1) = rank b" "light (b1 # ps)" "current_weight b \<le> current_weight (b1)"
      "eligible now tr i p \<and> rank p = rank b \<longrightarrow> current_weight (raise p) \<le> current_weight (b1)"
      using sub[OF l] j1 by (auto simp: jb_def keep_def split: if_splits)
    then show ?thesis using r(4) unfolding s by force
  qed
  ultimately show ?case by blast
qed

section \<open>The selection\<close>

text \<open>What the module prefers: the least load, and among the peers of that load the greatest current weight.\<close>

definition least_loaded :: "int \<Rightarrow> 64 word list \<Rightarrow> rr_peers \<Rightarrow> nat \<Rightarrow> bool" where
  "least_loaded now tr peers k \<longleftrightarrow> single peers \<or> (light (peer_list peers) \<longrightarrow> (\<forall>j. available now tr peers j \<longrightarrow>
     rank (peer_list peers ! k) \<le> rank (peer_list peers ! j) \<and>
     (rank (peer_list peers ! j) = rank (peer_list peers ! k) \<longrightarrow>
        current_weight (raise (peer_list peers ! j)) \<le> current_weight (raise (peer_list peers ! k)))))"

definition least_sel :: selector where
  "least_sel now peers rrp = (if single peers then select_peer now peers rrp else select_least now peers rrp)"

lemma least_sel_none:
  assumes "length (peer_list peers) \<le> 64 * length (tried rrp)" "peer_list peers \<noteq> []" "\<nexists>i. available now (tried rrp) peers i"
  shows "least_sel now peers rrp = Some (None, peers, rrp)"
proof (cases "single peers")
  case True
  then show ?thesis using select_none[OF assms] by (simp add: least_sel_def)
next
  case False
  have n: "\<not> eligible now (tried rrp) m (peer_list peers ! m)" if "m < length (peer_list peers)" for m
    using assms(3) that False by (auto simp: available_def)
  have "least_so_far now (tried rrp) 0 (peer_list peers) None" by (simp add: least_so_far_def)
  from least_loop_some[OF this _ assms(1)] obtain best where
    b: "least_loop now (tried rrp) 0 (peer_list peers) None = Some best" "least_so_far now (tried rrp) (length (peer_list peers)) (peer_list peers) best"
    by auto
  have "best = None" using b(2) n by (auto simp: least_so_far_def split: option.splits)
  then show ?thesis using b(1) False by (simp add: least_sel_def select_least_def)
qed

lemma same_peers:
  assumes "list_all2 same_peer ps qs"
  shows "map weight qs = map weight ps" "m < length ps \<Longrightarrow> sockaddr (qs ! m) = sockaddr (ps ! m) \<and> conns (qs ! m) = conns (ps ! m)"
  using assms by (induction ps qs arbitrary: m) (auto simp: same_peer_def nth_Cons split: nat.split)

lemma least_sel_some:
  assumes l: "length (peer_list peers) \<le> 64 * length (tried rrp)" and a: "available now (tried rrp) peers m"
  shows "\<exists>k peers' rrp'. least_sel now peers rrp = Some (Some k, peers', rrp') \<and> available now (tried rrp) peers k \<and>
    least_loaded now (tried rrp) peers k \<and> selected peers k rrp peers' rrp'"
proof (cases "single peers")
  case True
  then show ?thesis using select_single[OF True a] by (auto simp: least_sel_def least_loaded_def)
next
  case False
  let ?ps = "peer_list peers" and ?tr = "tried rrp"
  have m: "m < length ?ps" "eligible now ?tr m (?ps ! m)" using a False by (auto simp: available_def)
  have 0: "least_so_far now ?tr 0 ?ps None" "least_rank now ?tr 0 ?ps None" by (simp_all add: least_so_far_def least_rank_def)
  from least_loop_some[OF 0(1) _ l] obtain best where
    b: "least_loop now ?tr 0 ?ps None = Some best" "least_so_far now ?tr (length ?ps) ?ps best" by auto
  have "best \<noteq> None" using b(2) m by (auto simp: least_so_far_def split: option.splits)
  then obtain p many where best: "best = Some (p, ?ps ! p, many)" and p: "p < length ?ps" "eligible now ?tr p (?ps ! p)"
    using b(2) by (auto simp: least_so_far_def split: option.splits)
  have r: "eligible now ?tr j (?ps ! j) \<longrightarrow> rank (?ps ! p) \<le> rank (?ps ! j) \<and> (j < p \<longrightarrow> rank (?ps ! p) < rank (?ps ! j)) \<and>
      (\<not> many \<longrightarrow> j \<noteq> p \<longrightarrow> rank (?ps ! p) < rank (?ps ! j))" if "light ?ps" "j < length ?ps" for j
    using least_loop_rank[OF that(1) 0, of best] b(1) best that(2) by (simp add: least_rank_def)
  have "\<exists>ps' tot k. (if many then map_option (\<lambda>(ps, r). (take p ?ps @ ps, r)) (many_loop now ?tr p (drop p ?ps) 0 (p, ?ps ! p))
         else Some (?ps, 0, p)) = Some (ps', tot, k) \<and> list_all2 same_peer ?ps ps' \<and> k < length ?ps \<and> eligible now ?tr k (?ps ! k) \<and>
      (light ?ps \<longrightarrow> rank (?ps ! k) = rank (?ps ! p) \<and> (\<forall>j < length ?ps. eligible now ?tr j (?ps ! j) \<and> rank (?ps ! j) = rank (?ps ! p) \<longrightarrow>
         current_weight (raise (?ps ! j)) \<le> current_weight (raise (?ps ! k))))"
  proof (cases many)
    case False
    then have "light ?ps \<longrightarrow> (\<forall>j < length ?ps. eligible now ?tr j (?ps ! j) \<and> rank (?ps ! j) = rank (?ps ! p) \<longrightarrow> j = p)"
      using r by (metis order_less_irrefl)
    then show ?thesis using False p by (auto simp: list_all2_refl intro!: exI[of _ ?ps] exI[of _ p])
  next
    case True
    have d: "drop p ?ps = ?ps ! p # drop (Suc p) ?ps" using Cons_nth_drop_Suc[OF p(1)] by simp
    have "\<forall>m < length (drop (Suc p) ?ps). (Suc p + m) div 64 < length ?tr" using l by auto
    from many_loop_some[OF lessI this, of now "effective_weight (?ps ! p)" "raise (?ps ! p)"] obtain qs tot k b' where
      q: "many_loop now ?tr (Suc p) (drop (Suc p) ?ps) (effective_weight (?ps ! p)) (p, raise (?ps ! p)) = Some (qs, tot, k)"
        "list_all2 same_peer (drop (Suc p) ?ps) qs"
        "k = p \<and> b' = raise (?ps ! p) \<or> (\<exists>m < length (drop (Suc p) ?ps). k = Suc p + m \<and> eligible now ?tr k (drop (Suc p) ?ps ! m) \<and>
           b' = raise (drop (Suc p) ?ps ! m))"
        "light (raise (?ps ! p) # drop (Suc p) ?ps) \<longrightarrow> rank b' = rank (raise (?ps ! p)) \<and> current_weight (raise (?ps ! p)) \<le> current_weight b' \<and>
        (\<forall>m < length (drop (Suc p) ?ps). eligible now ?tr (Suc p + m) (drop (Suc p) ?ps ! m) \<and>
           rank (drop (Suc p) ?ps ! m) = rank (raise (?ps ! p)) \<longrightarrow>
           current_weight (raise (drop (Suc p) ?ps ! m)) \<le> current_weight b')"
      by blast
    have tp: "\<not> length ?tr \<le> p div 64" using p(1) l by auto
    have e: "many_loop now ?tr p (drop p ?ps) 0 (p, ?ps ! p) = Some (raise (?ps ! p) # qs, tot, k)"
      using q(1) p(2) tp by (simp add: d many_loop_raise)
    have k: "k < length ?ps \<and> eligible now ?tr k (?ps ! k) \<and> b' = raise (?ps ! k)" using q(3) p by auto
    have "list_all2 same_peer (take p ?ps @ drop p ?ps) (take p ?ps @ raise (?ps ! p) # qs)"
      using q(2) by (intro list_all2_appendI) (simp_all add: list_all2_refl d)
    then have sp: "list_all2 same_peer ?ps (take p ?ps @ raise (?ps ! p) # qs)" by simp
    have mx: "rank (?ps ! k) = rank (?ps ! p) \<and> (\<forall>j < length ?ps. eligible now ?tr j (?ps ! j) \<and> rank (?ps ! j) = rank (?ps ! p) \<longrightarrow>
         current_weight (raise (?ps ! j)) \<le> current_weight (raise (?ps ! k)))" if li: "light ?ps"
    proof -
      have "set (?ps ! p # drop (Suc p) ?ps) \<subseteq> set ?ps" using p(1) set_drop_subset[of "Suc p" ?ps] by auto
      then have x: "light (raise (?ps ! p) # drop (Suc p) ?ps)" by (intro light_raise light_subset[OF li])
      have "current_weight (raise (?ps ! j)) \<le> current_weight (raise (?ps ! k))"
        if j: "j < length ?ps" "eligible now ?tr j (?ps ! j)" "rank (?ps ! j) = rank (?ps ! p)" for j
      proof -
        consider "j < p" | "j = p" | "p < j" by linarith
        then show ?thesis
        proof cases
          case 1
          then show ?thesis using r[OF li j(1)] j(2,3) by simp
        next
          case 2
          then show ?thesis using q(4) x k by simp
        next
          case 3
          define n where "n = j - Suc p"
          have n: "n < length (drop (Suc p) ?ps)" "Suc p + n = j" "drop (Suc p) ?ps ! n = ?ps ! j"
            using 3 j(1) by (auto simp: n_def)
          have "\<forall>m < length (drop (Suc p) ?ps). eligible now ?tr (Suc p + m) (drop (Suc p) ?ps ! m) \<and>
             rank (drop (Suc p) ?ps ! m) = rank (raise (?ps ! p)) \<longrightarrow> current_weight (raise (drop (Suc p) ?ps ! m)) \<le> current_weight b'"
            using q(4) x by blast
          from this[rule_format, OF n(1)] show ?thesis unfolding n(2,3) using j(2,3) k by simp
        qed
      qed
      moreover have "rank (?ps ! k) = rank (?ps ! p)" using q(4) x k by simp
      ultimately show ?thesis by blast
    qed
    show ?thesis
      by (intro exI[of _ "take p ?ps @ raise (?ps ! p) # qs"] exI[of _ tot] exI[of _ k]) (use True e sp k mx in simp)
  qed
  then obtain ps' tot k where
    s: "(if many then map_option (\<lambda>(ps, r). (take p ?ps @ ps, r)) (many_loop now ?tr p (drop p ?ps) 0 (p, ?ps ! p))
         else Some (?ps, 0, p)) = Some (ps', tot, k)" "list_all2 same_peer ?ps ps'" "k < length ?ps" "eligible now ?tr k (?ps ! k)"
      "light ?ps \<longrightarrow> rank (?ps ! k) = rank (?ps ! p) \<and> (\<forall>j < length ?ps. eligible now ?tr j (?ps ! j) \<and> rank (?ps ! j) = rank (?ps ! p) \<longrightarrow>
         current_weight (raise (?ps ! j)) \<le> current_weight (raise (?ps ! k)))"
    by blast
  define q where "q = ngx_http_upstream_rr_peer_ref ((ps' ! k)\<lparr>current_weight := current_weight (ps' ! k) - tot,
    checked := (if now - checked (ps' ! k) > fail_timeout (ps' ! k) then now else checked (ps' ! k))\<rparr>)"
  let ?rrp = "rrp\<lparr>rrp_current := Some k, tried := ?tr[k div 64 := (?tr ! (k div 64)) OR ngx_bit k]\<rparr>"
  have "select_least now peers rrp = Some (Some k, peers\<lparr>peer_list := ps'[k := q]\<rparr>, ?rrp)"
    unfolding select_least_def b(1) best using s(1) by (simp add: Let_def q_def)
  moreover have "available now ?tr peers k" using s(3,4) False by (simp add: available_def)
  moreover have "least_loaded now ?tr peers k"
    using s(5) r False by (auto simp: least_loaded_def available_def)
  moreover have "selected peers k rrp (peers\<lparr>peer_list := ps'[k := q]\<rparr>) ?rrp"
  proof -
    have l: "k < length ps'" using s(2,3) by (simp add: list_all2_lengthD)
    then have "map weight (ps'[k := q]) = (map weight ps')[k := map weight ps' ! k]"
      by (simp add: map_update q_def ngx_http_upstream_rr_peer_ref_def)
    then have "map weight (ps'[k := q]) = map weight ?ps" using same_peers(1)[OF s(2)] by (simp only: list_update_id)
    then show ?thesis using l same_peers(2)[OF s(2,3)] False
      by (simp add: selected_def same_group_def q_def ngx_http_upstream_rr_peer_ref_def)
  qed
  ultimately show ?thesis using False by (auto simp: least_sel_def)
qed

interpretation lc: group_selector least_sel ngx_http_upstream_get_least_conn_peer least_loaded
proof
  fix us :: "rr_peers list" and rrp rrp' rrp'' :: rr_peer_data and now :: int and k m :: nat and peers :: rr_peers
    and pc pc' :: peer_connection and rc us'
  assume ok: "rrp_ok us rrp"
  note g = rrp_okD(1,4)[OF ok]
  have n: "\<not> single (us ! rrp_peers rrp)" if "Suc (rrp_peers rrp) < length us" using g(2) that by (auto simp: current_group_def)
  show "\<exists>pc'. ngx_http_upstream_get_least_conn_peer now us rrp pc = Some (NGX_OK, taken_from us rrp k peers, rrp', pc') \<and>
      pc_sockaddr pc' = Some (sockaddr (peer_list peers ! k))"
    if s: "least_sel now (current_group us rrp) rrp = Some (Some k, peers, rrp')"
  proof (cases "single (current_group us rrp)")
    case True
    then have "ngx_http_upstream_get_least_conn_peer now us rrp pc = ngx_http_upstream_get_round_robin_peer now us rrp pc"
      using g(1) by (subst ngx_http_upstream_get_least_conn_peer.simps) (simp add: current_group_def)
    then show ?thesis using rr.got[OF ok] s True by (simp add: least_sel_def)
  next
    case False
    then show ?thesis using s g(1) unfolding current_group_def taken_from_def least_sel_def
      by (subst ngx_http_upstream_get_least_conn_peer.simps) (simp add: Let_def)
  qed
  show "\<exists>pc'. ngx_http_upstream_get_least_conn_peer now us rrp pc = Some (NGX_BUSY, us, rrp, pc')"
    if s: "least_sel now (current_group us rrp) rrp = Some (None, current_group us rrp, rrp)" "Suc (rrp_peers rrp) = length us"
  proof (cases "single (current_group us rrp)")
    case True
    then have "ngx_http_upstream_get_least_conn_peer now us rrp pc = ngx_http_upstream_get_round_robin_peer now us rrp pc"
      using g(1) by (subst ngx_http_upstream_get_least_conn_peer.simps) (simp add: current_group_def)
    then show ?thesis using rr.busy[OF ok _ s(2)] s(1) True by (simp add: least_sel_def)
  next
    case False
    then show ?thesis using s unfolding current_group_def least_sel_def
      by (subst ngx_http_upstream_get_least_conn_peer.simps) simp
  qed
  show "\<exists>pc''. ngx_http_upstream_get_least_conn_peer now us rrp pc = Some (rc, us', rrp'', pc'') \<and> pc_sockaddr pc'' = pc_sockaddr pc'"
    if s: "least_sel now (current_group us rrp) rrp = Some (None, current_group us rrp, rrp)" "Suc (rrp_peers rrp) < length us"
      "ngx_http_upstream_get_least_conn_peer now us (next_group us rrp) (cleared pc) = Some (rc, us', rrp'', pc')"
  proof -
    have "(number (us ! Suc (rrp_peers rrp)) + 63) div 64 \<le> length (tried rrp)" using ok s(2) by (auto simp: rrp_ok_def)
    then show ?thesis
      using s g(1) n[OF s(2)] unfolding next_group_def current_group_def cleared_def least_sel_def Let_def
      by (subst ngx_http_upstream_get_least_conn_peer.simps) (simp add: Let_def)
  qed
next
  fix peers :: rr_peers and tr tr' :: "64 word list" and now k
  assume "\<And>i. i < length (peer_list peers) \<Longrightarrow> tr ! (i div 64) = tr' ! (i div 64)"
  then show "least_loaded now tr peers k = least_loaded now tr' peers k"
    unfolding least_loaded_def using available_cong by metis
qed (use least_sel_none least_sel_some in blast)+

text \<open>
  C11. \<open>ngx_http_upstream_get_least_conn_peer\<close> never reads the bitmap out of its bounds and hands out a peer of the first
  group with an available one: there one of the fewest connections per weight, and among those the one of
  the greatest current weight after the round, as long as the products of connections and weights that it compares do not
  overflow (\<open>light\<close>); if no peer is available the request is refused with NGX_BUSY.
\<close>

theorem lc_choice:
  assumes "rrp_ok us rrp"
  shows "\<exists>rc us' rrp' pc'. ngx_http_upstream_get_least_conn_peer now us rrp pc = Some (rc, us', rrp', pc') \<and>
    first_choice (rrp_peers rrp) (\<lambda>g. available now (bitmap rrp g) (us ! g)) (\<lambda>g. least_loaded now (bitmap rrp g) (us ! g)) us rc us' rrp' pc'"
  by (rule lc.choice[OF assms])

theorem lc_choice_witness:
  "light (peer_list (hd demo_upstream)) \<and>
   (\<exists>rc us' rrp' pc'. ngx_http_upstream_get_least_conn_peer 100 demo_upstream demo_data demo_pc = Some (rc, us', rrp', pc') \<and>
    first_choice (rrp_peers demo_data) (\<lambda>g. available 100 (bitmap demo_data g) (demo_upstream ! g))
      (\<lambda>g. least_loaded 100 (bitmap demo_data g) (demo_upstream ! g)) demo_upstream rc us' rrp' pc')"
  using lc_choice[OF demo_rrp_ok, of 100 demo_pc]
  by (simp add: demo_upstream_def demo_servers_def ngx_http_upstream_init_round_robin_def new_peer_def light_def)

end
