(* ===== verification/Ngx_Upstream_Ip_Hash.thy ===== *)
theory Ngx_Upstream_Ip_Hash
  imports Ngx_Upstream_Rr
begin

text \<open>
  The balancer of \<^verbatim>\<open>src/http/modules/ngx_http_upstream_ip_hash_module.c\<close>: a hash of the address of the client
  chooses the peer by the slots of the weights, a peer that cannot serve makes it hash again, and after twenty tries
  round robin takes over. The address is given with the family; \<open>take 3\<close> and \<open>take 16\<close> are the bytes that are hashed.
\<close>

section \<open>The functions\<close>

text \<open>The address of the client, by its family.\<close>

datatype client_addr = AF_INET "byte list" | AF_INET6 "byte list" | AF_other

record ip_hash_peer_data =
  ih_rrp :: rr_peer_data
  ih_hash :: nat
  ih_addr :: "byte list"
  ih_tries :: nat

definition ngx_http_upstream_init_ip_hash_peer :: "client_addr \<Rightarrow> rr_peers list \<Rightarrow> (ip_hash_peer_data \<times> nat) option" where
  "ngx_http_upstream_init_ip_hash_peer client us = do {
     (rrp, tries) \<leftarrow> ngx_http_upstream_init_round_robin_peer us;
     let addr = (case client of AF_INET a \<Rightarrow> take 3 a | AF_INET6 a \<Rightarrow> take 16 a | AF_other \<Rightarrow> [0, 0, 0]);
     Some (\<lparr>ih_rrp = rrp, ih_hash = 89, ih_addr = addr, ih_tries = 0\<rparr>, tries) }"

fun ip_hash_bytes :: "nat \<Rightarrow> byte list \<Rightarrow> nat" where
  "ip_hash_bytes h [] = h"
| "ip_hash_bytes h (a # as) = ip_hash_bytes ((h * 113 + unat a) mod 6271) as"

text \<open>The walk over the weights: the index of the peer, None past the last one.\<close>

fun weight_walk :: "rr_peer list \<Rightarrow> int \<Rightarrow> nat \<Rightarrow> nat option" where
  "weight_walk [] w p = None"
| "weight_walk (peer # ps) w p = (if weight peer \<le> w then weight_walk ps (w - weight peer) (p + 1) else Some p)"

text \<open>The loop: the hash, the number of tries and the peer, or no peer when there were too many tries.\<close>

function ip_hash_loop :: "int \<Rightarrow> rr_peers \<Rightarrow> 64 word list \<Rightarrow> byte list \<Rightarrow> nat \<Rightarrow> nat \<Rightarrow> (nat \<times> nat \<times> nat option) option" where
  "ip_hash_loop now peers tr addr hash0 tries =
     (let hash = ip_hash_bytes hash0 addr in
      if total_weight peers = 0 then None
      else
        (case weight_walk (peer_list peers) (int (hash mod total_weight peers)) 0 of
           None \<Rightarrow> None
         | Some p \<Rightarrow>
             (let peer = peer_list peers ! p in
              if length tr \<le> p div 64 then None
              else if tr ! (p div 64) AND ngx_bit p \<noteq> 0
                   \<or> down peer
                   \<or> (max_fails peer \<noteq> 0 \<and> max_fails peer \<le> fails peer \<and> now - checked peer \<le> fail_timeout peer)
                   \<or> (max_conns peer \<noteq> 0 \<and> max_conns peer \<le> conns peer)
              then (if 20 < tries + 1 then Some (hash, tries + 1, None)
                    else ip_hash_loop now peers tr addr hash (tries + 1))
              else Some (hash, tries, Some p))))"
  by pat_completeness auto

termination
  by (relation "measure (\<lambda>(now, peers, tr, addr, hash, tries). 21 - tries)") auto

declare ip_hash_loop.simps [simp del]

definition ip_hash_rr :: "ip_hash_peer_data balance" where
  "ip_hash_rr now us iphp pc = map_option (\<lambda>(rc, us, rrp, pc). (rc, us, iphp\<lparr>ih_rrp := rrp\<rparr>, pc))
     (ngx_http_upstream_get_round_robin_peer now us (ih_rrp iphp) pc)"

definition ngx_http_upstream_get_ip_hash_peer :: "ip_hash_peer_data balance" where
  "ngx_http_upstream_get_ip_hash_peer now us iphp pc0 =
     (let rrp = ih_rrp iphp in
      if length us \<le> rrp_peers rrp then None
      else
        (let peers = us ! rrp_peers rrp in
         if 20 < ih_tries iphp \<or> number peers < 2 then ip_hash_rr now us iphp pc0
         else
           (let pc = pc0\<lparr>pc_cached := False, pc_connection := None\<rparr> in
            case ip_hash_loop now peers (tried rrp) (ih_addr iphp) (ih_hash iphp) (ih_tries iphp) of
              None \<Rightarrow> None
            | Some (hash, tries, None) \<Rightarrow> ip_hash_rr now us (iphp\<lparr>ih_tries := tries\<rparr>) pc
            | Some (hash, tries, Some p) \<Rightarrow>
                (let q = ngx_http_upstream_rr_peer_ref (peer_list peers ! p);
                     pc = pc\<lparr>pc_sockaddr := Some (sockaddr q), pc_name := Some (peer_name q)\<rparr>;
                     q = q\<lparr>conns := conns q + 1, checked := (if now - checked q > fail_timeout q then now else checked q)\<rparr> in
                 Some (NGX_OK, us[rrp_peers rrp := peers\<lparr>peer_list := (peer_list peers)[p := q]\<rparr>],
                       iphp\<lparr>ih_rrp := rrp\<lparr>rrp_current := Some p, tried := (tried rrp)[p div 64 := (tried rrp ! (p div 64)) OR ngx_bit p]\<rparr>,
                            ih_hash := hash, ih_tries := tries\<rparr>,
                       pc)))))"

section \<open>The peer of a hash\<close>

text \<open>The slots of the peers, as long as their weights: \<open>slot_of ws k w\<close> says that \<open>w\<close> falls into slot \<open>k\<close>.\<close>

definition slot_of :: "int list \<Rightarrow> nat \<Rightarrow> int \<Rightarrow> bool" where
  "slot_of ws k w \<longleftrightarrow> k < length ws \<and> sum_list (take k ws) \<le> w \<and> w < sum_list (take (Suc k) ws)"

lemma weight_walk_slot:
  "0 \<le> w \<Longrightarrow> w < sum_list (map weight ps) \<Longrightarrow> \<exists>k. weight_walk ps w p = Some (p + k) \<and> slot_of (map weight ps) k w"
proof (induction ps arbitrary: w p)
  case Nil
  then show ?case by simp
next
  case (Cons q ps)
  show ?case
  proof (cases "weight q \<le> w")
    case True
    then obtain k where "weight_walk ps (w - weight q) (p + 1) = Some (p + 1 + k)" "slot_of (map weight ps) k (w - weight q)"
      using Cons.IH[of "w - weight q" "p + 1"] Cons.prems by auto
    then show ?thesis using True by (intro exI[of _ "Suc k"]) (auto simp: slot_of_def)
  next
    case False
    then show ?thesis using Cons.prems by (intro exI[of _ 0]) (auto simp: slot_of_def)
  qed
qed

lemma walk_weighed:
  assumes "weighed peers"
  shows "\<exists>k. weight_walk (peer_list peers) (int (h mod total_weight peers)) 0 = Some k \<and>
    slot_of (map weight (peer_list peers)) k (int (h mod total_weight peers))"
proof -
  have "h mod total_weight peers < total_weight peers" using assms by (simp add: weighed_def)
  then have "int (h mod total_weight peers) < sum_list (map weight (peer_list peers))"
    using assms by (metis of_nat_less_iff weighed_def)
  then show ?thesis using weight_walk_slot[of "int (h mod total_weight peers)" "peer_list peers" 0] by auto
qed

lemma ip_hash_loop_spec:
  assumes w: "weighed peers" and l: "length (peer_list peers) \<le> 64 * length tr"
  shows "\<exists>h t r. ip_hash_loop now peers tr addr hash tries = Some (h, t, r) \<and>
    (\<forall>p. r = Some p \<longrightarrow> p < length (peer_list peers) \<and> eligible now tr p (peer_list peers ! p))"
proof (induction "21 - tries" arbitrary: hash tries rule: less_induct)
  case less
  let ?h = "ip_hash_bytes hash addr"
  obtain k where k: "weight_walk (peer_list peers) (int (?h mod total_weight peers)) 0 = Some k"
    "slot_of (map weight (peer_list peers)) k (int (?h mod total_weight peers))" using walk_weighed[OF w] by blast
  have kl: "k < length (peer_list peers)" using k(2) by (simp add: slot_of_def)
  then have t: "\<not> length tr \<le> k div 64" using l by auto
  have tw: "total_weight peers \<noteq> 0" using w by (simp add: weighed_def)
  show ?case
  proof (cases "eligible now tr k (peer_list peers ! k)")
    case True
    then have "ip_hash_loop now peers tr addr hash tries = Some (?h, tries, Some k)"
      using k(1) t tw by (subst ip_hash_loop.simps) (auto simp: eligible_def Let_def)
    then show ?thesis using True kl by auto
  next
    case False
    then have e: "ip_hash_loop now peers tr addr hash tries =
        (if 20 < tries + 1 then Some (?h, tries + 1, None) else ip_hash_loop now peers tr addr ?h (tries + 1))"
      using k(1) t tw by (subst ip_hash_loop.simps) (auto simp: eligible_def Let_def)
    show ?thesis
    proof (cases "20 < tries + 1")
      case True
      then show ?thesis using e by simp
    next
      case False
      then have "21 - (tries + 1) < 21 - tries" by simp
      from less.hyps[OF this, of ?h] show ?thesis using e False by simp
    qed
  qed
qed

definition ip_hash_ok :: "rr_peers list \<Rightarrow> ip_hash_peer_data \<Rightarrow> bool" where
  "ip_hash_ok us d \<longleftrightarrow> rrp_ok us (ih_rrp d) \<and> (\<forall>g \<in> set us. \<not> single g \<and> weighed g)"

lemma took_now:
  assumes ok: "rrp_ok us rrp" and p: "p < length (peer_list (current_group us rrp))" "\<not> marked rrp p"
    and q: "weight q = weight (peer_list (current_group us rrp) ! p)"
    and us': "us' = us[rrp_peers rrp := (current_group us rrp)\<lparr>peer_list := (peer_list (current_group us rrp))[p := q]\<rparr>]"
    and r: "rrp' = rrp\<lparr>rrp_current := Some p, tried := (tried rrp)[p div 64 := (tried rrp ! (p div 64)) OR ngx_bit p]\<rparr>"
  shows "took us rrp NGX_OK us' rrp'"
proof -
  let ?P = "current_group us rrp"
  have "map weight ((peer_list ?P)[p := q]) = map weight (peer_list ?P)"
    using q p(1) by (simp add: map_update list_update_same_conv)
  then have "same_groups us us'"
    unfolding us' using rrp_okD(1)[OF ok] by (intro same_groups_update) (simp_all add: same_group_def current_group_def)
  moreover have "p < 64 * length (tried rrp)" using p(1) rrp_okD(2)[OF ok] by simp
  note marked_after[of rrp' rrp, OF _ this]
  then have "marked rrp' p" "\<forall>i. marked rrp i \<longrightarrow> marked rrp' i" unfolding r by simp_all
  ultimately show ?thesis
    using p rrp_okD(1)[OF ok] unfolding took_def by (simp add: r current_group_def)
qed

lemma ip_hash_took:
  assumes "ip_hash_ok us d"
  shows "\<exists>rc us' d' pc'. ngx_http_upstream_get_ip_hash_peer now us d pc = Some (rc, us', d', pc') \<and> took us (ih_rrp d) rc us' (ih_rrp d')"
proof -
  let ?rrp = "ih_rrp d" and ?P = "current_group us (ih_rrp d)"
  have ok: "rrp_ok us ?rrp" and ns: "\<forall>g \<in> set us. \<not> single g" and w: "weighed ?P"
    using assms rrp_okD(1)[of us ?rrp] by (auto simp: ip_hash_ok_def current_group_def)
  have rr: "\<exists>rc us' d' pc'. ip_hash_rr now us d1 pc1 = Some (rc, us', d', pc') \<and> took us ?rrp rc us' (ih_rrp d')"
    if "ih_rrp d1 = ?rrp" for d1 pc1
    using rr.get_took[OF ok ns, of now pc1] that by (auto simp: ip_hash_rr_def)
  show ?thesis
  proof (cases "20 < ih_tries d \<or> number ?P < 2")
    case True
    then have "ngx_http_upstream_get_ip_hash_peer now us d pc = ip_hash_rr now us d pc"
      using rrp_okD(1)[OF ok] by (auto simp: ngx_http_upstream_get_ip_hash_peer_def current_group_def Let_def)
    then show ?thesis using rr[of d] by simp
  next
    case False
    obtain h t r where l: "ip_hash_loop now ?P (tried ?rrp) (ih_addr d) (ih_hash d) (ih_tries d) = Some (h, t, r)"
      "\<forall>p. r = Some p \<longrightarrow> p < length (peer_list ?P) \<and> eligible now (tried ?rrp) p (peer_list ?P ! p)"
      using ip_hash_loop_spec[OF w rrp_okD(2)[OF ok]] by blast
    show ?thesis
    proof (cases r)
      case None
      then have "ngx_http_upstream_get_ip_hash_peer now us d pc =
          ip_hash_rr now us (d\<lparr>ih_tries := t\<rparr>) (pc\<lparr>pc_cached := False, pc_connection := None\<rparr>)"
        using False l(1) rrp_okD(1)[OF ok] by (simp add: ngx_http_upstream_get_ip_hash_peer_def current_group_def Let_def)
      then show ?thesis using rr[of "d\<lparr>ih_tries := t\<rparr>"] by simp
    next
      case (Some p)
      then have p: "p < length (peer_list ?P)" "eligible now (tried ?rrp) p (peer_list ?P ! p)" using l(2) by auto
      have "\<not> marked ?rrp p" using p(2) ngx_bit_eq[of "tried ?rrp ! (p div 64)" p] by (simp add: eligible_def marked_def)
      note tk = took_now[OF ok p(1) this _ refl refl]
      show ?thesis
        using False l(1) Some rrp_okD(1)[OF ok] tk
        by (simp add: ngx_http_upstream_get_ip_hash_peer_def current_group_def Let_def ngx_http_upstream_rr_peer_ref_def)
    qed
  qed
qed

section \<open>The peer of a client\<close>

text \<open>A peer that can serve: not down, below its limits of failures and connections.\<close>

definition serving :: "int \<Rightarrow> rr_peer \<Rightarrow> bool" where
  "serving now p \<longleftrightarrow> \<not> down p \<and> \<not> (max_fails p \<noteq> 0 \<and> max_fails p \<le> fails p \<and> now - checked p \<le> fail_timeout p) \<and>
     \<not> (max_conns p \<noteq> 0 \<and> max_conns p \<le> conns p)"

text \<open>A number falls into one slot only.\<close>

lemma take_sum_mono:
  assumes "\<forall>x \<in> set ws. 0 < x" "i \<le> j"
  shows "sum_list (take i ws) \<le> sum_list (take j (ws :: int list))"
proof -
  have "take j ws = take i ws @ take (j - i) (drop i ws)" using assms(2) by (metis le_add_diff_inverse take_add)
  moreover have "0 \<le> sum_list (take (j - i) (drop i ws))"
    using assms(1) by (intro sum_list_nonneg) (meson in_set_dropD in_set_takeD less_imp_le)
  ultimately show ?thesis by simp
qed

lemma slot_unique:
  assumes "\<forall>x \<in> set ws. 0 < x" "slot_of ws i w" "slot_of ws j w"
  shows "i = j"
  using assms(2,3) take_sum_mono[OF assms(1), of "Suc i" j] take_sum_mono[OF assms(1), of "Suc j" i]
  by (cases i j rule: linorder_cases) (auto simp: slot_of_def)

lemma ip_hash_first:
  assumes i: "ngx_http_upstream_init_ip_hash_peer client us = Some (d, n)" and c: "configured us"
    and w: "\<forall>g \<in> set us. weighed g" and two: "2 \<le> number (hd us)"
    and k: "slot_of (map weight (peer_list (hd us))) k (int (ip_hash_bytes 89 (ih_addr d) mod total_weight (hd us)))"
    and a: "serving now (peer_list (hd us) ! k)"
  shows "\<exists>us' d' pc'. ngx_http_upstream_get_ip_hash_peer now us d pc = Some (NGX_OK, us', d', pc') \<and>
    rrp_peers (ih_rrp d') = 0 \<and> rrp_current (ih_rrp d') = Some k \<and> pc_sockaddr pc' = Some (sockaddr (peer_list (hd us) ! k))"
proof -
  obtain rrp where rrp: "ngx_http_upstream_init_round_robin_peer us = Some (rrp, n)" "ih_rrp d = rrp" "ih_hash d = 89" "ih_tries d = 0"
    using i by (auto simp: ngx_http_upstream_init_ip_hash_peer_def split: bind_splits)
  note ok = init_peer_ok[OF rrp(1) c]
  obtain g r where us: "us = g # r" using c by (cases us) (auto simp: configured_def)
  have gw: "weighed g" using w us by simp
  have cg: "current_group us rrp = g" using ok(2) us by (simp add: current_group_def)
  have kl: "k < length (peer_list g)" using k us by (simp add: slot_of_def)
  then have kt: "k div 64 < length (tried rrp)" using rrp_okD(2)[OF ok(1)] cg by auto
  then have "tried rrp ! (k div 64) = 0" by (subst ok(3)) simp
  then have e: "eligible now (tried rrp) k (peer_list g ! k)" using a us by (auto simp: eligible_def serving_def)
  let ?h = "ip_hash_bytes 89 (ih_addr d)"
  obtain j where j: "weight_walk (peer_list g) (int (?h mod total_weight g)) 0 = Some j"
    "slot_of (map weight (peer_list g)) j (int (?h mod total_weight g))" using walk_weighed[OF gw] by blast
  have "j = k" using slot_unique[OF _ j(2)] k us gw by (auto simp: weighed_def)
  then have "ip_hash_loop now g (tried rrp) (ih_addr d) 89 0 = Some (?h, 0, Some k)"
    using j(1) kt gw e by (subst ip_hash_loop.simps) (auto simp: eligible_def Let_def weighed_def)
  then show ?thesis
    using two us rrp(2-4) ok(2) by (simp add: ngx_http_upstream_get_ip_hash_peer_def Let_def ngx_http_upstream_rr_peer_ref_def)
qed


text \<open>
  C12. Clients of one IPv4 /24 network are sent to one peer: there is a peer of the first group such that every
  request of a client of the network gets that peer at its first attempt whenever the peer can serve, at any time and in any state of the
  peers that the configuration can get into.
\<close>

theorem ip_hash_sticky:
  assumes "ngx_http_upstream_init_round_robin rh host port (Some ss) = (NGX_OK, us0)" "\<forall>s \<in> set ss. 0 < srv_weight s"
    and "2 \<le> number (hd us0)" "length net = 3"
  shows "\<exists>k < number (hd us0). \<forall>us now x d n pc. same_groups us0 us \<and>
      ngx_http_upstream_init_ip_hash_peer (AF_INET (net @ [x])) us = Some (d, n) \<and> serving now (peer_list (hd us) ! k) \<longrightarrow>
    (\<exists>us' d' pc'. ngx_http_upstream_get_ip_hash_peer now us d pc = Some (NGX_OK, us', d', pc') \<and>
       rrp_peers (ih_rrp d') = 0 \<and> rrp_current (ih_rrp d') = Some k \<and> pc_sockaddr pc' = Some (sockaddr (peer_list (hd us) ! k)))"
proof -
  note c = init_configured(1)[OF assms(1)] and w = configured_weighed[OF assms(1,2)]
  obtain g r where us0: "us0 = g # r" using c by (cases us0) (auto simp: configured_def)
  obtain k where k: "slot_of (map weight (peer_list g)) k (int (ip_hash_bytes 89 net mod total_weight g))"
    using walk_weighed[of g] w us0 by auto
  have kn: "k < number (hd us0)" using k c us0 by (auto simp: slot_of_def configured_def)
  have "\<exists>us' d' pc'. ngx_http_upstream_get_ip_hash_peer now us d pc = Some (NGX_OK, us', d', pc') \<and>
       rrp_peers (ih_rrp d') = 0 \<and> rrp_current (ih_rrp d') = Some k \<and> pc_sockaddr pc' = Some (sockaddr (peer_list (hd us) ! k))"
    if s: "same_groups us0 us" and i: "ngx_http_upstream_init_ip_hash_peer (AF_INET (net @ [x])) us = Some (d, n)"
      and v: "serving now (peer_list (hd us) ! k)" for us now x d n pc
  proof (rule ip_hash_first[OF i])
    note cs = configured_same[OF s c]
    have "us \<noteq> []" "0 < length us0" using cs(1) us0 by (auto simp: configured_def)
    then have h: "same_group g (hd us)" using same_groups_nth[OF s, of 0] us0 by (simp add: hd_conv_nth)
    show "configured us" "\<forall>g \<in> set us. weighed g" using cs(1,3) w by blast+
    show "2 \<le> number (hd us)" using h assms(3) us0 by (simp add: same_group_def)
    have "ih_addr d = net" using i assms(4) by (auto simp: ngx_http_upstream_init_ip_hash_peer_def Let_def split: bind_splits)
    then show "slot_of (map weight (peer_list (hd us))) k (int (ip_hash_bytes 89 (ih_addr d) mod total_weight (hd us)))"
      using k h by (simp add: same_group_def)
    show "serving now (peer_list (hd us) ! k)" using v .
  qed
  then show ?thesis using kn by blast
qed

lemma demo_ip_hash_init:
  "ngx_http_upstream_init_ip_hash_peer (AF_INET [10, 0, 0, 1]) demo_upstream =
     Some (\<lparr>ih_rrp = demo_data, ih_hash = 89, ih_addr = [10, 0, 0], ih_tries = 0\<rparr>, 3)"
  by code_simp

theorem ip_hash_sticky_witness:
  "\<exists>k < number (hd demo_upstream). \<forall>us now x d n pc. same_groups demo_upstream us \<and>
      ngx_http_upstream_init_ip_hash_peer (AF_INET ([10, 0, 0] @ [x])) us = Some (d, n) \<and> serving now (peer_list (hd us) ! k) \<longrightarrow>
    (\<exists>us' d' pc'. ngx_http_upstream_get_ip_hash_peer now us d pc = Some (NGX_OK, us', d', pc') \<and>
       rrp_peers (ih_rrp d') = 0 \<and> rrp_current (ih_rrp d') = Some k \<and> pc_sockaddr pc' = Some (sockaddr (peer_list (hd us) ! k)))"
  by (rule ip_hash_sticky[OF demo_upstream_init(1,7)]) (simp_all add: demo_upstream_init)

end
