(* ===== verification/Ngx_Upstream_Retry.thy ===== *)
theory Ngx_Upstream_Retry
  imports Ngx_Upstream_Least_Conn Ngx_Upstream_Ip_Hash
begin

text \<open>
  The attempts of one request, as \<^verbatim>\<open>src/http/ngx_http_upstream.c\<close> makes them through the functions
  \<open>peer.get\<close> and \<open>peer.free\<close> of a balancer, whichever balancer it is: the locale \<open>balancer\<close> is what such a function owes
  the caller, with the three balancers as its interpretations.
\<close>

section \<open>Attempts\<close>

text \<open>
  The attempts of one request with a balancer: at each a peer is taken, and given back with a state; the request ends
  when it is refused.
\<close>

fun attempts :: "'d balance \<Rightarrow> ('d \<Rightarrow> rr_peer_data) \<Rightarrow> (int \<times> int \<times> 64 word) list \<Rightarrow> rr_peers list \<Rightarrow> 'd \<Rightarrow> peer_connection \<Rightarrow>
  ((nat \<times> nat) list \<times> rr_peers list) option" where
  "attempts get rrp_of [] us d pc = Some ([], us)"
| "attempts get rrp_of ((now, later, st) # es) us d pc = do {
     (rc, us, d, pc) \<leftarrow> get now us d pc;
     if rc = NGX_BUSY then Some ([], us)
     else do {
       i \<leftarrow> rrp_current (rrp_of d);
       (us, pc) \<leftarrow> ngx_http_upstream_free_round_robin_peer later st us (rrp_of d) pc;
       (cs, us) \<leftarrow> attempts get rrp_of es us d pc;
       Some ((rrp_peers (rrp_of d), i) # cs, us) } }"

definition no_peer_twice :: "rr_peers list \<Rightarrow> (nat \<times> nat) list \<Rightarrow> bool" where
  "no_peer_twice us cs \<longleftrightarrow> distinct cs \<and> (\<forall>(g, i) \<in> set cs. g < length us \<and> i < number (us ! g)) \<and>
     length cs \<le> (\<Sum>g\<leftarrow>us. number g)"

lemma free_keeps:
  assumes "rrp_peers rrp < length us" "rrp_current rrp = Some k" "k < length (peer_list (us ! rrp_peers rrp))"
  shows "\<exists>us' pc'. ngx_http_upstream_free_round_robin_peer now st us rrp pc = Some (us', pc') \<and> same_groups us us'"
proof -
  have u: "map weight (ps[k := q]) = map weight ps" if "weight q = weight (ps ! k)" "k < length ps" for q and ps :: "rr_peer list"
    using that by (simp add: map_update list_update_same_conv)
  show ?thesis using assms
    by (auto simp: ngx_http_upstream_free_round_robin_peer_def ngx_http_upstream_rr_peer_unref_def Let_def same_group_def
        intro!: same_groups_update u)
qed

lemma pairs_bound:
  assumes "distinct cs" "\<forall>(g, i) \<in> set cs. g < length us \<and> i < length (peer_list (us ! g))"
  shows "length cs \<le> (\<Sum>g\<leftarrow>us. length (peer_list g))"
proof -
  have "set cs \<subseteq> (SIGMA g:{..<length us}. {..<length (peer_list (us ! g))})" using assms(2) by auto
  then have "card (set cs) \<le> card (SIGMA g:{..<length us}. {..<length (peer_list (us ! g))})" by (intro card_mono) auto
  also have "\<dots> = (\<Sum>g<length us. length (peer_list (us ! g)))" by simp
  also have "\<dots> = (\<Sum>g\<leftarrow>us. length (peer_list g))"
    by (simp add: sum_list_sum_nth atLeast0LessThan)
  finally show ?thesis using distinct_card[OF assms(1)] by simp
qed

text \<open>What a balancer owes the code that retries: it takes a peer not tried before, and its state stays good.\<close>

locale balancer =
  fixes get :: "'d balance" and rrp_of :: "'d \<Rightarrow> rr_peer_data" and ok :: "rr_peers list \<Rightarrow> 'd \<Rightarrow> bool"
  assumes get_peer: "ok us d \<Longrightarrow> \<exists>rc us' d' pc'. get now us d pc = Some (rc, us', d', pc') \<and> took us (rrp_of d) rc us' (rrp_of d')"
    and ok_later: "ok us d \<Longrightarrow> get now us d pc = Some (rc, us', d', pc') \<Longrightarrow> same_groups us' us'' \<Longrightarrow> ok us'' d'"
begin

lemma attempts_distinct:
  assumes "ok us d"
  shows "\<exists>cs us'. attempts get rrp_of es us d pc = Some (cs, us') \<and> distinct cs \<and>
    (\<forall>(g, i) \<in> set cs. rrp_peers (rrp_of d) \<le> g \<and> g < length us \<and> i < length (peer_list (us ! g)) \<and>
       (g = rrp_peers (rrp_of d) \<longrightarrow> \<not> marked (rrp_of d) i))"
  using assms
proof (induction es arbitrary: us d pc)
  case (Cons e es)
  obtain now later st where e: "e = (now, later, st)" by (cases e)
  from get_peer[OF Cons.prems, of now pc] obtain rc us1 d1 pc1 where
    g: "get now us d pc = Some (rc, us1, d1, pc1)" and t: "took us (rrp_of d) rc us1 (rrp_of d1)" by blast
  let ?r = "rrp_of d" and ?r1 = "rrp_of d1"
  show ?case
  proof (cases "rc = NGX_BUSY")
    case True
    then show ?thesis using g e by auto
  next
    case False
    then obtain k where s1: "same_groups us us1" and rp: "rrp_peers ?r \<le> rrp_peers ?r1" "rrp_peers ?r1 < length us"
      and k: "rrp_current ?r1 = Some k" "k < length (peer_list (us ! rrp_peers ?r1))" "marked ?r1 k"
      "rrp_peers ?r1 = rrp_peers ?r \<longrightarrow> \<not> marked ?r k \<and> (\<forall>i. marked ?r i \<longrightarrow> marked ?r1 i)"
      using t unfolding took_def by blast
    have len: "length (peer_list (vs ! g)) = length (peer_list (us ! g))" if "same_groups us vs" "g < length us" for vs g
      using same_group_length[OF same_groups_nth[OF that]] .
    have "rrp_peers ?r1 < length us1" "k < length (peer_list (us1 ! rrp_peers ?r1))"
      using rp(2) k(2) same_groups_length[OF s1] len[OF s1] by simp_all
    from free_keeps[OF this(1) k(1) this(2), of later st pc1] obtain us2 pc2 where
      f: "ngx_http_upstream_free_round_robin_peer later st us1 ?r1 pc1 = Some (us2, pc2)" "same_groups us1 us2" by blast
    have s: "same_groups us us2" using same_groups_trans[OF s1 f(2)] .
    from Cons.IH[OF ok_later[OF Cons.prems g f(2)], of pc2] obtain cs us' where a: "attempts get rrp_of es us2 d1 pc2 = Some (cs, us')" "distinct cs"
      "\<forall>(g, i) \<in> set cs. rrp_peers ?r1 \<le> g \<and> g < length us2 \<and> i < length (peer_list (us2 ! g)) \<and>
         (g = rrp_peers ?r1 \<longrightarrow> \<not> marked ?r1 i)" by blast
    have "attempts get rrp_of (e # es) us d pc = Some ((rrp_peers ?r1, k) # cs, us')"
      using g False k(1) f(1) a(1) e by simp
    moreover have "distinct ((rrp_peers ?r1, k) # cs)" using a(2,3) k(3) by auto
    moreover have "rrp_peers ?r \<le> g \<and> g < length us \<and> i < length (peer_list (us ! g)) \<and> (g = rrp_peers ?r \<longrightarrow> \<not> marked ?r i)"
      if "(g, i) \<in> set cs" for g i
    proof -
      have c: "rrp_peers ?r1 \<le> g" "g < length us" "i < length (peer_list (us ! g))" "g = rrp_peers ?r1 \<longrightarrow> \<not> marked ?r1 i"
        using a(3) that same_groups_length[OF s] len[OF s] by auto
      have "rrp_peers ?r1 = rrp_peers ?r" if "g = rrp_peers ?r" using that c(1) rp(1) by simp
      then show ?thesis using c rp(1) k(4) by auto
    qed
    ultimately show ?thesis using rp k(2,4) by (intro exI[of _ "(rrp_peers ?r1, k) # cs"] exI[of _ us']) auto
  qed
qed auto

lemma no_twice:
  assumes "ok us d" "\<forall>g \<in> set us. number g = length (peer_list g)"
  shows "\<exists>cs us'. attempts get rrp_of es us d pc = Some (cs, us') \<and> no_peer_twice us cs"
proof -
  obtain cs us' where c: "attempts get rrp_of es us d pc = Some (cs, us')" "distinct cs"
    "\<forall>(g, i) \<in> set cs. rrp_peers (rrp_of d) \<le> g \<and> g < length us \<and> i < length (peer_list (us ! g)) \<and>
       (g = rrp_peers (rrp_of d) \<longrightarrow> \<not> marked (rrp_of d) i)"
    using attempts_distinct[OF assms(1)] by blast
  have r: "\<forall>(g, i) \<in> set cs. g < length us \<and> i < length (peer_list (us ! g))" using c(3) by auto
  have e: "map number us = map (\<lambda>g. length (peer_list g)) us" using assms(2) by simp
  have "length cs \<le> (\<Sum>g\<leftarrow>us. number g)" using pairs_bound[OF c(2) r] by (simp only: e)
  moreover have "\<forall>(g, i) \<in> set cs. g < length us \<and> i < number (us ! g)" using r assms(2) by force
  ultimately show ?thesis using c(1,2) by (auto simp: no_peer_twice_def)
qed

end

definition several_ok :: "rr_peers list \<Rightarrow> rr_peer_data \<Rightarrow> bool" where
  "several_ok us rrp \<longleftrightarrow> rrp_ok us rrp \<and> (\<forall>g \<in> set us. \<not> single g)"

lemma several_ok_took:
  assumes "several_ok us rrp" "took us rrp rc us' rrp'" "same_groups us' us''"
  shows "several_ok us'' rrp'"
proof -
  have s: "same_groups us us''" using assms(2,3) same_groups_trans by (auto simp: took_def)
  have "\<forall>g \<in> set us''. \<not> single g"
    using assms(1) same_groups_nth[OF s] same_groups_length[OF s] by (simp add: several_ok_def all_set_conv_all_nth same_group_def)
  then show ?thesis using assms(1,2) rrp_ok_same[OF s] by (auto simp: several_ok_def took_def)
qed

interpretation rr_retry: balancer ngx_http_upstream_get_round_robin_peer "\<lambda>d. d" several_ok
proof
  show *: "\<exists>rc us' d' pc'. ngx_http_upstream_get_round_robin_peer now us d pc = Some (rc, us', d', pc') \<and> took us d rc us' d'"
    if "several_ok us d" for us d now pc
    using that rr.get_took by (auto simp: several_ok_def)
  fix us us' us'' :: "rr_peers list" and d d' now pc pc' rc
  assume a: "several_ok us d" "ngx_http_upstream_get_round_robin_peer now us d pc = Some (rc, us', d', pc')" "same_groups us' us''"
  then have "took us d rc us' d'" using *[OF a(1), of now pc] by auto
  then show "several_ok us'' d'" using several_ok_took[OF a(1) _ a(3)] by blast
qed

interpretation lc_retry: balancer ngx_http_upstream_get_least_conn_peer "\<lambda>d. d" several_ok
proof
  show *: "\<exists>rc us' d' pc'. ngx_http_upstream_get_least_conn_peer now us d pc = Some (rc, us', d', pc') \<and> took us d rc us' d'"
    if "several_ok us d" for us d now pc
    using that lc.get_took by (auto simp: several_ok_def)
  fix us us' us'' :: "rr_peers list" and d d' now pc pc' rc
  assume a: "several_ok us d" "ngx_http_upstream_get_least_conn_peer now us d pc = Some (rc, us', d', pc')" "same_groups us' us''"
  then have "took us d rc us' d'" using *[OF a(1), of now pc] by auto
  then show "several_ok us'' d'" using several_ok_took[OF a(1) _ a(3)] by blast
qed

interpretation ih_retry: balancer ngx_http_upstream_get_ip_hash_peer ih_rrp ip_hash_ok
proof
  show "\<exists>rc us' d' pc'. ngx_http_upstream_get_ip_hash_peer now us d pc = Some (rc, us', d', pc') \<and> took us (ih_rrp d) rc us' (ih_rrp d')"
    if "ip_hash_ok us d" for us d now pc
    using ip_hash_took[OF that] .
  fix us us' us'' :: "rr_peers list" and d d' now pc pc' rc
  assume a: "ip_hash_ok us d" "ngx_http_upstream_get_ip_hash_peer now us d pc = Some (rc, us', d', pc')" "same_groups us' us''"
  then have t: "took us (ih_rrp d) rc us' (ih_rrp d')" using ip_hash_took[OF a(1), of now pc] by auto
  have "several_ok us (ih_rrp d)" using a(1) by (auto simp: ip_hash_ok_def several_ok_def)
  from several_ok_took[OF this t a(3)] have so: "several_ok us'' (ih_rrp d')" .
  have s: "same_groups us us''" using t a(3) same_groups_trans by (auto simp: took_def)
  have "\<forall>g \<in> set us''. weighed g"
    using a(1) same_groups_nth[OF s] same_groups_length[OF s] weighed_same by (simp add: ip_hash_ok_def all_set_conv_all_nth) blast
  then show "ip_hash_ok us'' d'" using so by (auto simp: ip_hash_ok_def several_ok_def)
qed

section \<open>No peer is tried twice\<close>

text \<open>
  C4. With each of the three balancers (round robin, least connections, IP hash), a request that fails over is
  never sent to the same peer twice, whatever its attempts end with and whenever they happen, and so it makes at most as many
  attempts as the groups have peers. This holds from every state of the peers that the configuration can get into.
\<close>

theorem no_repeat:
  assumes "ngx_http_upstream_init_round_robin rh host port (Some ss) = (NGX_OK, us0)" "\<not> single (hd us0)"
    and "\<forall>s \<in> set ss. 0 < srv_weight s" "same_groups us0 us"
    and "ngx_http_upstream_init_round_robin_peer us = Some (rrp, n)" "ngx_http_upstream_init_ip_hash_peer client us = Some (d, m)"
  shows "(\<exists>cs us'. attempts ngx_http_upstream_get_round_robin_peer (\<lambda>d. d) es us rrp pc = Some (cs, us') \<and> no_peer_twice us cs) \<and>
    (\<exists>cs us'. attempts ngx_http_upstream_get_least_conn_peer (\<lambda>d. d) es us rrp pc = Some (cs, us') \<and> no_peer_twice us cs) \<and>
    (\<exists>cs us'. attempts ngx_http_upstream_get_ip_hash_peer ih_rrp es us d pc = Some (cs, us') \<and> no_peer_twice us cs)"
proof -
  note c = init_configured[OF assms(1)] and s = configured_same[OF assms(4)]
  have ns: "\<forall>g \<in> set us. \<not> single g" using s(2)[OF c(1) c(3)[OF assms(2)]] .
  have w: "\<forall>g \<in> set us. weighed g" using s(3)[OF c(1)] configured_weighed[OF assms(1,3)] by blast
  have cf: "configured us" using s(1)[OF c(1)] .
  then have n: "\<forall>g \<in> set us. number g = length (peer_list g)" by (simp add: configured_def)
  have ok: "several_ok us rrp" using init_peer_ok(1)[OF assms(5) cf] ns by (simp add: several_ok_def)
  have "ih_rrp d = rrp" using assms(5,6) by (auto simp: ngx_http_upstream_init_ip_hash_peer_def)
  then have ih: "ip_hash_ok us d" using ok w by (auto simp: ip_hash_ok_def several_ok_def)
  show ?thesis
    using rr_retry.no_twice[OF ok n] lc_retry.no_twice[OF ok n] ih_retry.no_twice[OF ih n] by blast
qed

theorem no_repeat_witness:
  "(\<exists>cs us'. attempts ngx_http_upstream_get_round_robin_peer (\<lambda>d. d) (replicate 5 (100, 101, NGX_PEER_FAILED)) demo_upstream demo_data demo_pc =
      Some (cs, us') \<and> no_peer_twice demo_upstream cs) \<and>
   (\<exists>cs us'. attempts ngx_http_upstream_get_least_conn_peer (\<lambda>d. d) (replicate 5 (100, 101, NGX_PEER_FAILED)) demo_upstream demo_data demo_pc =
      Some (cs, us') \<and> no_peer_twice demo_upstream cs) \<and>
   (\<exists>cs us'. attempts ngx_http_upstream_get_ip_hash_peer ih_rrp (replicate 5 (100, 101, NGX_PEER_FAILED)) demo_upstream
       \<lparr>ih_rrp = demo_data, ih_hash = 89, ih_addr = [10, 0, 0], ih_tries = 0\<rparr> demo_pc =
      Some (cs, us') \<and> no_peer_twice demo_upstream cs)"
  by (rule no_repeat[OF demo_upstream_init(1,5,7) same_groups_refl demo_data_init demo_ip_hash_init])

lemma demo_attempts:
  "map_option fst (attempts ngx_http_upstream_get_round_robin_peer (\<lambda>d. d) (replicate 5 (100, 101, NGX_PEER_FAILED)) demo_upstream demo_data demo_pc) =
     Some [(0, 0), (0, 1), (1, 0)]"
  "map_option fst (attempts ngx_http_upstream_get_least_conn_peer (\<lambda>d. d) (replicate 5 (100, 101, NGX_PEER_FAILED)) demo_upstream demo_data demo_pc) =
     Some [(0, 0), (0, 1), (1, 0)]"
  by code_simp+

end
