(* ===== verification/OJ_Tool.thy ===== *)
theory OJ_Tool
  imports Ngx_Escape
begin

text \<open>
  The judge's request helpers (\<^verbatim>\<open>src/OJ_Judge/code/tool.cpp\<close>) and the expression by which every handler
  takes the session token out of the \<open>Cookie\<close> header. A \<open>std::string\<close> is a byte list, \<open>npos\<close> is
  \<open>None\<close>, and an exception of \<open>substr\<close> is \<open>None\<close>. A \<open>std::map\<close> is a map.
\<close>

type_synonym str = "byte list"

section \<open>std::string\<close>

text \<open>\<open>s.find(c)\<close>.\<close>

fun find_char :: "byte \<Rightarrow> str \<Rightarrow> nat option" where
  "find_char c [] = None"
| "find_char c (x # s) = (if x = c then Some 0 else map_option Suc (find_char c s))"

text \<open>\<open>s.substr(0, n)\<close> and \<open>s.substr(n)\<close>, where \<open>n\<close> came out of \<open>find\<close>.\<close>

definition substr_to :: "str \<Rightarrow> nat option \<Rightarrow> str" where
  "substr_to s n = (case n of None \<Rightarrow> s | Some n \<Rightarrow> take n s)"

text \<open>\<open>s.substr(n + 1)\<close>: \<open>npos + 1\<close> is 0, and a start behind the end throws \<open>std::out_of_range\<close>.\<close>

definition substr_after :: "str \<Rightarrow> nat option \<Rightarrow> str option" where
  "substr_after s n = (case n of None \<Rightarrow> Some s | Some n \<Rightarrow> if n + 1 \<le> length s then Some (drop (n + 1) s) else None)"

section \<open>uriKV_get\<close>

text \<open>
  The body of the loop, \<open>n\<close> times: \<open>uriKV.insert\<close> keeps an entry that is already there. The
  position of \<open>&\<close> is stored in an \<open>int\<close>, where \<open>npos\<close> becomes \<open>-1\<close>.
\<close>

fun uriKV_loop :: "nat \<Rightarrow> str \<Rightarrow> (str \<rightharpoonup> str) \<Rightarrow> (str \<rightharpoonup> str) option" where
  "uriKV_loop 0 allKV uriKV = Some uriKV"
| "uriKV_loop (Suc n) allKV uriKV =
     (let len = find_char (B CHR ''&'') allKV;
          singleKV = substr_to allKV len
      in case substr_after allKV len of
           None \<Rightarrow> None
         | Some allKV \<Rightarrow>
             (let key = substr_to singleKV (find_char (B CHR ''='' ) singleKV)
              in case substr_after singleKV (find_char (B CHR ''='' ) singleKV) of
                   None \<Rightarrow> None
                 | Some value \<Rightarrow>
                     uriKV_loop n allKV (if uriKV key = None then uriKV(key \<mapsto> value) else uriKV)))"

definition uriKV_get :: "str \<Rightarrow> (str \<rightharpoonup> str) option" where
  "uriKV_get uri =
     (case substr_after uri (find_char (B CHR ''?'') uri) of
        None \<Rightarrow> None
      | Some allKV \<Rightarrow> uriKV_loop (length (filter (\<lambda>c. c = B CHR ''&'') allKV) + 1) allKV Map.empty)"

text \<open>\<open>KVpairs[key]\<close>: a missing key gives the empty string.\<close>

definition kv_at :: "(str \<rightharpoonup> str) \<Rightarrow> str \<Rightarrow> str" where
  "kv_at m k = (case m k of None \<Rightarrow> [] | Some v \<Rightarrow> v)"

section \<open>url_decode\<close>

definition is_space :: "byte \<Rightarrow> bool" where
  "is_space c \<longleftrightarrow> c = SP \<or> (9 \<le> c \<and> c \<le> 13)"

definition hex_int :: "str \<Rightarrow> int" where
  "hex_int ds = foldl (\<lambda>v c. 16 * v + uint (hex_byte c)) 0 ds"

text \<open>
  \<open>sscanf(s, "%x", &ii)\<close> as the C standard defines it: white space, a sign, a prefix \<open>0x\<close> that must
  be followed by a digit, and digits; \<open>None\<close> when nothing is stored.
\<close>

definition sscanf_x :: "str \<Rightarrow> int option" where
  "sscanf_x s =
     (let s = dropWhile is_space s;
          neg = (s \<noteq> [] \<and> hd s = B CHR ''-'');
          s = (if s \<noteq> [] \<and> (hd s = B CHR ''-'' \<or> hd s = B CHR ''+'') then tl s else s);
          pre = (2 \<le> length s \<and> s ! 0 = B CHR ''0'' \<and> (s ! 1 = B CHR ''x'' \<or> s ! 1 = B CHR ''X''));
          ds = takeWhile (\<lambda>c. is_digit c \<or> is_hex_alpha c) (if pre then drop 2 s else s)
      in if ds = [] then None else Some (if neg then - hex_int ds else hex_int ds))"

text \<open>
  \<open>ii\<close> is not initialised and keeps its value when \<open>sscanf\<close> stores nothing: its first value is the
  parameter \<open>ii\<close>.
\<close>

function url_decode_loop :: "str \<Rightarrow> int \<Rightarrow> str \<Rightarrow> str" where
  "url_decode_loop [] ii decoded = decoded"
| "url_decode_loop (c # s) ii decoded =
     (if c = B CHR ''%'' then
        (let ii = (case sscanf_x (take 2 s) of None \<Rightarrow> ii | Some v \<Rightarrow> v)
         in url_decode_loop (drop 2 s) ii (decoded @ [word_of_int ii]))
      else if c = B CHR ''+'' then url_decode_loop s ii (decoded @ [SP])
      else url_decode_loop s ii (decoded @ [c]))"
  by pat_completeness auto
termination by (relation "measure (\<lambda>(s, _, _). length s)") auto

definition url_decode :: "int \<Rightarrow> str \<Rightarrow> str" where
  "url_decode ii s = url_decode_loop s ii []"

section \<open>The session token\<close>

text \<open>\<open>prefix + cookie.substr(0, end).substr(start + 1)\<close> with \<open>start = find("=")\<close>, \<open>end = find(";")\<close>.\<close>

definition cookie_token :: "str \<Rightarrow> str \<Rightarrow> str option" where
  "cookie_token prefix cookie =
     map_option (\<lambda>t. prefix @ t)
       (substr_after (substr_to cookie (find_char (B CHR '';'') cookie)) (find_char (B CHR ''='' ) cookie))"

section \<open>Query strings\<close>

lemma find_char_None: "find_char c s = None \<longleftrightarrow> c \<notin> set s"
  by (induction s) auto

lemma find_char_append: "c \<notin> set s \<Longrightarrow> find_char c (s @ c # t) = Some (length s)"
  by (induction s) auto

lemma find_char_Some:
  "find_char c s = Some n \<Longrightarrow> n < length s \<and> s = take n s @ c # drop (Suc n) s \<and> c \<notin> set (take n s)"
  by (induction s arbitrary: n) (auto split: if_splits)

text \<open>The key and value of a piece of the query.\<close>

definition key_value :: "str \<Rightarrow> str \<times> str" where
  "key_value s = (if B CHR ''='' \<in> set s
     then (takeWhile (\<lambda>c. c \<noteq> B CHR ''='' ) s, tl (dropWhile (\<lambda>c. c \<noteq> B CHR ''='' ) s)) else (s, s))"

text \<open>What follows the first question mark; all of the string when there is none.\<close>

definition query_of :: "str \<Rightarrow> str" where
  "query_of uri = (if B CHR ''?'' \<in> set uri then tl (dropWhile (\<lambda>c. c \<noteq> B CHR ''?'') uri) else uri)"

lemma at_char:
  "c \<notin> set s \<Longrightarrow> takeWhile (\<lambda>x. x \<noteq> c) (s @ c # t) = s \<and> dropWhile (\<lambda>x. x \<noteq> c) (s @ c # t) = c # t"
  by (induction s) auto

lemma key_value_eq:
  "substr_to s (find_char (B CHR ''='' ) s) = fst (key_value s)"
  "substr_after s (find_char (B CHR ''='' ) s) = Some (snd (key_value s))"
proof -
  let ?c = "B CHR ''='' "
  have "substr_to s (find_char ?c s) = fst (key_value s) \<and> substr_after s (find_char ?c s) = Some (snd (key_value s))"
  proof (cases "?c \<in> set s")
    case True
    then obtain a b where s: "s = a @ ?c # b" "?c \<notin> set a" by (meson split_list_first)
    show ?thesis unfolding s(1) using s(2) at_char [OF s(2), of b] True
      by (simp add: key_value_def find_char_append substr_to_def substr_after_def del: of_char_Char)
  next
    case False
    then have "find_char ?c s = None" by (simp only: find_char_None not_False_eq_True)
    with False show ?thesis
      by (simp add: key_value_def substr_to_def substr_after_def del: of_char_Char)
  qed
  then show "substr_to s (find_char ?c s) = fst (key_value s)"
    "substr_after s (find_char ?c s) = Some (snd (key_value s))" by blast+
qed

lemma insert_first: "f ++ (if m k = None then m(k \<mapsto> v) else m) = f(k \<mapsto> v) ++ m"
  by (rule ext) (auto simp: map_add_def split: option.splits)

lemma uriKV_loop_eq:
  "uriKV_loop (length (filter (\<lambda>c. c = B CHR ''&'') s) + 1) s m =
     Some (map_of (map key_value (split_on (B CHR ''&'') s)) ++ m)"
proof (induction "length s" arbitrary: s m rule: less_induct)
  case less
  let ?c = "B CHR ''&'' "
  show ?case
  proof (cases "?c \<in> set s")
    case True
    then obtain a b where s: "s = a @ ?c # b" "?c \<notin> set a" by (meson split_list_first)
    then have "filter (\<lambda>c. c = ?c) a = []" by (auto simp: filter_empty_conv)
    with s less [of b "if m (fst (key_value a)) = None then m(fst (key_value a) \<mapsto> snd (key_value a)) else m"]
    show ?thesis
      by (simp add: find_char_append substr_to_def [of _ "Some _"] substr_after_def [of _ "Some _"]
        key_value_eq split_on_append Let_def insert_first del: of_char_Char)
  next
    case False
    then have "filter (\<lambda>c. c = ?c) s = []" "find_char ?c s = None"
      by (auto simp: filter_empty_conv find_char_None simp del: of_char_Char)
    then show ?thesis
      using False by (simp add: substr_to_def [of _ None] substr_after_def [of _ None] key_value_eq
        split_on_no Let_def insert_first [of Map.empty, simplified] del: of_char_Char)
  qed
qed

lemma uriKV_get_map:
  "uriKV_get uri = Some (map_of (map key_value (split_on (B CHR ''&'') (query_of uri))))"
proof -
  let ?c = "B CHR ''?'' "
  have "substr_after uri (find_char ?c uri) = Some (query_of uri)"
  proof (cases "?c \<in> set uri")
    case True
    then obtain a b where s: "uri = a @ ?c # b" "?c \<notin> set a" by (meson split_list_first)
    with at_char [OF s(2), of b] show ?thesis
      by (simp add: query_of_def find_char_append substr_after_def del: of_char_Char)
  next
    case False
    then have "find_char ?c uri = None" by (simp only: find_char_None not_False_eq_True)
    with False show ?thesis by (simp add: query_of_def substr_after_def del: of_char_Char)
  qed
  then show ?thesis using uriKV_loop_eq [of "query_of uri" Map.empty] by (simp add: uriKV_get_def)
qed

text \<open>
  C37. \<open>uriKV_get\<close> never throws, and it is the map of the pieces of the query string between \<open>&\<close> signs,
  each split at its first \<open>=\<close> sign; of several pieces with the same key the first counts, and a
  piece without \<open>=\<close> is its own value.
\<close>

theorem uriKV_get_eq:
  "uriKV_get uri = Some (map_of (map key_value (split_on (B CHR ''&'') (query_of uri))))"
  by (rule uriKV_get_map)

text \<open>
  The handlers decode the whole URI before they split it, so an escaped \<open>&\<close> or \<open>=\<close> inside a value
  starts a new parameter.
\<close>

lemma decode_then_split:
  "map_option (\<lambda>m. m (bytes ''role'')) (uriKV_get (url_decode 0 (bytes ''/p?title=a%26role=b''))) =
   Some (Some (bytes ''b''))"
  by code_simp

section \<open>Decoding what the front server or a browser encodes\<close>

lemma url_decode_acc: "url_decode_loop s ii (d @ d') = d @ url_decode_loop s ii d'"
  by (induction s ii d' arbitrary: d rule: url_decode_loop.induct) (simp_all add: Let_def)

lemma hex_not_special_all:
  "\<forall>c. is_digit c \<or> is_hex_alpha c \<longrightarrow> \<not> is_space c \<and> c \<noteq> 0x2d \<and> c \<noteq> 0x2b \<and> c \<noteq> 0x78 \<and> c \<noteq> 0x58"
  unfolding byte_all by code_simp

lemma hex_not_special:
  "is_digit c \<or> is_hex_alpha c \<Longrightarrow> \<not> is_space c \<and> c \<noteq> B CHR ''-'' \<and> c \<noteq> B CHR ''+'' \<and> c \<noteq> B CHR ''x'' \<and> c \<noteq> B CHR ''X''"
  using spec [OF hex_not_special_all, of c] by auto

lemma sscanf_x_pair: "sscanf_x [hex_hi c, hex_lo c] = Some (uint c)"
proof -
  have val: "hex_byte (hex_hi c) = drop_bit 4 c" "hex_byte (hex_lo c) = c AND 0xf"
    using hex_upper_nibble [OF byte_nibbles(1) [of c]] hex_upper_nibble [OF byte_nibbles(2) [of c]] by simp_all
  have "uint (drop_bit 4 c) = uint c div 16" "uint (c AND 0xf) = uint c mod 16"
    by (simp_all add: drop_bit_eq_div uint_div take_bit_eq_mod uint_mod
      take_bit_eq_mask [of 4 c, simplified mask_eq_exp_minus_1, simplified, symmetric])
  then have "hex_int [hex_hi c, hex_lo c] = uint c" by (simp add: hex_int_def val)
  moreover have "is_digit (hex_hi c) \<or> is_hex_alpha (hex_hi c)" "is_digit (hex_lo c) \<or> is_hex_alpha (hex_lo c)"
    using hex_pair by blast+
  ultimately show ?thesis
    using hex_not_special [of "hex_hi c"] hex_not_special [of "hex_lo c"]
    by (auto simp: sscanf_x_def Let_def simp del: of_char_Char)
qed

lemma url_decode_single:
  assumes "\<And>c. c \<in> {B CHR ''%'', B CHR ''+''} \<Longrightarrow> escape_bit (escape_map type) c"
  shows "\<exists>ii'. url_decode_loop (ngx_escape_uri [c] type @ t) ii d = url_decode_loop t ii' (d @ [c])"
proof (cases "escape_bit (escape_map type) c")
  case True
  then show ?thesis
    using sscanf_x_pair [of c] by (intro exI [of _ "uint c"]) (simp add: escape_uri_single)
next
  case False
  then have "c \<noteq> B CHR ''%''" "c \<noteq> B CHR ''+''" using assms by blast+
  then show ?thesis using False by (intro exI [of _ ii]) (simp add: escape_uri_single)
qed

lemma url_decode_escape_loop:
  assumes "\<And>c. c \<in> {B CHR ''%'', B CHR ''+''} \<Longrightarrow> escape_bit (escape_map type) c"
  shows "url_decode_loop (ngx_escape_uri s type) ii d = d @ s"
proof (induction s arbitrary: ii d)
  case (Cons c s)
  obtain ii' where "url_decode_loop (ngx_escape_uri [c] type @ ngx_escape_uri s type) ii d =
      url_decode_loop (ngx_escape_uri s type) ii' (d @ [c])"
    using url_decode_single [OF assms] by blast
  then show ?case using Cons uri.escape_Cons [of c s type] by simp
qed (simp add: uri.escape_Nil)

text \<open>
  C38. The judge's \<open>url_decode\<close> undoes percent encoding: applied to a string that was escaped as an
  argument or as a URI component, it returns the string, whatever the uninitialised variable of
  the decoder holds.
\<close>

theorem url_decode_escape:
  assumes "type \<in> {NGX_ESCAPE_ARGS, NGX_ESCAPE_URI_COMPONENT}"
  shows "url_decode ii (ngx_escape_uri s type) = s"
proof -
  have "escape_bit (escape_map type) c" if "c \<in> {B CHR ''%'', B CHR ''+''}" for c
    using assms that by (auto simp: escape_args_tab escape_uri_component_tab uri_unreserved_def)
  from url_decode_escape_loop [of type, OF this] show ?thesis by (simp add: url_decode_def)
qed

theorem url_decode_escape_witness:
  "url_decode 99 (bytes ''a%2Bb%20c'') = bytes ''a+b c'' \<and> url_decode 99 (bytes ''%zz'') = bytes ''c''"
proof -
  have "ngx_escape_uri (bytes ''a+b c'') NGX_ESCAPE_ARGS = bytes ''a%2Bb%20c''" by code_simp
  with url_decode_escape [of NGX_ESCAPE_ARGS 99 "bytes ''a+b c''"]
  have "url_decode 99 (bytes ''a%2Bb%20c'') = bytes ''a+b c''" by simp
  moreover have "url_decode 99 (bytes ''%zz'') = bytes ''c''" by code_simp
  ultimately show ?thesis by simp
qed

section \<open>The token of a cookie\<close>

lemma find_char_first: "c \<notin> set a \<Longrightarrow> find_char c (a @ t) = map_option (\<lambda>n. length a + n) (find_char c t)"
proof (induction a)
  case (Cons x a)
  then show ?case by (cases "find_char c t") auto
qed (cases "find_char c t"; simp)

lemma find_char_prefix: "c \<in> set a \<Longrightarrow> find_char c (a @ t) = find_char c a"
  by (induction a) auto

lemma substr_to_takeWhile: "substr_to s (find_char c s) = takeWhile (\<lambda>x. x \<noteq> c) s"
  by (induction s) (auto simp: substr_to_def split: option.splits)

lemma substr_after_in: "c \<in> set s \<Longrightarrow> substr_after s (find_char c s) = Some (tl (dropWhile (\<lambda>x. x \<noteq> c) s))"
  by (induction s) (auto simp: substr_after_def find_char_None split: option.splits if_splits)

lemma cookie_token_eq:
  "cookie_token prefix cookie =
     (let part = takeWhile (\<lambda>c. c \<noteq> B CHR '';'') cookie in
      if B CHR ''='' \<in> set part then Some (prefix @ tl (dropWhile (\<lambda>c. c \<noteq> B CHR ''='' ) part))
      else if B CHR ''='' \<in> set cookie then None
      else Some (prefix @ part))"
proof -
  let ?part = "takeWhile (\<lambda>c. c \<noteq> B CHR '';'') cookie"
  define eq where "eq = B CHR ''='' "
  obtain t where t: "cookie = ?part @ t" by (metis takeWhile_dropWhile_id)
  have "substr_after ?part (find_char eq cookie) =
      (if eq \<in> set ?part then Some (tl (dropWhile (\<lambda>c. c \<noteq> eq) ?part)) else if eq \<in> set cookie then None else Some ?part)"
  proof (cases "eq \<in> set ?part")
    case True
    then show ?thesis using find_char_prefix [OF True, of t] substr_after_in [OF True] t by metis
  next
    case False
    then have "find_char eq cookie = map_option (\<lambda>n. length ?part + n) (find_char eq t)"
      using find_char_first [of eq ?part t] t by metis
    moreover have "find_char eq cookie = None \<longleftrightarrow> eq \<notin> set cookie" by (rule find_char_None)
    ultimately show ?thesis using False by (auto simp: substr_after_def split: option.splits)
  qed
  then show ?thesis
    unfolding cookie_token_def substr_to_takeWhile eq_def Let_def by simp
qed

text \<open>
  C39. The token is what stands between the first \<open>=\<close> and the first \<open>;\<close> of the cookie, or all that
  stands before the \<open>;\<close> when the cookie has no \<open>=\<close>, behind the key prefix. A cookie whose first
  \<open>=\<close> comes after its first \<open>;\<close> makes \<open>substr\<close> throw \<open>std::out_of_range\<close>, which no handler
  catches; no other cookie does.
\<close>

theorem cookie_token_cases:
  "cookie_token prefix cookie =
     (let part = takeWhile (\<lambda>c. c \<noteq> B CHR '';'') cookie in
      if B CHR ''='' \<in> set part then Some (prefix @ tl (dropWhile (\<lambda>c. c \<noteq> B CHR ''='' ) part))
      else if B CHR ''='' \<in> set cookie then None
      else Some (prefix @ part))"
  by (rule cookie_token_eq)

end
