(* ===== verification/OJ_Judge.thy ===== *)
theory OJ_Judge
  imports OJ_Tool
begin

text \<open>
  The judging of a submission (\<^verbatim>\<open>src/OJ_Judge/code/judge.cpp\<close>): \<open>system_spawn_cmd\<close>, \<open>file_cmp\<close> and
  \<open>cpp_runner\<close>, the task that the thread pool runs. The operating system and Redis are not part of
  the repository: they are the parameter \<open>env\<close>, a record of the operations that the code calls on a
  state of the world, and the theorem about the verdict names what it needs of them in
  \<open>env_laws\<close>.
\<close>

section \<open>The environment\<close>

text \<open>
  \<open>wordexp\<close> splits a command into words (\<open>None\<close> on failure); \<open>spawn_wait\<close> is \<open>posix_spawn\<close>
  followed by \<open>waitpid\<close> (\<open>None\<close> when one of them fails, otherwise the status); \<open>file_data\<close> is the
  content of a file that can be opened; the Redis commands follow, and the three paths of the
  configuration file.
\<close>

record 'w env =
  wordexp :: "str \<Rightarrow> str list option"
  spawn_wait :: "str list \<Rightarrow> 'w \<Rightarrow> 32 word option \<times> 'w"
  file_data :: "'w \<Rightarrow> str \<Rightarrow> byte list option"
  redis_get :: "'w \<Rightarrow> str \<Rightarrow> str option"
  redis_set :: "str \<Rightarrow> str \<Rightarrow> 'w \<Rightarrow> 'w"
  redis_incr_cmd :: "str \<Rightarrow> 'w \<Rightarrow> 'w"
  redis_expire_cmd :: "str \<Rightarrow> int \<Rightarrow> 'w \<Rightarrow> 'w"
  workpath :: str
  inPath :: str
  ansPath :: str

text \<open>\<open>Runner_task\<close> of \<^verbatim>\<open>linuxHeader.h\<close>.\<close>

record Runner_task =
  path :: str
  file_name :: str
  porblem_id :: str
  test_num :: nat
  test_vec :: "(str \<times> str) list"

text \<open>\<open>std::to_string\<close> of a number that is not negative.\<close>

fun to_string :: "nat \<Rightarrow> str" where
  "to_string n = (if n < 10 then [B CHR ''0'' + of_nat n] else to_string (n div 10) @ [B CHR ''0'' + of_nat (n mod 10)])"

declare to_string.simps [simp del]

section \<open>Helpers\<close>

definition redis_set_field :: "('w, 'b) env_scheme \<Rightarrow> str \<Rightarrow> str \<Rightarrow> 'w \<Rightarrow> 'w" where
  "redis_set_field env key val w = redis_set env key val w"

definition redis_incr :: "('w, 'b) env_scheme \<Rightarrow> str \<Rightarrow> 'w \<Rightarrow> 'w" where
  "redis_incr env key w = redis_incr_cmd env key w"

definition redis_expire :: "('w, 'b) env_scheme \<Rightarrow> str \<Rightarrow> int \<Rightarrow> 'w \<Rightarrow> 'w" where
  "redis_expire env key seconds w = redis_expire_cmd env key seconds w"

definition system_spawn_cmd :: "('w, 'b) env_scheme \<Rightarrow> str \<Rightarrow> 'w \<Rightarrow> 32 word \<times> 'w" where
  "system_spawn_cmd env cmd w =
     (case wordexp env cmd of
        None \<Rightarrow> (-1, w)
      | Some words \<Rightarrow>
          if words = [] then (-1, w)
          else case spawn_wait env words w of
                 (None, w) \<Rightarrow> (-1, w)
               | (Some status, w) \<Rightarrow> (status, w))"

text \<open>The loop of \<open>file_cmp\<close>, which reads both files in blocks of 4096 bytes.\<close>

function file_cmp_loop :: "byte list \<Rightarrow> byte list \<Rightarrow> int" where
  "file_cmp_loop f1 f2 =
     (let buf1 = take 4096 f1; buf2 = take 4096 f2
      in if length buf1 \<noteq> length buf2 \<or> buf1 \<noteq> buf2 then 0
         else if 0 < length buf1 \<and> 0 < length buf2 then file_cmp_loop (drop 4096 f1) (drop 4096 f2)
         else 1)"
  by pat_completeness auto
termination
proof (relation "measure (\<lambda>(f1, f2). length f1)", goal_cases)
  case (2 f1 f2 buf1 buf2)
  then have "f1 \<noteq> []" by auto
  then show ?case by simp
qed simp

declare file_cmp_loop.simps [simp del]

definition file_cmp :: "('w, 'b) env_scheme \<Rightarrow> 'w \<Rightarrow> str \<Rightarrow> str \<Rightarrow> int" where
  "file_cmp env w path1 path2 =
     (case (file_data env w path1, file_data env w path2) of
        (Some f1, Some f2) \<Rightarrow> file_cmp_loop f1 f2
      | _ \<Rightarrow> -1)"

section \<open>cpp_runner\<close>

definition run_cmd :: "str" where
  "run_cmd = bytes ''/usr/local/bin/isolate --box-id='' @ bytes ''1'' @ bytes ''   '' @
     bytes ''--processes=1   '' @ bytes ''--mem=65536   '' @ bytes ''--wall-time=2   '' @
     bytes ''--stdin=input.txt   '' @ bytes ''--stdout=output.txt   '' @ bytes ''--stderr=error.txt   '' @
     bytes ''--run /box/runner''"

definition output_path :: "Runner_task \<Rightarrow> nat \<Rightarrow> str" where
  "output_path t i = path t @ bytes ''/'' @ file_name t @ bytes ''_output_'' @ to_string i @ bytes ''.txt''"

definition exe_path :: "('w, 'b) env_scheme \<Rightarrow> Runner_task \<Rightarrow> str" where
  "exe_path env t = workpath env @ bytes ''/isolate_1/'' @ file_name t @ bytes ''__run''"

text \<open>The commands of one test, in order.\<close>

definition case_cmds :: "('w, 'b) env_scheme \<Rightarrow> Runner_task \<Rightarrow> nat \<Rightarrow> str list" where
  "case_cmds env t i =
     [bytes ''/usr/local/bin/isolate --init --box-id=1'',
      bytes ''/usr/bin/cp '' @ exe_path env t @ bytes '' /var/local/lib/isolate/1/box/runner'',
      bytes ''/usr/bin/cp '' @ inPath env @ bytes ''/'' @ fst (test_vec t ! i) @
        bytes '' /var/local/lib/isolate/1/box/input.txt'',
      run_cmd,
      bytes ''/usr/bin/cp /var/local/lib/isolate/1/box/output.txt '' @ output_path t i,
      bytes ''/usr/local/bin/isolate --cleanup --box-id=1'']"

text \<open>\<open>status += system_spawn_cmd(...)\<close> for each of them, in an \<open>int\<close> of 32 bits.\<close>

fun run_cmds :: "('w, 'b) env_scheme \<Rightarrow> str list \<Rightarrow> 32 word \<times> 'w \<Rightarrow> 32 word \<times> 'w" where
  "run_cmds env [] (status, w) = (status, w)"
| "run_cmds env (cmd # cmds) (status, w) =
     (case system_spawn_cmd env cmd w of (st, w) \<Rightarrow> run_cmds env cmds (status + st, w))"

text \<open>
  The loop over the tests. \<open>lock\<close> makes the commands of one test a critical section;
  \<open>pthread_mutex_unlock\<close> adds 0.
\<close>

fun run_tests :: "('w, 'b) env_scheme \<Rightarrow> Runner_task \<Rightarrow> nat list \<Rightarrow> 32 word \<times> 'w \<Rightarrow> 32 word \<times> 'w" where
  "run_tests env t [] sw = sw"
| "run_tests env t (i # is) sw = run_tests env t is (run_cmds env (case_cmds env t i) sw)"

definition sum_key :: "Runner_task \<Rightarrow> str" where
  "sum_key t = bytes ''Judge:'' @ file_name t @ bytes ''__sum''"

definition case_key :: "Runner_task \<Rightarrow> nat \<Rightarrow> str" where
  "case_key t i = bytes ''Judge:'' @ file_name t @ bytes ''_'' @ to_string i"

definition case_passed :: "('w, 'b) env_scheme \<Rightarrow> Runner_task \<Rightarrow> 'w \<Rightarrow> nat \<Rightarrow> bool" where
  "case_passed env t w i \<longleftrightarrow>
     file_cmp env w (ansPath env @ bytes ''/'' @ snd (test_vec t ! i)) (output_path t i) = 1"

text \<open>The loop that compares the outputs.\<close>

fun check_tests :: "('w, 'b) env_scheme \<Rightarrow> Runner_task \<Rightarrow> nat list \<Rightarrow> 'w \<Rightarrow> 'w" where
  "check_tests env t [] w = w"
| "check_tests env t (i # is) w =
     (let w = (if case_passed env t w i
               then redis_incr env (sum_key t) (redis_set_field env (case_key t i) (bytes ''1'') w)
               else redis_set_field env (case_key t i) (bytes ''-1'') w)
      in check_tests env t is (redis_expire env (case_key t i) 40 w))"

definition cleanup_cmds :: "('w, 'b) env_scheme \<Rightarrow> Runner_task \<Rightarrow> str list" where
  "cleanup_cmds env t =
     [bytes ''/usr/bin/rm '' @ path t @ bytes ''/'' @ file_name t @ bytes ''.cpp'',
      bytes ''/usr/bin/rm '' @ exe_path env t]"

definition compile_cmd :: "('w, 'b) env_scheme \<Rightarrow> Runner_task \<Rightarrow> str" where
  "compile_cmd env t =
     bytes ''/usr/bin/g++ '' @ path t @ bytes ''/'' @ file_name t @ bytes ''.cpp'' @ bytes '' -o '' @ exe_path env t"

definition cpp_runner :: "('w, 'b) env_scheme \<Rightarrow> Runner_task \<Rightarrow> 'w \<Rightarrow> 'w" where
  "cpp_runner env t w =
     (case system_spawn_cmd env (compile_cmd env t) w of (status, w) \<Rightarrow>
        if status = 0 then
          (case run_tests env t [0..<test_num t] (0, w) of (status, w) \<Rightarrow>
             let w = (if status = 0 then check_tests env t [0..<test_num t] w
                      else redis_expire env (sum_key t) 40 (redis_set_field env (sum_key t) (bytes ''-3'') w))
             in snd (run_cmds env (cleanup_cmds env t) (status, w)))
        else
          (case run_cmds env (cleanup_cmds env t) (status, w) of (status, w) \<Rightarrow>
             redis_expire env (sum_key t) 40 (redis_set_field env (sum_key t) (bytes ''-2'') w)))"

section \<open>Comparing files\<close>

lemma file_cmp_loop_eq: "file_cmp_loop f1 f2 = (if f1 = f2 then 1 else 0)"
proof (induction f1 f2 rule: file_cmp_loop.induct)
  case (1 f1 f2)
  have split: "f1 = f2 \<longleftrightarrow> take 4096 f1 = take 4096 f2 \<and> drop 4096 f1 = drop 4096 f2"
    by (metis append_take_drop_id)
  show ?case
  proof (cases "take 4096 f1 = take 4096 f2 \<and> f1 \<noteq> []")
    case True
    then have "f2 \<noteq> []" by (metis take_eq_Nil zero_neq_numeral)
    with True 1 split show ?thesis by (subst file_cmp_loop.simps) (simp add: Let_def)
  next
    case False
    then show ?thesis using split by (subst file_cmp_loop.simps) (auto simp: Let_def)
  qed
qed

text \<open>
  \<open>file_cmp\<close> decides equality of the two files, although it reads them block by block: 1 for equal
  contents, 0 for different contents (also when one is a prefix of the other, at any length), and
  -1 when one of them cannot be opened.
\<close>

theorem file_cmp_exact:
  "file_cmp env w p1 p2 =
     (case (file_data env w p1, file_data env w p2) of
        (Some f1, Some f2) \<Rightarrow> if f1 = f2 then 1 else 0
      | _ \<Rightarrow> -1)"
  by (simp add: file_cmp_def file_cmp_loop_eq split: option.splits)

section \<open>Decimal numbers in Redis\<close>

definition parse_dec :: "str \<Rightarrow> nat" where
  "parse_dec s = foldl (\<lambda>v c. v * 10 + digit_val c) 0 s"

lemma digit_char: "d < 10 \<Longrightarrow> is_digit (B CHR ''0'' + of_nat d) \<and> digit_val (B CHR ''0'' + of_nat d) = d"
proof -
  have "list_all (\<lambda>d. is_digit (0x30 + word_of_nat d) \<and> digit_val (0x30 + word_of_nat d) = d) [0..<10]"
    by code_simp
  then show "d < 10 \<Longrightarrow> ?thesis" by (simp add: list_all_iff)
qed

lemma to_string_digits: "to_string n \<noteq> [] \<and> list_all is_digit (to_string n)"
proof (induction n rule: to_string.induct)
  case (1 n)
  then show ?case using digit_char [of n] digit_char [of "n mod 10"] by (subst (1 2) to_string.simps) simp
qed

lemma parse_to_string: "parse_dec (to_string n) = n"
proof (induction n rule: to_string.induct)
  case (1 n)
  show ?case
  proof (cases "n < 10")
    case True
    then show ?thesis using digit_char [of n] by (subst to_string.simps) (simp add: parse_dec_def)
  next
    case False
    then have "parse_dec (to_string n) = parse_dec (to_string (n div 10)) * 10 + n mod 10"
      using digit_char [of "n mod 10"] by (subst to_string.simps) (simp add: parse_dec_def)
    with 1 False show ?thesis by simp
  qed
qed

section \<open>The verdict\<close>

text \<open>
  What is relied on: the Redis documentation of GET after SET, INCR and EXPIRE (before the key
  expires), and that commands and Redis do not interfere with each other's state.
\<close>

definition env_laws :: "('w, 'b) env_scheme \<Rightarrow> bool" where
  "env_laws env \<longleftrightarrow>
     (\<forall>k v w. redis_get env (redis_set env k v w) = (redis_get env w)(k \<mapsto> v)) \<and>
     (\<forall>k n w. redis_get env w k = Some (to_string n) \<longrightarrow>
        redis_get env (redis_incr_cmd env k w) = (redis_get env w)(k \<mapsto> to_string (Suc n))) \<and>
     (\<forall>k n w. redis_get env (redis_expire_cmd env k n w) = redis_get env w) \<and>
     (\<forall>ws w. redis_get env (snd (spawn_wait env ws w)) = redis_get env w) \<and>
     (\<forall>k v w. file_data env (redis_set env k v w) = file_data env w) \<and>
     (\<forall>k w. file_data env (redis_incr_cmd env k w) = file_data env w) \<and>
     (\<forall>k n w. file_data env (redis_expire_cmd env k n w) = file_data env w)"

lemmas redis_defs = redis_set_field_def redis_incr_def redis_expire_def

lemma case_key_neq: "case_key t i \<noteq> sum_key t"
proof
  assume "case_key t i = sum_key t"
  then have "to_string i = bytes ''_sum''" by (simp add: case_key_def sum_key_def)
  moreover have "\<not> list_all is_digit (bytes ''_sum'')" by (simp add: is_digit_def)
  ultimately show False using to_string_digits [of i] by simp
qed

lemma spawn_redis: "env_laws env \<Longrightarrow> redis_get env (snd (system_spawn_cmd env cmd w)) = redis_get env w"
  unfolding system_spawn_cmd_def env_laws_def
  by (auto split: option.splits prod.splits) (metis snd_conv)+

lemma run_cmds_redis: "env_laws env \<Longrightarrow> redis_get env (snd (run_cmds env cmds (status, w))) = redis_get env w"
proof (induction cmds arbitrary: status w)
  case (Cons c cmds)
  then show ?case using spawn_redis [of env c w] by (cases "system_spawn_cmd env c w") simp
qed simp

lemma run_tests_redis: "env_laws env \<Longrightarrow> redis_get env (snd (run_tests env t is (status, w))) = redis_get env w"
proof (induction "is" arbitrary: status w)
  case (Cons i "is")
  then show ?case using run_cmds_redis [of env "case_cmds env t i" status w]
    by (cases "run_cmds env (case_cmds env t i) (status, w)") simp
qed simp

lemma case_passed_cong: "file_data env w = file_data env w' \<Longrightarrow> case_passed env t w = case_passed env t w'"
  by (rule ext) (simp add: case_passed_def file_cmp_def)

text \<open>The comparison loop adds one to the sum for every test that passed.\<close>

lemma check_tests_sum:
  assumes "env_laws env" "redis_get env w (sum_key t) = Some (to_string n)"
  shows "redis_get env (check_tests env t is w) (sum_key t) =
           Some (to_string (n + length (filter (case_passed env t w) is)))"
  using assms(2)
proof (induction "is" arbitrary: w n)
  case (Cons i "is")
  let ?set = "\<lambda>v. redis_set env (case_key t i) v w"
  let ?w = "redis_expire_cmd env (case_key t i) 40 (if case_passed env t w i
      then redis_incr_cmd env (sum_key t) (?set (bytes ''1'')) else ?set (bytes ''-1''))"
  have get: "redis_get env (?set v) (sum_key t) = Some (to_string n)" for v
    using assms(1) Cons.prems case_key_neq [of t i] by (simp add: env_laws_def)
  have "file_data env ?w = file_data env w" using assms(1) by (simp add: env_laws_def)
  then have p: "case_passed env t ?w = case_passed env t w" by (rule case_passed_cong)
  have "redis_get env ?w (sum_key t) = Some (to_string (if case_passed env t w i then Suc n else n))"
    using assms(1) get by (simp add: env_laws_def)
  from Cons.IH [OF this] p show ?case
    by (cases "case_passed env t w i") (simp_all add: redis_defs Let_def)
qed simp

lemma case_key_inj: "case_key t i = case_key t j \<longleftrightarrow> i = j"
proof
  assume "case_key t i = case_key t j"
  then have "parse_dec (to_string i) = parse_dec (to_string j)" by (simp add: case_key_def)
  then show "i = j" by (simp only: parse_to_string)
qed simp

text \<open>... and leaves the result of each test under the key of the test.\<close>

lemma check_tests_case:
  assumes "env_laws env" "redis_get env w (sum_key t) = Some (to_string n)"
  shows "redis_get env (check_tests env t is w) (case_key t j) =
    (if j \<in> set is then Some (if case_passed env t w j then bytes ''1'' else bytes ''-1'') else redis_get env w (case_key t j))"
  using assms(2)
proof (induction "is" arbitrary: w n)
  case (Cons i "is")
  let ?set = "\<lambda>v. redis_set env (case_key t i) v w"
  let ?w = "redis_expire_cmd env (case_key t i) 40 (if case_passed env t w i
      then redis_incr_cmd env (sum_key t) (?set (bytes ''1'')) else ?set (bytes ''-1''))"
  have get: "redis_get env (?set v) (sum_key t) = Some (to_string n)" for v
    using assms(1) Cons.prems case_key_neq [of t i] by (simp add: env_laws_def)
  have "file_data env ?w = file_data env w" using assms(1) by (simp add: env_laws_def)
  then have p: "case_passed env t ?w = case_passed env t w" by (rule case_passed_cong)
  have s: "redis_get env ?w (sum_key t) = Some (to_string (if case_passed env t w i then Suc n else n))"
    using assms(1) get by (simp add: env_laws_def)
  have c: "redis_get env ?w (case_key t j) =
      (if j = i then Some (if case_passed env t w i then bytes ''1'' else bytes ''-1'') else redis_get env w (case_key t j))"
    using assms(1) get case_key_neq [of t i] case_key_neq [of t j] case_key_inj [of t j i] by (simp add: env_laws_def)
  have "check_tests env t (i # is) w = check_tests env t is ?w" by (simp add: redis_defs Let_def)
  then show ?case using Cons.IH [OF s] unfolding p c by auto
qed simp

text \<open>
  C16. What \<open>cpp_runner\<close> leaves in Redis, when the key of the sum holds 0 at the start, as \<open>runCpp\<close> sets it, and no key
  expires: under the key of the sum, -2 when the compilation fails, -3 when the statuses of the sandbox commands
  do not add up to zero, and otherwise the number of tests whose output file equals the expected one; in this last case, under
  the key of each test, 1 when its output is the expected one and -1 when it is not. In the other cases the keys of
  the tests are as before.
\<close>

theorem cpp_runner_verdict:
  assumes "env_laws env" "redis_get env w (sum_key t) = Some (to_string 0)"
    "system_spawn_cmd env (compile_cmd env t) w = (st1, w1)"
    "run_tests env t [0..<test_num t] (0, w1) = (st2, w2)"
  shows "redis_get env (cpp_runner env t w) (sum_key t) =
     Some (if st1 \<noteq> 0 then bytes ''-2'' else if st2 \<noteq> 0 then bytes ''-3''
           else to_string (length (filter (case_passed env t w2) [0..<test_num t]))) \<and>
    (\<forall>i. redis_get env (cpp_runner env t w) (case_key t i) =
       (if st1 = 0 \<and> st2 = 0 \<and> i < test_num t then Some (if case_passed env t w2 i then bytes ''1'' else bytes ''-1'')
        else redis_get env w (case_key t i)))"
proof -
  have w1: "redis_get env w1 = redis_get env w" using spawn_redis [OF assms(1), of "compile_cmd env t" w] assms(3) by simp
  have w2: "redis_get env w2 = redis_get env w1"
    using run_tests_redis [OF assms(1), of t "[0..<test_num t]" 0 w1] assms(4) by simp
  have set: "redis_get env (redis_expire_cmd env (sum_key t) 40 (redis_set env (sum_key t) v u)) = (redis_get env u)(sum_key t \<mapsto> v)" for u v
    using assms(1) by (simp add: env_laws_def)
  have "redis_get env w2 (sum_key t) = Some (to_string 0)" using w1 w2 assms(2) by simp
  note check = check_tests_sum [OF assms(1) this] check_tests_case [OF assms(1) this]
  have "redis_get env (cpp_runner env t w) =
      (if st1 \<noteq> 0 then (redis_get env w)(sum_key t \<mapsto> bytes ''-2'')
       else if st2 \<noteq> 0 then (redis_get env w)(sum_key t \<mapsto> bytes ''-3'')
       else redis_get env (check_tests env t [0..<test_num t] w2))"
    by (simp add: cpp_runner_def assms(3,4) redis_defs Let_def case_prod_beta set w1 w2 run_cmds_redis [OF assms(1)])
  then show ?thesis using check w1 w2 case_key_neq [of t] by simp
qed

text \<open>An environment that obeys the laws: a key-value store, commands that succeed, two kinds of files.\<close>

definition demo_env :: "(str \<rightharpoonup> str) env" where
  "demo_env = \<lparr>wordexp = (\<lambda>c. Some [c]), spawn_wait = (\<lambda>ws w. (Some 0, w)),
     file_data = (\<lambda>w p. if p = bytes ''/ans/b'' then Some (bytes ''7'') else Some (bytes ''42'')),
     redis_get = (\<lambda>w. w), redis_set = (\<lambda>k v w. w(k \<mapsto> v)),
     redis_incr_cmd = (\<lambda>k w. case w k of None \<Rightarrow> w(k \<mapsto> to_string 1) | Some v \<Rightarrow> w(k \<mapsto> to_string (Suc (parse_dec v)))),
     redis_expire_cmd = (\<lambda>k n w. w), workpath = bytes ''/work'', inPath = bytes ''/in'', ansPath = bytes ''/ans''\<rparr>"

definition demo_task :: Runner_task where
  "demo_task = \<lparr>path = bytes ''/wait'', file_name = bytes ''u__p'', porblem_id = bytes ''p'', test_num = 2,
     test_vec = [(bytes ''a'', bytes ''a''), (bytes ''b'', bytes ''b'')]\<rparr>"

lemma demo_laws: "env_laws demo_env"
  by (simp add: env_laws_def demo_env_def parse_to_string)

lemma demo_spawn: "system_spawn_cmd demo_env cmd w = (0, w)"
  by (simp add: system_spawn_cmd_def demo_env_def)

lemma demo_cmds: "run_cmds demo_env cmds (0, w) = (0, w)"
  by (induction cmds) (simp_all add: demo_spawn)

lemma demo_tests: "run_tests demo_env t is (0, w) = (0, w)"
  by (induction "is") (simp_all add: demo_cmds)

theorem cpp_runner_verdict_witness:
  "(let w = [sum_key demo_task \<mapsto> to_string 0]; w' = cpp_runner demo_env demo_task w
    in redis_get demo_env w' (sum_key demo_task) = Some (to_string 1) \<and>
       redis_get demo_env w' (case_key demo_task 0) = Some (bytes ''1'') \<and>
       redis_get demo_env w' (case_key demo_task 1) = Some (bytes ''-1''))"
proof -
  let ?w = "[sum_key demo_task \<mapsto> to_string 0]"
  have "redis_get demo_env ?w (sum_key demo_task) = Some (to_string 0)" by (simp add: demo_env_def)
  note v = cpp_runner_verdict [OF demo_laws this demo_spawn demo_tests]
  have p: "case_passed demo_env demo_task ?w 0" "\<not> case_passed demo_env demo_task ?w 1"
    by (simp_all add: case_passed_def file_cmp_def file_cmp_loop_eq demo_env_def demo_task_def output_path_def)
  have "test_num demo_task = 2" by (simp add: demo_task_def)
  then show ?thesis using v p by (simp add: upt_rec)
qed

end
