(* ===== verification/OJ_Thread_Pool.thy ===== *)
theory OJ_Thread_Pool
  imports "HOL-Library.Word"
begin

text \<open>
  The thread pool of the judge (\<^verbatim>\<open>src/OJ_Judge/code/pthread_pool.cpp\<close>) as a transition system. An
  action is what one thread does between two points where it can be preempted: a critical
  section under \<open>mutexPool\<close> or \<open>mutexBusyNum\<close>, a call of \<open>pthread_cond_signal\<close>, a task, or an evaluation
  of a loop condition outside the locks. A thread in \<open>pthread_cond_wait\<close> goes on only when a signal wakes it
  (each call wakes one of the waiting threads, and has no effect when there is none) or by a spurious wake-up,
  an action of its own. The signals come after the unlocking, as in the code. \<open>pool_step\<close> is the executable step
  function and \<open>pool_run\<close> the runs it generates, with the events a run produces.

  The lemmas show what the counters count in every reachable state, tasks handed out once and in the
  order they were pushed, that no signal is lost: a queued task can always be run, without spurious wake-ups, as long as
  the pool is not shut down and its life is not limited; and that the destructor cannot return after a worker has left
  through the \<open>shutdown\<close> branch.
\<close>

section \<open>State\<close>

text \<open>
  Where a worker thread is: before it locks \<open>mutexPool\<close>, in \<open>pthread_cond_wait\<close>, woken in it, between taking a
  task and its signal, between the signal and counting itself busy, in the task, after the task, in \<open>exitThread\<close>, and
  ended by the \<open>shutdown\<close> branch.
\<close>

datatype 't worker_state =
    W_start | W_waiting | W_woken | W_popped 't | W_signalled 't | W_busy 't | W_done | W_exiting | W_gone

text \<open>
  Where the manager is: at the top of its loop, before the creation of threads, in the loop that
  asks threads to exit, before its signal, in \<open>sleep(3)\<close>, in the loop that ends the pool, before its signal, ended.
\<close>

datatype manager_pc = M_top | M_create | M_destroy | M_signal | M_sleep | M_final | M_final_signal | M_end

datatype destructor_pc = D_none | D_loop | D_signal | D_end

text \<open>
  The members of \<open>ThreadPool\<close>. A slot of \<open>threadID\<close> is \<open>None\<close> where the array holds 0; otherwise it
  stands for the thread whose id is there. \<open>pushing\<close> is the number of callers of \<open>push\<close> between the unlocking and the
  signal. \<open>exitNum\<close> is an \<open>int\<close> that the loops increment without bound, a word of 32 bits; the other numbers are bounded
  by the invariant below, and \<open>time\<close> by the code.
\<close>

record 't pool =
  task_queue :: "'t list"
  threadID :: "'t worker_state option list"
  minNum :: int
  maxNum :: int
  busyNum :: int
  liveNum :: int
  exitNum :: "32 word"
  waitTime :: int
  shutdown :: bool
  pushing :: nat
  manager :: manager_pc
  time :: int
  destructor :: destructor_pc

abbreviation INT_MAX :: int where "INT_MAX \<equiv> 2147483647"

text \<open>What an observer sees: a task pushed, taken from the queue by a thread, run by it.\<close>

datatype 't event = Pushed 't | Taken nat 't | Ran nat 't

text \<open>
  In an action that calls \<open>pthread_cond_signal\<close> the last number is the slot of the thread that the signal wakes.
\<close>

datatype 't action =
    Push 't           \<comment> \<open>a caller of \<open>push\<close>, up to the unlocking\<close>
  | Signal nat        \<comment> \<open>the signal of a caller of \<open>push\<close>\<close>
  | Worker nat nat    \<comment> \<open>the thread in that slot\<close>
  | Spurious nat      \<comment> \<open>a spurious wake-up of the thread in that slot\<close>
  | Manager nat       \<comment> \<open>the manager; \<open>pthread_create\<close> succeeds that many times\<close>
  | Destroy nat       \<comment> \<open>the thread that runs the destructor\<close>
  | Wait int          \<comment> \<open>a caller of \<open>wait\<close>\<close>

section \<open>Operations\<close>

definition ThreadPool :: "int \<Rightarrow> int \<Rightarrow> 't pool" where
  "ThreadPool mn mx = \<lparr>task_queue = [], threadID = replicate (nat mx) None, minNum = mn, maxNum = mx,
     busyNum = 0, liveNum = 0, exitNum = 0, waitTime = INT_MAX, shutdown = False,
     pushing = 0, manager = M_top, time = 0, destructor = D_none\<rparr>"

definition push :: "'t \<Rightarrow> 't pool \<Rightarrow> 't pool" where
  "push task s = s\<lparr>task_queue := task_queue s @ [task], pushing := pushing s + 1\<rparr>"

definition set_worker :: "nat \<Rightarrow> 't worker_state option \<Rightarrow> 't pool \<Rightarrow> 't pool" where
  "set_worker i w s = s\<lparr>threadID := (threadID s)[i := w]\<rparr>"

text \<open>\<open>pthread_cond_signal(&isEmpty)\<close>, which wakes the thread in the slot \<open>j\<close>; any waiting thread may be the one.\<close>

definition cond_signal :: "nat \<Rightarrow> 't pool \<Rightarrow> 't pool option" where
  "cond_signal j s =
     (if Some W_waiting \<notin> set (threadID s) then Some s
      else if j < length (threadID s) \<and> threadID s ! j = Some W_waiting then Some (set_worker j (Some W_woken) s)
      else None)"

definition push_signal :: "nat \<Rightarrow> 't pool \<Rightarrow> 't pool option" where
  "push_signal j s = (if pushing s = 0 then None else cond_signal j (s\<lparr>pushing := pushing s - 1\<rparr>))"

text \<open>
  The worker holds \<open>mutexPool\<close> and evaluates the condition of its inner loop: it goes to sleep,
  leaves the thread, or takes the task in front.
\<close>

definition worker_locked :: "nat \<Rightarrow> 't pool \<Rightarrow> 't pool \<times> 't event list" where
  "worker_locked i s =
     (if shutdown s then (set_worker i (Some W_gone) s, [])
      else case task_queue s of
        [] \<Rightarrow> (set_worker i (Some W_waiting) s, [])
      | task # rest \<Rightarrow> (set_worker i (Some (W_popped task)) (s\<lparr>task_queue := rest\<rparr>), [Taken i task]))"

fun worker_pc :: "nat \<Rightarrow> nat \<Rightarrow> 't worker_state \<Rightarrow> 't pool \<Rightarrow> ('t pool \<times> 't event list) option" where
  "worker_pc i j W_start s = Some (worker_locked i s)"
| "worker_pc i j W_waiting s = None"
| "worker_pc i j W_woken s =
     (if 0 < sint (exitNum s)
      then Some (set_worker i (Some W_exiting) (s\<lparr>exitNum := exitNum s - 1, liveNum := liveNum s - 1\<rparr>), [])
      else Some (worker_locked i s))"
| "worker_pc i j (W_popped task) s = map_option (\<lambda>s. (set_worker i (Some (W_signalled task)) s, [])) (cond_signal j s)"
| "worker_pc i j (W_signalled task) s = Some (set_worker i (Some (W_busy task)) (s\<lparr>busyNum := busyNum s + 1\<rparr>), [])"
| "worker_pc i j (W_busy task) s = Some (set_worker i (Some W_done) s, [Ran i task])"
| "worker_pc i j W_done s = Some (set_worker i (Some W_start) (s\<lparr>busyNum := busyNum s - 1\<rparr>), [])"
| "worker_pc i j W_exiting s = Some (set_worker i None s, [])"
| "worker_pc i j W_gone s = None"

definition worker :: "nat \<Rightarrow> nat \<Rightarrow> 't pool \<Rightarrow> ('t pool \<times> 't event list) option" where
  "worker i j s =
     (if i < length (threadID s)
      then case threadID s ! i of None \<Rightarrow> None | Some w \<Rightarrow> worker_pc i j w s
      else None)"

definition spurious :: "nat \<Rightarrow> 't pool \<Rightarrow> 't pool option" where
  "spurious i s =
     (if i < length (threadID s) \<and> threadID s ! i = Some W_waiting then Some (set_worker i (Some W_woken) s) else None)"

text \<open>
  The loop that fills empty slots; it stops at the first failure of \<open>pthread_create\<close>. The result
  includes the number of threads created.
\<close>

fun create_threads :: "nat \<Rightarrow> 't worker_state option list \<Rightarrow> 't worker_state option list \<times> int" where
  "create_threads n [] = ([], 0)"
| "create_threads n (Some w # ts) = (case create_threads n ts of (ts', k) \<Rightarrow> (Some w # ts', k))"
| "create_threads 0 (None # ts) = (None # ts, 0)"
| "create_threads (Suc n) (None # ts) = (case create_threads n ts of (ts', k) \<Rightarrow> (Some W_start # ts', k + 1))"

text \<open>
  \<open>busyNum < task_queue.size()\<close> compares as unsigned numbers, so a negative \<open>busyNum\<close> would not be
  less.
\<close>

definition manager_wants_threads :: "'t pool \<Rightarrow> bool" where
  "manager_wants_threads s \<longleftrightarrow>
     0 \<le> busyNum s \<and> busyNum s < int (length (task_queue s)) \<and> liveNum s < maxNum s"

definition manager_wants_exit :: "'t pool \<Rightarrow> bool" where
  "manager_wants_exit s \<longleftrightarrow> busyNum s * 2 < liveNum s \<and> liveNum s > minNum s"

definition manager_step :: "nat \<Rightarrow> 't pool \<Rightarrow> 't pool option" where
  "manager_step n s =
     (case manager s of
        M_top \<Rightarrow>
          Some (if shutdown s then s\<lparr>manager := M_end\<rparr>
                else if manager_wants_threads s then s\<lparr>manager := M_create\<rparr>
                else s\<lparr>manager := M_destroy\<rparr>)
      | M_create \<Rightarrow>
          (case create_threads n (threadID s) of (ts, k) \<Rightarrow>
             Some (s\<lparr>threadID := ts, liveNum := liveNum s + k, manager := M_destroy\<rparr>))
      | M_destroy \<Rightarrow>
          Some (if manager_wants_exit s then s\<lparr>exitNum := exitNum s + 1, manager := M_signal\<rparr> else s\<lparr>manager := M_sleep\<rparr>)
      | M_signal \<Rightarrow> cond_signal n (s\<lparr>manager := M_destroy\<rparr>)
      | M_sleep \<Rightarrow>
          (let t = (if busyNum s = 0 then (time s + 1) mod (INT_MAX - 1) else 0)
           in Some (s\<lparr>time := t, manager := (if t \<ge> waitTime s then M_final else M_top)\<rparr>))
      | M_final \<Rightarrow>
          Some (if liveNum s \<noteq> 0 then s\<lparr>exitNum := exitNum s + 1, manager := M_final_signal\<rparr> else s\<lparr>manager := M_end\<rparr>)
      | M_final_signal \<Rightarrow> cond_signal n (s\<lparr>manager := M_final\<rparr>)
      | M_end \<Rightarrow> None)"

definition destroy_step :: "nat \<Rightarrow> 't pool \<Rightarrow> 't pool option" where
  "destroy_step j s =
     (case destructor s of
        D_none \<Rightarrow> Some (s\<lparr>shutdown := True, destructor := D_loop\<rparr>)
      | D_loop \<Rightarrow>
          Some (if liveNum s \<noteq> 0 then s\<lparr>exitNum := exitNum s + 1, destructor := D_signal\<rparr> else s\<lparr>destructor := D_end\<rparr>)
      | D_signal \<Rightarrow> cond_signal j (s\<lparr>destructor := D_loop\<rparr>)
      | D_end \<Rightarrow> None)"

definition wait :: "int \<Rightarrow> 't pool \<Rightarrow> 't pool" where
  "wait w s = s\<lparr>waitTime := w\<rparr>"

fun pool_step :: "'t action \<Rightarrow> 't pool \<Rightarrow> ('t pool \<times> 't event list) option" where
  "pool_step (Push t) s = Some (push t s, [Pushed t])"
| "pool_step (Signal j) s = map_option (\<lambda>s'. (s', [])) (push_signal j s)"
| "pool_step (Worker i j) s = worker i j s"
| "pool_step (Spurious i) s = map_option (\<lambda>s'. (s', [])) (spurious i s)"
| "pool_step (Manager n) s = map_option (\<lambda>s'. (s', [])) (manager_step n s)"
| "pool_step (Destroy j) s = map_option (\<lambda>s'. (s', [])) (destroy_step j s)"
| "pool_step (Wait w) s = Some (wait w s, [])"

text \<open>Runs from a state, with their events.\<close>

inductive pool_run :: "'t pool \<Rightarrow> 't event list \<Rightarrow> 't pool \<Rightarrow> bool" where
  refl: "pool_run s [] s"
| step: "pool_run s es s' \<Longrightarrow> pool_step a s' = Some (s'', e) \<Longrightarrow> pool_run s (es @ e) s''"

text \<open>The same for a given schedule.\<close>

fun pool_exec :: "'t action list \<Rightarrow> 't pool \<Rightarrow> ('t pool \<times> 't event list) option" where
  "pool_exec [] s = Some (s, [])"
| "pool_exec (a # as) s =
     (case pool_step a s of
        None \<Rightarrow> None
      | Some (s', e) \<Rightarrow> map_option (\<lambda>(s'', es). (s'', e @ es)) (pool_exec as s'))"

section \<open>Runs\<close>

inductive_cases pool_run_cases: "pool_run s es s'"

lemma pool_run_trans: "pool_run s' es' s'' \<Longrightarrow> pool_run s es s' \<Longrightarrow> pool_run s (es @ es') s''"
proof (induction rule: pool_run.induct)
  case (step s' es' u a v e)
  then show ?case using pool_run.step [of s "es @ es'" u a v e] by simp
qed simp

lemma pool_run_step: "pool_step a s = Some (s', e) \<Longrightarrow> pool_run s e s'"
  using pool_run.step [OF pool_run.refl, of a s] by simp

lemma pool_run_Cons: "pool_step a s = Some (s', e) \<Longrightarrow> pool_run s' es s'' \<Longrightarrow> pool_run s (e @ es) s''"
  using pool_run_trans [of s' es s'' s e] pool_run_step by blast

lemma pool_exec_run: "pool_exec as s = Some (s', es) \<Longrightarrow> pool_run s es s'"
proof (induction as arbitrary: s es)
  case (Cons a as)
  then obtain u e es' where "pool_step a s = Some (u, e)" "pool_exec as u = Some (s', es')" "es = e @ es'"
    by (auto split: option.splits)
  with Cons.IH show ?case by (auto intro: pool_run_Cons)
qed (auto intro: pool_run.refl)

text \<open>An assertion that every action keeps holds after every run.\<close>

locale pool_invariant =
  fixes I :: "'t pool \<Rightarrow> bool"
  assumes keep: "I s \<Longrightarrow> pool_step a s = Some (s', e) \<Longrightarrow> I s'"
begin

lemma keep_run: "pool_run s es s' \<Longrightarrow> I s \<Longrightarrow> I s'"
  by (induction rule: pool_run.induct) (auto intro: keep)

end

section \<open>The counters\<close>

definition is_busy :: "'t worker_state option \<Rightarrow> bool" where
  "is_busy w \<longleftrightarrow> (case w of Some (W_busy _) \<Rightarrow> True | Some W_done \<Rightarrow> True | _ \<Rightarrow> False)"

text \<open>A thread that exists and has not announced its exit, and one that the \<open>shutdown\<close> branch has ended.\<close>

definition is_live :: "'t worker_state option \<Rightarrow> bool" where
  "is_live w \<longleftrightarrow> w \<notin> {None, Some W_exiting, Some W_gone}"

definition is_gone :: "'t worker_state option \<Rightarrow> bool" where
  "is_gone w \<longleftrightarrow> w = Some W_gone"

lemmas is_defs = is_busy_def is_live_def is_gone_def

definition count :: "('a \<Rightarrow> bool) \<Rightarrow> 'a list \<Rightarrow> int" where
  "count P xs = int (length (filter P xs))"

lemma count_update:
  "i < length xs \<Longrightarrow> count P (xs[i := y]) = count P xs + of_bool (P y) - of_bool (P (xs ! i))"
proof (induction xs arbitrary: i)
  case (Cons x xs)
  then show ?case by (cases i) (simp_all add: count_def)
qed simp

lemma mem_update: "x \<in> set (xs[i := y]) \<Longrightarrow> x = y \<or> x \<in> set xs"
  using set_update_subset_insert [of xs i y] by blast

lemma count_le: "0 \<le> count P xs" "count P xs \<le> int (length xs)"
  by (simp_all add: count_def)

lemma count_pos: "x \<in> set xs \<Longrightarrow> P x \<Longrightarrow> 0 < count P xs"
  by (auto simp: count_def dest: split_list)

definition pool_inv :: "'t pool \<Rightarrow> bool" where
  "pool_inv s \<longleftrightarrow>
     length (threadID s) = nat (maxNum s) \<and>
     busyNum s = count is_busy (threadID s) \<and>
     liveNum s = count is_live (threadID s) + count is_gone (threadID s) \<and>
     (shutdown s \<or> Some W_gone \<notin> set (threadID s))"

lemma worker_some:
  assumes "worker i j s = Some (s', e)"
  obtains w where "i < length (threadID s)" "threadID s ! i = Some w" "worker_pc i j w s = Some (s', e)"
  using assms by (auto simp: worker_def split: if_splits option.splits)

lemma set_worker_simps [simp]:
  "threadID (set_worker i w s) = (threadID s)[i := w]"
  "maxNum (set_worker i w s) = maxNum s" "busyNum (set_worker i w s) = busyNum s"
  "liveNum (set_worker i w s) = liveNum s" "exitNum (set_worker i w s) = exitNum s"
  "shutdown (set_worker i w s) = shutdown s" "task_queue (set_worker i w s) = task_queue s"
  "manager (set_worker i w s) = manager s" "waitTime (set_worker i w s) = waitTime s"
  "destructor (set_worker i w s) = destructor s" "pushing (set_worker i w s) = pushing s"
  by (simp_all add: set_worker_def)

lemma cond_signal_cases:
  assumes "cond_signal j s = Some s'"
  obtains (none) "s' = s" "Some W_waiting \<notin> set (threadID s)"
  | (one) "s' = set_worker j (Some W_woken) s" "j < length (threadID s)" "threadID s ! j = Some W_waiting"
  using assms by (auto simp: cond_signal_def split: if_splits)

lemma cond_signal_keeps:
  assumes "cond_signal j s = Some s'"
  shows "maxNum s' = maxNum s" "busyNum s' = busyNum s" "liveNum s' = liveNum s" "exitNum s' = exitNum s" "shutdown s' = shutdown s"
    "task_queue s' = task_queue s" "manager s' = manager s" "waitTime s' = waitTime s" "destructor s' = destructor s"
    "pushing s' = pushing s" "length (threadID s') = length (threadID s)"
    "threadID s ! i \<noteq> Some W_waiting \<Longrightarrow> threadID s' ! i = threadID s ! i"
  by (rule cond_signal_cases [OF assms]; (cases "i = j")?; simp)+

lemma woken_inv: "pool_inv s \<Longrightarrow> j < length (threadID s) \<Longrightarrow> threadID s ! j = Some W_waiting \<Longrightarrow>
    pool_inv (set_worker j (Some W_woken) s)"
  by (auto simp: pool_inv_def count_update is_defs dest!: mem_update)

lemma cond_signal_inv: "pool_inv s \<Longrightarrow> cond_signal j s = Some s' \<Longrightarrow> pool_inv s'"
  by (erule cond_signal_cases) (auto intro: woken_inv)

lemma worker_locked_inv:
  assumes "pool_inv s" "i < length (threadID s)" "threadID s ! i \<in> {Some W_start, Some W_woken}"
  shows "pool_inv (fst (worker_locked i s))"
  using assms
  by (auto simp: pool_inv_def worker_locked_def count_update is_defs
      split: list.splits dest!: mem_update)

lemma worker_inv:
  assumes "pool_inv s" "worker i j s = Some (s', e)"
  shows "pool_inv s'"
  using assms(2)
proof (rule worker_some)
  fix w
  assume w: "i < length (threadID s)" "threadID s ! i = Some w" "worker_pc i j w s = Some (s', e)"
  then show ?thesis
  proof (cases w)
    case W_start
    then show ?thesis using worker_locked_inv [OF assms(1) w(1)] w by (metis fst_conv insertI1 option.sel worker_pc.simps(1))
  next
    case W_woken
    show ?thesis
    proof (cases "0 < sint (exitNum s)")
      case True
      then show ?thesis using w W_woken assms(1)
        by (auto simp: pool_inv_def count_update is_defs dest!: mem_update)
    next
      case False
      then show ?thesis using worker_locked_inv [OF assms(1) w(1)] w W_woken by auto
    qed
  next
    case (W_popped task)
    then obtain s1 where s1: "cond_signal j s = Some s1" "s' = set_worker i (Some (W_signalled task)) s1" using w by auto
    have "pool_inv s1" using cond_signal_inv [OF assms(1) s1(1)] .
    moreover have "threadID s1 ! i = Some w" "i < length (threadID s1)"
      using cond_signal_keeps(11,12) [OF s1(1)] w W_popped by simp_all
    ultimately show ?thesis using s1(2) W_popped
      by (auto simp: pool_inv_def count_update is_defs dest!: mem_update)
  qed (use w assms(1) in \<open>auto simp: pool_inv_def count_update is_defs dest!: mem_update\<close>)
qed

lemma create_threads_props:
  "create_threads n ts = (ts', k) \<Longrightarrow> length ts' = length ts \<and> count is_busy ts' = count is_busy ts \<and>
     count is_live ts' = count is_live ts + k \<and> count is_gone ts' = count is_gone ts \<and> 0 \<le> k \<and>
     (Some W_gone \<in> set ts' \<longleftrightarrow> Some W_gone \<in> set ts) \<and> (set ts' \<subseteq> {Some W_waiting} \<longleftrightarrow> set ts \<subseteq> {Some W_waiting})"
  by (induction n ts arbitrary: ts' k rule: create_threads.induct)
    (auto simp: count_def is_defs split: prod.splits)

lemma pool_inv_fields: "pool_inv (s\<lparr>exitNum := x, manager := m\<rparr>) = pool_inv s" "pool_inv (s\<lparr>exitNum := x, destructor := d\<rparr>) = pool_inv s"
  "pool_inv (s\<lparr>exitNum := x\<rparr>) = pool_inv s" "pool_inv (s\<lparr>manager := m\<rparr>) = pool_inv s" "pool_inv (s\<lparr>destructor := d\<rparr>) = pool_inv s"
  "pool_inv (s\<lparr>pushing := p\<rparr>) = pool_inv s" "pool_inv (s\<lparr>time := u, manager := m\<rparr>) = pool_inv s"
  by (simp_all add: pool_inv_def)

lemma manager_inv: "pool_inv s \<Longrightarrow> manager_step n s = Some s' \<Longrightarrow> pool_inv s'"
  using cond_signal_inv [of "s\<lparr>manager := M_destroy\<rparr>" n s'] cond_signal_inv [of "s\<lparr>manager := M_final\<rparr>" n s']
  by (auto simp: manager_step_def pool_inv_fields Let_def split: manager_pc.splits prod.splits if_splits)
    (auto simp: pool_inv_def dest!: create_threads_props)

lemma destroy_inv: "pool_inv s \<Longrightarrow> destroy_step j s = Some s' \<Longrightarrow> pool_inv s'"
  using cond_signal_inv [of "s\<lparr>destructor := D_loop\<rparr>" j s']
  by (auto simp: destroy_step_def pool_inv_fields split: destructor_pc.splits if_splits) (simp add: pool_inv_def)

lemma push_inv: "pool_inv s \<Longrightarrow> pool_inv (push t s)" and wait_inv: "pool_inv s \<Longrightarrow> pool_inv (wait w s)"
  by (simp_all add: pool_inv_def push_def wait_def)

lemma push_signal_inv: "pool_inv s \<Longrightarrow> push_signal j s = Some s' \<Longrightarrow> pool_inv s'"
  using cond_signal_inv [of "s\<lparr>pushing := pushing s - 1\<rparr>" j s'] by (simp add: push_signal_def pool_inv_fields split: if_splits)

lemma spurious_inv: "pool_inv s \<Longrightarrow> spurious j s = Some s' \<Longrightarrow> pool_inv s'"
  by (auto simp: spurious_def split: if_splits intro: woken_inv)

interpretation pool: pool_invariant pool_inv
proof
  fix s s' :: "'t pool" and a e
  assume "pool_inv s" "pool_step a s = Some (s', e)"
  then show "pool_inv s'"
    by (cases a) (auto intro: worker_inv manager_inv destroy_inv push_inv wait_inv push_signal_inv spurious_inv)
qed

text \<open>The limits given to the constructor never change.\<close>

lemma worker_limits: "worker_pc i j w s = Some (s', e) \<Longrightarrow> maxNum s' = maxNum s"
  by (cases w) (auto simp: worker_locked_def cond_signal_keeps split: if_splits list.splits)

lemma manager_limits: "manager_step n s = Some s' \<Longrightarrow> maxNum s' = maxNum s"
  by (auto simp: manager_step_def Let_def dest: cond_signal_keeps(1) split: manager_pc.splits prod.splits if_splits)

lemma destroy_limits: "destroy_step j s = Some s' \<Longrightarrow> maxNum s' = maxNum s"
  by (auto simp: destroy_step_def dest: cond_signal_keeps(1) split: destructor_pc.splits if_splits)

interpretation pool_limits: pool_invariant "\<lambda>s. maxNum s = mx" for mx
proof
  fix s s' :: "'t pool" and a e
  assume "maxNum s = mx" "pool_step a s = Some (s', e)"
  then show "maxNum s' = mx"
    by (cases a) (auto simp: push_def wait_def push_signal_def spurious_def elim!: worker_some
      dest: worker_limits manager_limits destroy_limits cond_signal_keeps(1) split: if_splits)
qed

lemma ThreadPool_inv: "pool_inv (ThreadPool mn mx)"
  by (simp add: pool_inv_def ThreadPool_def count_def is_defs)

text \<open>
  C15. In every state a pool can reach, \<open>busyNum\<close> is the number of threads between the increment and
  the decrement around a task, and \<open>liveNum\<close> is the number of threads that exist and have not announced their exit plus the
  number of threads that the \<open>shutdown\<close> branch has ended: it is exact as long as the pool is not shut down, and after that
  it may count threads that have ended (see C36). The number of busy threads is at most that of the live ones, and
  \<open>liveNum\<close> is at most \<open>maxNum\<close>.
\<close>

theorem pool_counters:
  assumes "pool_run (ThreadPool mn mx) es s" "0 \<le> mx"
  shows "busyNum s = count is_busy (threadID s) \<and>
         liveNum s = count is_live (threadID s) + count is_gone (threadID s) \<and>
         (\<not> shutdown s \<longrightarrow> count is_gone (threadID s) = 0) \<and>
         0 \<le> busyNum s \<and> busyNum s \<le> count is_live (threadID s) \<and> liveNum s \<le> maxNum s"
proof -
  have inv: "pool_inv s" using pool.keep_run [OF assms(1) ThreadPool_inv] .
  have "is_busy w \<Longrightarrow> is_live w" for w :: "'a worker_state option"
    by (auto simp: is_defs split: option.splits worker_state.splits)
  then have "filter is_busy (threadID s) = filter is_busy (filter is_live (threadID s))"
    by (auto intro: filter_cong)
  then have busy: "length (filter is_busy (threadID s)) \<le> length (filter is_live (threadID s))"
    by (metis length_filter_le)
  have "is_gone w \<Longrightarrow> \<not> is_live w" for w :: "'a worker_state option" by (auto simp: is_defs)
  then have "length (filter is_live ws) + length (filter is_gone ws) \<le> length ws" for ws :: "'a worker_state option list"
    by (induction ws) auto
  then have live: "length (filter is_live (threadID s)) + length (filter is_gone (threadID s)) \<le> length (threadID s)" .
  have "\<not> shutdown s \<Longrightarrow> filter is_gone (threadID s) = []"
    using inv by (auto simp: pool_inv_def is_gone_def filter_empty_conv)
  moreover have "maxNum s = mx"
    using pool_limits.keep_run [OF assms(1)] by (simp add: ThreadPool_def)
  ultimately show ?thesis using inv busy live assms(2) by (auto simp: pool_inv_def count_def)
qed

theorem pool_counters_witness:
  "\<exists>es s. pool_run (ThreadPool 1 2) es (s :: nat pool) \<and> busyNum s = 1 \<and> liveNum s = 2 \<and> liveNum s \<le> maxNum s"
proof -
  have e: "map_option (\<lambda>(s, es). (es, busyNum s, liveNum s))
      (pool_exec [Push 7, Manager 0, Manager 9, Worker 0 0, Worker 0 0, Worker 0 0] (ThreadPool 1 2)) =
      Some ([Pushed (7 :: nat), Taken 0 7], 1, 2)" by code_simp
  then obtain s :: "nat pool" and es where
    "pool_exec [Push 7, Manager 0, Manager 9, Worker 0 0, Worker 0 0, Worker 0 0] (ThreadPool 1 2) = Some (s, es)"
    and "busyNum s = 1" "liveNum s = 2" by (auto simp: map_option_case split: option.splits)
  with pool_counters [OF pool_exec_run, of _ 1 2 s es] show ?thesis
    using pool_exec_run by fastforce
qed

section \<open>The queue\<close>

fun pushed :: "'t event list \<Rightarrow> 't list" where
  "pushed [] = []" | "pushed (Pushed t # es) = t # pushed es" | "pushed (_ # es) = pushed es"

fun taken :: "'t event list \<Rightarrow> 't list" where
  "taken [] = []" | "taken (Taken i t # es) = t # taken es" | "taken (_ # es) = taken es"

lemma pushed_append [simp]: "pushed (es @ es') = pushed es @ pushed es'"
  by (induction es rule: pushed.induct) simp_all

lemma taken_append [simp]: "taken (es @ es') = taken es @ taken es'"
  by (induction es rule: taken.induct) simp_all

lemma worker_pc_queue: "worker_pc i j w s = Some (s', e) \<Longrightarrow> pushed e = [] \<and> task_queue s = taken e @ task_queue s'"
  by (cases w) (auto simp: worker_locked_def cond_signal_keeps split: if_splits list.splits)

lemma manager_queue: "manager_step n s = Some s' \<Longrightarrow> task_queue s' = task_queue s"
  by (auto simp: manager_step_def Let_def dest: cond_signal_keeps(6) split: manager_pc.splits prod.splits if_splits)

lemma destroy_queue: "destroy_step j s = Some s' \<Longrightarrow> task_queue s' = task_queue s"
  by (auto simp: destroy_step_def dest: cond_signal_keeps(6) split: destructor_pc.splits if_splits)

lemma pool_step_queue:
  "pool_step a s = Some (s', e) \<Longrightarrow> task_queue s @ pushed e = taken e @ task_queue s'"
  by (cases a) (auto simp: push_def wait_def push_signal_def spurious_def elim!: worker_some
      dest: worker_pc_queue manager_queue destroy_queue cond_signal_keeps(6) split: if_splits)

text \<open>
  C8. The pool is a first-in first-out queue: after any run, the tasks pushed so far are, in this order,
  the tasks handed to worker threads followed by the tasks still waiting. So no task is lost,
  duplicated or overtaken, whatever the interleaving of workers, manager and destructor.
\<close>

theorem pool_fifo:
  assumes "pool_run (ThreadPool mn mx) es s"
  shows "pushed es = taken es @ task_queue s"
proof -
  have "task_queue s0 @ pushed es = taken es @ task_queue s" if "pool_run s0 es s" for s0 :: "'a pool"
    using that
  proof (induction rule: pool_run.induct)
    case (step s es s' a s'' e)
    then show ?case using pool_step_queue [OF step.hyps(2)] by (metis append.assoc pushed_append taken_append)
  qed simp
  from this [OF assms] show ?thesis by (simp add: ThreadPool_def)
qed

theorem pool_fifo_witness:
  "\<exists>s. pool_run (ThreadPool 1 2) [Pushed (7 :: nat), Pushed 8, Taken 1 7] s \<and> task_queue s = [8]"
proof -
  have "map_option snd (pool_exec [Push 7, Push 8, Manager 0, Manager 9, Worker 1 0] (ThreadPool 1 2)) =
      Some [Pushed (7 :: nat), Pushed 8, Taken 1 7]" by code_simp
  then obtain s where "pool_exec [Push 7, Push 8, Manager 0, Manager 9, Worker 1 0] (ThreadPool 1 2) =
      Some (s, [Pushed (7 :: nat), Pushed 8, Taken 1 7])"
    by (auto simp del: pool_exec.simps)
  then have "pool_run (ThreadPool 1 2) [Pushed (7 :: nat), Pushed 8, Taken 1 7] s" by (rule pool_exec_run)
  with pool_fifo [OF this] show ?thesis by auto
qed

section \<open>No signal is lost\<close>

text \<open>
  When there is work in the queue and no caller of \<open>push\<close> is about to signal, not every slot holds a waiting thread: some thread
  will look at the queue, or there is a free slot, or there will be one.
\<close>

definition attended :: "'t pool \<Rightarrow> bool" where
  "attended s \<longleftrightarrow> pool_inv s \<and> 0 < maxNum s \<and>
     (shutdown s \<or> task_queue s = [] \<or> 0 < pushing s \<or> \<not> set (threadID s) \<subseteq> {Some W_waiting})"

lemma attended_other:
  assumes "pool_inv s" "0 < maxNum s" "i < length (threadID s)" "threadID s ! i \<noteq> Some W_waiting"
  shows "attended s"
proof -
  have "\<not> set (threadID s) \<subseteq> {Some W_waiting}" using nth_mem [OF assms(3)] assms(4) by blast
  then show ?thesis using assms(1,2) by (simp add: attended_def)
qed

lemma attended_signal:
  assumes "pool_inv s" "0 < maxNum s" "cond_signal j s = Some s'"
  shows "attended s'"
  using assms(3)
proof (cases rule: cond_signal_cases)
  case none
  have l: "0 < length (threadID s)" using assms(1,2) by (simp add: pool_inv_def)
  then have "threadID s ! 0 \<noteq> Some W_waiting" using none(2) nth_mem by metis
  then show ?thesis using attended_other [OF assms(1,2) l] none(1) by simp
next
  case one
  then show ?thesis using assms(2) cond_signal_inv [OF assms(1,3)] by (intro attended_other [of s' j]) simp_all
qed

lemma attended_worker:
  assumes "attended s" "worker i j s = Some (s', e)"
  shows "attended s'"
  using assms(2)
proof (rule worker_some)
  fix w
  assume w: "i < length (threadID s)" "threadID s ! i = Some w" "worker_pc i j w s = Some (s', e)"
  have inv: "pool_inv s'" "0 < maxNum s'"
    using worker_inv [of s i j s' e] assms worker_limits [OF w(3)] by (simp_all add: attended_def)
  have "length (threadID s') = length (threadID s) \<and> (threadID s' ! i \<noteq> Some W_waiting \<or> task_queue s' = [])"
    using w by (cases w) (auto simp: worker_locked_def cond_signal_keeps split: if_splits list.splits)
  then show ?thesis
  proof (elim conjE disjE)
    assume "length (threadID s') = length (threadID s)" "threadID s' ! i \<noteq> Some W_waiting"
    then show ?thesis using inv w(1) by (intro attended_other [of s' i]) simp_all
  qed (simp add: attended_def inv)
qed

lemma attended_manager:
  assumes "attended s" "manager_step n s = Some s'"
  shows "attended s'"
proof -
  have inv: "pool_inv s'" "0 < maxNum s'"
    using manager_inv [of s n s'] assms manager_limits [OF assms(2)] by (simp_all add: attended_def)
  show ?thesis
    using assms inv attended_signal [of "s\<lparr>manager := M_destroy\<rparr>" n s'] attended_signal [of "s\<lparr>manager := M_final\<rparr>" n s']
    by (auto simp: manager_step_def pool_inv_fields attended_def Let_def split: manager_pc.splits prod.splits if_splits
      dest!: create_threads_props)
qed

lemma attended_destroy:
  assumes "attended s" "destroy_step j s = Some s'"
  shows "attended s'"
proof -
  have inv: "pool_inv s'" "0 < maxNum s'"
    using destroy_inv [of s j s'] assms destroy_limits [OF assms(2)] by (simp_all add: attended_def)
  show ?thesis
    using assms inv attended_signal [of "s\<lparr>destructor := D_loop\<rparr>" j s']
    by (auto simp: destroy_step_def pool_inv_fields attended_def split: destructor_pc.splits if_splits)
qed

interpretation attended: pool_invariant attended
proof
  fix s s' :: "'t pool" and a e
  assume st: "attended s" "pool_step a s = Some (s', e)"
  then have "pool_inv s'" "0 < maxNum s'"
    using pool.keep [of s a s' e] pool_limits.keep [of s "maxNum s" a s' e] by (auto simp: attended_def)
  with st show "attended s'"
  proof (cases a)
    case (Signal j)
    then have "cond_signal j (s\<lparr>pushing := pushing s - 1\<rparr>) = Some s'" using st by (auto simp: push_signal_def split: if_splits)
    then show ?thesis using st(1) by (intro attended_signal [of "s\<lparr>pushing := pushing s - 1\<rparr>" j])
      (simp_all add: attended_def pool_inv_fields)
  next
    case (Spurious i)
    then have "s' = set_worker i (Some W_woken) s" "i < length (threadID s)" using st by (auto simp: spurious_def split: if_splits)
    then show ?thesis using \<open>pool_inv s'\<close> \<open>0 < maxNum s'\<close> by (intro attended_other [of s' i]) simp_all
  next
    case (Worker i j)
    then show ?thesis using st attended_worker by simp
  next
    case (Manager n)
    then show ?thesis using st attended_manager by auto
  next
    case (Destroy j)
    then show ?thesis using st attended_destroy by auto
  qed (auto simp: attended_def push_def wait_def)
qed

section \<open>Queued tasks can run\<close>

text \<open>The actions of the pool itself: no further task, no spurious wake-up, no destructor.\<close>

fun of_pool :: "'t action \<Rightarrow> bool" where
  "of_pool (Signal j) = True" | "of_pool (Worker i j) = True" | "of_pool (Manager n) = True" | "of_pool _ = False"

text \<open>Some schedule of these actions hands \<open>t\<close> out before any other task, and runs it.\<close>

definition can_run :: "'t \<Rightarrow> 't pool \<Rightarrow> bool" where
  "can_run t s \<longleftrightarrow> (\<exists>as es i s'. pool_exec as s = Some (s', es @ [Taken i t, Ran i t]) \<and> taken es = [] \<and> list_all of_pool as)"

lemma can_run_step: "pool_step a s = Some (s', e) \<Longrightarrow> taken e = [] \<Longrightarrow> of_pool a \<Longrightarrow> can_run t s' \<Longrightarrow> can_run t s"
proof -
  assume a: "pool_step a s = Some (s', e)" "taken e = []" "of_pool a" and "can_run t s'"
  then obtain as es i s'' where "pool_exec as s' = Some (s'', es @ [Taken i t, Ran i t])" "taken es = []" "list_all of_pool as"
    by (auto simp: can_run_def)
  then show ?thesis using a unfolding can_run_def by (intro exI [of _ "a # as"] exI [of _ "e @ es"]) auto
qed

text \<open>What the steps towards running a task keep.\<close>

definition serving :: "'t list \<Rightarrow> 't pool \<Rightarrow> bool" where
  "serving q s \<longleftrightarrow> attended s \<and> \<not> shutdown s \<and> task_queue s = q \<and> waitTime s = INT_MAX \<and>
     manager s \<notin> {M_final, M_final_signal, M_end}"

lemma signal_some: "\<exists>j s'. cond_signal j s = Some s'"
  by (cases "Some W_waiting \<in> set (threadID s)") (auto simp: cond_signal_def in_set_conv_nth)

text \<open>A worker that is about to look at a non-empty queue takes the first task and runs it.\<close>

lemma take_and_run:
  assumes "i < length (threadID s)" "threadID s ! i = Some w" "\<And>j. worker_pc i j w s = Some (worker_locked i s)"
    "\<not> shutdown s" "task_queue s = t # q"
  shows "can_run t s"
proof -
  let ?a = "set_worker i (Some (W_popped t)) (s\<lparr>task_queue := q\<rparr>)"
  obtain j u where u: "cond_signal j ?a = Some u" using signal_some by blast
  have i: "i < length (threadID u)" using cond_signal_keeps(11) [OF u] assms(1) by simp
  let ?b = "set_worker i (Some (W_signalled t)) u"
  let ?c = "set_worker i (Some (W_busy t)) (?b\<lparr>busyNum := busyNum ?b + 1\<rparr>)"
  have "pool_step (Worker i j) s = Some (?a, [Taken i t])" "pool_step (Worker i j) ?a = Some (?b, [])"
    "pool_step (Worker i j) ?b = Some (?c, [])" "pool_step (Worker i j) ?c = Some (set_worker i (Some W_done) ?c, [Ran i t])"
    using assms u i cond_signal_keeps(12) [OF u, of i] by (simp_all add: worker_def worker_locked_def)
  then have "pool_exec (replicate 4 (Worker i j)) s = Some (set_worker i (Some W_done) ?c, [] @ [Taken i t, Ran i t])"
    by (simp add: numeral_eq_Suc del: pool_step.simps)
  then show ?thesis unfolding can_run_def by (intro exI [of _ "replicate 4 (Worker i j)"] exI [of _ "[]"]) (auto simp: list_all_iff)
qed

text \<open>How many steps a thread is away from the queue or from its end.\<close>

fun distance :: "'t worker_state option \<Rightarrow> nat" where
  "distance (Some (W_popped t)) = 7" | "distance (Some (W_signalled t)) = 6" | "distance (Some (W_busy t)) = 5"
| "distance (Some W_done) = 4" | "distance (Some W_waiting) = 3" | "distance (Some W_start) = 2"
| "distance (Some W_woken) = 2" | "distance (Some W_exiting) = 1" | "distance _ = 0"

definition work_left :: "'t pool \<Rightarrow> nat" where
  "work_left s = sum_list (map distance (threadID s)) + pushing s"

lemma sum_list_update_less:
  "i < length xs \<Longrightarrow> distance y < distance (xs ! i) \<Longrightarrow>
     sum_list (map distance (xs[i := y])) < sum_list (map distance xs)"
proof (induction xs arbitrary: i)
  case (Cons x xs)
  then show ?case by (cases i) simp_all
qed simp

lemma signal_work: "cond_signal j s = Some s' \<Longrightarrow> work_left s' \<le> work_left s"
  by (erule cond_signal_cases) (auto simp: work_left_def sum_list_update_less less_imp_le)

lemma signal_work_less: "cond_signal j s = Some s' \<Longrightarrow> Some W_waiting \<in> set (threadID s) \<Longrightarrow> work_left s' < work_left s"
  by (erule cond_signal_cases) (auto simp: work_left_def sum_list_update_less)

text \<open>A thread that is not waiting brings the task nearer to its run.\<close>

lemma worker_progress:
  assumes "serving (t # q) s" "i < length (threadID s)" "threadID s ! i = Some w" "w \<noteq> W_waiting"
  obtains (now) "can_run t s"
  | (later) a s' e where "pool_step a s = Some (s', e)" "taken e = []" "of_pool a" "serving (t # q) s'" "work_left s' < work_left s"
proof -
  have queue: "can_run t s" if "\<And>j. worker_pc i j w s = Some (worker_locked i s)"
    using assms that by (intro take_and_run [of i s w]) (auto simp: serving_def)
  have move: thesis if "worker_pc i j w s = Some (s', e)" "taken e = []" "work_left s' < work_left s"
      "shutdown s' = shutdown s" "task_queue s' = task_queue s" "waitTime s' = waitTime s" "manager s' = manager s" for s' j e
  proof (rule later [of "Worker i j" s' e])
    show st: "pool_step (Worker i j) s = Some (s', e)" using assms(2,3) that(1) by (simp add: worker_def)
    show "serving (t # q) s'"
      using assms(1) attended.keep [OF _ st] that by (simp add: serving_def)
  qed (use that in simp_all)
  have less: "work_left u < work_left s" if "threadID u = (threadID s)[i := w']" "distance w' < distance (Some w)" "pushing u = pushing s" for u w'
    using that assms(2,3) sum_list_update_less [of i "threadID s" w'] by (simp add: work_left_def)
  show thesis
  proof (cases w)
    case W_start
    then show thesis using queue now by simp
  next
    case W_woken
    then show thesis using queue now by (cases "0 < sint (exitNum s)") (auto intro!: move less)
  next
    case W_gone
    then show thesis using assms(1,3) nth_mem [OF assms(2)] by (simp add: serving_def attended_def pool_inv_def) blast
  next
    case (W_popped task)
    obtain j u where u: "cond_signal j s = Some u" using signal_some by blast
    have k: "length (threadID u) = length (threadID s)" "threadID u ! i = Some (W_popped task)"
      using cond_signal_keeps(11,12) [OF u] assms(3) W_popped by simp_all
    have "work_left (set_worker i (Some (W_signalled task)) u) < work_left u"
      using sum_list_update_less [of i "threadID u" "Some (W_signalled task)"] k assms(2) by (simp add: work_left_def)
    then have "work_left (set_worker i (Some (W_signalled task)) u) < work_left s" using signal_work [OF u] by simp
    then show thesis using u W_popped cond_signal_keeps [OF u] by (intro move [of j "set_worker i (Some (W_signalled task)) u" "[]"]) simp_all
  qed (use assms(4) in \<open>auto intro!: move less\<close>)
qed

text \<open>With no other thread left than waiting ones, and a free slot, the manager creates one, after ending some, perhaps.\<close>

lemma create_one: "None \<in> set ts \<Longrightarrow> \<exists>i < length ts. create_threads 1 ts = (ts[i := Some W_start], 1)"
proof (induction ts)
  case (Cons w ts)
  show ?case
  proof (cases w)
    case None
    have "create_threads 0 ts = (ts, 0)" by (induction "0::nat" ts rule: create_threads.induct) auto
    then show ?thesis using None by (intro exI [of _ 0]) simp
  next
    case (Some v)
    then obtain i where "i < length ts" "create_threads 1 ts = (ts[i := Some W_start], 1)" using Cons by auto
    then show ?thesis using Some by (intro exI [of _ "Suc i"]) simp
  qed
qed simp

lemma manager_progress:
  assumes s: "serving (t # q) s" "pushing s = 0" "set (threadID s) \<subseteq> {None, Some W_waiting}"
  obtains (now) "can_run t s"
  | (later) u s' a where "can_run t u \<longrightarrow> can_run t s" "pool_step a u = Some (s', [])" "of_pool a" "serving (t # q) s'" "work_left s' < work_left s"
proof -
  have inv: "pool_inv s" "0 < maxNum s" "\<not> shutdown s" "task_queue s = t # q" "waitTime s = INT_MAX"
    and free: "None \<in> set (threadID s)"
    using s by (auto simp: serving_def attended_def)
  have gone: "\<not> is_busy w" "\<not> is_gone w" if "w \<in> set (threadID s)" for w
    using that s(3) by (auto simp: is_defs split: option.splits worker_state.splits)
  then have zero: "busyNum s = 0" "count is_gone (threadID s) = 0"
    using inv(1) by (auto simp: pool_inv_def count_def filter_empty_conv)
  have "length (filter is_live (threadID s)) < length (threadID s)"
    using free by (intro length_filter_less [of None]) (simp_all add: is_live_def)
  then have live: "liveNum s < maxNum s" using inv(1,2) zero by (auto simp: pool_inv_def count_def)
  have create: "can_run t u" if "u = s\<lparr>manager := M_create, time := x\<rparr>" for u x
  proof -
    obtain i where i: "i < length (threadID s)" "create_threads 1 (threadID s) = ((threadID s)[i := Some W_start], 1)"
      using create_one [OF free] by blast
    let ?v = "u\<lparr>threadID := (threadID s)[i := Some W_start], liveNum := liveNum s + 1, manager := M_destroy\<rparr>"
    have "pool_step (Manager 1) u = Some (?v, [])" using that i(2) by (simp add: manager_step_def)
    moreover have "can_run t ?v"
      using inv i(1) that by (intro take_and_run [of i _ W_start _ q]) simp_all
    ultimately show ?thesis using can_run_step [of "Manager 1" u ?v "[]"] by simp
  qed
  have top: "can_run t u" if "u = s\<lparr>manager := M_top, time := x\<rparr>" for u x
  proof (rule can_run_step)
    show "pool_step (Manager 1) u = Some (s\<lparr>manager := M_create, time := x\<rparr>, [])"
      using that zero live inv by (simp add: manager_step_def manager_wants_threads_def)
  qed (simp_all add: create)
  have sleep: "can_run t u" if "u = s\<lparr>manager := M_sleep\<rparr>" for u
  proof (rule can_run_step)
    have "(time s + 1) mod (INT_MAX - 1) < INT_MAX" by (rule order_less_trans [OF pos_mod_bound]) simp_all
    then show "pool_step (Manager 1) u = Some (s\<lparr>manager := M_top, time := (time s + 1) mod (INT_MAX - 1)\<rparr>, [])"
      using that zero inv by (simp add: manager_step_def)
  qed (simp_all add: top)
  have signal: thesis if u: "u = s\<lparr>exitNum := x, manager := M_signal\<rparr>" "Some W_waiting \<in> set (threadID s)" "can_run t u \<longrightarrow> can_run t s" for u x
  proof -
    obtain j v where v: "cond_signal j (u\<lparr>manager := M_destroy\<rparr>) = Some v" using signal_some by blast
    note k = cond_signal_keeps [OF v]
    show thesis
    proof (rule later [OF u(3), of "Manager j" v])
      show "pool_step (Manager j) u = Some (v, [])" using v u by (simp add: manager_step_def)
      show "serving (t # q) v"
        using attended_signal [OF _ _ v] inv u k by (simp add: serving_def pool_inv_def)
      show "work_left v < work_left s" using signal_work_less [OF v] u by (simp add: work_left_def)
    qed simp_all
  qed
  have destroy: thesis if u: "u = s\<lparr>manager := M_destroy\<rparr>" "can_run t u \<longrightarrow> can_run t s" for u
  proof (cases "manager_wants_exit u")
    case False
    have "can_run t u"
    proof (rule can_run_step)
      show "pool_step (Manager 1) u = Some (s\<lparr>manager := M_sleep\<rparr>, [])" using False u by (simp add: manager_step_def)
    qed (simp_all add: sleep)
    then show thesis using now u(2) by blast
  next
    case True
    then have "0 < count is_live (threadID s)"
      using inv(1) zero u(1) by (simp add: manager_wants_exit_def pool_inv_def)
    then obtain w where "w \<in> set (threadID s)" "is_live w" by (auto simp: count_def filter_empty_conv)
    then have w: "Some W_waiting \<in> set (threadID s)" using s(3) by (auto simp: is_live_def)
    let ?u = "s\<lparr>exitNum := exitNum s + 1, manager := M_signal\<rparr>"
    have "pool_step (Manager 0) u = Some (?u, [])" using True u by (simp add: manager_step_def)
    then have "can_run t ?u \<longrightarrow> can_run t s" using can_run_step [of "Manager 0" u ?u "[]" t] u(2) by simp
    then show thesis using signal [OF HOL.refl w] by blast
  qed
  show thesis
  proof (cases "manager s")
    case M_destroy
    then show thesis by (intro destroy [of s]) simp_all
  next
    case M_signal
    show thesis
    proof (cases "Some W_waiting \<in> set (threadID s)")
      case True
      then show thesis using M_signal by (intro signal [of s "exitNum s"]) simp_all
    next
      case False
      let ?u = "s\<lparr>manager := M_destroy\<rparr>"
      have "pool_step (Manager 0) s = Some (?u, [])" using M_signal False by (simp add: manager_step_def cond_signal_def)
      then show thesis using can_run_step [of "Manager 0" s ?u "[]" t] by (intro destroy [OF HOL.refl]) simp
    qed
  next
    case M_top
    then show thesis using now top [of s "time s"] by simp
  next
    case M_create
    then show thesis using now create [of s "time s"] by simp
  next
    case M_sleep
    then show thesis using now sleep [of s] by simp
  qed (use s(1) in \<open>simp_all add: serving_def\<close>)
qed

lemma serving_can_run: "serving (t # q) s \<Longrightarrow> can_run t s"
proof (induction "work_left s" arbitrary: s rule: less_induct)
  case less
  consider (moving) i w where "i < length (threadID s)" "threadID s ! i = Some w" "w \<noteq> W_waiting"
    | (signal) "0 < pushing s" | (idle) "pushing s = 0" "set (threadID s) \<subseteq> {None, Some W_waiting}"
    by (metis (no_types, opaque_lifting) in_set_conv_nth insertI1 insertI2 not_gr0 option.exhaust subsetI)
  then show ?case
  proof cases
    case moving
    from less.prems this show ?thesis
    proof (cases rule: worker_progress)
      case (later a s' e)
      then show ?thesis using less.hyps [of s'] can_run_step [of a s s' e t] by blast
    qed
  next
    case signal
    obtain j u where u: "cond_signal j (s\<lparr>pushing := pushing s - 1\<rparr>) = Some u" using signal_some by blast
    then have st: "pool_step (Signal j) s = Some (u, [])" using signal by (simp add: push_signal_def)
    have "work_left (s\<lparr>pushing := pushing s - 1\<rparr>) < work_left s" using signal by (simp add: work_left_def)
    then have "work_left u < work_left s" using signal_work [OF u] by simp
    moreover have "serving (t # q) u"
      using attended.keep [OF _ st] less.prems cond_signal_keeps [OF u] by (simp add: serving_def)
    ultimately show ?thesis using less.hyps [of u] can_run_step [OF st] by simp
  next
    case idle
    from less.prems this show ?thesis
    proof (cases rule: manager_progress)
      case (later u s' a)
      then show ?thesis using less.hyps [of s'] can_run_step [of a u s' "[]" t] by simp
    qed
  qed
qed

text \<open>
  C35. The pool cannot get stuck with work in its queue. Take any reachable state of a pool with at least one slot for a thread that
  has not been shut down, whose life \<open>wait\<close> does not limit (\<open>waitTime\<close> is \<open>INT_MAX\<close>) and whose manager has not left its main loop.
  If the queue is not empty, some schedule of signals on their way, workers and manager alone, without spurious wake-ups
  and without further calls of \<open>push\<close>, takes the first task of the queue, before any other, and runs it. So no signal is ever
  lost, also when the thread that a signal wakes exits, or every thread has exited, because the manager then creates new ones.
\<close>

theorem pool_progress:
  assumes "pool_run (ThreadPool mn mx) es s" "0 < mx" "\<not> shutdown s" "waitTime s = INT_MAX"
    "manager s \<notin> {M_final, M_final_signal, M_end}" "task_queue s = t # q"
  shows "\<exists>as es' i s'. pool_exec as s = Some (s', es' @ [Taken i t, Ran i t]) \<and> taken es' = [] \<and> list_all of_pool as"
proof -
  have "attended (ThreadPool mn mx :: 't pool)"
    using ThreadPool_inv [of mn mx] assms(2) by (auto simp: attended_def ThreadPool_def)
  then have "serving (t # q) s" using attended.keep_run [OF assms(1)] assms(3-6) by (simp add: serving_def)
  from serving_can_run [OF this] show ?thesis by (simp add: can_run_def)
qed

text \<open>All threads wait, a task is pushed, and its signal has not come yet.\<close>

definition sleepers_schedule :: "nat action list" where
  "sleepers_schedule = [Push 6, Manager 0, Manager 2, Worker 0 0, Worker 0 0, Worker 0 0, Worker 0 0, Worker 0 0, Worker 0 0,
     Worker 1 0, Signal 0, Worker 0 0, Push 7]"

theorem pool_progress_witness:
  "\<exists>s es. pool_exec sleepers_schedule (ThreadPool 2 2) = Some (s, es) \<and> threadID s = [Some W_waiting, Some W_waiting] \<and>
     (\<exists>as es' i s'. pool_exec as s = Some (s', es' @ [Taken i (7 :: nat), Ran i 7]) \<and> taken es' = [] \<and> list_all of_pool as)"
proof -
  have "map_option (\<lambda>(s, es). (threadID s, task_queue s, shutdown s, waitTime s, manager s)) (pool_exec sleepers_schedule (ThreadPool 2 2)) =
      Some ([Some W_waiting, Some W_waiting], [7], False, INT_MAX, M_destroy)" by code_simp
  then obtain s es where s: "pool_exec sleepers_schedule (ThreadPool 2 2) = Some (s, es)" "threadID s = [Some W_waiting, Some W_waiting]"
    "task_queue s = [7]" "\<not> shutdown s" "waitTime s = INT_MAX" "manager s = M_destroy" by auto
  from pool_progress [OF pool_exec_run [OF s(1)] _ s(4,5) _ s(3)] s show ?thesis by auto
qed

section \<open>Shutting down\<close>

text \<open>A thread that left through the \<open>shutdown\<close> branch stays counted in \<open>liveNum\<close>.\<close>

definition stuck :: "nat \<Rightarrow> 't pool \<Rightarrow> bool" where
  "stuck i s \<longleftrightarrow> pool_inv s \<and> i < length (threadID s) \<and> threadID s ! i = Some W_gone \<and> destructor s \<noteq> D_end"

lemma worker_locked_other:
  "j \<noteq> i \<Longrightarrow> threadID (fst (worker_locked j s)) ! i = threadID s ! i"
  "length (threadID (fst (worker_locked j s))) = length (threadID s)"
  "destructor (fst (worker_locked j s)) = destructor s"
  by (auto simp: worker_locked_def split: list.splits)

lemma worker_other:
  assumes "worker_pc j k w s = Some (s', e)" "j \<noteq> i" "threadID s ! i = Some W_gone"
  shows "threadID s' ! i = threadID s ! i" "length (threadID s') = length (threadID s)" "destructor s' = destructor s"
proof -
  have "threadID s' ! i = threadID s ! i \<and> length (threadID s') = length (threadID s) \<and> destructor s' = destructor s"
  proof (cases w)
    case (W_popped task)
    then obtain u where "cond_signal k s = Some u" "s' = set_worker j (Some (W_signalled task)) u" using assms(1) by auto
    then show ?thesis using assms(2,3) cond_signal_keeps(9,11,12) [of k s u] by simp
  qed (use assms worker_locked_other(1) [of j i s] worker_locked_other(2,3) [of j s] in \<open>auto split: if_splits\<close>)
  then show "threadID s' ! i = threadID s ! i" "length (threadID s') = length (threadID s)" "destructor s' = destructor s"
    by blast+
qed

lemma create_threads_keep: "create_threads n ts = (ts', k) \<Longrightarrow> i < length ts \<Longrightarrow> ts ! i = Some w \<Longrightarrow> ts' ! i = Some w"
proof (induction n ts arbitrary: ts' k i rule: create_threads.induct)
  case (2 n w ts)
  then show ?case by (cases i) (auto split: prod.splits)
next
  case (4 n ts)
  then show ?case by (cases i) (auto split: prod.splits)
qed auto

lemma stuck_live: "stuck i s \<Longrightarrow> 0 < liveNum s"
proof -
  assume s: "stuck i s"
  then have "Some W_gone \<in> set (threadID s)" unfolding stuck_def by (metis nth_mem)
  then have "0 < count is_gone (threadID s)" by (rule count_pos) (simp add: is_gone_def)
  then show ?thesis using s count_le(1) [of is_live "threadID s"] by (simp add: stuck_def pool_inv_def)
qed

lemma stuck_signal: "stuck i s \<Longrightarrow> cond_signal j s = Some s' \<Longrightarrow> stuck i s'"
  using cond_signal_inv [of s j s'] cond_signal_keeps(9,11,12) [of j s s'] by (simp add: stuck_def)

lemma stuck_manager: "stuck i s \<Longrightarrow> manager_step n s = Some s' \<Longrightarrow> stuck i s'"
  using manager_inv [of s n s'] stuck_signal [of i "s\<lparr>manager := M_destroy\<rparr>" n s'] stuck_signal [of i "s\<lparr>manager := M_final\<rparr>" n s']
  by (auto simp: stuck_def manager_step_def pool_inv_fields Let_def split: manager_pc.splits prod.splits if_splits
    dest: create_threads_keep create_threads_props)

lemma stuck_destroy: "stuck i s \<Longrightarrow> destroy_step j s = Some s' \<Longrightarrow> stuck i s'"
  using destroy_inv [of s j s'] stuck_live [of i s] stuck_signal [of i "s\<lparr>destructor := D_loop\<rparr>" j s']
  by (auto simp: stuck_def destroy_step_def pool_inv_fields split: destructor_pc.splits if_splits)

lemma stuck_worker: "stuck i s \<Longrightarrow> worker j k s = Some (s', e) \<Longrightarrow> stuck i s'"
proof (erule worker_some)
  fix w
  assume a: "stuck i s" "j < length (threadID s)" "threadID s ! j = Some w" "worker_pc j k w s = Some (s', e)"
  then have "j \<noteq> i" by (auto simp: stuck_def)
  moreover have "pool_inv s'" using a worker_inv [of s j k s' e] by (simp add: stuck_def worker_def)
  ultimately show "stuck i s'" using a worker_other [OF a(4)] by (simp add: stuck_def)
qed

interpretation stuck: pool_invariant "stuck i" for i
proof
  fix s s' :: "'t pool" and a e
  assume st: "stuck i s" "pool_step a s = Some (s', e)"
  show "stuck i s'"
  proof (cases a)
    case (Push t)
    then show ?thesis using st push_inv [of s t] by (auto simp: stuck_def push_def)
  next
    case (Signal j)
    then show ?thesis using st stuck_signal [of i "s\<lparr>pushing := pushing s - 1\<rparr>" j s']
      by (auto simp: stuck_def push_signal_def pool_inv_fields split: if_splits)
  next
    case (Spurious j)
    then show ?thesis using st spurious_inv [of s j s'] by (auto simp: stuck_def spurious_def nth_list_update split: if_splits)
  next
    case (Wait w)
    then show ?thesis using st wait_inv [of s w] by (auto simp: stuck_def wait_def)
  qed (use st stuck_worker stuck_manager stuck_destroy in auto)
qed

text \<open>
  C36. The \<open>shutdown\<close> branch of a worker ends the thread without decrementing \<open>liveNum\<close>, and the
  destructor waits for \<open>liveNum\<close> to become zero: once a worker has left that way, no continuation of
  the run lets the destructor return.
\<close>

theorem destructor_never_returns:
  assumes "pool_run (ThreadPool mn mx) es s" "Some W_gone \<in> set (threadID s)" "destructor s \<noteq> D_end"
    "pool_run s es' s'"
  shows "destructor s' \<noteq> D_end"
proof -
  obtain i where "stuck i s"
    using assms pool.keep_run [OF assms(1) ThreadPool_inv] by (auto simp: stuck_def in_set_conv_nth)
  from stuck.keep_run [OF assms(4) this] show ?thesis by (simp add: stuck_def)
qed

text \<open>The destructor is called while a task runs; the worker finds \<open>shutdown\<close> set when it is done.\<close>

definition shutdown_schedule :: "nat action list" where
  "shutdown_schedule = [Push 7, Manager 0, Manager 1, Worker 0 0, Worker 0 0, Worker 0 0, Destroy 0, Worker 0 0,
     Worker 0 0, Worker 0 0]"

theorem destructor_never_returns_witness:
  "\<exists>s es. pool_run (ThreadPool 1 1) es (s :: nat pool) \<and> destructor s = D_loop \<and>
     (\<forall>es' s'. pool_run s es' s' \<longrightarrow> destructor s' \<noteq> D_end)"
proof -
  have "map_option (\<lambda>(s, es). (threadID s, destructor s)) (pool_exec shutdown_schedule (ThreadPool 1 1)) =
      Some ([Some W_gone], D_loop)" by code_simp
  then obtain s es where s: "pool_exec shutdown_schedule (ThreadPool 1 1) = Some (s, es)"
      "threadID s = [Some W_gone]" "destructor s = D_loop" by auto
  from destructor_never_returns [OF pool_exec_run [OF s(1)]] s(2,3) pool_exec_run [OF s(1)] show ?thesis
    by (intro exI [of _ s] exI [of _ es]) auto
qed

text \<open>
  \<open>minNum\<close> is no lower bound: the manager's loop may announce several exits before a thread wakes up,
  and every one of them ends a thread.
\<close>

definition shrink_schedule :: "nat action list" where
  "shrink_schedule = [Push 7, Manager 0, Manager 2, Worker 0 0, Worker 0 0, Worker 0 0, Worker 0 0, Worker 0 0, Worker 0 0,
     Worker 1 0, Manager 0, Manager 0, Manager 0, Manager 1, Worker 0 0, Worker 1 0]"

lemma pool_below_min:
  "\<exists>s es. pool_run (ThreadPool 1 2) es (s :: nat pool) \<and> minNum s = 1 \<and> liveNum s = 0"
proof -
  have "map_option (\<lambda>(s, es). (minNum s, liveNum s)) (pool_exec shrink_schedule (ThreadPool 1 2)) = Some (1, 0)"
    by code_simp
  then obtain s es where "pool_exec shrink_schedule (ThreadPool 1 2) = Some (s, es)" "minNum s = 1" "liveNum s = 0"
    by auto
  then show ?thesis using pool_exec_run by blast
qed

end
