(* ===== verification/OJ_Handlers.thy ===== *)
theory OJ_Handlers
  imports OJ_Judge OJ_Thread_Pool
begin

text \<open>
  The HTTP handlers of the judge (\<^verbatim>\<open>src/OJ_Judge/code/judge.cpp\<close>, \<^verbatim>\<open>user_info.cpp\<close>). A handler
  takes a request and a state of the world and returns the response and the new state; \<open>None\<close> is an
  exception or an access outside a vector. The tasks that a handler pushes on its series run in
  the order in which they were pushed, before the response is sent, so they are applied in
  sequence. MySQL, Redis, the file system, \<open>crypt\<close>, MD5 and the clock are the parameter \<open>srv\<close>.
\<close>

section \<open>Requests, responses and the environment\<close>

record http_req =
  request_uri :: str
  headers :: "(str \<times> str) list"
  form_kv :: "str \<rightharpoonup> str"
  body :: "byte list"

record http_resp =
  status_code :: "str option"
  output_body :: str
  set_cookie :: "str option"

definition empty_resp :: http_resp where
  "empty_resp = \<lparr>status_code = None, output_body = [], set_cookie = None\<rparr>"

definition set_status_code :: "string \<Rightarrow> http_resp \<Rightarrow> http_resp" where
  "set_status_code c r = r\<lparr>status_code := Some (bytes c)\<rparr>"

definition append_output_body :: "str \<Rightarrow> http_resp \<Rightarrow> http_resp" where
  "append_output_body b r = r\<lparr>output_body := output_body r @ b\<rparr>"

text \<open>
  \<open>mysql\<close> runs a query and returns the rows that \<open>mysqlRespCheck\<close> extracts (none on failure);
  \<open>store_file\<close> gives a file its content; \<open>localtime\<close> is hour, minute and second; \<open>json_rows\<close> and
  \<open>json_state\<close> are the JSON library's printer; \<open>local_ii\<close> is what the uninitialised variable of
  \<open>url_decode\<close> holds.
\<close>

record 'w srv = "'w env" +
  mysql :: "str \<Rightarrow> 'w \<Rightarrow> str list list \<times> 'w"
  redis_del :: "str \<Rightarrow> 'w \<Rightarrow> 'w"
  store_file :: "str \<Rightarrow> byte list \<Rightarrow> 'w \<Rightarrow> 'w"
  pool_push :: "Runner_task \<Rightarrow> 'w \<Rightarrow> 'w"
  crypt :: "str \<Rightarrow> str \<Rightarrow> str"
  md5 :: "str \<Rightarrow> byte list"
  localtime :: "'w \<Rightarrow> nat \<times> nat \<times> nat"
  json_rows :: "str list list \<Rightarrow> str"
  json_state :: "(str \<times> str) list \<Rightarrow> str"
  prefix :: str
  waiting_judge :: str
  problems_path :: str
  local_ii :: int

text \<open>\<open>headerValueGet\<close>: \<open>insert\<close> keeps the first header of a name; \<open>header["Cookie"]\<close>.\<close>

definition cookie_of :: "http_req \<Rightarrow> str" where
  "cookie_of req = kv_at (map_of (headers req)) (bytes ''Cookie'')"

text \<open>\<open>my_sync_check_token\<close>: the value of a key, or the empty string.\<close>

definition my_sync_check_token :: "('w, 'b) env_scheme \<Rightarrow> str \<Rightarrow> 'w \<Rightarrow> str" where
  "my_sync_check_token srv token w = (case redis_get srv w token of None \<Rightarrow> [] | Some v \<Rightarrow> v)"

text \<open>The user of the session that the cookie names; \<open>None\<close> when the token expression throws.\<close>

definition session_user :: "'w srv \<Rightarrow> http_req \<Rightarrow> 'w \<Rightarrow> str option" where
  "session_user srv req w =
     map_option (\<lambda>token. my_sync_check_token srv token w) (cookie_token (prefix srv) (cookie_of req))"


text \<open>\<open>open(path, O_RDWR | O_CREAT)\<close>, \<open>write\<close>, \<open>close\<close>: the file is not truncated.\<close>

definition write_body :: "'w srv \<Rightarrow> str \<Rightarrow> byte list \<Rightarrow> 'w \<Rightarrow> 'w" where
  "write_body srv p b w =
     store_file srv p (b @ drop (length b) (case file_data srv w p of None \<Rightarrow> [] | Some old \<Rightarrow> old)) w"

abbreviation dq :: str where "dq \<equiv> [0x22]"

section \<open>Submissions\<close>








section \<open>Problems and test cases\<close>








section \<open>Accounts\<close>


text \<open>\<open>oss << std::hex << std::setw(2)\<close> of one byte, and \<open>%02d\<close> of a number below 100.\<close>

definition hex2 :: "byte \<Rightarrow> str" where
  "hex2 b = [bytes ''0123456789abcdef'' ! unat (drop_bit 4 b), bytes ''0123456789abcdef'' ! unat (b AND 0xf)]"

definition dec2 :: "nat \<Rightarrow> str" where
  "dec2 n = (if n < 10 then bytes ''0'' @ to_string n else to_string n)"

definition generateToken :: "'w srv \<Rightarrow> str \<Rightarrow> 'w \<Rightarrow> str" where
  "generateToken srv username w =
     (case localtime srv w of (hour, minute, sec) \<Rightarrow>
        concat (map hex2 (md5 srv (username @ bytes ''945168''))) @
        take 19 (dec2 hour @ bytes ''_0_'' @ dec2 minute @ bytes ''_0_'' @ dec2 sec))"

definition login_mysqlCallBack :: "'w srv \<Rightarrow> str \<Rightarrow> str list list \<Rightarrow> 'w \<Rightarrow> (http_resp \<times> 'w) option" where
  "login_mysqlCallBack srv ctx_username form w =
     (if form = [] \<or> hd form = [] then
        Some (set_status_code ''401'' (append_output_body (bytes ''Failed'') empty_resp), w)
      else if length (hd form) < 2 then None
      else
        let role = hd form ! 0; username = hd form ! 1;
            token = generateToken srv ctx_username w;
            temp = prefix srv @ token;
            w = redis_expire_cmd srv temp 259200 (redis_set srv temp username w)
        in Some ((append_output_body role empty_resp)\<lparr>set_cookie :=
                   Some (bytes ''token='' @ token @ bytes ''; Path=/; HttpOnly; SameSite=Lax'')\<rparr>, w))"

definition userLogin :: "'w srv \<Rightarrow> http_req \<Rightarrow> 'w \<Rightarrow> (http_resp \<times> 'w) option" where
  "userLogin srv req w =
     (let username = url_decode (local_ii srv) (kv_at (form_kv req) (bytes ''username''));
          password = crypt srv (kv_at (form_kv req) (bytes ''password'')) (bytes ''$5$73256'')
      in case mysql srv (bytes ''SELECT role, username FROM user_table WHERE username = '' @ dq @ username @ dq @
                 bytes '' AND password_hash = '' @ dq @ password @ dq @ bytes '';'') w of
           (rows, w) \<Rightarrow> login_mysqlCallBack srv username rows w)"

section \<open>Access control\<close>




section \<open>Logging in opens a session\<close>

lemma token_chars:
  "B CHR '';'' \<notin> set (generateToken srv user w)"
proof -
  have hex: "n < 16 \<Longrightarrow> bytes ''0123456789abcdef'' ! n \<noteq> B CHR '';''" for n
  proof -
    have "list_all (\<lambda>n. bytes ''0123456789abcdef'' ! n \<noteq> B CHR '';'') [0..<16]" by code_simp
    then show "n < 16 \<Longrightarrow> ?thesis" by (simp add: list_all_iff)
  qed
  have "B CHR '';'' \<notin> set (hex2 b)" for b
    using hex [OF byte_nibbles(1) [of b]] hex [OF byte_nibbles(2) [of b]] by (auto simp: hex2_def)
  moreover have "B CHR '';'' \<notin> set (to_string n)" for n
  proof
    assume "B CHR '';'' \<in> set (to_string n)"
    then have "is_digit (B CHR '';'')" using to_string_digits [of n] by (auto simp: list_all_iff)
    then show False by (simp add: is_digit_def)
  qed
  then have "B CHR '';'' \<notin> set (dec2 n)" for n by (auto simp: dec2_def)
  ultimately show ?thesis
    by (auto simp: generateToken_def split: prod.splits dest!: in_set_takeD)
qed

lemma cookie_token_of_login:
  assumes "B CHR '';'' \<notin> set tok" "rest = [] \<or> hd rest = B CHR '';''"
  shows "cookie_token pre (bytes ''token='' @ tok @ rest) = Some (pre @ tok)"
proof -
  let ?c = "bytes ''token='' @ tok"
  have "takeWhile (\<lambda>c. c \<noteq> B CHR '';'') ((bytes ''token='' @ tok) @ rest) = ?c @ takeWhile (\<lambda>c. c \<noteq> B CHR '';'') rest"
    using assms(1) by (intro takeWhile_append2) auto
  also have "\<dots> = ?c" using assms(2) by (cases rest) auto
  finally show ?thesis unfolding cookie_token_eq Let_def by simp
qed

text \<open>
  C40. Logging in opens a session: when the user table has a row for the name and the password hash, the response
  sets a cookie with a token, and Redis then holds the user of that row under the token's key. In every later state in
  which Redis still holds it, every request whose \<open>Cookie\<close> header begins with that cookie, followed by nothing or by a
  \<open>;\<close> and more, is taken for that user. (The code reads only the first cookie of the header: see C39.)
\<close>

theorem login_opens_session:
  assumes "env_laws srv"
    and "mysql srv (bytes ''SELECT role, username FROM user_table WHERE username = '' @ dq @
           url_decode (local_ii srv) (kv_at (form_kv req) (bytes ''username'')) @ dq @ bytes '' AND password_hash = '' @ dq @
           crypt srv (kv_at (form_kv req) (bytes ''password'')) (bytes ''$5$73256'') @ dq @ bytes '';'') w =
         ((role # user # cols) # rows, w1)"
  shows "\<exists>tok resp w'. userLogin srv req w = Some (resp, w') \<and>
     set_cookie resp = Some (bytes ''token='' @ tok @ bytes ''; Path=/; HttpOnly; SameSite=Lax'') \<and>
     redis_get srv w' (prefix srv @ tok) = Some user \<and>
     (\<forall>req2 w2 rest. redis_get srv w2 (prefix srv @ tok) = Some user \<longrightarrow> rest = [] \<or> hd rest = B CHR '';'' \<longrightarrow>
        cookie_of req2 = bytes ''token='' @ tok @ rest \<longrightarrow> session_user srv req2 w2 = Some user)"
proof -
  let ?tok = "generateToken srv (url_decode (local_ii srv) (kv_at (form_kv req) (bytes ''username''))) w1"
  let ?w = "redis_expire_cmd srv (prefix srv @ ?tok) 259200 (redis_set srv (prefix srv @ ?tok) user w1)"
  let ?resp = "(append_output_body role empty_resp)\<lparr>set_cookie :=
      Some (bytes ''token='' @ ?tok @ bytes ''; Path=/; HttpOnly; SameSite=Lax'')\<rparr>"
  have "redis_get srv ?w (prefix srv @ ?tok) = Some user" using assms(1) by (simp add: env_laws_def)
  moreover have "session_user srv req2 w2 = Some user"
    if "redis_get srv w2 (prefix srv @ ?tok) = Some user" "rest = [] \<or> hd rest = B CHR '';''"
      "cookie_of req2 = bytes ''token='' @ ?tok @ rest" for req2 w2 rest
    using that(1) unfolding session_user_def that(3) cookie_token_of_login [OF token_chars that(2)]
    by (simp add: my_sync_check_token_def)
  moreover have "userLogin srv req w = Some (?resp, ?w)"
    using assms(2) by (simp add: userLogin_def login_mysqlCallBack_def Let_def)
  ultimately show ?thesis by (intro exI [of _ ?tok] exI [of _ ?resp] exI [of _ ?w]) simp
qed

section \<open>A sample environment\<close>

definition demo_srv :: "(str \<rightharpoonup> str) srv" where
  "demo_srv = env.extend demo_env \<lparr>mysql = (\<lambda>q w. ([[bytes ''student'', bytes ''ann'']], w)), redis_del = (\<lambda>k w. w(k := None)),
     store_file = (\<lambda>p c w. w), pool_push = (\<lambda>t w. w), crypt = (\<lambda>p s. p), md5 = (\<lambda>s. [0xab]), localtime = (\<lambda>w. (1, 2, 30)),
     json_rows = (\<lambda>r. []), json_state = (\<lambda>r. []), prefix = bytes ''t:'', waiting_judge = bytes ''/wait'',
     problems_path = bytes ''/prob'', local_ii = 0\<rparr>"

lemma demo_srv_laws: "env_laws demo_srv"
  using demo_laws by (simp add: demo_srv_def env.defs env_laws_def demo_env_def)

definition demo_req :: "str \<Rightarrow> http_req" where
  "demo_req cookie = \<lparr>request_uri = bytes ''/p?problem_id=1'', headers = [(bytes ''Cookie'', cookie)], form_kv = Map.empty, body = []\<rparr>"


theorem login_opens_session_witness:
  "\<exists>tok resp w'. userLogin demo_srv (demo_req []) Map.empty = Some (resp, w') \<and>
     session_user demo_srv (demo_req (bytes ''token='' @ tok @ bytes ''; lang=en'')) w' = Some (bytes ''ann'')"
proof -
  have role: "mysql demo_srv q w = ([[bytes ''student'', bytes ''ann'']], w)" for q w
    by (simp add: demo_srv_def env.defs)
  have c: "cookie_of (demo_req c) = c" for c by (simp add: demo_req_def cookie_of_def kv_at_def)
  have "hd (bytes ''; lang=en'') = B CHR '';''" by simp
  with login_opens_session [OF demo_srv_laws role, of "demo_req []" Map.empty] c show ?thesis by blast
qed

text \<open>Uploads do not truncate: behind a shorter file the end of the longer one before it remains.\<close>

lemma write_body_keeps_tail:
  assumes "\<And>c. file_data srv (store_file srv p c w) p = Some c" "file_data srv w p = Some old"
  shows "file_data srv (write_body srv p b w) p = Some (b @ drop (length b) old)"
  using assms by (simp add: write_body_def)

end
