(* ===== verification/Spec2Isabelle.thy ===== *)
theory Spec2Isabelle
  imports Ngx_Http_Uri_Props Ngx_Http_Header_Line Ngx_Http_Chunked Ngx_Http_Status_Line Ngx_Number
    Ngx_Http_Args Ngx_Base64 Ngx_Http_Location_Props Ngx_Event_Timer Ngx_Upstream_Rr_Fair
    Ngx_Upstream_Retry OJ_Handlers
begin

text \<open>
  Verification of OJ_sys, an online judge: an nginx front server (\<^verbatim>\<open>src/Nginx/nginx-1.28.0\<close>) that
  serves the web pages and forwards \<^verbatim>\<open>/api/\<close> to the judge (\<^verbatim>\<open>src/OJ_Judge/code\<close>), which keeps
  accounts and problems in MySQL and Redis, compiles submissions and runs them in a sandbox on a
  pool of threads.

  \<^bold>\<open>How the parts interact.\<close> A request reaches nginx as bytes in pieces. The request line parser
  and the header parser read it; the URI is normalised to a path that is looked up on the disk or
  matched with a location; a chunked body is decoded in place; the response of the judge comes
  back through the status line parser. Escaping, numbers, times, Base64 and argument look-up are
  the helpers of these parts and of the configuration. The judge parses the forwarded URI and the
  cookie, asks Redis for the session and MySQL for rows, writes files, and pushes a \<open>Runner_task\<close> on
  its thread pool; a worker thread runs \<open>cpp_runner\<close>, which leaves the verdict in Redis, where the
  client polls it.

  \<^bold>\<open>Theories.\<close>

  \<^item> \<open>Ngx_Prelude\<close>: bytes, return codes, the buffer \<open>ngx_buf_t\<close>, the loop \<open>scan\<close> that all streaming
    parsers share, and its locales: \<open>byte_scanner\<close> and \<open>resumable_scanner\<close> (input may arrive in
    pieces), \<open>scan_invariant\<close> (an invariant of the step is one of the loop). Every parser interprets
    them on its own step.
  \<^item> \<open>Ngx_Http_Request_Line\<close>: \<open>ngx_http_parse_request_line\<close> of \<^verbatim>\<open>src/http/ngx_http_parse.c\<close>, one definition
    per state of the \<open>switch\<close>. Feeding in pieces makes no difference; accepted lines have ordered
    offsets inside the buffer, and scheme, host, port and protocol where the request says; well-formed lines are
    accepted with their fields.
  \<^item> \<open>Ngx_Http_Uri\<close>, \<open>Ngx_Http_Uri_Props\<close>: \<open>ngx_http_parse_complex_uri\<close> and
    \<open>ngx_http_process_request_uri\<close>. No write leaves the output buffer, the resulting path has no dot
    segments and no NUL, and the shortcut for plain URIs agrees with the full algorithm.
  \<^item> \<open>Ngx_Http_Header_Line\<close>: \<open>ngx_http_parse_header_line\<close> with its lower-case copy and running hash.
  \<^item> \<open>Ngx_Http_Chunked\<close>: \<open>ngx_http_parse_chunked\<close> and \<open>ngx_http_request_body_chunked_filter\<close> on an
    explicit memory: sizes never overflow, decoding in place equals decoding into a fresh buffer,
    the body limit holds, and an encoded body is decoded to itself.
  \<^item> \<open>Ngx_Http_Status_Line\<close>: \<open>ngx_http_parse_status_line\<close>.
  \<^item> \<open>Ngx_Number\<close>: \<open>ngx_atoi\<close> and its variants of \<^verbatim>\<open>src/core/ngx_string.c\<close>, and \<^verbatim>\<open>src/core/ngx_parse.c\<close>.
    The contract of the decimal readers is the locale \<open>decimal_reader\<close>; sizes, offsets and times
    are exact or refused.
  \<^item> \<open>Ngx_Escape\<close>: \<open>ngx_escape_uri\<close>, \<open>ngx_unescape_uri\<close>, \<open>ngx_escape_html\<close>, \<open>ngx_escape_json\<close>. The
    counting and the writing pass are tied by the locale \<open>counted_escaper\<close>; round trips, output
    alphabets, unescaping in place.
  \<^item> \<open>Ngx_Base64\<close>: both codecs; the locale \<open>base64_alphabet\<close> relates the encoding and decoding tables.
  \<^item> \<open>Ngx_Http_Args\<close>: \<open>ngx_http_arg\<close>, \<open>ngx_http_split_args\<close>, \<open>ngx_http_parse_unsafe_uri\<close>, and
    \<open>ngx_http_parse_uri\<close> (it accepts what the request line parser accepts as a URI) and the look-up of
    values in the lines of a header, \<open>ngx_http_parse_multi_header_lines\<close> and
    \<open>ngx_http_parse_set_cookie_lines\<close>.
  \<^item> \<open>Ngx_Queue\<close>: the linked queue of \<^verbatim>\<open>src/core/ngx_queue.h\<close>, its merge sort, and the queues of posted
    events, on a heap of links. \<open>is_queue\<close> relates the heap to a list; every operation has its effect on that
    list. The locale \<open>comparison\<close> states what the sort asks of its argument. The handlers of posted events are a
    parameter: they may post and delete events, as long as some measure of the work left gets smaller.
  \<^item> \<open>Ngx_Http_Location\<close>, \<open>Ngx_Http_Location_Tree\<close>, \<open>Ngx_Http_Location_Props\<close>: the directive \<^verbatim>\<open>location\<close>, the
    queue of locations, the tree built from it and the look-up of a URI, of \<^verbatim>\<open>src/http/ngx_http.c\<close> and
    \<^verbatim>\<open>src/http/ngx_http_core_module.c\<close>. The comparison of locations interprets \<open>comparison\<close>, so that the
    queue is sorted by the theorem of \<open>Ngx_Queue\<close>; the look-up is proved equal to the documented rule on
    the configuration as written.
  \<^item> \<open>Ngx_Rbtree\<close>, \<open>Ngx_Rbtree_Delete\<close>: the red-black tree of \<^verbatim>\<open>src/core/ngx_rbtree.c\<close> on a heap of nodes.
    \<open>rep\<close> relates the heap to a tree and a context, \<open>is_rbtree\<close> to the list of the nodes in order;
    insertion, deletion and the walk refine the operations on that list and keep the colours and
    heights, and insertion touches no other address. The locale \<open>key_order\<close> states what insertion asks of the comparison of keys; both of the
    code's comparisons interpret it, the one of times on every window of half the range.
  \<^item> \<open>Ngx_Event_Timer\<close>: the timers of \<^verbatim>\<open>src/event/ngx_event_timer.c\<close>, a client of that tree. The handlers of events
    are a parameter: they may set and delete timers and advance the clock, but leave no more due timers than they found.
  \<^item> \<open>Ngx_Upstream_Rr\<close>, \<open>Ngx_Upstream_Rr_Fair\<close>: the balancer of \<^verbatim>\<open>src/http/ngx_http_upstream_round_robin.c\<close>,
    through which nginx chooses one of several judges: which peer a request gets, and, when all servers are usable,
    that the current weights stay small and that over a cycle of requests each peer is chosen as often as its weight says. The locale \<open>group_selector\<close> holds the way from the first group to
    the backups.
  \<^item> \<open>Ngx_Upstream_Least_Conn\<close>, \<open>Ngx_Upstream_Ip_Hash\<close>: the two balancers of
    \<^verbatim>\<open>src/http/modules/ngx_http_upstream_least_conn_module.c\<close> and \<^verbatim>\<open>ngx_http_upstream_ip_hash_module.c\<close> built on it;
    the first interprets \<open>group_selector\<close> too.
  \<^item> \<open>Ngx_Upstream_Retry\<close>: the attempts of one request; the locale \<open>balancer\<close> states what they need of \<open>peer.get\<close>,
    all three balancers interpret it, and no peer is tried twice.
  \<^item> \<open>OJ_Thread_Pool\<close>: \<^verbatim>\<open>pthread_pool.cpp\<close> as interleaved atomic actions, the condition signals among them; the
    locale \<open>pool_invariant\<close> lifts an assertion from actions to runs. What the counters count, first-in first-out
    order, that no signal is lost, and the destructor that cannot return after the \<open>shutdown\<close> branch was taken.
  \<^item> \<open>OJ_Tool\<close>: \<open>uriKV_get\<close>, \<open>url_decode\<close> and the cookie expression of \<^verbatim>\<open>tool.cpp\<close> and the handlers;
    decoding undoes the escaping of \<open>Ngx_Escape\<close>.
  \<^item> \<open>OJ_Judge\<close>: \<open>file_cmp\<close>, \<open>system_spawn_cmd\<close> and \<open>cpp_runner\<close> of \<^verbatim>\<open>judge.cpp\<close>, and the verdict.
  \<^item> \<open>OJ_Handlers\<close>: the HTTP handlers of \<^verbatim>\<open>judge.cpp\<close> and \<^verbatim>\<open>user_info.cpp\<close>: access control, login.

  \<^bold>\<open>Conventions.\<close> A \<open>u_char\<close> is an \<open>8 word\<close>; a pointer into a buffer is an offset; memory that the
  code writes is a list. An access or a write outside the buffer and an arithmetic overflow are
  explicit results (\<open>Fault\<close>, \<open>Overflow\<close> or \<open>None\<close>) that the theorems exclude. Integers are words where
  they can wrap around; those that a configuration file or an invariant bounds (weights of upstreams, numbers of threads) are
  \<open>nat\<close> or \<open>int\<close>. Programs on linked structures
  work on an explicit heap with one field per member and return \<open>None\<close> for an access to an address that is
  no node, and for a loop that does not end (\<open>partial_function\<close>), so that a theorem that they return
  \<open>Some\<close> states memory safety and termination. The platform is 64-bit
  Linux, so the branches for Windows are left out, and \<open>NGX_MAX_INT_T_VALUE\<close> and its kin are
  2 ^ 63 - 1. No definition uses fuel: loops over input are structural or have a termination
  proof, loops over the heap are \<open>partial_function\<close>s that are proved to return; the loops of the thread pool that may run for ever are actions of a transition system.
  Services outside the repository (MySQL, Redis, the operating system, \<open>crypt\<close>, MD5, the JSON
  printer) are record parameters of the judge's definitions; \<open>env_laws\<close> lists what the theorems
  need of Redis.

  \<^bold>\<open>Not modelled.\<close> In nginx: the loop over the operating system's events, connections, processes, memory
  pools, hash tables, configuration files, variables, logging, the connections to upstreams and
  the proxy module, upstreams in shared memory, HTTP/2, HTTP/3, mail, stream and TLS (operating system
  interface, asynchronous I/O, or not used by this deployment). In the judge: \<open>main\<close>, the
  JSON configuration and \<open>mysqlRespCheck\<close>, which are calls of third-party libraries; expiry of Redis
  keys with time; preemption inside the evaluation of one loop condition of the pool's manager.
\<close>

end
